(* ===== verification/Prelude.thy ===== *)
theory Prelude
  imports Main "HOL-Library.Word"
begin

text \<open>
  Shared vocabulary of the development: the machine integers of the kernel sources, the
  error numbers of \<^verbatim>\<open>vnu/kernel/include/vnu/abi.h\<close>, the counting loops the sources are written
  with, single-bit operations on words, and the lemma collections that carry the
  component proofs.
\<close>

unbundle bit_operations_syntax

section \<open>Machine integers and errors\<close>

type_synonym u8 = "8 word"
type_synonym u16 = "16 word"
type_synonym u32 = "32 word"
type_synonym u64 = "64 word"

text \<open>
  A kernel entry point returns a C \<^verbatim>\<open>int\<close>: a non-negative result, or a negated error number.
\<close>

definition VNU_EPERM :: int where "VNU_EPERM = 1"
definition VNU_ENOENT :: int where "VNU_ENOENT = 2"
definition VNU_EIO :: int where "VNU_EIO = 5"
definition VNU_EBADF :: int where "VNU_EBADF = 9"
definition VNU_EAGAIN :: int where "VNU_EAGAIN = 11"
definition VNU_EACCES :: int where "VNU_EACCES = 13"
definition VNU_EEXIST :: int where "VNU_EEXIST = 17"
definition VNU_ENOTDIR :: int where "VNU_ENOTDIR = 20"
definition VNU_EISDIR :: int where "VNU_EISDIR = 21"
definition VNU_EINVAL :: int where "VNU_EINVAL = 22"
definition VNU_ENOSPC :: int where "VNU_ENOSPC = 28"
definition VNU_EPIPE :: int where "VNU_EPIPE = 32"
definition VNU_ERANGE :: int where "VNU_ERANGE = 34"
definition VNU_ENOTEMPTY :: int where "VNU_ENOTEMPTY = 39"
definition VNU_EDQUOT :: int where "VNU_EDQUOT = 122"

lemmas errno_defs = VNU_EPERM_def VNU_ENOENT_def VNU_EIO_def VNU_EBADF_def VNU_EAGAIN_def
  VNU_EACCES_def VNU_EEXIST_def VNU_ENOTDIR_def VNU_EISDIR_def VNU_EINVAL_def
  VNU_ENOSPC_def VNU_EPIPE_def VNU_ERANGE_def VNU_ENOTEMPTY_def VNU_EDQUOT_def

section \<open>Counting loops\<close>

text \<open>
  \<^verbatim>\<open>for (i = lo; i < hi; ++i) { ... return r; ... }\<close>: the body answers \<open>Some r\<close> where the source
  returns or breaks with \<open>r\<close>, and \<open>None\<close> where it goes on to the next index.
\<close>

function for_first :: "nat \<Rightarrow> nat \<Rightarrow> (nat \<Rightarrow> 'a option) \<Rightarrow> 'a option" where
  "for_first lo hi body =
     (if lo < hi then (case body lo of Some r \<Rightarrow> Some r | None \<Rightarrow> for_first (Suc lo) hi body)
      else None)"
  by pat_completeness auto
termination
  by (relation "measure (\<lambda>(lo, hi, body). hi - lo)") auto

declare for_first.simps [simp del]

lemma for_first_empty [simp]: "hi \<le> lo \<Longrightarrow> for_first lo hi body = None"
  by (subst for_first.simps) simp

lemma for_first_step:
  "lo < hi \<Longrightarrow> for_first lo hi body =
     (case body lo of Some r \<Rightarrow> Some r | None \<Rightarrow> for_first (Suc lo) hi body)"
  by (subst for_first.simps) simp

lemma for_first_None_iff:
  "for_first lo hi body = None \<longleftrightarrow> (\<forall>i. lo \<le> i \<and> i < hi \<longrightarrow> body i = None)"
proof (induction "hi - lo" arbitrary: lo)
  case 0
  then show ?case by auto
next
  case (Suc n)
  then have lt: "lo < hi" and IH: "for_first (Suc lo) hi body = None \<longleftrightarrow>
      (\<forall>i. Suc lo \<le> i \<and> i < hi \<longrightarrow> body i = None)"
    by simp_all
  have "(\<forall>i. lo \<le> i \<and> i < hi \<longrightarrow> body i = None) \<longleftrightarrow>
      body lo = None \<and> (\<forall>i. Suc lo \<le> i \<and> i < hi \<longrightarrow> body i = None)"
    using lt by (auto simp: le_eq_less_or_eq [of lo] Suc_le_eq)
  then show ?case
    using lt by (simp add: for_first_step IH split: option.split)
qed

lemma for_first_SomeD:
  "for_first lo hi body = Some r \<Longrightarrow>
     \<exists>i. lo \<le> i \<and> i < hi \<and> body i = Some r \<and> (\<forall>j. lo \<le> j \<and> j < i \<longrightarrow> body j = None)"
proof (induction "hi - lo" arbitrary: lo)
  case 0
  then show ?case by simp
next
  case (Suc n)
  then have lt: "lo < hi" by simp
  show ?case
  proof (cases "body lo")
    case None
    with lt Suc.prems have "for_first (Suc lo) hi body = Some r"
      by (simp add: for_first_step)
    moreover have "n = hi - Suc lo" using Suc.hyps(2) by simp
    ultimately obtain i where i: "Suc lo \<le> i" "i < hi" "body i = Some r"
        "\<forall>j. Suc lo \<le> j \<and> j < i \<longrightarrow> body j = None"
      using Suc.hyps(1) [of "Suc lo"] by blast
    have "body j = None" if "lo \<le> j" "j < i" for j
      using that i(4) None by (cases "j = lo") auto
    with i show ?thesis by (intro exI [of _ i]) simp
  next
    case (Some x)
    with lt Suc.prems show ?thesis by (intro exI [of _ lo]) (auto simp: for_first_step)
  qed
qed

lemma for_first_eqI:
  assumes "lo \<le> i" "i < hi" "body i = Some r" "\<And>j. lo \<le> j \<Longrightarrow> j < i \<Longrightarrow> body j = None"
  shows "for_first lo hi body = Some r"
proof (cases "for_first lo hi body")
  case None
  then have "body i = None" using assms(1,2) unfolding for_first_None_iff by blast
  with assms(3) show ?thesis by simp
next
  case (Some r')
  from for_first_SomeD [OF this] obtain k where k: "lo \<le> k" "k < hi" "body k = Some r'"
    "\<forall>j. lo \<le> j \<and> j < k \<longrightarrow> body j = None"
    by blast
  have "\<not> k < i"
  proof
    assume "k < i"
    with assms(4) k(1) have "body k = None" by blast
    with k(3) show False by simp
  qed
  moreover have "\<not> i < k"
  proof
    assume "i < k"
    with assms(1) k(4) have "body i = None" by blast
    with assms(3) show False by simp
  qed
  ultimately have "k = i" by simp
  with k(3) assms(3) Some show ?thesis by simp
qed

lemma for_first_Some_iff:
  "for_first lo hi body = Some r \<longleftrightarrow>
     (\<exists>i. lo \<le> i \<and> i < hi \<and> body i = Some r \<and> (\<forall>j. lo \<le> j \<and> j < i \<longrightarrow> body j = None))"
proof
  assume "for_first lo hi body = Some r"
  then show "\<exists>i. lo \<le> i \<and> i < hi \<and> body i = Some r \<and> (\<forall>j. lo \<le> j \<and> j < i \<longrightarrow> body j = None)"
    by (rule for_first_SomeD)
next
  assume "\<exists>i. lo \<le> i \<and> i < hi \<and> body i = Some r \<and> (\<forall>j. lo \<le> j \<and> j < i \<longrightarrow> body j = None)"
  then obtain i where "lo \<le> i" "i < hi" "body i = Some r" "\<forall>j. lo \<le> j \<and> j < i \<longrightarrow> body j = None"
    by blast
  then show "for_first lo hi body = Some r"
    by (intro for_first_eqI [of lo i]) simp_all
qed

lemma for_first_cong:
  assumes "\<And>i. lo \<le> i \<Longrightarrow> i < hi \<Longrightarrow> f i = g i"
  shows "for_first lo hi f = for_first lo hi g"
  using assms
proof (induction "hi - lo" arbitrary: lo)
  case 0
  then show ?case by simp
next
  case (Suc n)
  then have "lo < hi" and "for_first (Suc lo) hi f = for_first (Suc lo) hi g" and "f lo = g lo"
    by simp_all
  then show ?case by (simp add: for_first_step split: option.split)
qed

section \<open>Single bits of a word, as the sources write them\<close>

text \<open>\<^verbatim>\<open>w & (1u << b)\<close>, \<^verbatim>\<open>w |= 1u << b\<close> and \<^verbatim>\<open>w &= ~(1u << b)\<close>.\<close>

definition test_mask :: "u32 \<Rightarrow> nat \<Rightarrow> bool" where
  "test_mask w b = (w AND push_bit b 1 \<noteq> 0)"

definition set_mask :: "u32 \<Rightarrow> nat \<Rightarrow> u32" where
  "set_mask w b = (w OR push_bit b 1)"

definition clear_mask :: "u32 \<Rightarrow> nat \<Rightarrow> u32" where
  "clear_mask w b = (w AND NOT (push_bit b 1))"

named_theorems mask_simps \<open>single-bit operations in terms of bit\<close>

lemma test_mask_bit [mask_simps]: "test_mask w b = bit w b"
proof -
  have "w AND push_bit b 1 = (if bit w b then push_bit b 1 else 0)"
    by (rule bit_word_eqI) (auto simp: bit_simps)
  moreover have "push_bit b 1 \<noteq> (0 :: u32)" if "bit w b"
  proof -
    have "bit (push_bit b 1 :: u32) b"
      using bit_imp_le_length [OF that] by (simp add: bit_simps)
    then show ?thesis by (rule contrapos_pn) (simp only: bit_0_eq, simp)
  qed
  ultimately show ?thesis by (simp add: test_mask_def)
qed

lemma bit_set_mask [mask_simps]: "bit (set_mask w b) i = (bit w i \<or> i = b \<and> b < 32)"
  by (auto simp: set_mask_def bit_simps)

lemma bit_clear_mask [mask_simps]: "bit (clear_mask w b) i = (bit w i \<and> i \<noteq> b)"
  by (auto simp: clear_mask_def bit_simps dest: bit_imp_le_length)

lemma clear_set_mask: "\<not> bit w b \<Longrightarrow> clear_mask (set_mask w b) b = w"
  by (rule bit_word_eqI) (auto simp: mask_simps)

lemma all_ones_bit: "w = (0xFFFFFFFF :: u32) \<Longrightarrow> b < 32 \<Longrightarrow> bit w b"
proof -
  assume w: "w = (0xFFFFFFFF :: u32)" and b: "b < 32"
  have "w = mask LENGTH(32)" using w by (simp add: mask_eq_exp_minus_1)
  then show ?thesis using b by (simp only: bit_mask_iff) simp
qed

section \<open>Rounding to a power of two\<close>

text \<open>\<^verbatim>\<open>x & ~(2^n - 1)\<close> rounds down to a multiple of \<open>2 ^ n\<close>.\<close>

lemma unat_and_not_mask:
  "unat ((x :: 'a::len word) AND NOT (mask n)) = unat x div 2 ^ n * 2 ^ n"
proof -
  have "x AND NOT (mask n) = push_bit n (drop_bit n x)"
    by (rule bit_word_eqI) (auto simp: bit_simps dest: bit_imp_le_length)
  moreover have "unat (push_bit n (drop_bit n x)) =
      take_bit LENGTH('a) (push_bit n (unat (drop_bit n x)))"
    by (rule unsigned_push_bit_eq)
  moreover have "push_bit n (unat (drop_bit n x)) = unat x div 2 ^ n * 2 ^ n"
    by (subst unat_drop_bit_eq) (simp add: push_bit_eq_mult drop_bit_eq_div)
  moreover have "unat x div 2 ^ n * 2 ^ n < 2 ^ LENGTH('a)"
    using div_times_less_eq_dividend [of "unat x" "2 ^ n"] unsigned_less [of x]
    by (rule le_less_trans)
  ultimately show ?thesis by (simp only: take_bit_nat_eq_self)
qed

text \<open>Joining a shifted word and a small one: \<^verbatim>\<open>(v << k) | d\<close> is addition when \<open>d\<close> has at most \<open>k\<close> bits.\<close>

lemma bit_small_nat: "(d :: nat) < 2 ^ k \<Longrightarrow> bit d n \<Longrightarrow> n < k"
  by (metis bit_take_bit_iff take_bit_nat_eq_self)

lemma push_or_add:
  fixes a d :: "'a :: len word"
  assumes "unat d < 2 ^ k"
  shows "push_bit k a OR d = push_bit k a + d"
proof (rule disjunctive_add_eq_or [symmetric], rule bit_word_eqI)
  fix n
  have "\<not> bit d n" if "k \<le> n"
    using bit_small_nat [OF assms, of n] that by (auto simp: bit_unsigned_iff)
  then show "bit (push_bit k a AND d) n = bit 0 n"
    by (auto simp: bit_push_bit_iff bit_and_iff)
qed

lemma unat_ucast_up: "LENGTH('a) \<le> LENGTH('b) \<Longrightarrow> unat (ucast (x :: 'a::len word) :: 'b::len word) = unat x"
proof -
  assume "LENGTH('a) \<le> LENGTH('b)"
  then have "(2 :: nat) ^ LENGTH('a) \<le> 2 ^ LENGTH('b)" by (simp add: power_increasing)
  then have "unat x < 2 ^ LENGTH('b)" using unsigned_less [of x, where 'a = nat] by linarith
  then show ?thesis by (simp add: unsigned_ucast_eq take_bit_nat_eq_self)
qed

text \<open>\<open>overwrite\<close> is a file's content after \<open>bs\<close> has been written at offset \<open>p\<close> of \<open>old\<close>.\<close>

definition overwrite :: "nat \<Rightarrow> u8 list \<Rightarrow> u8 list \<Rightarrow> u8 list" where
  "overwrite p bs old = take p old @ bs @ drop (p + length bs) old"

lemma overwrite_nth:
  assumes "p \<le> length old" "k < max (length old) (p + length bs)"
  shows "overwrite p bs old ! k = (if p \<le> k \<and> k < p + length bs then bs ! (k - p) else old ! k)"
  using assms by (auto simp: overwrite_def nth_append min_def)

lemma length_overwrite: "p \<le> length old \<Longrightarrow> length (overwrite p bs old) = max (length old) (p + length bs)"
  by (auto simp: overwrite_def max_def)

text \<open>A small 32-bit count returned as an \<^verbatim>\<open>int\<close>.\<close>

lemma sint_small:
  assumes "unat (x :: u32) < 2 ^ 31"
  shows "sint x = int (unat x)"
proof -
  have "int (unat x) < int (2 ^ 31)" using assms by (simp only: of_nat_less_iff)
  then have "uint x < 2 ^ 31" by simp
  moreover have "- (2 ^ 31) \<le> uint x" by (rule order_trans [OF _ uint_ge_0]) simp
  ultimately show ?thesis unfolding sint_uint by (simp add: signed_take_bit_int_eq_self)
qed

end
