(* ===== verification/Pmm.thy ===== *)
theory Pmm
  imports Prelude
begin

text \<open>
  The physical frame allocator, \<^verbatim>\<open>vnu/kernel/mm/pmm.cpp\<close>: a bitmap with one bit per 4 KiB
  frame of the pool between the end of the kernel's \<^verbatim>\<open>.bss\<close> and \<^verbatim>\<open>POOL_END\<close>. The state is
  the two pool variables and the bitmap, with the machine's identity-mapped memory, which
  the allocator zeroes frame by frame.
  Loop counters that the sources keep in a \<^verbatim>\<open>uint32_t\<close> and that stay below the pool size are
  natural numbers; addresses are 32-bit words.
\<close>

section \<open>State and operations\<close>

definition FRAME_SIZE :: u32 where "FRAME_SIZE = 4096"
definition POOL_END :: u32 where "POOL_END = 0x01F70000"
definition POOL_MIN_BASE :: u32 where "POOL_MIN_BASE = 0x00A00000"

definition MAX_POOL_FRAMES :: u32 where
  "MAX_POOL_FRAMES = (POOL_END - POOL_MIN_BASE) div FRAME_SIZE"

definition BITMAP_WORDS :: nat where
  "BITMAP_WORDS = unat ((MAX_POOL_FRAMES + 31) div 32)"

record pmm =
  g_bitmap :: "u32 list"
  g_pool_base :: u32
  g_pool_frames :: u32
  ram :: "u32 \<Rightarrow> u8"

text \<open>\<^verbatim>\<open>memset\<close> over \<open>n\<close> bytes of memory; addresses wrap like the machine's.\<close>

definition memset_ram :: "u32 \<Rightarrow> u8 \<Rightarrow> nat \<Rightarrow> (u32 \<Rightarrow> u8) \<Rightarrow> (u32 \<Rightarrow> u8)" where
  "memset_ram a v n m = (\<lambda>x. if unat (x - a) < n then v else m x)"

definition frame_bit :: "u32 list \<Rightarrow> nat \<Rightarrow> bool" where
  "frame_bit bm idx = test_mask (bm ! (idx div 32)) (idx mod 32)"

definition set_frame_bit :: "u32 list \<Rightarrow> nat \<Rightarrow> u32 list" where
  "set_frame_bit bm idx = bm[idx div 32 := set_mask (bm ! (idx div 32)) (idx mod 32)]"

definition clear_frame_bit :: "u32 list \<Rightarrow> nat \<Rightarrow> u32 list" where
  "clear_frame_bit bm idx = bm[idx div 32 := clear_mask (bm ! (idx div 32)) (idx mod 32)]"

definition pmm_init :: "u32 \<Rightarrow> pmm \<Rightarrow> pmm" where
  "pmm_init bss_end s =
     (let base = (bss_end + FRAME_SIZE - 1) AND NOT (FRAME_SIZE - 1);
          base' = (if base < POOL_MIN_BASE then POOL_MIN_BASE else base)
      in s\<lparr>g_bitmap := replicate BITMAP_WORDS 0,
           g_pool_base := base',
           g_pool_frames := (if base' < POOL_END then (POOL_END - base') div FRAME_SIZE else 0)\<rparr>)"

text \<open>
  The inner loop of \<^verbatim>\<open>alloc_frame\<close> over the bits of word \<open>w\<close>: \<open>Some None\<close> is its \<^verbatim>\<open>break\<close> at the
  end of the pool, \<open>Some (Some b)\<close> a clear bit.
\<close>

definition alloc_frame_word :: "pmm \<Rightarrow> nat \<Rightarrow> nat option" where
  "alloc_frame_word s w =
     (case for_first 0 32 (\<lambda>b.
        let idx = w * 32 + b in
        if unat (g_pool_frames s) \<le> idx then Some None
        else if \<not> test_mask (g_bitmap s ! w) b then Some (Some b)
        else None) of
      None \<Rightarrow> None
    | Some r \<Rightarrow> r)"

definition alloc_frame :: "pmm \<Rightarrow> u32 \<times> pmm" where
  "alloc_frame s =
     (case for_first 0 BITMAP_WORDS (\<lambda>w.
        if g_bitmap s ! w = 0xFFFFFFFF then None
        else map_option (\<lambda>b. (w, b)) (alloc_frame_word s w)) of
      None \<Rightarrow> (0, s)
    | Some (w, b) \<Rightarrow>
        let phys = g_pool_base s + of_nat (w * 32 + b) * FRAME_SIZE
        in (phys, s\<lparr>g_bitmap := (g_bitmap s)[w := set_mask (g_bitmap s ! w) b],
                    ram := memset_ram phys 0 (unat FRAME_SIZE) (ram s)\<rparr>))"

definition free_run :: "pmm \<Rightarrow> nat \<Rightarrow> nat \<Rightarrow> bool" where
  "free_run s i n =
     (for_first 0 n (\<lambda>k. if frame_bit (g_bitmap s) (i + k) then Some () else None) = None)"

definition take_frame :: "u32 \<Rightarrow> nat \<Rightarrow> nat \<Rightarrow> pmm \<Rightarrow> pmm" where
  "take_frame phys i k s =
     s\<lparr>g_bitmap := set_frame_bit (g_bitmap s) (i + k),
       ram := memset_ram (phys + of_nat k * FRAME_SIZE) 0 (unat FRAME_SIZE) (ram s)\<rparr>"

definition alloc_contig :: "u32 \<Rightarrow> pmm \<Rightarrow> u32 \<times> pmm" where
  "alloc_contig n s =
     (if n = 0 \<or> g_pool_frames s < n then (0, s)
      else case for_first 0 (unat (g_pool_frames s) + 1 - unat n)
                  (\<lambda>i. if free_run s i (unat n) then Some i else None) of
        None \<Rightarrow> (0, s)
      | Some i \<Rightarrow>
          let phys = g_pool_base s + of_nat i * FRAME_SIZE
          in (phys, fold (take_frame phys i) [0..<unat n] s))"

definition free_frame :: "u32 \<Rightarrow> pmm \<Rightarrow> pmm" where
  "free_frame phys_addr s =
     (if phys_addr < g_pool_base s \<or> POOL_END \<le> phys_addr then s
      else let idx = unat ((phys_addr - g_pool_base s) div FRAME_SIZE)
           in s\<lparr>g_bitmap := clear_frame_bit (g_bitmap s) idx\<rparr>)"

definition free_contig :: "u32 \<Rightarrow> u32 \<Rightarrow> pmm \<Rightarrow> pmm" where
  "free_contig phys_addr n s =
     fold (\<lambda>k. free_frame (phys_addr + of_nat k * FRAME_SIZE)) [0..<unat n] s"

definition total_frames :: "pmm \<Rightarrow> u32" where
  "total_frames s = g_pool_frames s"

definition free_frames :: "pmm \<Rightarrow> u32" where
  "free_frames s =
     g_pool_frames s -
     fold (\<lambda>i used. if frame_bit (g_bitmap s) i then used + 1 else used)
       [0..<unat (g_pool_frames s)] 0"

lemmas pmm_consts = FRAME_SIZE_def POOL_END_def POOL_MIN_BASE_def

lemma MAX_POOL_FRAMES_eq: "MAX_POOL_FRAMES = 5488"
  by (simp add: MAX_POOL_FRAMES_def pmm_consts)

lemma BITMAP_WORDS_eq: "BITMAP_WORDS = 172"
  by (simp add: BITMAP_WORDS_def MAX_POOL_FRAMES_eq)

section \<open>The pool invariant\<close>

text \<open>
  What \<^verbatim>\<open>init\<close> establishes: the bitmap has its full length, the base is a frame boundary at or
  above \<^verbatim>\<open>POOL_MIN_BASE\<close>, and the pool is everything from there to \<^verbatim>\<open>POOL_END\<close>.
\<close>

definition pmm_ok :: "pmm \<Rightarrow> bool" where
  "pmm_ok s \<longleftrightarrow>
     length (g_bitmap s) = BITMAP_WORDS \<and>
     POOL_MIN_BASE \<le> g_pool_base s \<and>
     unat (g_pool_base s) mod 4096 = 0 \<and>
     g_pool_frames s =
       (if g_pool_base s < POOL_END then (POOL_END - g_pool_base s) div FRAME_SIZE else 0)"

abbreviation nframes :: "pmm \<Rightarrow> nat" where
  "nframes s \<equiv> unat (g_pool_frames s)"

definition frame_addr :: "pmm \<Rightarrow> nat \<Rightarrow> u32" where
  "frame_addr s i = g_pool_base s + of_nat i * FRAME_SIZE"

definition used :: "pmm \<Rightarrow> nat set" where
  "used s = {i. i < nframes s \<and> frame_bit (g_bitmap s) i}"

lemma unat_and_not_4095: "unat ((x :: u32) AND NOT 4095) = unat x div 4096 * 4096"
proof -
  have "(4095 :: u32) = mask 12" by (simp add: mask_eq_exp_minus_1)
  then show ?thesis using unat_and_not_mask [of x 12] by simp
qed

lemma pmm_init_ok: "pmm_ok (pmm_init bss_end s)"
proof -
  let ?b = "(bss_end + FRAME_SIZE - 1) AND NOT (FRAME_SIZE - 1)"
  have "unat ?b mod 4096 = 0"
    using unat_and_not_4095 [of "bss_end + FRAME_SIZE - 1"] by (simp add: FRAME_SIZE_def)
  then show ?thesis
    by (auto simp: pmm_ok_def pmm_init_def Let_def POOL_MIN_BASE_def)
qed

text \<open>The geometry of the pool on natural numbers.\<close>

lemma pool_end_unat:
  assumes "pmm_ok s" and "0 < nframes s"
  shows "unat (g_pool_base s) + nframes s * 4096 = 32964608" and "nframes s \<le> 5488"
    and "10485760 \<le> unat (g_pool_base s)"
proof -
  let ?B = "unat (g_pool_base s)"
  from assms have lt: "g_pool_base s < POOL_END" and
    fr: "g_pool_frames s = (POOL_END - g_pool_base s) div FRAME_SIZE" and
    al: "?B mod 4096 = 0" and lo: "POOL_MIN_BASE \<le> g_pool_base s"
    by (auto simp: pmm_ok_def split: if_splits)
  from lt have B: "?B < 32964608" by (simp add: POOL_END_def word_less_nat_alt)
  from lo show lo': "10485760 \<le> ?B" by (simp add: POOL_MIN_BASE_def word_le_nat_alt)
  have "unat (POOL_END - g_pool_base s) = 32964608 - ?B"
    using lt by (subst unat_sub) (simp_all add: POOL_END_def less_imp_le)
  then have n: "nframes s = (32964608 - ?B) div 4096"
    by (simp add: fr FRAME_SIZE_def unat_div)
  from al obtain q where q: "?B = 4096 * q" by auto
  then have "nframes s = 8048 - q" using n by simp
  with q B lo' show "?B + nframes s * 4096 = 32964608" and "nframes s \<le> 5488" by auto
qed

lemma nframes_le: "pmm_ok s \<Longrightarrow> nframes s \<le> 5488"
  using pool_end_unat(2) [of s] by (cases "nframes s = 0") auto

lemma frame_word_in_bitmap: "pmm_ok s \<Longrightarrow> i < nframes s \<Longrightarrow> i div 32 < length (g_bitmap s)"
  using nframes_le [of s] by (simp add: pmm_ok_def BITMAP_WORDS_eq)

lemma unat_frame_addr:
  assumes "pmm_ok s" and "i < nframes s"
  shows "unat (frame_addr s i) = unat (g_pool_base s) + i * 4096"
proof -
  have g: "unat (g_pool_base s) + nframes s * 4096 = 32964608" "nframes s \<le> 5488"
    using pool_end_unat [OF assms(1)] assms(2) by auto
  have "unat (of_nat i * FRAME_SIZE :: u32) = i * 4096"
    using assms(2) g(2) by (simp add: FRAME_SIZE_def unat_word_ariths take_bit_eq_mod unat_of_nat)
  then show ?thesis
    using assms(2) g by (simp add: frame_addr_def unat_word_ariths)
qed

lemma frame_addr_nonzero: "pmm_ok s \<Longrightarrow> i < nframes s \<Longrightarrow> frame_addr s i \<noteq> 0"
  using unat_frame_addr [of s i] pool_end_unat(3) [of s] by fastforce

lemma frame_addr_inj:
  "pmm_ok s \<Longrightarrow> i < nframes s \<Longrightarrow> j < nframes s \<Longrightarrow> frame_addr s i = frame_addr s j \<longleftrightarrow> i = j"
proof
  assume ok: "pmm_ok s" "i < nframes s" "j < nframes s" and eq: "frame_addr s i = frame_addr s j"
  from arg_cong [OF eq, of unat] have "i * 4096 = j * 4096"
    using unat_frame_addr [OF ok(1,2)] unat_frame_addr [OF ok(1,3)] by linarith
  then show "i = j" by simp
qed simp

section \<open>Bits of the bitmap\<close>

named_theorems frame_bit_simps \<open>reading a frame bit after an update\<close>

lemma div_mod_eq_iff: "i div 32 = j div 32 \<and> i mod 32 = j mod 32 \<longleftrightarrow> i = (j :: nat)"
  by (metis div_mult_mod_eq)

lemma frame_bit_set [frame_bit_simps]:
  assumes "j div 32 < length bm"
  shows "frame_bit (set_frame_bit bm j) i = (frame_bit bm i \<or> i = j)"
proof (cases "i div 32 = j div 32")
  case True
  then show ?thesis
    using assms div_mod_eq_iff [of i j]
    by (auto simp: frame_bit_def set_frame_bit_def mask_simps)
next
  case False
  then show ?thesis by (auto simp: frame_bit_def set_frame_bit_def)
qed

lemma frame_bit_clear [frame_bit_simps]:
  assumes "j div 32 < length bm"
  shows "frame_bit (clear_frame_bit bm j) i = (frame_bit bm i \<and> i \<noteq> j)"
proof (cases "i div 32 = j div 32")
  case True
  then show ?thesis
    using assms div_mod_eq_iff [of i j]
    by (auto simp: frame_bit_def clear_frame_bit_def mask_simps)
next
  case False
  then show ?thesis by (auto simp: frame_bit_def clear_frame_bit_def)
qed

lemma length_set_frame_bit [simp]: "length (set_frame_bit bm i) = length bm"
  by (simp add: set_frame_bit_def)

lemma length_clear_frame_bit [simp]: "length (clear_frame_bit bm i) = length bm"
  by (simp add: clear_frame_bit_def)

lemma clear_set_frame_bit:
  assumes "j div 32 < length bm" and "\<not> frame_bit bm j"
  shows "clear_frame_bit (set_frame_bit bm j) j = bm"
  using assms
  by (simp add: clear_frame_bit_def set_frame_bit_def frame_bit_def clear_set_mask mask_simps)

section \<open>Single frames\<close>

text \<open>
  The two nested loops of \<^verbatim>\<open>alloc_frame\<close> find the lowest clear bit of the pool, full words being
  skipped on the way.
\<close>

lemma alloc_frame_word_Some:
  "alloc_frame_word s w = Some b \<Longrightarrow>
     b < 32 \<and> w * 32 + b < nframes s \<and> \<not> bit (g_bitmap s ! w) b \<and>
     (\<forall>b' < b. bit (g_bitmap s ! w) b')"
  by (auto simp: alloc_frame_word_def Let_def for_first_Some_iff mask_simps
      split: option.splits if_splits)

lemma alloc_frame_word_None:
  "alloc_frame_word s w = None \<Longrightarrow> b < 32 \<Longrightarrow> w * 32 + b < nframes s \<Longrightarrow> bit (g_bitmap s ! w) b"
  by (auto simp: alloc_frame_word_def Let_def for_first_Some_iff for_first_None_iff mask_simps
      split: option.splits if_splits)

lemma frame_bit_word: "b < 32 \<Longrightarrow> frame_bit bm (w * 32 + b) = bit (bm ! w) b"
  by (simp add: frame_bit_def mask_simps)

lemma alloc_frame_word_eq:
  assumes "b < 32" "w * 32 + b < nframes s" "\<not> bit (g_bitmap s ! w) b"
    and "\<And>b'. b' < b \<Longrightarrow> bit (g_bitmap s ! w) b'"
  shows "alloc_frame_word s w = Some b"
proof (cases "alloc_frame_word s w")
  case None
  from alloc_frame_word_None [OF None assms(1,2)] assms(3) show ?thesis by simp
next
  case (Some b')
  from alloc_frame_word_Some [OF this] have "\<not> bit (g_bitmap s ! w) b'" "\<forall>b''<b'. bit (g_bitmap s ! w) b''"
    by auto
  with assms(3,4) have "b' = b" by (metis linorder_neqE_nat)
  with Some show ?thesis by simp
qed

lemma alloc_frame_full:
  assumes "\<And>i. i < nframes s \<Longrightarrow> frame_bit (g_bitmap s) i"
  shows "alloc_frame s = (0, s)"
proof -
  have "alloc_frame_word s w = None" for w
  proof (cases "alloc_frame_word s w")
    case (Some b)
    from alloc_frame_word_Some [OF this] assms [of "w * 32 + b"] show ?thesis
      by (simp add: frame_bit_word)
  qed
  then have "for_first 0 BITMAP_WORDS (\<lambda>w. if g_bitmap s ! w = 0xFFFFFFFF then None
        else map_option (\<lambda>b. (w, b)) (alloc_frame_word s w)) = None"
    by (simp add: for_first_None_iff)
  then show ?thesis by (simp add: alloc_frame_def)
qed

lemma alloc_frame_lowest:
  assumes ok: "pmm_ok s" and i: "i < nframes s" "\<not> frame_bit (g_bitmap s) i"
    and low: "\<And>j. j < i \<Longrightarrow> frame_bit (g_bitmap s) j"
  shows "alloc_frame s =
     (frame_addr s i,
      s\<lparr>g_bitmap := set_frame_bit (g_bitmap s) i,
        ram := memset_ram (frame_addr s i) 0 4096 (ram s)\<rparr>)"
proof -
  let ?w = "i div 32" and ?b = "i mod 32"
  let ?body = "\<lambda>w. if g_bitmap s ! w = 0xFFFFFFFF then None
        else map_option (\<lambda>b. (w, b)) (alloc_frame_word s w)"
  have iw: "i = ?w * 32 + ?b" by simp
  have clear: "\<not> bit (g_bitmap s ! ?w) ?b"
    using i(2) by (simp add: frame_bit_def mask_simps)
  have word: "alloc_frame_word s ?w = Some ?b"
  proof (rule alloc_frame_word_eq)
    fix b' assume "b' < ?b"
    then have "b' < 32" "?w * 32 + b' < i" using iw by linarith+
    with low show "bit (g_bitmap s ! ?w) b'" using frame_bit_word by blast
  qed (use i clear in simp_all)
  have "for_first 0 BITMAP_WORDS ?body = Some (?w, ?b)"
  proof (rule for_first_eqI)
    show "?w < BITMAP_WORDS" using frame_word_in_bitmap [OF ok i(1)] ok by (simp add: pmm_ok_def)
    show "?body ?w = Some (?w, ?b)"
      using word clear all_ones_bit [of "g_bitmap s ! ?w" ?b] by auto
    fix w assume "w < ?w"
    show "?body w = None"
    proof (cases "alloc_frame_word s w")
      case (Some b)
      from alloc_frame_word_Some [OF this] have "b < 32" "\<not> bit (g_bitmap s ! w) b" by auto
      moreover from \<open>b < 32\<close> \<open>w < ?w\<close> have "w * 32 + b < i" using iw by linarith
      ultimately show ?thesis using low frame_bit_word by blast
    qed simp
  qed simp
  then show ?thesis
    by (simp add: alloc_frame_def Let_def frame_addr_def set_frame_bit_def FRAME_SIZE_def
        del: of_nat_add of_nat_mult)
qed

lemma alloc_frame_cases:
  assumes "pmm_ok s"
  obtains (full) "used s = {..<nframes s}" "alloc_frame s = (0, s)"
  | (frame) i where "i < nframes s" "i \<notin> used s" "\<forall>j < i. j \<in> used s"
      "alloc_frame s = (frame_addr s i,
        s\<lparr>g_bitmap := set_frame_bit (g_bitmap s) i,
          ram := memset_ram (frame_addr s i) 0 4096 (ram s)\<rparr>)"
proof (cases "\<forall>i < nframes s. frame_bit (g_bitmap s) i")
  case True
  then have "used s = {..<nframes s}" by (auto simp: used_def)
  with alloc_frame_full [of s] True show ?thesis by (intro full) auto
next
  case False
  define P where "P i \<longleftrightarrow> i < nframes s \<and> \<not> frame_bit (g_bitmap s) i" for i
  define l where "l = (LEAST i. P i)"
  from False obtain k where "P k" by (auto simp: P_def)
  then have "P l" unfolding l_def by (rule LeastI)
  then have l: "l < nframes s" "\<not> frame_bit (g_bitmap s) l" by (auto simp: P_def)
  have low: "frame_bit (g_bitmap s) j" if "j < l" for j
    using not_less_Least [of j P] that l(1) by (simp add: P_def l_def)
  show ?thesis
  proof (rule frame)
    show "l < nframes s" by (rule l)
    show "l \<notin> used s" using l by (simp add: used_def)
    show "\<forall>j<l. j \<in> used s" using low l(1) by (simp add: used_def)
  qed (rule alloc_frame_lowest [OF assms l low])
qed

lemma free_frame_addr:
  assumes "pmm_ok s" and "i < nframes s"
  shows "free_frame (frame_addr s i) s = s\<lparr>g_bitmap := clear_frame_bit (g_bitmap s) i\<rparr>"
proof -
  have g: "unat (g_pool_base s) + nframes s * 4096 = 32964608" "nframes s \<le> 5488"
    using pool_end_unat [OF assms(1)] assms(2) by auto
  have u: "unat (frame_addr s i) = unat (g_pool_base s) + i * 4096"
    by (rule unat_frame_addr [OF assms])
  have "\<not> frame_addr s i < g_pool_base s" "\<not> POOL_END \<le> frame_addr s i"
    using u g assms(2) by (simp_all add: POOL_END_def word_less_nat_alt word_le_nat_alt)
  moreover have "unat ((frame_addr s i - g_pool_base s) div FRAME_SIZE) = i"
  proof -
    have "unat (of_nat i * FRAME_SIZE :: u32) = i * 4096"
      using assms(2) g(2) by (simp add: FRAME_SIZE_def unat_word_ariths take_bit_eq_mod unat_of_nat)
    then show ?thesis by (simp add: frame_addr_def unat_div FRAME_SIZE_def)
  qed
  ultimately show ?thesis by (simp add: free_frame_def)
qed

lemma pmm_ok_bitmap:
  "pmm_ok s \<Longrightarrow> length bm = length (g_bitmap s) \<Longrightarrow> pmm_ok (s\<lparr>g_bitmap := bm, ram := m\<rparr>)"
  "pmm_ok s \<Longrightarrow> length bm = length (g_bitmap s) \<Longrightarrow> pmm_ok (s\<lparr>g_bitmap := bm\<rparr>)"
  by (simp_all add: pmm_ok_def)

lemma free_frame_ok: "pmm_ok s \<Longrightarrow> pmm_ok (free_frame a s)"
  by (simp add: free_frame_def Let_def pmm_ok_bitmap)

lemma used_set_frame_bit:
  "pmm_ok s \<Longrightarrow> i < nframes s \<Longrightarrow>
     used (s\<lparr>g_bitmap := set_frame_bit (g_bitmap s) i, ram := m\<rparr>) = insert i (used s)"
  by (auto simp: used_def frame_bit_simps frame_word_in_bitmap)

lemma used_clear_frame_bit:
  "pmm_ok s \<Longrightarrow> i < nframes s \<Longrightarrow>
     used (s\<lparr>g_bitmap := clear_frame_bit (g_bitmap s) i\<rparr>) = used s - {i}"
  by (auto simp: used_def frame_bit_simps frame_word_in_bitmap)

section \<open>Runs of frames\<close>

text \<open>\<^verbatim>\<open>alloc_contig\<close> is first fit: the lowest start of a run of \<open>n\<close> clear bits.\<close>

lemma free_run_iff: "free_run s i n \<longleftrightarrow> (\<forall>k < n. \<not> frame_bit (g_bitmap s) (i + k))"
  by (auto simp: free_run_def for_first_None_iff split: if_splits)

lemma interval_disjoint_iff: "{i..<i + n} \<inter> A = {} \<longleftrightarrow> (\<forall>k < n. i + k \<notin> (A :: nat set))"
proof
  assume "\<forall>k < n. i + k \<notin> A"
  then have "x \<notin> A" if "i \<le> x" "x < i + n" for x
    using that by (metis less_diff_conv2 le_add_diff_inverse add.commute)
  then show "{i..<i + n} \<inter> A = {}" by auto
next
  assume dis: "{i..<i + n} \<inter> A = {}"
  show "\<forall>k < n. i + k \<notin> A"
  proof (intro allI impI)
    fix k assume "k < n"
    then have "i + k \<in> {i..<i + n}" by simp
    with dis show "i + k \<notin> A" by blast
  qed
qed

lemma free_run_used:
  "i + n \<le> nframes s \<Longrightarrow> free_run s i n \<longleftrightarrow> {i..<i + n} \<inter> used s = {}"
  by (simp add: free_run_iff interval_disjoint_iff used_def)

lemma fold_take_frame_fields:
  "g_pool_base (fold (take_frame p i) ks s) = g_pool_base s"
  "g_pool_frames (fold (take_frame p i) ks s) = g_pool_frames s"
  "length (g_bitmap (fold (take_frame p i) ks s)) = length (g_bitmap s)"
  by (induction ks arbitrary: s) (simp_all add: take_frame_def)

lemma fold_take_frame_ok: "pmm_ok s \<Longrightarrow> pmm_ok (fold (take_frame p i) ks s)"
  by (simp add: pmm_ok_def fold_take_frame_fields)

lemma take_frame_ok: "pmm_ok s \<Longrightarrow> pmm_ok (take_frame p i k s)"
  by (simp add: take_frame_def pmm_ok_bitmap)

lemma used_fold_take_frame:
  "pmm_ok s \<Longrightarrow> (\<And>k. k \<in> set ks \<Longrightarrow> i + k < nframes s) \<Longrightarrow>
     used (fold (take_frame p i) ks s) = used s \<union> (\<lambda>k. i + k) ` set ks"
proof (induction ks arbitrary: s)
  case (Cons k ks)
  have "nframes (take_frame p i k s) = nframes s" by (simp add: take_frame_def)
  with Cons.prems Cons.IH [of "take_frame p i k s"]
  have "used (fold (take_frame p i) ks (take_frame p i k s)) =
      used (take_frame p i k s) \<union> (\<lambda>k. i + k) ` set ks"
    by (simp add: take_frame_ok)
  moreover have "used (take_frame p i k s) = insert (i + k) (used s)"
    using Cons.prems by (simp add: take_frame_def used_set_frame_bit)
  ultimately show ?case by auto
qed simp

lemma ram_fold_take_frame:
  "ram (fold (take_frame p i) ks s) x =
     (if \<exists>k \<in> set ks. unat (x - (p + of_nat k * FRAME_SIZE)) < 4096 then 0 else ram s x)"
  by (induction ks arbitrary: s) (simp_all add: take_frame_def memset_ram_def FRAME_SIZE_def)

definition run_addrs :: "u32 \<Rightarrow> nat \<Rightarrow> u32 set" where
  "run_addrs p n = (\<lambda>k. p + of_nat k * FRAME_SIZE) ` {..<n}"

lemma alloc_contig_cases:
  assumes "pmm_ok s"
  obtains (none) "\<forall>i. n \<noteq> 0 \<and> i + unat n \<le> nframes s \<longrightarrow> {i..<i + unat n} \<inter> used s \<noteq> {}"
      "alloc_contig n s = (0, s)"
  | (run) i where "n \<noteq> 0" "i + unat n \<le> nframes s" "{i..<i + unat n} \<inter> used s = {}"
      "\<forall>j < i. {j..<j + unat n} \<inter> used s \<noteq> {}"
      "alloc_contig n s = (frame_addr s i, fold (take_frame (frame_addr s i) i) [0..<unat n] s)"
proof -
  let ?body = "\<lambda>i. if free_run s i (unat n) then Some i else None"
  let ?hi = "nframes s + 1 - unat n"
  show ?thesis
  proof (cases "n = 0 \<or> g_pool_frames s < n \<or> for_first 0 ?hi ?body = None")
    case True
    have "alloc_contig n s = (0, s)" unfolding alloc_contig_def
      using True by (elim disjE) simp_all
    moreover have "{i..<i + unat n} \<inter> used s \<noteq> {}" if "n \<noteq> 0" "i + unat n \<le> nframes s" for i
    proof -
      have "i < ?hi" and "\<not> g_pool_frames s < n" using that by (simp_all add: word_less_nat_alt)
      with True that(1) have "for_first 0 ?hi ?body = None" by blast
      with \<open>i < ?hi\<close> have "?body i = None" using for_first_None_iff [of 0 ?hi ?body] by blast
      with free_run_used [OF that(2)] show ?thesis by (simp split: if_splits)
    qed
    ultimately show ?thesis using none by blast
  next
    case False
    then obtain i where "for_first 0 ?hi ?body = Some i" by auto
    from for_first_SomeD [OF this] obtain k where
      k: "k < ?hi" "?body k = Some i" "\<forall>j. 0 \<le> j \<and> j < k \<longrightarrow> ?body j = None"
      by blast
    from k(2) have "k = i" "free_run s i (unat n)" by (simp_all split: if_splits)
    with k have i: "i < ?hi" "free_run s i (unat n)" "\<forall>j < i. \<not> free_run s j (unat n)"
      by (auto split: if_splits)
    show ?thesis
    proof (rule run)
      show "n \<noteq> 0" using False by simp
      show le: "i + unat n \<le> nframes s" using i(1) by linarith
      show "{i..<i + unat n} \<inter> used s = {}" using i(2) free_run_used [OF le] by simp
      show "\<forall>j<i. {j..<j + unat n} \<inter> used s \<noteq> {}"
      proof (intro allI impI)
        fix j assume "j < i"
        with le have "j + unat n \<le> nframes s" by simp
        from free_run_used [OF this] i(3) \<open>j < i\<close> show "{j..<j + unat n} \<inter> used s \<noteq> {}" by blast
      qed
      show "alloc_contig n s = (frame_addr s i, fold (take_frame (frame_addr s i) i) [0..<unat n] s)"
        using False \<open>for_first 0 ?hi ?body = Some i\<close>
        by (simp add: alloc_contig_def frame_addr_def Let_def)
    qed
  qed
qed

section \<open>Releasing runs\<close>

definition held :: "pmm \<Rightarrow> u32 set" where
  "held s = frame_addr s ` used s"

lemma frame_addr_add: "frame_addr s i + of_nat k * FRAME_SIZE = frame_addr s (i + k)"
  by (simp add: frame_addr_def algebra_simps)

lemma run_addrs_frame: "run_addrs (frame_addr s i) n = frame_addr s ` {i..<i + n}"
proof -
  have "{i..<i + n} = (\<lambda>k. i + k) ` {..<n}"
  proof (intro equalityI subsetI)
    fix x assume "x \<in> {i..<i + n}"
    then show "x \<in> (\<lambda>k. i + k) ` {..<n}" by (intro image_eqI [of _ _ "x - i"]) auto
  qed auto
  then show ?thesis by (simp add: run_addrs_def frame_addr_add image_image)
qed

lemma frame_addr_end:
  assumes "pmm_ok s" "j < nframes s"
  shows "frame_addr s (nframes s) \<noteq> frame_addr s j"
proof
  assume eq: "frame_addr s (nframes s) = frame_addr s j"
  have g: "unat (g_pool_base s) + nframes s * 4096 = 32964608" "nframes s \<le> 5488"
    using pool_end_unat [OF assms(1)] assms(2) by auto
  have "unat (of_nat (nframes s) * FRAME_SIZE :: u32) = nframes s * 4096"
    using g(2) by (simp add: FRAME_SIZE_def unat_word_ariths take_bit_eq_mod unat_of_nat)
  then have "unat (frame_addr s (nframes s)) = unat (g_pool_base s) + nframes s * 4096"
    using g(1) by (simp add: frame_addr_def unat_word_ariths)
  with eq unat_frame_addr [OF assms] assms(2) show False by simp
qed

text \<open>A run of held addresses is a run of pool frames.\<close>

lemma held_run_frames:
  assumes "pmm_ok s" and "run_addrs p n \<subseteq> held s" and "0 < n"
  obtains i where "p = frame_addr s i" "i + n \<le> nframes s" "{i..<i + n} \<subseteq> used s"
proof -
  have "p + of_nat 0 * FRAME_SIZE \<in> run_addrs p n"
    unfolding run_addrs_def using assms(3) by blast
  with assms(2) obtain i where i: "i \<in> used s" "p = frame_addr s i"
    by (auto simp: held_def)
  have run: "i + k \<in> used s" if "k < n" for k
    using that
  proof (induction k)
    case 0
    with i show ?case by simp
  next
    case (Suc k)
    then have "i + k < nframes s" by (simp add: used_def)
    have "frame_addr s (i + Suc k) \<in> run_addrs p n"
      unfolding i(2) run_addrs_frame using Suc.prems by (intro imageI) simp
    with assms(2) obtain j where j: "j \<in> used s" "frame_addr s (i + Suc k) = frame_addr s j"
      by (auto simp: held_def)
    then have "j < nframes s" by (simp add: used_def)
    with j(2) assms(1) have "i + Suc k \<noteq> nframes s" using frame_addr_end by metis
    with \<open>i + k < nframes s\<close> have "i + Suc k < nframes s" by simp
    with j assms(1) \<open>j < nframes s\<close> show ?case by (simp add: frame_addr_inj)
  qed
  then have "{i..<i + n} \<subseteq> used s"
    by (metis (no_types, lifting) atLeastLessThan_iff le_Suc_ex nat_add_left_cancel_less subsetI)
  moreover have "i + n \<le> nframes s"
    using run [of "n - 1"] assms(3) unfolding used_def by auto
  ultimately show ?thesis using that i by blast
qed

lemma free_contig_fold:
  assumes "pmm_ok s" and "i + n \<le> nframes s"
  shows "fold (\<lambda>k. free_frame (frame_addr s i + of_nat k * FRAME_SIZE)) [0..<n] s =
    s\<lparr>g_bitmap := fold (\<lambda>k bm. clear_frame_bit bm (i + k)) [0..<n] (g_bitmap s)\<rparr>"
  using assms(2)
proof (induction n)
  case (Suc n)
  let ?bm = "fold (\<lambda>k bm. clear_frame_bit bm (i + k)) [0..<n] (g_bitmap s)"
  have len: "length (fold (\<lambda>k bm. clear_frame_bit bm (i + k)) ks bm) = length bm" for ks bm
    by (induction ks arbitrary: bm) simp_all
  have ok: "pmm_ok (s\<lparr>g_bitmap := ?bm\<rparr>)" by (rule pmm_ok_bitmap) (simp_all add: assms(1) len)
  have "frame_addr s (i + n) = frame_addr (s\<lparr>g_bitmap := ?bm\<rparr>) (i + n)"
    by (simp add: frame_addr_def)
  then have "free_frame (frame_addr s (i + n)) (s\<lparr>g_bitmap := ?bm\<rparr>) =
      s\<lparr>g_bitmap := clear_frame_bit ?bm (i + n)\<rparr>"
    using free_frame_addr [OF ok, of "i + n"] Suc.prems by simp
  with Suc show ?case by (simp add: frame_addr_add)
qed simp

lemma frame_bit_clear_run:
  "(i + m - 1) div 32 < length bm \<Longrightarrow>
     frame_bit (fold (\<lambda>k b. clear_frame_bit b (i + k)) [0..<m] bm) j =
       (frame_bit bm j \<and> \<not> (i \<le> j \<and> j < i + m))
     \<and> length (fold (\<lambda>k b. clear_frame_bit b (i + k)) [0..<m] bm) = length bm"
proof (induction m)
  case (Suc m)
  have "(i + m - 1) div 32 \<le> (i + Suc m - 1) div 32" by (rule div_le_mono) simp
  with Suc have IH: "frame_bit (fold (\<lambda>k b. clear_frame_bit b (i + k)) [0..<m] bm) j =
       (frame_bit bm j \<and> \<not> (i \<le> j \<and> j < i + m))"
    "length (fold (\<lambda>k b. clear_frame_bit b (i + k)) [0..<m] bm) = length bm"
    by auto
  with Suc.prems show ?case by (auto simp: frame_bit_simps)
qed simp

lemma used_free_contig:
  assumes "pmm_ok s" and "i + unat n \<le> nframes s" and "n \<noteq> 0"
  shows "pmm_ok (free_contig (frame_addr s i) n s)"
    and "used (free_contig (frame_addr s i) n s) = used s - {i..<i + unat n}"
    and "ram (free_contig (frame_addr s i) n s) = ram s"
    and "frame_addr (free_contig (frame_addr s i) n s) = frame_addr s"
proof -
  define bm where "bm = fold (\<lambda>k b. clear_frame_bit b (i + k)) [0..<unat n] (g_bitmap s)"
  have "0 < unat n" using assms(3) by (simp add: unat_gt_0)
  then have "i + unat n - 1 < nframes s" using assms(2) by linarith
  from frame_bit_clear_run [OF frame_word_in_bitmap [OF assms(1) this]]
  have bit: "frame_bit bm j = (frame_bit (g_bitmap s) j \<and> \<not> (i \<le> j \<and> j < i + unat n))"
    and len: "length bm = length (g_bitmap s)" for j
    unfolding bm_def by auto
  have eq: "free_contig (frame_addr s i) n s = s\<lparr>g_bitmap := bm\<rparr>"
    using free_contig_fold [OF assms(1,2)] by (simp add: free_contig_def bm_def)
  show "pmm_ok (free_contig (frame_addr s i) n s)"
    unfolding eq by (rule pmm_ok_bitmap) (simp_all add: assms(1) len)
  show "used (free_contig (frame_addr s i) n s) = used s - {i..<i + unat n}"
    unfolding eq by (auto simp: used_def bit)
  show "ram (free_contig (frame_addr s i) n s) = ram s"
    and "frame_addr (free_contig (frame_addr s i) n s) = frame_addr s"
    unfolding eq by (simp_all add: frame_addr_def fun_eq_iff)
qed

section \<open>Allocating runs\<close>

lemma frame_addr_fold_take: "frame_addr (fold (take_frame p i) ks s) = frame_addr s"
  by (simp add: frame_addr_def fold_take_frame_fields fun_eq_iff)

lemma alloc_contig_run:
  assumes "pmm_ok s" and "alloc_contig n s = (p, s')" and "p \<noteq> 0"
  obtains i where "n \<noteq> 0" "p = frame_addr s i" "i + unat n \<le> nframes s"
    "{i..<i + unat n} \<inter> used s = {}" "pmm_ok s'" "used s' = used s \<union> {i..<i + unat n}"
    "frame_addr s' = frame_addr s" "nframes s' = nframes s"
    "ram s' = (\<lambda>x. if \<exists>a \<in> run_addrs p (unat n). unat (x - a) < 4096 then 0 else ram s x)"
proof (rule alloc_contig_cases [OF assms(1), of n], goal_cases)
  case 1
  with assms(2,3) show ?thesis by simp
next
  case run: (2 i)
  from run(6) assms(2) have p: "p = frame_addr s i"
    and s': "s' = fold (take_frame p i) [0..<unat n] s" by auto
  have shift: "(\<lambda>k. i + k) ` {0..<unat n} = {i..<i + unat n}"
    by (simp add: image_add_atLeastLessThan add.commute)
  have "used s' = used s \<union> (\<lambda>k. i + k) ` set [0..<unat n]"
    unfolding s' by (rule used_fold_take_frame) (use assms(1) run(3) in auto)
  then have "used s' = used s \<union> {i..<i + unat n}" by (simp only: set_upt shift)
  moreover have "ram s' = (\<lambda>x. if \<exists>a \<in> run_addrs p (unat n). unat (x - a) < 4096 then 0 else ram s x)"
    unfolding s' run_addrs_def by (rule ext) (simp add: ram_fold_take_frame atLeast0LessThan)
  ultimately show ?thesis
    using that [of i] run(2-4) p assms(1)
    by (simp add: s' fold_take_frame_ok frame_addr_fold_take fold_take_frame_fields)
qed

lemma alloc_contig_zero:
  assumes "pmm_ok s" and "alloc_contig n s = (0, s')"
  shows "s' = s"
proof (rule alloc_contig_cases [OF assms(1), of n], goal_cases)
  case 1
  with assms(2) show ?thesis by simp
next
  case (2 i)
  then have "0 < unat n" by (simp add: unat_gt_0)
  with 2(2) have "i < nframes s" by linarith
  with frame_addr_nonzero [OF assms(1)] 2(5) assms(2) show ?thesis by simp
qed

section \<open>The interface of a frame pool\<close>

text \<open>
  What the rest of the kernel relies on: an allocator hands out runs of frames that nobody
  holds, zeroed, and takes back runs that were handed out. The client facts below follow
  from the contract alone.
\<close>

locale frame_pool =
  fixes invar :: "'s \<Rightarrow> bool"
    and owned :: "'s \<Rightarrow> u32 set"
    and byte_at :: "'s \<Rightarrow> u32 \<Rightarrow> u8"
    and alloc :: "u32 \<Rightarrow> 's \<Rightarrow> u32 \<times> 's"
    and release :: "u32 \<Rightarrow> u32 \<Rightarrow> 's \<Rightarrow> 's"
  assumes alloc_fail: "invar s \<Longrightarrow> alloc n s = (0, s') \<Longrightarrow> s' = s"
    and alloc_invar: "invar s \<Longrightarrow> alloc n s = (p, s') \<Longrightarrow> invar s'"
    and alloc_fresh: "invar s \<Longrightarrow> alloc n s = (p, s') \<Longrightarrow> p \<noteq> 0 \<Longrightarrow>
      run_addrs p (unat n) \<inter> owned s = {}"
    and alloc_owned: "invar s \<Longrightarrow> alloc n s = (p, s') \<Longrightarrow> p \<noteq> 0 \<Longrightarrow>
      owned s' = owned s \<union> run_addrs p (unat n)"
    and alloc_bytes: "invar s \<Longrightarrow> alloc n s = (p, s') \<Longrightarrow> p \<noteq> 0 \<Longrightarrow>
      byte_at s' = (\<lambda>x. if \<exists>a \<in> run_addrs p (unat n). unat (x - a) < 4096 then 0 else byte_at s x)"
    and release_invar: "invar s \<Longrightarrow> run_addrs p (unat n) \<subseteq> owned s \<Longrightarrow> invar (release p n s)"
    and release_owned: "invar s \<Longrightarrow> run_addrs p (unat n) \<subseteq> owned s \<Longrightarrow>
      owned (release p n s) = owned s - run_addrs p (unat n)"
    and release_bytes: "invar s \<Longrightarrow> run_addrs p (unat n) \<subseteq> owned s \<Longrightarrow>
      byte_at (release p n s) = byte_at s"
begin

text \<open>Two runs held at the same time share no frame.\<close>

lemma two_runs_disjoint:
  assumes "invar s" "alloc n s = (p, s')" "p \<noteq> 0" "alloc m s' = (q, s'')" "q \<noteq> 0"
  shows "run_addrs p (unat n) \<inter> run_addrs q (unat m) = {}"
proof -
  have "invar s'" using assms(1,2) by (rule alloc_invar)
  from alloc_fresh [OF this assms(4,5)] alloc_owned [OF assms(1,2,3)] show ?thesis by blast
qed

text \<open>Giving a fresh run back restores the set of frames that are held.\<close>

lemma alloc_release:
  assumes "invar s" "alloc n s = (p, s')" "p \<noteq> 0"
  shows "owned (release p n s') = owned s" and "invar (release p n s')"
proof -
  have inv: "invar s'" using assms(1,2) by (rule alloc_invar)
  have own: "owned s' = owned s \<union> run_addrs p (unat n)" by (rule alloc_owned [OF assms])
  with release_owned [OF inv] alloc_fresh [OF assms]
  show "owned (release p n s') = owned s" by blast
  from own show "invar (release p n s')" by (intro release_invar inv) blast
qed

end

lemma run_addrs_0 [simp]: "run_addrs p 0 = {}"
  by (simp add: run_addrs_def)

lemma free_contig_held:
  assumes "pmm_ok s" and "run_addrs p (unat n) \<subseteq> held s"
  shows "pmm_ok (free_contig p n s) \<and> held (free_contig p n s) = held s - run_addrs p (unat n)
    \<and> ram (free_contig p n s) = ram s"
proof (cases "n = 0")
  case True
  then show ?thesis using assms by (simp add: free_contig_def)
next
  case False
  then have "0 < unat n" by (simp add: unat_gt_0)
  from held_run_frames [OF assms this] obtain i where
    i: "p = frame_addr s i" "i + unat n \<le> nframes s" "{i..<i + unat n} \<subseteq> used s" .
  note fc = used_free_contig [OF assms(1) i(2) False, folded i(1)]
  have "inj_on (frame_addr s) (used s)"
    using assms(1) by (intro inj_onI) (simp add: used_def frame_addr_inj)
  then have "frame_addr s ` (used s - {i..<i + unat n}) = held s - run_addrs p (unat n)"
    unfolding held_def i(1) run_addrs_frame by (rule inj_on_image_set_diff) (use i(3) in auto)
  with fc show ?thesis by (simp add: held_def)
qed

interpretation kernel_pool: frame_pool pmm_ok held ram alloc_contig free_contig
proof
  fix s s' :: pmm and n p :: u32
  assume ok: "pmm_ok s" and al: "alloc_contig n s = (p, s')"
  show "pmm_ok s'"
  proof (cases "p = 0")
    case True
    with al ok show ?thesis using alloc_contig_zero by blast
  next
    case False
    from alloc_contig_run [OF ok al False] show ?thesis by blast
  qed
  assume nz: "p \<noteq> 0"
  from alloc_contig_run [OF ok al nz] obtain i where
    i: "n \<noteq> 0" "p = frame_addr s i" "i + unat n \<le> nframes s" "{i..<i + unat n} \<inter> used s = {}"
      "used s' = used s \<union> {i..<i + unat n}" "frame_addr s' = frame_addr s"
    and r: "ram s' = (\<lambda>x. if \<exists>a \<in> run_addrs p (unat n). unat (x - a) < 4096 then 0 else ram s x)"
    by blast
  show "ram s' = (\<lambda>x. if \<exists>a \<in> run_addrs p (unat n). unat (x - a) < 4096 then 0 else ram s x)"
    by (rule r)
  show "held s' = held s \<union> run_addrs p (unat n)"
    by (simp add: held_def i run_addrs_frame image_Un)
  have "inj_on (frame_addr s) {..<nframes s}"
    using ok by (intro inj_onI) (simp add: frame_addr_inj)
  moreover have "{i..<i + unat n} \<subseteq> {..<nframes s}" "used s \<subseteq> {..<nframes s}"
    using i(3) by (auto simp: used_def)
  ultimately have "frame_addr s ` {i..<i + unat n} \<inter> frame_addr s ` used s =
      frame_addr s ` ({i..<i + unat n} \<inter> used s)"
    by (metis inj_on_image_Int)
  then show "run_addrs p (unat n) \<inter> held s = {}"
    by (simp add: held_def i run_addrs_frame)
next
  fix s s' :: pmm and n :: u32
  assume ok: "pmm_ok s" and "alloc_contig n s = (0, s')"
  then show "s' = s" by (rule alloc_contig_zero)
qed (use free_contig_held in auto)

section \<open>Histories of the pool\<close>

text \<open>The states the pool can be in after \<^verbatim>\<open>init\<close>, whatever the kernel allocates and frees.\<close>

inductive pool_reach :: "u32 \<Rightarrow> pmm \<Rightarrow> bool" for bss_end :: u32 where
  boot: "pool_reach bss_end (pmm_init bss_end s)"
| frame: "pool_reach bss_end s \<Longrightarrow> alloc_frame s = (p, s') \<Longrightarrow> pool_reach bss_end s'"
| contig: "pool_reach bss_end s \<Longrightarrow> alloc_contig n s = (p, s') \<Longrightarrow> pool_reach bss_end s'"
| give_frame: "pool_reach bss_end s \<Longrightarrow> pool_reach bss_end (free_frame a s)"
| give_contig: "pool_reach bss_end s \<Longrightarrow> pool_reach bss_end (free_contig a n s)"

lemma free_frame_fields [simp]:
  "g_pool_base (free_frame a s) = g_pool_base s" "g_pool_frames (free_frame a s) = g_pool_frames s"
  by (simp_all add: free_frame_def Let_def)

lemma fold_free_frame:
  "pmm_ok s \<Longrightarrow> pmm_ok (fold (\<lambda>k. free_frame (f k)) ks s) \<and>
     g_pool_base (fold (\<lambda>k. free_frame (f k)) ks s) = g_pool_base s"
  by (induction ks arbitrary: s) (simp_all add: free_frame_ok)

lemma alloc_frame_ok:
  assumes "pmm_ok s" "alloc_frame s = (p, s')"
  shows "pmm_ok s' \<and> g_pool_base s' = g_pool_base s"
proof (rule alloc_frame_cases [OF assms(1)])
  assume "alloc_frame s = (0, s)"
  with assms show ?thesis by simp
next
  fix i
  assume "alloc_frame s = (frame_addr s i, s\<lparr>g_bitmap := set_frame_bit (g_bitmap s) i,
      ram := memset_ram (frame_addr s i) 0 4096 (ram s)\<rparr>)"
  with assms show ?thesis by (auto intro: pmm_ok_bitmap)
qed

lemma alloc_contig_base: "alloc_contig n s = (p, s') \<Longrightarrow> g_pool_base s' = g_pool_base s"
  by (auto simp: alloc_contig_def Let_def fold_take_frame_fields split: if_splits option.splits)

lemma pool_reach_ok:
  "pool_reach b s \<Longrightarrow> pmm_ok s \<and> g_pool_base s = g_pool_base (pmm_init b s0)"
proof (induction rule: pool_reach.induct)
  case (boot s)
  show ?case by (simp add: pmm_init_ok) (simp add: pmm_init_def Let_def)
next
  case (frame s p s')
  then show ?case using alloc_frame_ok by metis
next
  case (contig s n p s')
  then show ?case using alloc_contig_base kernel_pool.alloc_invar by metis
next
  case (give_frame s a)
  then show ?case by (simp add: free_frame_ok)
next
  case (give_contig s a n)
  then show ?case by (simp add: free_contig_def fold_free_frame)
qed

lemma pmm_init_base_ge:
  assumes "bss_end \<le> 0xFFFFF000"
  shows "bss_end \<le> g_pool_base (pmm_init bss_end s)"
proof -
  let ?x = "bss_end + FRAME_SIZE - 1"
  have "unat (bss_end + 4095) = unat bss_end + 4095"
    using assms by (simp add: word_le_nat_alt unat_word_ariths)
  then have x: "unat ?x = unat bss_end + 4095" by (simp add: FRAME_SIZE_def add.commute)
  have "unat bss_end \<le> unat (?x AND NOT (FRAME_SIZE - 1))"
    using unat_and_not_4095 [of ?x] x by (simp add: FRAME_SIZE_def)
  then show ?thesis
    by (auto simp: pmm_init_def Let_def word_le_nat_alt word_less_nat_alt)
qed

section \<open>Correctness of the frame allocator\<close>

text \<open>
  C2. Whatever sequence of allocations and releases has run since \<^verbatim>\<open>init\<close>, a frame that
  \<^verbatim>\<open>alloc_frame\<close> hands out is a whole page of the pool: it starts at or after the end of the
  kernel's own globals and ends at or before \<^verbatim>\<open>POOL_END\<close>, so zeroing it never touches the
  kernel.
\<close>

theorem alloc_frame_outside_kernel:
  assumes "bss_end \<le> 0xFFFFF000" and "pool_reach bss_end s"
    and "alloc_frame s = (p, s')" and "p \<noteq> 0"
  shows "bss_end \<le> p \<and> unat p mod 4096 = 0 \<and> unat p + 4096 \<le> unat POOL_END"
proof -
  have ok: "pmm_ok s" and base: "g_pool_base s = g_pool_base (pmm_init bss_end s)"
    using pool_reach_ok [OF assms(2)] by auto
  obtain i where i: "i < nframes s" "p = frame_addr s i"
  proof (rule alloc_frame_cases [OF ok])
    assume "alloc_frame s = (0, s)"
    with assms(3,4) show thesis by simp
  qed (use assms(3) that in simp)
  have u: "unat p = unat (g_pool_base s) + i * 4096" using unat_frame_addr [OF ok i(1)] i(2) by simp
  have "unat (g_pool_base s) + nframes s * 4096 = 32964608" using pool_end_unat [OF ok] i(1) by auto
  moreover have "unat bss_end \<le> unat (g_pool_base s)"
    using pmm_init_base_ge [OF assms(1), of s] by (simp add: base word_le_nat_alt)
  ultimately have "unat bss_end \<le> unat p" "unat p + 4096 \<le> 32964608"
    using u i(1) by linarith+
  moreover have "unat p mod 4096 = 0" using u ok by (simp add: pmm_ok_def)
  ultimately show ?thesis by (simp add: word_le_nat_alt POOL_END_def)
qed

theorem alloc_frame_outside_kernel_witness:
  "\<exists>s. pool_reach 0xABC123 s \<and> fst (alloc_frame s) = 0xABD000 \<and>
     0xABC123 \<le> fst (alloc_frame s) \<and> unat (fst (alloc_frame s)) + 4096 \<le> unat POOL_END"
proof -
  define s where "s = pmm_init 0xABC123 \<lparr>g_bitmap = [], g_pool_base = 0, g_pool_frames = 0, ram = (\<lambda>_. 7)\<rparr>"
  have r: "pool_reach 0xABC123 s" unfolding s_def by (rule pool_reach.boot)
  have f: "nframes s = 5299" "g_pool_base s = 0xABD000" "g_bitmap s = replicate 172 0"
    by (simp_all add: s_def pmm_init_def Let_def pmm_consts BITMAP_WORDS_eq)
  have ok: "pmm_ok s" unfolding s_def by (rule pmm_init_ok)
  have "\<not> frame_bit (g_bitmap s) 0" by (simp add: f frame_bit_def mask_simps)
  with alloc_frame_lowest [OF ok, of 0] f have a: "fst (alloc_frame s) = 0xABD000"
    by (simp add: frame_addr_def)
  then have e: "alloc_frame s = (0xABD000, snd (alloc_frame s))" by (simp add: prod_eq_iff)
  show ?thesis
    using alloc_frame_outside_kernel [OF _ r e] r a by (intro exI [of _ s]) simp
qed

text \<open>
  \<^verbatim>\<open>alloc_frame\<close> answers 0, changing nothing, exactly when every frame of the pool is in use;
  otherwise it takes the lowest free frame, marks that one and no other, and hands it out
  with all of its bytes zero and every byte outside it as it was.
\<close>

theorem alloc_frame_correct:
  assumes "pmm_ok s" and "alloc_frame s = (p, s')"
  shows "if used s = {..<nframes s} then p = 0 \<and> s' = s
     else \<exists>i < nframes s. p = frame_addr s i \<and> p \<noteq> 0 \<and> i \<notin> used s \<and> {..<i} \<subseteq> used s \<and>
       used s' = insert i (used s) \<and> pmm_ok s' \<and>
       ram s' = (\<lambda>x. if unat (x - p) < 4096 then 0 else ram s x)"
proof (rule alloc_frame_cases [OF assms(1)])
  assume "used s = {..<nframes s}" "alloc_frame s = (0, s)"
  with assms(2) show ?thesis by simp
next
  fix i
  assume i: "i < nframes s" "i \<notin> used s" "\<forall>j<i. j \<in> used s"
    and eq: "alloc_frame s = (frame_addr s i, s\<lparr>g_bitmap := set_frame_bit (g_bitmap s) i,
      ram := memset_ram (frame_addr s i) 0 4096 (ram s)\<rparr>)"
  have s': "p = frame_addr s i" "s' = s\<lparr>g_bitmap := set_frame_bit (g_bitmap s) i,
      ram := memset_ram (frame_addr s i) 0 4096 (ram s)\<rparr>"
    using eq assms(2) by simp_all
  have "used s \<noteq> {..<nframes s}" using i(1,2) by blast
  moreover have "used s' = insert i (used s)" "pmm_ok s'"
    using assms(1) i(1) by (simp_all add: s' used_set_frame_bit pmm_ok_bitmap)
  moreover have "ram s' = (\<lambda>x. if unat (x - p) < 4096 then 0 else ram s x)"
    by (simp add: s' memset_ram_def)
  ultimately show ?thesis
    using i frame_addr_nonzero [OF assms(1) i(1)] s'(1) by (auto intro!: exI [of _ i])
qed

text \<open>A pool of five frames at the top of memory, the second and fourth in use: the concrete state of the witnesses.\<close>

definition small_pool :: pmm where
  "small_pool = (pmm_init 0x01F6B000 \<lparr>g_bitmap = [], g_pool_base = 0, g_pool_frames = 0, ram = (\<lambda>_. 7)\<rparr>)
     \<lparr>g_bitmap := (replicate 172 0)[0 := 10]\<rparr>"

lemma small_pool_fields:
  "g_pool_base small_pool = 0x01F6B000" "g_pool_frames small_pool = 5"
  "g_bitmap small_pool = (replicate 172 0)[0 := 10]" "ram small_pool = (\<lambda>_. 7)"
  by (simp_all add: small_pool_def pmm_init_def Let_def pmm_consts)

lemma small_pool_ok: "pmm_ok small_pool"
  by (simp add: pmm_ok_def small_pool_fields pmm_consts BITMAP_WORDS_eq)

lemma small_pool_used: "used small_pool = {1, 3}"
proof -
  have "frame_bit (g_bitmap small_pool) i = (i = 1 \<or> i = 3)" if "i < 5" for i
  proof -
    from that have "i \<in> {0, 1, 2, 3, 4}" by auto
    then show ?thesis
      by (elim insertE) (simp_all add: small_pool_fields frame_bit_def test_mask_def)
  qed
  then show ?thesis by (auto simp: used_def small_pool_fields)
qed

theorem alloc_frame_correct_witness:
  "fst (alloc_frame small_pool) = 0x01F6B000 \<and> used (snd (alloc_frame small_pool)) = {0, 1, 3}"
proof -
  have "alloc_frame small_pool = (fst (alloc_frame small_pool), snd (alloc_frame small_pool))" by simp
  note c = alloc_frame_correct [OF small_pool_ok this]
  have free0: "used small_pool \<noteq> {..<nframes small_pool}"
    by (simp add: small_pool_used small_pool_fields set_eq_iff exI [of _ 0])
  obtain i where i: "{..<i} \<subseteq> used small_pool" "fst (alloc_frame small_pool) = frame_addr small_pool i"
    "used (snd (alloc_frame small_pool)) = insert i (used small_pool)"
    using c unfolding if_not_P [OF free0] by blast
  have "i = 0"
  proof (rule ccontr)
    assume "i \<noteq> 0"
    then have "0 \<in> {..<i}" by simp
    with i(1) have "(0 :: nat) \<in> {1, 3}" unfolding small_pool_used by blast
    then show False by simp
  qed
  with i(2,3) show ?thesis by (simp add: frame_addr_def small_pool_fields small_pool_used)
qed

text \<open>
  C13. \<^verbatim>\<open>alloc_contig\<close> is first fit. It answers 0, changing nothing, exactly when the pool has no
  run of \<open>n\<close> free frames (or \<open>n\<close> is 0); otherwise it returns the lowest such run, marks exactly
  its frames and zeroes exactly their bytes.
\<close>

theorem alloc_contig_first_fit:
  assumes "pmm_ok s" and "alloc_contig n s = (p, s')"
  shows "if n = 0 \<or> (\<forall>i. i + unat n \<le> nframes s \<longrightarrow> {i..<i + unat n} \<inter> used s \<noteq> {})
     then p = 0 \<and> s' = s
     else \<exists>i. i + unat n \<le> nframes s \<and> {i..<i + unat n} \<inter> used s = {} \<and>
       (\<forall>j < i. {j..<j + unat n} \<inter> used s \<noteq> {}) \<and> p = frame_addr s i \<and>
       used s' = used s \<union> {i..<i + unat n} \<and> pmm_ok s' \<and>
       ram s' = (\<lambda>x. if \<exists>a \<in> frame_addr s ` {i..<i + unat n}. unat (x - a) < 4096 then 0 else ram s x)"
proof (rule alloc_contig_cases [OF assms(1), of n])
  assume "\<forall>i. n \<noteq> 0 \<and> i + unat n \<le> nframes s \<longrightarrow> {i..<i + unat n} \<inter> used s \<noteq> {}"
    "alloc_contig n s = (0, s)"
  with assms(2) show ?thesis by auto
next
  fix i
  assume run: "n \<noteq> 0" "i + unat n \<le> nframes s" "{i..<i + unat n} \<inter> used s = {}"
    "\<forall>j<i. {j..<j + unat n} \<inter> used s \<noteq> {}"
    and eq: "alloc_contig n s = (frame_addr s i, fold (take_frame (frame_addr s i) i) [0..<unat n] s)"
  have "i < nframes s" using run(1,2) unat_gt_0 [of n] by linarith
  have p: "p = frame_addr s i" using eq assms(2) by simp
  with frame_addr_nonzero [OF assms(1) \<open>i < nframes s\<close>] have "p \<noteq> 0" by simp
  from alloc_contig_run [OF assms this] obtain k where
    k: "p = frame_addr s k" "k + unat n \<le> nframes s" "pmm_ok s'" "used s' = used s \<union> {k..<k + unat n}"
      "ram s' = (\<lambda>x. if \<exists>a \<in> run_addrs p (unat n). unat (x - a) < 4096 then 0 else ram s x)"
    by blast
  have "k < nframes s" using k(2) run(1) unat_gt_0 [of n] by linarith
  with k(1) p \<open>i < nframes s\<close> assms(1) have "k = i" by (simp add: frame_addr_inj)
  with k have "used s' = used s \<union> {i..<i + unat n}" "pmm_ok s'"
    "ram s' = (\<lambda>x. if \<exists>a \<in> frame_addr s ` {i..<i + unat n}. unat (x - a) < 4096 then 0 else ram s x)"
    by (simp_all add: run_addrs_frame)
  with run p show ?thesis by auto
qed

theorem alloc_contig_first_fit_witness:
  "fst (alloc_contig 2 small_pool) = 0 \<and> snd (alloc_contig 2 small_pool) = small_pool \<and>
   fst (alloc_contig 1 small_pool) = 0x01F6B000"
proof -
  have e: "alloc_contig n small_pool = (fst (alloc_contig n small_pool), snd (alloc_contig n small_pool))" for n
    by simp
  have no: "{i..<i + 2} \<inter> {1, 3} \<noteq> {}" if "i + 2 \<le> 5" for i :: nat
  proof -
    from that have "i \<in> {0, 1, 2, 3}" by auto
    then show ?thesis by auto
  qed
  have none2: "(2 :: u32) = 0 \<or> (\<forall>i. i + unat (2 :: u32) \<le> nframes small_pool \<longrightarrow>
      {i..<i + unat (2 :: u32)} \<inter> used small_pool \<noteq> {})"
    using no by (simp add: small_pool_used small_pool_fields)
  have two: "fst (alloc_contig 2 small_pool) = 0 \<and> snd (alloc_contig 2 small_pool) = small_pool"
    using alloc_contig_first_fit [OF small_pool_ok e, of 2] unfolding if_P [OF none2] .
  have "{0..<0 + unat (1 :: u32)} \<inter> used small_pool = {}" "0 + unat (1 :: u32) \<le> nframes small_pool"
    by (simp_all add: small_pool_used small_pool_fields)
  then have one1: "\<not> ((1 :: u32) = 0 \<or> (\<forall>i. i + unat (1 :: u32) \<le> nframes small_pool \<longrightarrow>
      {i..<i + unat (1 :: u32)} \<inter> used small_pool \<noteq> {}))"
    by (metis one_neq_zero)
  obtain i where i: "\<forall>j < i. {j..<j + unat (1 :: u32)} \<inter> used small_pool \<noteq> {}"
    "fst (alloc_contig 1 small_pool) = frame_addr small_pool i"
    using alloc_contig_first_fit [OF small_pool_ok e, of 1] unfolding if_not_P [OF one1] by blast
  from i(1) have "i = 0" by (cases i) (auto simp: small_pool_used)
  with two i(2) show ?thesis by (simp add: frame_addr_def small_pool_fields)
qed

text \<open>
  C14. Releasing a run that \<^verbatim>\<open>alloc_contig\<close> returned undoes the allocation: the frames in use are
  exactly those in use before it, and the contents of memory are those the allocation left.
\<close>

theorem alloc_free_contig_roundtrip:
  assumes "pmm_ok s" and "alloc_contig n s = (p, s')" and "p \<noteq> 0"
  shows "held (free_contig p n s') = held s \<and> ram (free_contig p n s') = ram s'"
  using kernel_pool.alloc_release(1) [OF assms] kernel_pool.alloc_owned [OF assms]
    kernel_pool.release_bytes [OF kernel_pool.alloc_invar [OF assms(1,2)]]
  by blast

theorem alloc_free_contig_roundtrip_witness:
  "held (free_contig 0x01F6B000 1 (snd (alloc_contig 1 small_pool))) = {0x01F6C000, 0x01F6E000}"
proof -
  have run: "free_run small_pool 0 1"
    by (simp add: free_run_used small_pool_used small_pool_fields)
  have "alloc_contig 1 small_pool = (0x01F6B000, snd (alloc_contig 1 small_pool))"
    using for_first_eqI [of 0 0 5 "\<lambda>i. if free_run small_pool i 1 then Some i else None"] run
    by (simp add: alloc_contig_def small_pool_fields)
  from alloc_free_contig_roundtrip [OF small_pool_ok this]
  have "held (free_contig 0x01F6B000 1 (snd (alloc_contig 1 small_pool))) = held small_pool" by simp
  then show ?thesis by (simp add: held_def small_pool_used frame_addr_def small_pool_fields FRAME_SIZE_def)
qed

text \<open>
  The count \<^verbatim>\<open>free_frames\<close> reports for \<^verbatim>\<open>/proc/meminfo\<close> is exact: the frames of the pool less those
  in use, with no wrap-around.
\<close>

theorem free_frames_exact:
  assumes "pmm_ok s"
  shows "unat (free_frames s) = nframes s - card (used s)"
proof -
  let ?c = "\<lambda>n. card {i. i < n \<and> frame_bit (g_bitmap s) i}"
  let ?f = "\<lambda>i used. if frame_bit (g_bitmap s) i then used + 1 else (used :: u32)"
  have cnt: "fold ?f [0..<n] 0 = of_nat (?c n)" for n
  proof (induction n)
    case (Suc n)
    have "{i. i < Suc n \<and> frame_bit (g_bitmap s) i} =
        (if frame_bit (g_bitmap s) n then insert n {i. i < n \<and> frame_bit (g_bitmap s) i}
         else {i. i < n \<and> frame_bit (g_bitmap s) i})"
      by (auto simp: less_Suc_eq)
    with Suc show ?case by simp
  qed simp
  have le: "card (used s) \<le> nframes s"
    using card_mono [of "{..<nframes s}" "used s"] by (auto simp: used_def)
  have "card (used s) < 2 ^ 32" using le nframes_le [OF assms] by simp
  then have "unat (of_nat (card (used s)) :: u32) = card (used s)"
    by (simp add: unat_of_nat)
  with le show ?thesis
    using cnt [of "nframes s"]
    by (simp add: free_frames_def used_def [symmetric] unat_sub word_le_nat_alt)
qed

theorem free_frames_exact_witness: "unat (free_frames small_pool) = 3"
  using free_frames_exact [OF small_pool_ok] by (simp add: small_pool_used small_pool_fields)

end
