(* ===== verification/Pipe.thy ===== *)
theory Pipe
  imports Prelude
begin

text \<open>
  Kernel pipes, \<^verbatim>\<open>vnu/kernel/fs/pipe.cpp\<close>: eight ring buffers of 256 bytes and one descriptor
  table per process, with the reader and writer counts that decide when the far end sees
  end-of-file or a broken pipe. A table is an index into \<open>tables\<close>; the process that calls an
  operation (\<^verbatim>\<open>vnu::proc::current_pid()\<close>) is its first argument.
  The ring positions, which the sources keep below 256 in a \<^verbatim>\<open>uint32_t\<close>, are natural numbers; the
  counts are the C \<^verbatim>\<open>int\<close>s.
\<close>

section \<open>State\<close>

definition MAX_PIPES :: nat where "MAX_PIPES = 8"
definition MAX_FD :: nat where "MAX_FD = 64"
definition MAX_TABLES :: nat where "MAX_TABLES = 16"
definition BUF :: nat where "BUF = 256"

lemmas pipe_consts = MAX_PIPES_def MAX_FD_def MAX_TABLES_def BUF_def

record pipe =
  p_used :: bool
  p_data :: "u8 list"
  p_r :: nat
  p_w :: nat
  p_len :: nat
  readers :: int
  writers :: int

record fd =
  f_used :: bool
  is_pipe :: bool
  pipe_id :: nat
  write_end :: bool

record fd_table =
  t_used :: bool
  t_pid :: u32
  t_e :: "fd list"

record pipe_state =
  pipes :: "pipe list"
  tables :: "fd_table list"

definition no_pipe :: pipe where
  "no_pipe = \<lparr>p_used = False, p_data = replicate BUF 0, p_r = 0, p_w = 0, p_len = 0,
     readers = 0, writers = 0\<rparr>"

definition no_fd :: fd where
  "no_fd = \<lparr>f_used = False, is_pipe = False, pipe_id = 0, write_end = False\<rparr>"

definition no_table :: fd_table where
  "no_table = \<lparr>t_used = False, t_pid = 0, t_e = replicate MAX_FD no_fd\<rparr>"

abbreviation entry :: "pipe_state \<Rightarrow> nat \<Rightarrow> nat \<Rightarrow> fd" where
  "entry st ti i \<equiv> t_e (tables st ! ti) ! i"

definition set_entry :: "nat \<Rightarrow> nat \<Rightarrow> fd \<Rightarrow> pipe_state \<Rightarrow> pipe_state" where
  "set_entry ti i e st =
     st\<lparr>tables := (tables st)[ti := (tables st ! ti)\<lparr>t_e := (t_e (tables st ! ti))[i := e]\<rparr>]\<rparr>"

definition set_pipe :: "nat \<Rightarrow> (pipe \<Rightarrow> pipe) \<Rightarrow> pipe_state \<Rightarrow> pipe_state" where
  "set_pipe pi f st = st\<lparr>pipes := (pipes st)[pi := f (pipes st ! pi)]\<rparr>"

section \<open>Operations\<close>

definition alloc_in :: "fd_table \<Rightarrow> nat option" where
  "alloc_in t = for_first 3 MAX_FD (\<lambda>i. if \<not> f_used (t_e t ! i) then Some i else None)"

definition find_table :: "u32 \<Rightarrow> pipe_state \<Rightarrow> nat option" where
  "find_table pid st =
     for_first 0 MAX_TABLES (\<lambda>i. if t_used (tables st ! i) \<and> t_pid (tables st ! i) = pid
       then Some i else None)"

definition table_for :: "u32 \<Rightarrow> pipe_state \<Rightarrow> nat option \<times> pipe_state" where
  "table_for pid st =
     (case find_table pid st of
        Some t \<Rightarrow> (Some t, st)
      | None \<Rightarrow>
          (case for_first 0 MAX_TABLES (\<lambda>i. if \<not> t_used (tables st ! i) then Some i else None) of
             Some i \<Rightarrow>
               (Some i, st\<lparr>tables := (tables st)[i := no_table\<lparr>t_used := True, t_pid := pid\<rparr>]\<rparr>)
           | None \<Rightarrow> (None, st)))"

text \<open>\<^verbatim>\<open>++p.writers\<close> or \<^verbatim>\<open>++p.readers\<close>, and the matching decrement with the release of the last end.\<close>

definition add_ref :: "fd \<Rightarrow> pipe \<Rightarrow> pipe" where
  "add_ref e p = (if write_end e then p\<lparr>writers := writers p + 1\<rparr> else p\<lparr>readers := readers p + 1\<rparr>)"

definition drop_ref :: "fd \<Rightarrow> pipe \<Rightarrow> pipe" where
  "drop_ref e p =
     (let p' = (if write_end e then p\<lparr>writers := writers p - 1\<rparr> else p\<lparr>readers := readers p - 1\<rparr>)
      in if readers p' \<le> 0 \<and> writers p' \<le> 0 then p'\<lparr>p_used := False\<rparr> else p')"

definition drop_entry :: "nat \<Rightarrow> nat \<Rightarrow> pipe_state \<Rightarrow> pipe_state" where
  "drop_entry ti i st =
     set_entry ti i no_fd (set_pipe (pipe_id (entry st ti i)) (drop_ref (entry st ti i)) st)"

definition release :: "nat \<Rightarrow> pipe_state \<Rightarrow> pipe_state" where
  "release ti st =
     fold (\<lambda>i st. if \<not> f_used (entry st ti i) then st else drop_entry ti i st) [0..<MAX_FD] st"

definition pipe_init :: pipe_state where
  "pipe_init = \<lparr>pipes = replicate MAX_PIPES no_pipe, tables = replicate MAX_TABLES no_table\<rparr>"

text \<open>\<^verbatim>\<open>create\<close> answers the error number, and the two descriptors when it is 0.\<close>

definition pipe_create :: "u32 \<Rightarrow> pipe_state \<Rightarrow> int \<times> (nat \<times> nat) option \<times> pipe_state" where
  "pipe_create cur st =
     (case for_first 0 MAX_PIPES (\<lambda>i. if \<not> p_used (pipes st ! i) then Some i else None) of
        None \<Rightarrow> (- VNU_ENOSPC, None, st)
      | Some pi \<Rightarrow>
          (case table_for cur st of
             (None, st1) \<Rightarrow> (- VNU_ENOSPC, None, st1)
           | (Some t, st1) \<Rightarrow>
               (case alloc_in (tables st1 ! t) of
                  None \<Rightarrow> (- VNU_ENOSPC, None, st1)
                | Some rfd \<Rightarrow>
                    let st2 = set_entry t rfd \<lparr>f_used = True, is_pipe = True, pipe_id = pi, write_end = False\<rparr> st1
                    in (case alloc_in (tables st2 ! t) of
                          None \<Rightarrow> (- VNU_ENOSPC, None, set_entry t rfd no_fd st2)
                        | Some wfd \<Rightarrow>
                            (0, Some (rfd, wfd),
                             set_pipe pi (\<lambda>_. no_pipe\<lparr>p_used := True, readers := 1, writers := 1\<rparr>)
                               (set_entry t wfd \<lparr>f_used = True, is_pipe = True, pipe_id = pi, write_end = True\<rparr>
                                 st2))))))"

text \<open>The caller's entry for a descriptor number, when it is a pipe end.\<close>

definition is_pipe_fd :: "u32 \<Rightarrow> int \<Rightarrow> pipe_state \<Rightarrow> bool" where
  "is_pipe_fd cur n st =
     (case find_table cur st of
        None \<Rightarrow> False
      | Some t \<Rightarrow> 0 \<le> n \<and> n < int MAX_FD \<and> f_used (entry st t (nat n)) \<and> is_pipe (entry st t (nat n)))"

text \<open>The copy loops of \<^verbatim>\<open>read_fd\<close> and \<^verbatim>\<open>write_fd\<close>.\<close>

fun pipe_get :: "nat \<Rightarrow> pipe \<Rightarrow> u8 list \<times> pipe" where
  "pipe_get 0 p = ([], p)"
| "pipe_get (Suc n) p =
     (if 0 < p_len p
      then let (bs, p') = pipe_get n (p\<lparr>p_r := (p_r p + 1) mod BUF, p_len := p_len p - 1\<rparr>)
           in (p_data p ! p_r p # bs, p')
      else ([], p))"

fun pipe_put :: "u8 list \<Rightarrow> pipe \<Rightarrow> nat \<times> pipe" where
  "pipe_put [] p = (0, p)"
| "pipe_put (b # bs) p =
     (if p_len p < BUF
      then let (k, p') = pipe_put bs (p\<lparr>p_data := (p_data p)[p_w p := b],
                 p_w := (p_w p + 1) mod BUF, p_len := p_len p + 1\<rparr>)
           in (Suc k, p')
      else (0, p))"

definition read_fd :: "u32 \<Rightarrow> int \<Rightarrow> nat \<Rightarrow> pipe_state \<Rightarrow> int \<times> u8 list \<times> pipe_state" where
  "read_fd cur n cnt st =
     (case find_table cur st of
        None \<Rightarrow> (- VNU_EBADF, [], st)
      | Some t \<Rightarrow>
          if \<not> is_pipe_fd cur n st \<or> write_end (entry st t (nat n)) then (- VNU_EBADF, [], st)
          else let pi = pipe_id (entry st t (nat n));
                   (out, p') = pipe_get cnt (pipes st ! pi);
                   st' = set_pipe pi (\<lambda>_. p') st
               in if out = [] \<and> writers p' = 0 then (0, out, st')
                  else if out = [] then (- VNU_EAGAIN, out, st')
                  else (int (length out), out, st'))"

definition write_fd :: "u32 \<Rightarrow> int \<Rightarrow> u8 list \<Rightarrow> pipe_state \<Rightarrow> int \<times> pipe_state" where
  "write_fd cur n buf st =
     (case find_table cur st of
        None \<Rightarrow> (- VNU_EBADF, st)
      | Some t \<Rightarrow>
          if \<not> is_pipe_fd cur n st \<or> \<not> write_end (entry st t (nat n)) then (- VNU_EBADF, st)
          else let pi = pipe_id (entry st t (nat n))
               in if readers (pipes st ! pi) = 0 then (- VNU_EPIPE, st)
                  else let (put, p') = pipe_put buf (pipes st ! pi)
                       in (int put, set_pipe pi (\<lambda>_. p') st))"

definition close_fd :: "u32 \<Rightarrow> int \<Rightarrow> pipe_state \<Rightarrow> int \<times> pipe_state" where
  "close_fd cur n st =
     (case find_table cur st of
        None \<Rightarrow> (- VNU_EBADF, st)
      | Some t \<Rightarrow> if \<not> is_pipe_fd cur n st then (- VNU_EBADF, st) else (0, drop_entry t (nat n) st))"

definition dup_fd :: "u32 \<Rightarrow> int \<Rightarrow> pipe_state \<Rightarrow> int \<times> pipe_state" where
  "dup_fd cur oldfd st =
     (case find_table cur st of
        None \<Rightarrow> (- VNU_EBADF, st)
      | Some t \<Rightarrow>
          if \<not> is_pipe_fd cur oldfd st then (- VNU_EBADF, st)
          else (case alloc_in (tables st ! t) of
                  None \<Rightarrow> (- VNU_ENOSPC, st)
                | Some n \<Rightarrow>
                    let e = entry st t (nat oldfd)
                    in (int n, set_pipe (pipe_id e) (add_ref e) (set_entry t n e st))))"

definition dup2_fd :: "u32 \<Rightarrow> int \<Rightarrow> int \<Rightarrow> pipe_state \<Rightarrow> int \<times> pipe_state" where
  "dup2_fd cur oldfd newfd st =
     (case find_table cur st of
        None \<Rightarrow> (- VNU_EBADF, st)
      | Some t \<Rightarrow>
          if \<not> is_pipe_fd cur oldfd st then (- VNU_EBADF, st)
          else if newfd < 0 \<or> int MAX_FD \<le> newfd then (- VNU_EBADF, st)
          else if oldfd = newfd then (newfd, st)
          else let st1 = (if f_used (entry st t (nat newfd)) \<and> is_pipe (entry st t (nat newfd))
                          then snd (close_fd cur newfd st) else st);
                   e = entry st1 t (nat oldfd)
               in (newfd, set_pipe (pipe_id e) (add_ref e) (set_entry t (nat newfd) e st1)))"

definition close_all_of :: "u32 \<Rightarrow> pipe_state \<Rightarrow> pipe_state" where
  "close_all_of pid st =
     (case find_table pid st of
        None \<Rightarrow> st
      | Some t \<Rightarrow> let st1 = release t st in st1\<lparr>tables := (tables st1)[t := no_table]\<rparr>)"

definition fork_copy :: "u32 \<Rightarrow> u32 \<Rightarrow> pipe_state \<Rightarrow> pipe_state" where
  "fork_copy cur child_pid st =
     (case find_table cur st of
        None \<Rightarrow> st
      | Some src \<Rightarrow>
          (case table_for child_pid st of
             (None, st1) \<Rightarrow> st1
           | (Some dst, st1) \<Rightarrow>
               let st2 = (if t_used (tables st1 ! dst) then release dst st1 else st1);
                   st3 = fold (\<lambda>i st. set_entry dst i (entry st src i) st) [0..<MAX_FD] st2
               in fold (\<lambda>i st. if \<not> f_used (entry st dst i) then st
                               else set_pipe (pipe_id (entry st dst i)) (add_ref (entry st dst i)) st)
                    [0..<MAX_FD] st3))"

section \<open>The ring buffer as a bounded queue\<close>

text \<open>
  The interface of a bounded byte channel: what is put is appended as far as it fits, what is
  got is taken from the front.
\<close>

datatype chan_op = Put "u8 list" | Get nat

text \<open>A sequence of operations: the bytes accepted, the bytes delivered, the last state.\<close>

fun run_chan :: "(u8 list \<Rightarrow> 'p \<Rightarrow> nat \<times> 'p) \<Rightarrow> (nat \<Rightarrow> 'p \<Rightarrow> u8 list \<times> 'p) \<Rightarrow>
    chan_op list \<Rightarrow> 'p \<Rightarrow> u8 list \<times> u8 list \<times> 'p" where
  "run_chan put get [] p = ([], [], p)"
| "run_chan put get (Put bs # ops) p =
     (let (k, p1) = put bs p; (acc, del, p2) = run_chan put get ops p1 in (take k bs @ acc, del, p2))"
| "run_chan put get (Get n # ops) p =
     (let (out, p1) = get n p; (acc, del, p2) = run_chan put get ops p1 in (acc, out @ del, p2))"

locale byte_channel =
  fixes ok :: "'p \<Rightarrow> bool"
    and contents :: "'p \<Rightarrow> u8 list"
    and capacity :: nat
    and put :: "u8 list \<Rightarrow> 'p \<Rightarrow> nat \<times> 'p"
    and get :: "nat \<Rightarrow> 'p \<Rightarrow> u8 list \<times> 'p"
  assumes bounded: "ok p \<Longrightarrow> length (contents p) \<le> capacity"
    and put_ok: "ok p \<Longrightarrow> put bs p = (k, p') \<Longrightarrow> ok p'"
    and put_count: "ok p \<Longrightarrow> put bs p = (k, p') \<Longrightarrow> k = min (length bs) (capacity - length (contents p))"
    and put_contents: "ok p \<Longrightarrow> put bs p = (k, p') \<Longrightarrow> contents p' = contents p @ take k bs"
    and get_ok: "ok p \<Longrightarrow> get n p = (out, p') \<Longrightarrow> ok p'"
    and get_out: "ok p \<Longrightarrow> get n p = (out, p') \<Longrightarrow> out = take n (contents p)"
    and get_contents: "ok p \<Longrightarrow> get n p = (out, p') \<Longrightarrow> contents p' = drop n (contents p)"
begin

text \<open>Over any sequence of operations, no byte is lost, repeated or reordered.\<close>

lemma run_fifo:
  "ok p \<Longrightarrow> run_chan put get ops p = (acc, del, p') \<Longrightarrow>
     ok p' \<and> contents p @ acc = del @ contents p'"
proof (induction ops arbitrary: p acc del)
  case (Cons op ops)
  show ?case
  proof (cases op)
    case (Put bs)
    obtain k p1 where p1: "put bs p = (k, p1)" by fastforce
    obtain acc1 del1 where r: "run_chan put get ops p1 = (acc1, del1, p')" "acc = take k bs @ acc1" "del = del1"
      using Cons.prems(2) Put p1 by (auto split: prod.splits)
    from Cons.IH [OF put_ok [OF Cons.prems(1) p1] r(1)] put_contents [OF Cons.prems(1) p1] r
    show ?thesis by simp
  next
    case (Get n)
    obtain out p1 where p1: "get n p = (out, p1)" by fastforce
    obtain del1 where r: "run_chan put get ops p1 = (acc, del1, p')" "del = out @ del1"
      using Cons.prems(2) Get p1 by (auto split: prod.splits)
    have "contents p = out @ contents p1"
      by (simp add: get_out [OF Cons.prems(1) p1] get_contents [OF Cons.prems(1) p1])
    with Cons.IH [OF get_ok [OF Cons.prems(1) p1] r(1)] r(2) show ?thesis by simp
  qed
qed simp

end

definition ring_ok :: "pipe \<Rightarrow> bool" where
  "ring_ok p \<longleftrightarrow> length (p_data p) = BUF \<and> p_r p < BUF \<and> p_len p \<le> BUF \<and>
     p_w p = (p_r p + p_len p) mod BUF"

definition ring_bytes :: "pipe \<Rightarrow> u8 list" where
  "ring_bytes p = map (\<lambda>k. p_data p ! ((p_r p + k) mod BUF)) [0..<p_len p]"

lemma mod_add_eq_iff:
  assumes "i < B" "j < (B :: nat)"
  shows "(r + i) mod B = (r + j) mod B \<longleftrightarrow> i = j"
proof
  assume "(r + i) mod B = (r + j) mod B"
  then have "i mod B = j mod B" by (simp add: mod_eq_iff_dvd_symdiff_nat nat_mod_eq_iff)
  with assms show "i = j" by simp
qed simp

lemma ring_put1:
  fixes p :: pipe and b :: u8
  assumes "ring_ok p" and "p_len p < BUF"
  defines "p' \<equiv> p\<lparr>p_data := (p_data p)[p_w p := b], p_w := (p_w p + 1) mod BUF, p_len := p_len p + 1\<rparr>"
  shows "ring_ok p'" and "ring_bytes p' = ring_bytes p @ [b]"
proof -
  have B: "0 < BUF" by (simp add: BUF_def)
  show "ring_ok p'" using assms B by (simp add: ring_ok_def mod_Suc_eq)
  have "(p_data p)[p_w p := b] ! ((p_r p + k) mod BUF) = p_data p ! ((p_r p + k) mod BUF)"
    if "k < p_len p" for k
    using that assms(1,2) mod_add_eq_iff [of k BUF "p_len p" "p_r p"]
    by (simp add: ring_ok_def nth_list_update_neq)
  moreover have "(p_data p)[p_w p := b] ! ((p_r p + p_len p) mod BUF) = b"
    using assms(1) B by (simp add: ring_ok_def)
  ultimately show "ring_bytes p' = ring_bytes p @ [b]"
    by (simp add: ring_bytes_def p'_def)
qed

lemma ring_get1:
  fixes p :: pipe
  assumes "ring_ok p" and "0 < p_len p"
  defines "p' \<equiv> p\<lparr>p_r := (p_r p + 1) mod BUF, p_len := p_len p - 1\<rparr>"
  shows "ring_ok p'" and "ring_bytes p = p_data p ! p_r p # ring_bytes p'"
proof -
  have B: "0 < BUF" by (simp add: BUF_def)
  obtain n where n: "p_len p = Suc n" using assms(2) by (cases "p_len p") auto
  have sh: "((p_r p + 1) mod BUF + k) mod BUF = (p_r p + Suc k) mod BUF" for k
    by (simp add: mod_add_left_eq)
  show "ring_ok p'" using assms(1) B n sh by (simp add: ring_ok_def p'_def)
  have "[0..<p_len p] = 0 # map Suc [0..<n]"
    unfolding n map_Suc_upt by (rule upt_conv_Cons) simp
  then have "ring_bytes p = p_data p ! ((p_r p + 0) mod BUF) #
      map (\<lambda>k. p_data p ! ((p_r p + Suc k) mod BUF)) [0..<n]"
    unfolding ring_bytes_def by (simp only: list.map map_map comp_def)
  moreover have "(p_r p + 0) mod BUF = p_r p" using assms(1) by (simp add: ring_ok_def)
  moreover have "ring_bytes p' = map (\<lambda>k. p_data p ! ((p_r p + Suc k) mod BUF)) [0..<n]"
    unfolding ring_bytes_def p'_def using sh by (simp add: n)
  ultimately show "ring_bytes p = p_data p ! p_r p # ring_bytes p'" by simp
qed

lemma pipe_get_ring:
  "ring_ok p \<Longrightarrow> pipe_get n p = (out, p') \<Longrightarrow>
     ring_ok p' \<and> out = take n (ring_bytes p) \<and> ring_bytes p' = drop n (ring_bytes p)"
proof (induction n p arbitrary: out p' rule: pipe_get.induct)
  case (2 n p)
  show ?case
  proof (cases "0 < p_len p")
    case True
    note g1 = ring_get1 [OF "2.prems"(1) True]
    from "2.prems"(2) True obtain bs where
      "pipe_get n (p\<lparr>p_r := (p_r p + 1) mod BUF, p_len := p_len p - 1\<rparr>) = (bs, p')"
      "out = p_data p ! p_r p # bs"
      by (auto split: prod.splits)
    with "2.IH" [OF True g1(1)] g1(2) show ?thesis by simp
  next
    case False
    with "2.prems" show ?thesis by (auto simp: ring_bytes_def)
  qed
qed auto

lemma pipe_put_ring:
  "ring_ok p \<Longrightarrow> pipe_put bs p = (k, p') \<Longrightarrow>
     ring_ok p' \<and> k = min (length bs) (BUF - length (ring_bytes p)) \<and>
     ring_bytes p' = ring_bytes p @ take k bs"
proof (induction bs p arbitrary: k p' rule: pipe_put.induct)
  case (2 b bs p)
  have len: "length (ring_bytes p) = p_len p" by (simp add: ring_bytes_def)
  show ?case
  proof (cases "p_len p < BUF")
    case True
    note p1 = ring_put1 [OF "2.prems"(1) True, of b]
    from "2.prems"(2) True obtain k1 where
      k1: "pipe_put bs (p\<lparr>p_data := (p_data p)[p_w p := b], p_w := (p_w p + 1) mod BUF,
        p_len := p_len p + 1\<rparr>) = (k1, p')" "k = Suc k1"
      by (auto split: prod.splits)
    from "2.IH" [OF True p1(1) k1(1)] p1(2) k1(2) len True show ?thesis by auto
  next
    case False
    with "2.prems" len show ?thesis by auto
  qed
qed auto

interpretation ring: byte_channel ring_ok ring_bytes BUF pipe_put pipe_get
proof
  fix p :: pipe
  assume "ring_ok p"
  then show "length (ring_bytes p) \<le> BUF" by (simp add: ring_ok_def ring_bytes_def)
qed (use pipe_put_ring pipe_get_ring in blast)+

section \<open>Who holds a pipe\<close>

text \<open>
  The descriptors of all processes that refer to one end of pipe \<open>pi\<close>, counted over the
  tables: what \<^verbatim>\<open>readers\<close> (\<open>we = False\<close>) and \<^verbatim>\<open>writers\<close> (\<open>we = True\<close>) are meant to be.
\<close>

definition refers :: "bool \<Rightarrow> nat \<Rightarrow> fd \<Rightarrow> bool" where
  "refers we pi e \<longleftrightarrow> f_used e \<and> pipe_id e = pi \<and> write_end e = we"

definition table_refs :: "bool \<Rightarrow> nat \<Rightarrow> fd_table \<Rightarrow> int" where
  "table_refs we pi t = (\<Sum>e\<leftarrow>t_e t. of_bool (refers we pi e))"

definition refs :: "bool \<Rightarrow> nat \<Rightarrow> pipe_state \<Rightarrow> int" where
  "refs we pi st = (\<Sum>t\<leftarrow>tables st. table_refs we pi t)"

definition tables_ok :: "pipe_state \<Rightarrow> bool" where
  "tables_ok st \<longleftrightarrow> length (pipes st) = MAX_PIPES \<and> length (tables st) = MAX_TABLES \<and>
     (\<forall>ti < MAX_TABLES. length (t_e (tables st ! ti)) = MAX_FD) \<and>
     (\<forall>ti < MAX_TABLES. \<forall>tj < MAX_TABLES. t_used (tables st ! ti) \<and> t_used (tables st ! tj) \<and>
        t_pid (tables st ! ti) = t_pid (tables st ! tj) \<longrightarrow> ti = tj) \<and>
     (\<forall>ti < MAX_TABLES. \<forall>i < MAX_FD. f_used (entry st ti i) \<longrightarrow>
        t_used (tables st ! ti) \<and> is_pipe (entry st ti i) \<and> pipe_id (entry st ti i) < MAX_PIPES)"

definition counts_ok :: "pipe_state \<Rightarrow> bool" where
  "counts_ok st \<longleftrightarrow> (\<forall>pi < MAX_PIPES.
     readers (pipes st ! pi) = refs False pi st \<and> writers (pipes st ! pi) = refs True pi st \<and>
     (p_used (pipes st ! pi) \<longleftrightarrow> 0 < refs False pi st + refs True pi st))"

definition rings_ok :: "pipe_state \<Rightarrow> bool" where
  "rings_ok st \<longleftrightarrow> (\<forall>pi < MAX_PIPES. ring_ok (pipes st ! pi))"

definition pipe_inv :: "pipe_state \<Rightarrow> bool" where
  "pipe_inv st \<longleftrightarrow> tables_ok st \<and> counts_ok st \<and> rings_ok st"

lemma sum_list_update_int:
  "i < length xs \<Longrightarrow> (\<Sum>x\<leftarrow>xs[i := y]. f x) = (\<Sum>x\<leftarrow>xs. f x) - f (xs ! i) + (f y :: int)"
  by (induction xs arbitrary: i) (auto split: nat.split)

lemma table_refs_nonneg: "0 \<le> table_refs we pi t"
  unfolding table_refs_def by (rule sum_list_nonneg) auto

lemma refs_nonneg: "0 \<le> refs we pi st"
  unfolding refs_def by (rule sum_list_nonneg) (auto simp: table_refs_nonneg)

lemma refs_set_pipe [simp]: "refs we pi (set_pipe k f st) = refs we pi st"
  by (simp add: refs_def set_pipe_def)

lemma refs_set_entry:
  assumes "ti < length (tables st)" "i < length (t_e (tables st ! ti))"
  shows "refs we pi (set_entry ti i e st) =
     refs we pi st - of_bool (refers we pi (entry st ti i)) + of_bool (refers we pi e)"
  using assms by (simp add: refs_def set_entry_def sum_list_update_int table_refs_def)

lemma entry_le_refs:
  assumes "ti < length (tables st)" "i < length (t_e (tables st ! ti))"
  shows "of_bool (refers we pi (entry st ti i)) \<le> refs we pi st"
  using refs_set_entry [OF assms, of we pi no_fd] refs_nonneg [of we pi "set_entry ti i no_fd st"]
  by (simp add: refers_def no_fd_def)

lemma set_entry_fields [simp]:
  "pipes (set_entry ti i e st) = pipes st"
  "length (tables (set_entry ti i e st)) = length (tables st)"
  by (simp_all add: set_entry_def)

lemma set_pipe_fields [simp]:
  "tables (set_pipe pi f st) = tables st"
  "length (pipes (set_pipe pi f st)) = length (pipes st)"
  by (simp_all add: set_pipe_def)

lemma pipes_set_pipe:
  "pi < length (pipes st) \<Longrightarrow>
     pipes (set_pipe k f st) ! pi = (if pi = k then f (pipes st ! pi) else pipes st ! pi)"
  by (auto simp: set_pipe_def nth_list_update)

lemma tables_set_entry:
  "tj < length (tables st) \<Longrightarrow> tables (set_entry ti i e st) ! tj =
     (if tj = ti then (tables st ! tj)\<lparr>t_e := (t_e (tables st ! tj))[i := e]\<rparr> else tables st ! tj)"
  by (auto simp: set_entry_def nth_list_update)

lemma entry_set_entry:
  "tj < length (tables st) \<Longrightarrow> j < length (t_e (tables st ! tj)) \<Longrightarrow>
     entry (set_entry ti i e st) tj j = (if tj = ti \<and> j = i then e else entry st tj j)"
  by (auto simp: tables_set_entry nth_list_update)

lemma table_set_entry [simp]:
  "t_used (tables (set_entry ti i e st) ! tj) = t_used (tables st ! tj)"
  "t_pid (tables (set_entry ti i e st) ! tj) = t_pid (tables st ! tj)"
  "length (t_e (tables (set_entry ti i e st) ! tj)) = length (t_e (tables st ! tj))"
  by (cases "ti < length (tables st)"; cases "tj = ti";
      simp add: set_entry_def list_update_beyond)+

lemma tables_okD:
  assumes "tables_ok st"
  shows "length (pipes st) = MAX_PIPES" "length (tables st) = MAX_TABLES"
    "ti < MAX_TABLES \<Longrightarrow> length (t_e (tables st ! ti)) = MAX_FD"
    "ti < MAX_TABLES \<Longrightarrow> i < MAX_FD \<Longrightarrow> f_used (entry st ti i) \<Longrightarrow>
       t_used (tables st ! ti) \<and> is_pipe (entry st ti i) \<and> pipe_id (entry st ti i) < MAX_PIPES"
    "ti < MAX_TABLES \<Longrightarrow> tj < MAX_TABLES \<Longrightarrow> t_used (tables st ! ti) \<Longrightarrow> t_used (tables st ! tj) \<Longrightarrow>
       t_pid (tables st ! ti) = t_pid (tables st ! tj) \<Longrightarrow> ti = tj"
  using assms unfolding tables_ok_def by blast+

lemma tables_okI:
  assumes "length (pipes st) = MAX_PIPES" "length (tables st) = MAX_TABLES"
    "\<And>ti. ti < MAX_TABLES \<Longrightarrow> length (t_e (tables st ! ti)) = MAX_FD"
    "\<And>ti i. ti < MAX_TABLES \<Longrightarrow> i < MAX_FD \<Longrightarrow> f_used (entry st ti i) \<Longrightarrow>
       t_used (tables st ! ti) \<and> is_pipe (entry st ti i) \<and> pipe_id (entry st ti i) < MAX_PIPES"
    "\<And>ti tj. ti < MAX_TABLES \<Longrightarrow> tj < MAX_TABLES \<Longrightarrow> t_used (tables st ! ti) \<Longrightarrow> t_used (tables st ! tj) \<Longrightarrow>
       t_pid (tables st ! ti) = t_pid (tables st ! tj) \<Longrightarrow> ti = tj"
  shows "tables_ok st"
  using assms unfolding tables_ok_def by blast

lemma tables_ok_set_entry:
  assumes "tables_ok st" and "f_used e \<Longrightarrow> t_used (tables st ! ti) \<and> is_pipe e \<and> pipe_id e < MAX_PIPES"
  shows "tables_ok (set_entry ti i e st)"
proof (rule tables_okI)
  fix tj j assume j: "tj < MAX_TABLES" "j < MAX_FD" and u: "f_used (entry (set_entry ti i e st) tj j)"
  have "entry (set_entry ti i e st) tj j = (if tj = ti \<and> j = i then e else entry st tj j)"
    using j tables_okD(2,3) [OF assms(1)] by (simp add: entry_set_entry)
  with u j assms tables_okD(4) [OF assms(1) j]
  show "t_used (tables (set_entry ti i e st) ! tj) \<and> is_pipe (entry (set_entry ti i e st) tj j) \<and>
      pipe_id (entry (set_entry ti i e st) tj j) < MAX_PIPES"
    by (cases "tj = ti \<and> j = i") auto
qed (simp_all add: tables_okD [OF assms(1)])

lemma tables_ok_set_pipe [simp]: "tables_ok (set_pipe pi f st) = tables_ok st"
  by (simp add: tables_ok_def)

lemma counts_okD:
  "counts_ok st \<Longrightarrow> pi < MAX_PIPES \<Longrightarrow>
     readers (pipes st ! pi) = refs False pi st \<and> writers (pipes st ! pi) = refs True pi st \<and>
     (p_used (pipes st ! pi) \<longleftrightarrow> 0 < refs False pi st + refs True pi st)"
  by (simp add: counts_ok_def)

lemma rings_ok_set_entry [simp]: "rings_ok (set_entry ti i e st) = rings_ok st"
  by (simp add: rings_ok_def)

lemma rings_ok_set_pipe:
  "rings_ok st \<Longrightarrow> length (pipes st) = MAX_PIPES \<Longrightarrow>
     (\<And>p. ring_ok p \<Longrightarrow> ring_ok (f p)) \<Longrightarrow> rings_ok (set_pipe k f st)"
  by (simp add: rings_ok_def pipes_set_pipe)

lemma ring_ok_ref [simp]: "ring_ok (add_ref e p) = ring_ok p" "ring_ok (drop_ref e p) = ring_ok p"
  by (simp_all add: add_ref_def drop_ref_def ring_ok_def Let_def)

text \<open>An entry in use keeps its pipe in use.\<close>

lemma used_entry_pipe:
  assumes inv: "tables_ok st" "counts_ok st" and t: "ti < MAX_TABLES" "i < MAX_FD" and "f_used (entry st ti i)"
  shows "p_used (pipes st ! pipe_id (entry st ti i))"
proof -
  let ?e = "entry st ti i"
  have "of_bool (refers (write_end ?e) (pipe_id ?e) ?e) \<le> refs (write_end ?e) (pipe_id ?e) st"
    using t tables_okD(2,3) [OF inv(1)] by (intro entry_le_refs) simp_all
  then have "1 \<le> refs (write_end ?e) (pipe_id ?e) st" using assms(5) by (simp add: refers_def)
  moreover have "pipe_id ?e < MAX_PIPES" using tables_okD(4) [OF inv(1) t] assms(5) by blast
  ultimately show ?thesis
    using counts_okD [OF inv(2), of "pipe_id ?e"] refs_nonneg [of True "pipe_id ?e" st]
      refs_nonneg [of False "pipe_id ?e" st]
    by (cases "write_end ?e") auto
qed

text \<open>The two steps every descriptor operation is made of: giving an end back, taking one.\<close>

lemma drop_entry_inv:
  assumes inv: "pipe_inv st" and t: "ti < MAX_TABLES" "i < MAX_FD" and u: "f_used (entry st ti i)"
  shows "pipe_inv (drop_entry ti i st)"
proof -
  let ?e = "entry st ti i"
  let ?st1 = "set_pipe (pipe_id ?e) (drop_ref ?e) st"
  have ok: "tables_ok st" "counts_ok st" "rings_ok st" using inv by (simp_all add: pipe_inv_def)
  have len: "ti < length (tables st)" "i < length (t_e (tables st ! ti))"
    using t tables_okD(2,3) [OF ok(1)] by simp_all
  have r: "refs we pi (drop_entry ti i st) = refs we pi st - of_bool (refers we pi ?e)" for we pi
    using len by (simp add: drop_entry_def refs_set_entry refers_def no_fd_def)
  have "tables_ok (drop_entry ti i st)"
    unfolding drop_entry_def by (rule tables_ok_set_entry) (simp_all add: ok no_fd_def)
  moreover have "rings_ok (drop_entry ti i st)"
    unfolding drop_entry_def using ok tables_okD(1) [OF ok(1)] by (simp add: rings_ok_set_pipe)
  moreover have "counts_ok (drop_entry ti i st)"
    unfolding counts_ok_def
  proof (intro allI impI)
    fix pi assume pi: "pi < MAX_PIPES"
    have p: "pipes (drop_entry ti i st) ! pi =
        (if pi = pipe_id ?e then drop_ref ?e (pipes st ! pi) else pipes st ! pi)"
      using pi tables_okD(1) [OF ok(1)] by (simp add: drop_entry_def pipes_set_pipe)
    note c = counts_okD [OF ok(2) pi] refs_nonneg [of True pi "drop_entry ti i st"]
      refs_nonneg [of False pi "drop_entry ti i st"]
    show "readers (pipes (drop_entry ti i st) ! pi) = refs False pi (drop_entry ti i st) \<and>
       writers (pipes (drop_entry ti i st) ! pi) = refs True pi (drop_entry ti i st) \<and>
       (p_used (pipes (drop_entry ti i st) ! pi) \<longleftrightarrow>
          0 < refs False pi (drop_entry ti i st) + refs True pi (drop_entry ti i st))"
      using c u unfolding p r refers_def drop_ref_def Let_def by auto
  qed
  ultimately show ?thesis by (simp add: pipe_inv_def)
qed

lemma add_entry_inv:
  assumes inv: "pipe_inv st" and t: "ti < MAX_TABLES" "i < MAX_FD" and free: "\<not> f_used (entry st ti i)"
    and e: "t_used (tables st ! ti)" "f_used e" "is_pipe e" "pipe_id e < MAX_PIPES" "p_used (pipes st ! pipe_id e)"
  shows "pipe_inv (set_pipe (pipe_id e) (add_ref e) (set_entry ti i e st))" (is "pipe_inv ?s")
proof -
  have ok: "tables_ok st" "counts_ok st" "rings_ok st" using inv by (simp_all add: pipe_inv_def)
  have len: "ti < length (tables st)" "i < length (t_e (tables st ! ti))"
    using t tables_okD(2,3) [OF ok(1)] by simp_all
  have r: "refs we pi ?s = refs we pi st + of_bool (refers we pi e)" for we pi
    using len free by (simp add: refs_set_entry) (simp add: refers_def)
  have "tables_ok ?s" using ok(1) e by (simp add: tables_ok_set_entry)
  moreover have "rings_ok ?s" using ok tables_okD(1) [OF ok(1)] by (simp add: rings_ok_set_pipe)
  moreover have "counts_ok ?s"
    unfolding counts_ok_def
  proof (intro allI impI)
    fix pi assume pi: "pi < MAX_PIPES"
    have p: "pipes ?s ! pi = (if pi = pipe_id e then add_ref e (pipes st ! pi) else pipes st ! pi)"
      using pi tables_okD(1) [OF ok(1)] by (simp add: pipes_set_pipe)
    note c = counts_okD [OF ok(2) pi] refs_nonneg [of True pi st] refs_nonneg [of False pi st]
    show "readers (pipes ?s ! pi) = refs False pi ?s \<and> writers (pipes ?s ! pi) = refs True pi ?s \<and>
       (p_used (pipes ?s ! pi) \<longleftrightarrow> 0 < refs False pi ?s + refs True pi ?s)"
      using c e(2,5) unfolding p r refers_def add_ref_def by auto
  qed
  ultimately show ?thesis by (simp add: pipe_inv_def)
qed

section \<open>Every operation keeps the counts\<close>

lemma pipe_invD:
  assumes "pipe_inv st"
  shows "tables_ok st" "counts_ok st" "rings_ok st" "length (pipes st) = MAX_PIPES"
    "length (tables st) = MAX_TABLES" "ti < MAX_TABLES \<Longrightarrow> length (t_e (tables st ! ti)) = MAX_FD"
  using assms tables_okD(1,2,3) by (simp_all add: pipe_inv_def)

lemma find_table_Some:
  "find_table pid st = Some t \<Longrightarrow> t < MAX_TABLES \<and> t_used (tables st ! t) \<and> t_pid (tables st ! t) = pid"
  by (auto simp: find_table_def for_first_Some_iff split: if_splits)

lemma find_table_None:
  "find_table pid st = None \<Longrightarrow> t < MAX_TABLES \<Longrightarrow> t_used (tables st ! t) \<Longrightarrow> t_pid (tables st ! t) \<noteq> pid"
  by (auto simp: find_table_def for_first_None_iff split: if_splits)

lemma find_table_eq:
  assumes "tables_ok st" "t < MAX_TABLES" "t_used (tables st ! t)" "t_pid (tables st ! t) = pid"
  shows "find_table pid st = Some t"
proof (cases "find_table pid st")
  case None
  from find_table_None [OF this assms(2,3)] assms(4) show ?thesis by simp
next
  case (Some t')
  from find_table_Some [OF this] tables_okD(5) [OF assms(1) _ assms(2) _ assms(3), of t'] assms(4)
  have "t' = t" by simp
  with Some show ?thesis by simp
qed

lemma alloc_in_Some: "alloc_in t = Some i \<Longrightarrow> 3 \<le> i \<and> i < MAX_FD \<and> \<not> f_used (t_e t ! i)"
  by (auto simp: alloc_in_def for_first_Some_iff split: if_splits)

lemma is_pipe_fdD:
  "is_pipe_fd cur n st \<Longrightarrow> find_table cur st = Some t \<Longrightarrow>
     0 \<le> n \<and> nat n < MAX_FD \<and> f_used (entry st t (nat n)) \<and> is_pipe (entry st t (nat n))"
  by (auto simp: is_pipe_fd_def)

lemma drop_entry_frame:
  "t_used (tables (drop_entry ti i st) ! tj) = t_used (tables st ! tj)"
  "t_pid (tables (drop_entry ti i st) ! tj) = t_pid (tables st ! tj)"
  "tj < length (tables st) \<Longrightarrow> j < length (t_e (tables st ! tj)) \<Longrightarrow>
     entry (drop_entry ti i st) tj j = (if tj = ti \<and> j = i then no_fd else entry st tj j)"
  by (simp_all add: drop_entry_def entry_set_entry)

lemma release_upto:
  assumes "pipe_inv st" "ti < MAX_TABLES" "n \<le> MAX_FD"
  defines "st' \<equiv> fold (\<lambda>i st. if \<not> f_used (entry st ti i) then st else drop_entry ti i st) [0..<n] st"
  shows "pipe_inv st' \<and>
     (\<forall>tj. t_used (tables st' ! tj) = t_used (tables st ! tj) \<and> t_pid (tables st' ! tj) = t_pid (tables st ! tj)) \<and>
     (\<forall>tj < MAX_TABLES. \<forall>j < MAX_FD. entry st' tj j =
        (if tj = ti \<and> j < n \<and> f_used (entry st ti j) then no_fd else entry st tj j))"
  using assms(3) unfolding st'_def
proof (induction n)
  case 0
  then show ?case using assms(1) by simp
next
  case (Suc n)
  let ?s = "fold (\<lambda>i st. if \<not> f_used (entry st ti i) then st else drop_entry ti i st) [0..<n] st"
  have inv: "pipe_inv ?s" and n: "n < MAX_FD"
    and fr: "\<And>tj. t_used (tables ?s ! tj) = t_used (tables st ! tj) \<and> t_pid (tables ?s ! tj) = t_pid (tables st ! tj)"
    and en: "\<And>tj j. tj < MAX_TABLES \<Longrightarrow> j < MAX_FD \<Longrightarrow> entry ?s tj j =
        (if tj = ti \<and> j < n \<and> f_used (entry st ti j) then no_fd else entry st tj j)"
    using Suc by auto
  have here: "entry ?s ti n = entry st ti n" using en [OF assms(2) n] by simp
  show ?case
  proof (cases "f_used (entry st ti n)")
    case False
    have "entry st tj j = (if tj = ti \<and> j < Suc n \<and> f_used (entry st ti j) then no_fd else entry st tj j)"
      if "tj = ti \<and> j = n" for tj j
      using that False by simp
    with False inv fr en show ?thesis by (simp add: here less_Suc_eq)
  next
    case True
    have "pipe_inv (drop_entry ti n ?s)" using drop_entry_inv [OF inv assms(2) n] here True by simp
    moreover have "entry (drop_entry ti n ?s) tj j =
        (if tj = ti \<and> j < Suc n \<and> f_used (entry st ti j) then no_fd else entry st tj j)"
      if "tj < MAX_TABLES" "j < MAX_FD" for tj j
      using that en [OF that] True pipe_invD(5,6) [OF inv]
      by (simp add: drop_entry_frame(3) less_Suc_eq) auto
    ultimately show ?thesis using True fr by (simp add: here drop_entry_frame(1,2))
  qed
qed

lemma release_spec:
  assumes "pipe_inv st" "ti < MAX_TABLES"
  shows "pipe_inv (release ti st)"
    and "t_used (tables (release ti st) ! tj) = t_used (tables st ! tj)"
    and "t_pid (tables (release ti st) ! tj) = t_pid (tables st ! tj)"
    and "tj < MAX_TABLES \<Longrightarrow> j < MAX_FD \<Longrightarrow> tj \<noteq> ti \<Longrightarrow> entry (release ti st) tj j = entry st tj j"
    and "j < MAX_FD \<Longrightarrow> \<not> f_used (entry (release ti st) ti j)"
  using release_upto [OF assms order_refl] assms(2) unfolding release_def
  by (auto simp: no_fd_def)

lemma table_refs_empty:
  "(\<And>j. j < length (t_e t) \<Longrightarrow> \<not> f_used (t_e t ! j)) \<Longrightarrow> table_refs we pi t = 0"
proof -
  assume "\<And>j. j < length (t_e t) \<Longrightarrow> \<not> f_used (t_e t ! j)"
  then have "map (\<lambda>e. of_bool (refers we pi e)) (t_e t) = map (\<lambda>_. 0 :: int) (t_e t)"
    by (intro map_cong refl) (auto simp: refers_def in_set_conv_nth)
  then have "table_refs we pi t = sum_list (map (\<lambda>_. 0) (t_e t))"
    unfolding table_refs_def by (simp only:)
  then show ?thesis by simp
qed

lemma refs_set_table:
  "ti < length (tables st) \<Longrightarrow>
     refs we pi (st\<lparr>tables := (tables st)[ti := t]\<rparr>) =
       refs we pi st - table_refs we pi (tables st ! ti) + table_refs we pi t"
  by (simp add: refs_def sum_list_update_int)

lemma set_empty_table_inv:
  assumes inv: "pipe_inv st" and ti: "ti < MAX_TABLES"
    and old: "\<And>j. j < MAX_FD \<Longrightarrow> \<not> f_used (entry st ti j)"
    and new: "length (t_e t) = MAX_FD" "\<And>j. j < MAX_FD \<Longrightarrow> \<not> f_used (t_e t ! j)"
    and pid: "\<And>tj. tj < MAX_TABLES \<Longrightarrow> tj \<noteq> ti \<Longrightarrow> t_used (tables st ! tj) \<Longrightarrow> t_used t \<Longrightarrow> t_pid (tables st ! tj) \<noteq> t_pid t"
  shows "pipe_inv (st\<lparr>tables := (tables st)[ti := t]\<rparr>)" (is "pipe_inv ?s")
proof -
  note ok = pipe_invD [OF inv]
  have tb: "(tables st)[ti := t] ! tj = (if tj = ti then t else tables st ! tj)" if "tj < MAX_TABLES" for tj
    using that ok(5) by (simp add: nth_list_update)
  have r: "refs we pi ?s = refs we pi st" for we pi
    using refs_set_table [of ti st we pi t] table_refs_empty [of "tables st ! ti"]
      table_refs_empty [of t] ti ok(5) ok(6) [OF ti] old new by simp
  have "tables_ok ?s"
  proof (rule tables_okI)
    fix tj j assume j: "tj < MAX_TABLES" "j < MAX_FD" "f_used (entry ?s tj j)"
    with new(2) have "tj \<noteq> ti" by (auto simp: tb)
    with j tables_okD(4) [OF ok(1) j(1,2)]
    show "t_used (tables ?s ! tj) \<and> is_pipe (entry ?s tj j) \<and> pipe_id (entry ?s tj j) < MAX_PIPES"
      by (simp add: tb)
  next
    fix tj tk assume "tj < MAX_TABLES" "tk < MAX_TABLES" "t_used (tables ?s ! tj)" "t_used (tables ?s ! tk)"
      "t_pid (tables ?s ! tj) = t_pid (tables ?s ! tk)"
    then show "tj = tk"
      using pid [of tj] pid [of tk] tables_okD(5) [OF ok(1), of tj tk] by (simp add: tb split: if_splits)
  qed (use ok new in \<open>simp_all add: tb\<close>)
  moreover have "counts_ok ?s" using ok(2) by (simp add: counts_ok_def r)
  moreover have "rings_ok ?s" using ok(3) by (simp add: rings_ok_def)
  ultimately show ?thesis by (simp add: pipe_inv_def)
qed

lemma table_for_spec:
  assumes inv: "pipe_inv st" and tf: "table_for pid st = (Some t, st')"
  shows "pipe_inv st'" and "t < MAX_TABLES" and "t_used (tables st' ! t)" and "t_pid (tables st' ! t) = pid"
    and "pipes st' = pipes st" and "find_table pid st = Some t \<longrightarrow> st' = st"
    and "find_table pid st = None \<longrightarrow> (\<forall>j < MAX_FD. \<not> f_used (entry st' t j))"
    and "tj < MAX_TABLES \<Longrightarrow> t_used (tables st ! tj) \<Longrightarrow> tables st' ! tj = tables st ! tj"
proof -
  note ok = pipe_invD [OF inv]
  have "pipe_inv st' \<and> t < MAX_TABLES \<and> t_used (tables st' ! t) \<and> t_pid (tables st' ! t) = pid \<and>
    pipes st' = pipes st \<and> (find_table pid st = Some t \<longrightarrow> st' = st) \<and>
    (find_table pid st = None \<longrightarrow> (\<forall>j < MAX_FD. \<not> f_used (entry st' t j))) \<and>
    (\<forall>tj < MAX_TABLES. t_used (tables st ! tj) \<longrightarrow> tables st' ! tj = tables st ! tj)"
  proof (cases "find_table pid st")
    case (Some t')
    with tf inv find_table_Some [OF Some] show ?thesis by (simp add: table_for_def)
  next
    case None
    let ?nt = "no_table\<lparr>t_used := True, t_pid := pid\<rparr>"
    from None tf have ff: "for_first 0 MAX_TABLES (\<lambda>i. if \<not> t_used (tables st ! i) then Some i else None) = Some t"
      and st': "st' = st\<lparr>tables := (tables st)[t := ?nt]\<rparr>"
      by (auto simp: table_for_def split: option.splits)
    from for_first_SomeD [OF ff] have t: "t < MAX_TABLES" "\<not> t_used (tables st ! t)"
      by (auto split: if_splits)
    have "pipe_inv st'"
      unfolding st'
    proof (rule set_empty_table_inv [OF inv t(1)])
      fix j assume "j < MAX_FD"
      then show "\<not> f_used (entry st t j)" using tables_okD(4) [OF ok(1) t(1)] t(2) by blast
    next
      fix tj assume "tj < MAX_TABLES" "t_used (tables st ! tj)"
      then show "t_pid (tables st ! tj) \<noteq> t_pid ?nt" using find_table_None [OF None] by simp
    qed (simp_all add: no_table_def no_fd_def)
    with t None ok(5) show ?thesis by (auto simp: st' no_table_def no_fd_def nth_list_update)
  qed
  then show "pipe_inv st'" and "t < MAX_TABLES" and "t_used (tables st' ! t)" and "t_pid (tables st' ! t) = pid"
    and "pipes st' = pipes st" and "find_table pid st = Some t \<longrightarrow> st' = st"
    and "find_table pid st = None \<longrightarrow> (\<forall>j < MAX_FD. \<not> f_used (entry st' t j))"
    and "tj < MAX_TABLES \<Longrightarrow> t_used (tables st ! tj) \<Longrightarrow> tables st' ! tj = tables st ! tj"
    by blast+
qed

lemma table_for_None: "table_for pid st = (None, st') \<Longrightarrow> st' = st"
  by (auto simp: table_for_def split: option.splits)

lemma close_fd_inv: "pipe_inv st \<Longrightarrow> pipe_inv (snd (close_fd cur n st))"
proof (cases "find_table cur st")
  case (Some t)
  assume inv: "pipe_inv st"
  show ?thesis
  proof (cases "is_pipe_fd cur n st")
    case True
    with Some is_pipe_fdD [OF True Some] find_table_Some [OF Some] drop_entry_inv [OF inv]
    show ?thesis by (simp add: close_fd_def)
  next
    case False
    with Some inv show ?thesis by (simp add: close_fd_def)
  qed
qed (simp add: close_fd_def)

lemma dup_fd_inv:
  assumes inv: "pipe_inv st"
  shows "pipe_inv (snd (dup_fd cur oldfd st))"
proof (cases "find_table cur st")
  case (Some t)
  show ?thesis
  proof (cases "is_pipe_fd cur oldfd st \<and> alloc_in (tables st ! t) \<noteq> None")
    case True
    then obtain n where n: "alloc_in (tables st ! t) = Some n" by blast
    have e: "nat oldfd < MAX_FD" "f_used (entry st t (nat oldfd))"
      using is_pipe_fdD [OF _ Some] True by blast+
    note t = find_table_Some [OF Some] and a = alloc_in_Some [OF n]
    note d = tables_okD(4) [OF pipe_invD(1) [OF inv] conjunct1 [OF t] e]
    have "pipe_inv (set_pipe (pipe_id (entry st t (nat oldfd))) (add_ref (entry st t (nat oldfd)))
        (set_entry t n (entry st t (nat oldfd)) st))"
      using inv t a d e used_entry_pipe [OF pipe_invD(1,2) [OF inv] _ e] by (intro add_entry_inv) auto
    with True Some n show ?thesis by (simp add: dup_fd_def Let_def)
  next
    case False
    with Some inv show ?thesis by (auto simp: dup_fd_def split: option.splits)
  qed
qed (simp add: dup_fd_def inv)

lemma dup2_fd_inv:
  assumes inv: "pipe_inv st"
  shows "pipe_inv (snd (dup2_fd cur oldfd newfd st))"
proof (cases "find_table cur st")
  case (Some t)
  show ?thesis
  proof (cases "is_pipe_fd cur oldfd st \<and> 0 \<le> newfd \<and> newfd < int MAX_FD \<and> oldfd \<noteq> newfd")
    case True
    let ?o = "nat oldfd" and ?n = "nat newfd"
    let ?s1 = "if f_used (entry st t ?n) \<and> is_pipe (entry st t ?n) then snd (close_fd cur newfd st) else st"
    have o: "0 \<le> oldfd" "?o < MAX_FD" "f_used (entry st t ?o)"
      using is_pipe_fdD [OF _ Some] True by blast+
    have n: "?n < MAX_FD" "?n \<noteq> ?o" using True o(1) by auto
    have t: "t < MAX_TABLES" "t_used (tables st ! t)" using find_table_Some [OF Some] by auto
    have s1: "?s1 = (if f_used (entry st t ?n) then drop_entry t ?n st else st)"
      using Some True tables_okD(4) [OF pipe_invD(1) [OF inv] t(1) n(1)]
      by (auto simp: close_fd_def is_pipe_fd_def)
    have inv1: "pipe_inv ?s1" using inv drop_entry_inv [OF inv t(1) n(1)] by (simp add: s1)
    have en: "entry ?s1 t ?o = entry st t ?o" "\<not> f_used (entry ?s1 t ?n)" "t_used (tables ?s1 ! t)"
      using t o n pipe_invD(5,6) [OF inv] by (simp_all add: s1 drop_entry_frame no_fd_def)
    have used: "f_used (entry ?s1 t ?o)" using en o by simp
    note d = tables_okD(4) [OF pipe_invD(1) [OF inv1] t(1) o(2) used]
    have "pipe_inv (set_pipe (pipe_id (entry ?s1 t ?o)) (add_ref (entry ?s1 t ?o))
        (set_entry t ?n (entry ?s1 t ?o) ?s1))"
      using d used en used_entry_pipe [OF pipe_invD(1,2) [OF inv1] t(1) o(2) used] t n inv1
      by (intro add_entry_inv) simp_all
    with True Some show ?thesis by (simp add: dup2_fd_def Let_def)
  next
    case False
    with Some inv show ?thesis by (auto simp: dup2_fd_def)
  qed
qed (simp add: dup2_fd_def inv)

lemma close_all_of_inv:
  assumes inv: "pipe_inv st"
  shows "pipe_inv (close_all_of pid st)"
proof (cases "find_table pid st")
  case (Some t)
  then have t: "t < MAX_TABLES" using find_table_Some by blast
  note r = release_spec [OF inv t]
  have "pipe_inv ((release t st)\<lparr>tables := (tables (release t st))[t := no_table]\<rparr>)"
    by (rule set_empty_table_inv [OF r(1) t]) (use r(5) in \<open>auto simp: no_table_def no_fd_def\<close>)
  with Some show ?thesis by (simp add: close_all_of_def Let_def)
qed (simp add: close_all_of_def inv)

lemma set_unused_entry_inv:
  assumes inv: "pipe_inv st" and t: "ti < MAX_TABLES" "i < MAX_FD"
    and "\<not> f_used (entry st ti i)" "\<not> f_used e"
  shows "pipe_inv (set_entry ti i e st)"
proof -
  note ok = pipe_invD [OF inv]
  have "refs we pi (set_entry ti i e st) = refs we pi st" for we pi
    using t ok(5) ok(6) [OF t(1)] assms(4,5) by (simp add: refs_set_entry refers_def)
  then have "counts_ok (set_entry ti i e st)" using ok(2) by (simp add: counts_ok_def)
  moreover have "tables_ok (set_entry ti i e st)"
    by (rule tables_ok_set_entry [OF ok(1)]) (use assms(5) in simp)
  ultimately show ?thesis using ok(3) by (simp add: pipe_inv_def)
qed

section \<open>What a process sees\<close>

text \<open>
  The descriptors of a process without the tables: the pipe and the end behind each number. The
  calls act on this view as a caller expects.
\<close>

definition view :: "pipe_state \<Rightarrow> u32 \<Rightarrow> nat \<Rightarrow> (nat \<times> bool) option" where
  "view st pid n =
     (case find_table pid st of
        None \<Rightarrow> None
      | Some t \<Rightarrow> if n < MAX_FD \<and> f_used (entry st t n)
                  then Some (pipe_id (entry st t n), write_end (entry st t n)) else None)"

definition fd_view :: "fd \<Rightarrow> (nat \<times> bool) option" where
  "fd_view e = (if f_used e then Some (pipe_id e, write_end e) else None)"

lemma view_Some: "find_table pid st = Some t \<Longrightarrow> n < MAX_FD \<Longrightarrow> view st pid n = fd_view (entry st t n)"
  by (simp add: view_def fd_view_def)

lemma view_beyond: "\<not> n < MAX_FD \<Longrightarrow> view st pid n = None"
  by (simp add: view_def split: option.split)

lemma find_table_cong:
  assumes "\<And>ti. ti < MAX_TABLES \<Longrightarrow> (t_used (tables st' ! ti) \<and> t_pid (tables st' ! ti) = pid) =
     (t_used (tables st ! ti) \<and> t_pid (tables st ! ti) = pid)"
  shows "find_table pid st' = find_table pid st"
  unfolding find_table_def by (rule for_first_cong) (simp_all add: assms)

lemma view_cong:
  assumes "\<And>ti. ti < MAX_TABLES \<Longrightarrow> (t_used (tables st' ! ti) \<and> t_pid (tables st' ! ti) = pid) =
     (t_used (tables st ! ti) \<and> t_pid (tables st ! ti) = pid)"
    and "\<And>ti j. find_table pid st = Some ti \<Longrightarrow> j < MAX_FD \<Longrightarrow> fd_view (entry st' ti j) = fd_view (entry st ti j)"
  shows "view st' pid = view st pid"
proof
  fix n
  have f: "find_table pid st' = find_table pid st" by (rule find_table_cong) (rule assms(1))
  show "view st' pid n = view st pid n"
  proof (cases "n < MAX_FD")
    case True
    then show ?thesis
      using f assms(2) by (cases "find_table pid st") (simp_all add: view_Some, simp add: view_def)
  qed (simp add: view_beyond)
qed

lemma view_set_pipe [simp]: "view (set_pipe pi f st) = view st"
  by (rule ext, rule view_cong) simp_all

lemma view_set_entry:
  assumes inv: "tables_ok st" and t: "find_table cur st = Some t" and n: "n < MAX_FD"
  shows "view (set_entry t n e st) = (view st)(cur := (view st cur)(n := fd_view e))"
proof
  fix pid
  note len = tables_okD(2,3) [OF inv]
  show "view (set_entry t n e st) pid = ((view st)(cur := (view st cur)(n := fd_view e))) pid"
  proof (cases "pid = cur")
    case False
    have "view (set_entry t n e st) pid = view st pid"
    proof (rule view_cong)
      fix ti j assume ti: "find_table pid st = Some ti" "j < MAX_FD"
      with find_table_Some [OF ti(1)] find_table_Some [OF t] False len
      show "fd_view (entry (set_entry t n e st) ti j) = fd_view (entry st ti j)"
        by (subst entry_set_entry) auto
    qed simp
    with False show ?thesis by simp
  next
    case True
    have f: "find_table cur (set_entry t n e st) = Some t"
      using t by (subst find_table_cong [of _ _ st]) simp_all
    have "view (set_entry t n e st) cur m = ((view st cur)(n := fd_view e)) m" for m
    proof (cases "m < MAX_FD")
      case True
      then show ?thesis
        using find_table_Some [OF t] len by (simp add: view_Some [OF f] view_Some [OF t] entry_set_entry)
    qed (use n in \<open>auto simp: view_beyond\<close>)
    with True show ?thesis by auto
  qed
qed

lemma view_drop_entry:
  assumes "tables_ok st" "find_table cur st = Some t" "n < MAX_FD"
  shows "view (drop_entry t n st) = (view st)(cur := (view st cur)(n := None))"
proof -
  have "find_table cur (set_pipe k f st) = Some t" for k f
    using assms(2) by (subst find_table_cong [of _ _ st]) simp_all
  from view_set_entry [OF _ this assms(3)] assms(1) show ?thesis
    by (simp add: drop_entry_def fd_view_def) (simp add: no_fd_def)
qed

lemma view_release:
  assumes inv: "pipe_inv st" and t: "find_table cur st = Some t"
  shows "view (release t st) = (view st)(cur := (\<lambda>_. None))"
proof
  fix pid
  have tt: "t < MAX_TABLES" "t_pid (tables st ! t) = cur" using find_table_Some [OF t] by simp_all
  note r = release_spec [OF inv tt(1)]
  show "view (release t st) pid = ((view st)(cur := (\<lambda>_. None))) pid"
  proof (cases "pid = cur")
    case True
    have f: "find_table cur (release t st) = Some t"
      using t by (subst find_table_cong [of _ _ st]) (simp_all add: r(2,3))
    show ?thesis
    proof
      fix m
      show "view (release t st) pid m = ((view st)(cur := (\<lambda>_. None))) pid m"
        using True r(5) [of m] by (cases "m < MAX_FD") (simp_all add: view_Some [OF f] fd_view_def view_beyond)
    qed
  next
    case False
    have "view (release t st) pid = view st pid"
    proof (rule view_cong)
      fix ti j assume ti: "find_table pid st = Some ti" "j < MAX_FD"
      then have "ti < MAX_TABLES" "ti \<noteq> t" using find_table_Some [OF ti(1)] tt False by auto
      then show "fd_view (entry (release t st) ti j) = fd_view (entry st ti j)" using r(4) ti(2) by simp
    qed (simp add: r(2,3))
    with False show ?thesis by simp
  qed
qed

lemma view_table_for:
  assumes inv: "pipe_inv st" and tf: "table_for pid st = (Some t, st')"
  shows "view st' = view st" and "find_table pid st' = Some t"
proof -
  note sp = table_for_spec [OF inv tf]
  show f: "find_table pid st' = Some t" by (rule find_table_eq) (use sp pipe_invD(1) in simp_all)
  show "view st' = view st"
  proof (cases "find_table pid st")
    case (Some t')
    with tf show ?thesis by (simp add: table_for_def)
  next
    case None
    then have st': "st' = st\<lparr>tables := (tables st)[t := no_table\<lparr>t_used := True, t_pid := pid\<rparr>]\<rparr>"
      and u: "\<not> t_used (tables st ! t)"
      using tf by (auto simp: table_for_def for_first_Some_iff split: option.splits if_splits)
    show ?thesis
    proof
      fix q
      show "view st' q = view st q"
      proof (cases "q = pid")
        case True
        show ?thesis
        proof
          fix m
          show "view st' q m = view st q m"
            using True None sp(7) by (auto simp: view_def f)
        qed
      next
        case False
        show ?thesis
        proof (rule view_cong)
          fix ti assume "ti < MAX_TABLES"
          then show "(t_used (tables st' ! ti) \<and> t_pid (tables st' ! ti) = q) =
              (t_used (tables st ! ti) \<and> t_pid (tables st ! ti) = q)"
            using u False pipe_invD(5) [OF inv] by (cases "ti = t") (simp_all add: st')
        next
          fix ti j assume "find_table q st = Some ti" "j < MAX_FD"
          then show "fd_view (entry st' ti j) = fd_view (entry st ti j)"
            using find_table_Some [of q st ti] sp(8) by simp
        qed
      qed
    qed
  qed
qed

lemma view_unused_entry:
  assumes inv: "pipe_inv st" and t: "find_table cur st = Some t" and n: "n < MAX_FD"
    and u: "\<not> f_used (entry st t n)" "\<not> f_used e"
  shows "view (set_entry t n e st) = view st"
  using view_set_entry [OF pipe_invD(1) [OF inv] t n, of e] view_Some [OF t n] u
  by (auto simp: fd_view_def fun_eq_iff)

section \<open>Creating a pipe, forking, reading and writing keep the counts\<close>

lemma create_tables_inv:
  assumes inv: "pipe_inv st" and pi: "pi < MAX_PIPES" "\<not> p_used (pipes st ! pi)"
    and t: "t < MAX_TABLES" "t_used (tables st ! t)" "r < MAX_FD" "w < MAX_FD" "r \<noteq> w"
    and free: "\<not> f_used (entry st t r)" "\<not> f_used (entry st t w)"
    and er: "er = \<lparr>f_used = True, is_pipe = True, pipe_id = pi, write_end = False\<rparr>"
    and ew: "ew = \<lparr>f_used = True, is_pipe = True, pipe_id = pi, write_end = True\<rparr>"
  shows "pipe_inv (set_pipe pi (\<lambda>_. no_pipe\<lparr>p_used := True, readers := 1, writers := 1\<rparr>)
           (set_entry t w ew (set_entry t r er st)))" (is "pipe_inv ?s")
proof -
  note ok = pipe_invD [OF inv]
  let ?s1 = "set_entry t r er st"
  have "entry ?s1 t w = entry st t w" using t ok(5) ok(6) [OF t(1)] by (simp add: entry_set_entry)
  then have r: "refs we k ?s = refs we k st + of_bool (k = pi)" for we k
    using t ok(5) ok(6) [OF t(1)] free
    by (cases we) (auto simp: refs_set_entry er ew refers_def)
  have z: "refs False pi st = 0" "refs True pi st = 0"
    using counts_okD [OF ok(2) pi(1)] pi(2) refs_nonneg [of False pi st] refs_nonneg [of True pi st] by auto
  have "tables_ok ?s1" by (rule tables_ok_set_entry [OF ok(1)]) (use t pi er in simp)
  then have "tables_ok (set_entry t w ew ?s1)" by (rule tables_ok_set_entry) (use t pi ew in simp)
  moreover have "counts_ok ?s"
    unfolding counts_ok_def
  proof (intro allI impI)
    fix k assume k: "k < MAX_PIPES"
    have "pipes ?s ! k = (if k = pi then no_pipe\<lparr>p_used := True, readers := 1, writers := 1\<rparr> else pipes st ! k)"
      using k ok(4) by (simp add: pipes_set_pipe)
    then show "readers (pipes ?s ! k) = refs False k ?s \<and> writers (pipes ?s ! k) = refs True k ?s \<and>
        (p_used (pipes ?s ! k) \<longleftrightarrow> 0 < refs False k ?s + refs True k ?s)"
      using counts_okD [OF ok(2) k] z unfolding r by (cases "k = pi") simp_all
  qed
  moreover have "rings_ok ?s"
    by (rule rings_ok_set_pipe) (use ok in \<open>simp_all add: ring_ok_def no_pipe_def BUF_def\<close>)
  ultimately show ?thesis by (simp add: pipe_inv_def)
qed

lemma pipe_create_cases:
  assumes inv: "pipe_inv st" and c: "pipe_create cur st = (rc, fds, st')"
  obtains (fail) "rc = - VNU_ENOSPC" "fds = None" "pipe_inv st'" "view st' = view st"
  | (made) t st1 pi r w er ew where "rc = 0" "fds = Some (r, w)" "table_for cur st = (Some t, st1)"
      "pi < MAX_PIPES" "\<not> p_used (pipes st ! pi)" "3 \<le> r" "3 \<le> w" "r < MAX_FD" "w < MAX_FD" "r \<noteq> w"
      "\<not> f_used (entry st1 t r)" "\<not> f_used (entry st1 t w)"
      "er = \<lparr>f_used = True, is_pipe = True, pipe_id = pi, write_end = False\<rparr>"
      "ew = \<lparr>f_used = True, is_pipe = True, pipe_id = pi, write_end = True\<rparr>"
      "st' = set_pipe pi (\<lambda>_. no_pipe\<lparr>p_used := True, readers := 1, writers := 1\<rparr>)
        (set_entry t w ew (set_entry t r er st1))" "pipe_inv st'"
proof (cases "for_first 0 MAX_PIPES (\<lambda>i. if \<not> p_used (pipes st ! i) then Some i else None)")
  case None
  with c inv show ?thesis by (intro fail) (auto simp: pipe_create_def)
next
  case (Some pi)
  note ff = Some
  from for_first_SomeD [OF ff] have pi: "pi < MAX_PIPES" "\<not> p_used (pipes st ! pi)"
    by (auto split: if_splits)
  obtain ot st1 where tf: "table_for cur st = (ot, st1)" by fastforce
  show ?thesis
  proof (cases ot)
    case None
    with c ff tf inv table_for_None [of cur st st1] show ?thesis by (intro fail) (auto simp: pipe_create_def)
  next
    case (Some t)
    note sp = table_for_spec [OF inv tf [unfolded Some]] and vt = view_table_for [OF inv tf [unfolded Some]]
    show ?thesis
    proof (cases "alloc_in (tables st1 ! t)")
      case None
      with c ff tf Some sp(1) vt(1) show ?thesis by (intro fail) (auto simp: pipe_create_def)
    next
      case (Some r)
      note ar = alloc_in_Some [OF Some]
      define er where "er = \<lparr>f_used = True, is_pipe = True, pipe_id = pi, write_end = False\<rparr>"
      define st2 where "st2 = set_entry t r er st1"
      have len: "t < length (tables st1)" "r < length (t_e (tables st1 ! t))"
        using sp(2) pipe_invD(5,6) [OF sp(1)] ar by simp_all
      show ?thesis
      proof (cases "alloc_in (tables st2 ! t)")
        case None
        have "set_entry t r no_fd st2 = set_entry t r no_fd st1"
          using len by (simp add: st2_def set_entry_def)
        moreover have "pipe_inv (set_entry t r no_fd st1)"
          by (rule set_unused_entry_inv [OF sp(1)]) (use sp ar in \<open>auto simp: no_fd_def\<close>)
        moreover have "view (set_entry t r no_fd st1) = view st"
          unfolding vt(1) [symmetric]
          by (rule view_unused_entry [OF sp(1) vt(2)]) (use ar in \<open>auto simp: no_fd_def\<close>)
        ultimately show ?thesis
          using c ff tf \<open>ot = Some t\<close> Some None
          by (intro fail) (auto simp: pipe_create_def Let_def st2_def er_def)
      next
        case (Some w)
        note aw = alloc_in_Some [OF Some]
        define ew where "ew = \<lparr>f_used = True, is_pipe = True, pipe_id = pi, write_end = True\<rparr>"
        have w: "w < length (t_e (tables st1 ! t))" using sp(2) pipe_invD(6) [OF sp(1)] aw by simp
        have rw: "r \<noteq> w" and fw: "\<not> f_used (entry st1 t w)"
          using aw len w by (auto simp: st2_def entry_set_entry er_def split: if_splits)
        have st': "st' = set_pipe pi (\<lambda>_. no_pipe\<lparr>p_used := True, readers := 1, writers := 1\<rparr>)
            (set_entry t w ew (set_entry t r er st1))" "rc = 0" "fds = Some (r, w)"
          using c ff tf \<open>ot = Some t\<close> \<open>alloc_in (tables st1 ! t) = Some r\<close> Some
          by (auto simp: pipe_create_def Let_def st2_def er_def ew_def)
        have "pipe_inv st'"
          unfolding st'(1)
          by (rule create_tables_inv) (use sp ar aw pi rw fw in \<open>auto simp: er_def ew_def\<close>)
        with st' tf \<open>ot = Some t\<close> pi ar aw rw fw show ?thesis
          by (intro made [of r w t st1 pi er ew]) (simp_all add: er_def ew_def)
      qed
    qed
  qed
qed

text \<open>\<^verbatim>\<open>fork_copy\<close>: the first loop copies the table, the second counts every copied end.\<close>

lemma copy_loop:
  assumes "src < length (tables st)" "dst < length (tables st)"
    "length (t_e (tables st ! src)) = MAX_FD" "length (t_e (tables st ! dst)) = MAX_FD" "n \<le> MAX_FD"
  shows "fold (\<lambda>i st. set_entry dst i (entry st src i) st) [0..<n] st =
    st\<lparr>tables := (tables st)[dst := (tables st ! dst)
      \<lparr>t_e := take n (t_e (tables st ! src)) @ drop n (t_e (tables st ! dst))\<rparr>]\<rparr>"
  using assms(5)
proof (induction n)
  case 0
  then show ?case by simp
next
  case (Suc n)
  let ?S = "t_e (tables st ! src)" and ?D = "t_e (tables st ! dst)"
  have n: "n < length ?S" "n < length ?D" using Suc.prems assms(3,4) by simp_all
  have "(take n ?S @ drop n ?D)[n := ?S ! n] = take (Suc n) ?S @ drop (Suc n) ?D"
    using n by (simp add: list_update_append take_Suc_conv_app_nth upd_conv_take_nth_drop)
  moreover have "(take n ?S @ drop n ?S) ! n = ?S ! n" by simp
  ultimately show ?case
    using Suc assms(1,2) by (cases "src = dst") (simp_all add: set_entry_def)
qed

lemma count_loop:
  assumes "dst < length (tables st)" "n \<le> length (t_e (tables st ! dst))" "k < length (pipes st)"
  defines "cnt \<equiv> \<lambda>we. \<Sum>e\<leftarrow>take n (t_e (tables st ! dst)). of_bool (refers we k e) :: int"
  defines "st' \<equiv> fold (\<lambda>i st. if \<not> f_used (entry st dst i) then st
             else set_pipe (pipe_id (entry st dst i)) (add_ref (entry st dst i)) st) [0..<n] st"
  shows "tables st' = tables st \<and> length (pipes st') = length (pipes st) \<and>
     pipes st' ! k = (pipes st ! k)\<lparr>readers := readers (pipes st ! k) + cnt False,
       writers := writers (pipes st ! k) + cnt True\<rparr>"
  using assms(2) unfolding cnt_def st'_def
proof (induction n)
  case 0
  then show ?case by simp
next
  case (Suc n)
  let ?s = "fold (\<lambda>i st. if \<not> f_used (entry st dst i) then st
             else set_pipe (pipe_id (entry st dst i)) (add_ref (entry st dst i)) st) [0..<n] st"
  have t: "tables ?s = tables st" "length (pipes ?s) = length (pipes st)" using Suc by simp_all
  have ih: "pipes ?s ! k = (pipes st ! k)
     \<lparr>readers := readers (pipes st ! k) + (\<Sum>e\<leftarrow>take n (t_e (tables st ! dst)). of_bool (refers False k e)),
      writers := writers (pipes st ! k) + (\<Sum>e\<leftarrow>take n (t_e (tables st ! dst)). of_bool (refers True k e))\<rparr>"
    using Suc by simp
  have tk: "take (Suc n) (t_e (tables st ! dst)) = take n (t_e (tables st ! dst)) @ [entry st dst n]"
    using Suc.prems by (simp add: take_Suc_conv_app_nth)
  show ?case
    using assms(3) t
    by (cases "pipe_id (entry st dst n) = k"; cases "f_used (entry st dst n)";
        cases "write_end (entry st dst n)")
      (simp_all add: tk ih pipes_set_pipe add_ref_def refers_def)
qed

lemma table_refs_le:
  assumes "ti < length (tables st)"
  shows "table_refs we pi (tables st ! ti) \<le> refs we pi st"
  using refs_set_table [OF assms, of we pi no_table] table_refs_empty [of no_table]
    refs_nonneg [of we pi "st\<lparr>tables := (tables st)[ti := no_table]\<rparr>"]
  by (simp add: no_table_def no_fd_def)

lemma fork_tables_inv:
  assumes inv: "pipe_inv st" and t: "src < MAX_TABLES" "dst < MAX_TABLES" "t_used (tables st ! dst)"
    and empty: "\<And>j. j < MAX_FD \<Longrightarrow> \<not> f_used (entry st dst j)"
  defines "st3 \<equiv> fold (\<lambda>i st. set_entry dst i (entry st src i) st) [0..<MAX_FD] st"
  defines "st4 \<equiv> fold (\<lambda>i st. if \<not> f_used (entry st dst i) then st
      else set_pipe (pipe_id (entry st dst i)) (add_ref (entry st dst i)) st) [0..<MAX_FD] st3"
  shows "pipe_inv st4"
    and "tables st4 = (tables st)[dst := (tables st ! dst)\<lparr>t_e := t_e (tables st ! src)\<rparr>]"
proof -
  note ok = pipe_invD [OF inv]
  let ?d = "(tables st ! dst)\<lparr>t_e := t_e (tables st ! src)\<rparr>"
  have st3: "st3 = st\<lparr>tables := (tables st)[dst := ?d]\<rparr>"
    unfolding st3_def using t ok by (simp add: copy_loop)
  have cl: "tables st4 = tables st3 \<and> length (pipes st4) = MAX_PIPES \<and>
     pipes st4 ! k = (pipes st ! k)\<lparr>readers := readers (pipes st ! k) + table_refs False k (tables st ! src),
       writers := writers (pipes st ! k) + table_refs True k (tables st ! src)\<rparr>" if "k < MAX_PIPES" for k
    using count_loop [of dst st3 MAX_FD k] that t ok
    unfolding st4_def by (simp add: st3 table_refs_def)
  have len: "length (pipes st4) = MAX_PIPES" and tb: "tables st4 = (tables st)[dst := ?d]"
    using cl [of 0] by (simp_all add: st3 MAX_PIPES_def)
  show "tables st4 = (tables st)[dst := ?d]" by (rule tb)
  have tj: "(tables st)[dst := ?d] ! tj = (if tj = dst then ?d else tables st ! tj)" if "tj < MAX_TABLES" for tj
    using that ok(5) by (simp add: nth_list_update)
  have "table_refs we k (tables st ! dst) = 0" for we k
    using table_refs_empty [of "tables st ! dst"] ok(6) [OF t(2)] empty by simp
  then have r: "refs we k st4 = refs we k st + table_refs we k (tables st ! src)" for we k
    using refs_set_table [of dst st we k ?d] t ok(5) by (simp add: refs_def tb table_refs_def)
  have "tables_ok st4"
  proof (rule tables_okI)
    fix ti j assume j: "ti < MAX_TABLES" "j < MAX_FD" "f_used (entry st4 ti j)"
    then show "t_used (tables st4 ! ti) \<and> is_pipe (entry st4 ti j) \<and> pipe_id (entry st4 ti j) < MAX_PIPES"
      using tables_okD(4) [OF ok(1) j(1,2)] tables_okD(4) [OF ok(1) t(1) j(2)] t(3)
      by (cases "ti = dst") (simp_all add: tb tj)
  next
    fix ti tk assume a: "ti < MAX_TABLES" "tk < MAX_TABLES" "t_used (tables st4 ! ti)" "t_used (tables st4 ! tk)"
      "t_pid (tables st4 ! ti) = t_pid (tables st4 ! tk)"
    then show "ti = tk"
      using tables_okD(5) [OF ok(1), of ti tk] by (cases "ti = dst"; cases "tk = dst") (simp_all add: tb tj)
  qed (use t ok len in \<open>simp_all add: tb tj\<close>)
  moreover have "counts_ok st4"
    unfolding counts_ok_def
  proof (intro allI impI)
    fix k assume k: "k < MAX_PIPES"
    have "table_refs False k (tables st ! src) \<le> refs False k st"
      "table_refs True k (tables st ! src) \<le> refs True k st" using t(1) ok(5) by (simp_all add: table_refs_le)
    then show "readers (pipes st4 ! k) = refs False k st4 \<and> writers (pipes st4 ! k) = refs True k st4 \<and>
        (p_used (pipes st4 ! k) \<longleftrightarrow> 0 < refs False k st4 + refs True k st4)"
      using counts_okD [OF ok(2) k] cl [OF k] table_refs_nonneg [of False k "tables st ! src"]
        table_refs_nonneg [of True k "tables st ! src"] by (simp add: r) linarith
  qed
  moreover have "rings_ok st4" using ok(3) cl by (simp add: rings_ok_def ring_ok_def)
  ultimately show "pipe_inv st4" by (simp add: pipe_inv_def)
qed

lemma fork_copy_inv:
  assumes inv: "pipe_inv st"
  shows "pipe_inv (fork_copy cur child st)"
proof (cases "find_table cur st")
  case (Some src)
  obtain od st1 where tf: "table_for child st = (od, st1)" by fastforce
  show ?thesis
  proof (cases od)
    case None
    with Some tf inv table_for_None [of child st st1] show ?thesis by (simp add: fork_copy_def)
  next
    case (Some dst)
    note sp = table_for_spec [OF inv tf [unfolded Some]]
    note r = release_spec [OF sp(1,2)]
    have "pipe_inv (fold (\<lambda>i st. if \<not> f_used (entry st dst i) then st
        else set_pipe (pipe_id (entry st dst i)) (add_ref (entry st dst i)) st) [0..<MAX_FD]
        (fold (\<lambda>i st. set_entry dst i (entry st src i) st) [0..<MAX_FD] (release dst st1)))"
      using find_table_Some [OF \<open>find_table cur st = Some src\<close>] sp r(2) r(5)
      by (intro fork_tables_inv(1) [OF r(1)]) simp_all
    with tf Some \<open>find_table cur st = Some src\<close> sp(3) show ?thesis by (simp add: fork_copy_def Let_def)
  qed
qed (simp add: fork_copy_def inv)

lemma pipe_get_frame: "pipe_get n p = (bs, p') \<Longrightarrow>
    readers p' = readers p \<and> writers p' = writers p \<and> p_used p' = p_used p"
proof (induction n arbitrary: p bs)
  case (Suc n)
  then show ?case by (cases "0 < p_len p") (auto split: prod.splits)
qed simp

lemma pipe_put_frame: "pipe_put bs p = (k, p') \<Longrightarrow>
    readers p' = readers p \<and> writers p' = writers p \<and> p_used p' = p_used p"
proof (induction bs arbitrary: p k)
  case (Cons b bs)
  then show ?case by (cases "p_len p < BUF") (auto split: prod.splits)
qed simp

lemma set_ring_inv:
  assumes inv: "pipe_inv st" and "ring_ok p"
    and "readers p = readers (pipes st ! pi)" "writers p = writers (pipes st ! pi)" "p_used p = p_used (pipes st ! pi)"
  shows "pipe_inv (set_pipe pi (\<lambda>_. p) st)"
proof -
  note ok = pipe_invD [OF inv]
  have "counts_ok (set_pipe pi (\<lambda>_. p) st)"
    using ok(2,4) assms(3-5) by (simp add: counts_ok_def pipes_set_pipe)
  moreover have "rings_ok (set_pipe pi (\<lambda>_. p) st)" by (rule rings_ok_set_pipe) (use ok assms(2) in simp_all)
  ultimately show ?thesis using ok(1) by (simp add: pipe_inv_def)
qed

lemma held_ring:
  assumes inv: "pipe_inv st" and t: "find_table cur st = Some t" and f: "is_pipe_fd cur n st"
  shows "pipe_id (entry st t (nat n)) < MAX_PIPES" "ring_ok (pipes st ! pipe_id (entry st t (nat n)))"
proof -
  show "pipe_id (entry st t (nat n)) < MAX_PIPES"
    using tables_okD(4) [OF pipe_invD(1) [OF inv], of t "nat n"] find_table_Some [OF t] is_pipe_fdD [OF f t] by simp
  then show "ring_ok (pipes st ! pipe_id (entry st t (nat n)))"
    using pipe_invD(3) [OF inv] by (simp add: rings_ok_def)
qed

lemma read_fd_inv:
  assumes inv: "pipe_inv st"
  shows "pipe_inv (snd (snd (read_fd cur n cnt st)))"
proof (cases "find_table cur st")
  case (Some t)
  let ?p = "pipes st ! pipe_id (entry st t (nat n))"
  obtain out p' where g: "pipe_get cnt ?p = (out, p')" by fastforce
  show ?thesis
  proof (cases "is_pipe_fd cur n st")
    case True
    have "pipe_inv (set_pipe (pipe_id (entry st t (nat n))) (\<lambda>_. p') st)"
      using inv held_ring [OF inv Some True] pipe_get_frame [OF g] ring.get_ok [OF _ g]
      by (intro set_ring_inv) simp_all
    with Some inv g show ?thesis by (simp add: read_fd_def Let_def)
  qed (simp add: read_fd_def inv Some)
qed (simp add: read_fd_def inv)

lemma write_fd_inv:
  assumes inv: "pipe_inv st"
  shows "pipe_inv (snd (write_fd cur n buf st))"
proof (cases "find_table cur st")
  case (Some t)
  let ?p = "pipes st ! pipe_id (entry st t (nat n))"
  obtain k p' where g: "pipe_put buf ?p = (k, p')" by fastforce
  show ?thesis
  proof (cases "is_pipe_fd cur n st")
    case True
    have "pipe_inv (set_pipe (pipe_id (entry st t (nat n))) (\<lambda>_. p') st)"
      using inv held_ring [OF inv Some True] pipe_put_frame [OF g] ring.put_ok [OF _ g]
      by (intro set_ring_inv) simp_all
    with Some inv g show ?thesis by (simp add: write_fd_def Let_def)
  qed (simp add: write_fd_def inv Some)
qed (simp add: write_fd_def inv)

lemma pipe_init_inv: "pipe_inv pipe_init"
proof -
  have z: "refs we pi pipe_init = 0" for we pi
    by (simp add: refs_def pipe_init_def sum_list_replicate table_refs_def no_table_def no_fd_def refers_def)
  show ?thesis
    unfolding pipe_inv_def
  proof (intro conjI)
    show "tables_ok pipe_init"
      by (rule tables_okI) (simp_all add: pipe_init_def no_table_def no_fd_def)
    show "counts_ok pipe_init" by (simp add: counts_ok_def z) (simp add: pipe_init_def no_pipe_def)
    show "rings_ok pipe_init" by (simp add: rings_ok_def ring_ok_def pipe_init_def no_pipe_def BUF_def)
  qed
qed

section \<open>All calls of all processes\<close>

datatype pipe_call = Create | Read int nat | Write int "u8 list" | Close int | Dup int | Dup2 int int
  | Fork u32 | End_of u32

text \<open>
  One system call of process \<open>cur\<close>.  \<^verbatim>\<open>End_of pid\<close> is the end of a process, which closes its
  descriptors by \<^verbatim>\<open>close_all_of(pid)\<close>: of the caller itself in \<^verbatim>\<open>sys_exit\<close>, of any other process in
  \<^verbatim>\<open>signal_kill\<close>.
\<close>

fun do_call :: "u32 \<Rightarrow> pipe_call \<Rightarrow> pipe_state \<Rightarrow> pipe_state" where
  "do_call cur Create st = snd (snd (pipe_create cur st))"
| "do_call cur (Read n cnt) st = snd (snd (read_fd cur n cnt st))"
| "do_call cur (Write n buf) st = snd (write_fd cur n buf st)"
| "do_call cur (Close n) st = snd (close_fd cur n st)"
| "do_call cur (Dup n) st = snd (dup_fd cur n st)"
| "do_call cur (Dup2 n m) st = snd (dup2_fd cur n m st)"
| "do_call cur (Fork child) st = fork_copy cur child st"
| "do_call cur (End_of pid) st = close_all_of pid st"

inductive pipe_reach :: "pipe_state \<Rightarrow> bool" where
  boot: "pipe_reach pipe_init"
| call: "pipe_reach st \<Longrightarrow> pipe_reach (do_call cur c st)"

lemma do_call_inv:
  assumes "pipe_inv st"
  shows "pipe_inv (do_call cur c st)"
proof (cases c)
  case Create
  obtain rc fds st' where "pipe_create cur st = (rc, fds, st')" by (metis prod_cases3)
  with pipe_create_cases [OF assms this] Create show ?thesis by auto
qed (use assms in \<open>simp_all add: read_fd_inv write_fd_inv close_fd_inv dup_fd_inv dup2_fd_inv
      fork_copy_inv close_all_of_inv\<close>)

lemma pipe_reach_inv: "pipe_reach st \<Longrightarrow> pipe_inv st"
  by (induction rule: pipe_reach.induct) (simp_all add: pipe_init_inv do_call_inv)

section \<open>The calls on the view\<close>

lemma view_close_fd:
  assumes inv: "pipe_inv st" and c: "is_pipe_fd cur n st"
  shows "view (snd (close_fd cur n st)) = (view st)(cur := (view st cur)(nat n := None))"
    and "fst (close_fd cur n st) = 0"
proof -
  from c obtain t where t: "find_table cur st = Some t" by (auto simp: is_pipe_fd_def split: option.splits)
  from view_drop_entry [OF pipe_invD(1) [OF inv] t] is_pipe_fdD [OF c t] c t
  show "view (snd (close_fd cur n st)) = (view st)(cur := (view st cur)(nat n := None))"
    and "fst (close_fd cur n st) = 0" by (simp_all add: close_fd_def)
qed

lemma is_pipe_fd_view:
  assumes inv: "pipe_inv st"
  shows "is_pipe_fd cur n st \<longleftrightarrow> 0 \<le> n \<and> view st cur (nat n) \<noteq> None"
proof (cases "find_table cur st")
  case (Some t)
  then have "t < MAX_TABLES" using find_table_Some by blast
  with tables_okD(4) [OF pipe_invD(1) [OF inv] this] Some show ?thesis
    by (cases "0 \<le> n \<and> n < int MAX_FD") (auto simp: is_pipe_fd_def view_def)
qed (simp add: is_pipe_fd_def view_def)

lemma view_dup_fd:
  assumes inv: "pipe_inv st" and c: "is_pipe_fd cur oldfd st" and d: "dup_fd cur oldfd st = (r, st')" and r: "0 \<le> r"
  shows "view st' = (view st)(cur := (view st cur)(nat r := view st cur (nat oldfd)))"
    and "view st cur (nat r) = None" and "3 \<le> r"
proof -
  from c obtain t where t: "find_table cur st = Some t" by (auto simp: is_pipe_fd_def split: option.splits)
  with c d r obtain n where n: "alloc_in (tables st ! t) = Some n" "r = int n"
    and st': "st' = set_pipe (pipe_id (entry st t (nat oldfd))) (add_ref (entry st t (nat oldfd)))
      (set_entry t n (entry st t (nat oldfd)) st)"
    by (auto simp: dup_fd_def Let_def errno_defs split: option.splits)
  note a = alloc_in_Some [OF n(1)]
  show "view st' = (view st)(cur := (view st cur)(nat r := view st cur (nat oldfd)))"
    using view_set_entry [OF pipe_invD(1) [OF inv] t, of n] a is_pipe_fdD [OF c t]
    by (simp add: st' n(2) view_Some [OF t])
  show "view st cur (nat r) = None" "3 \<le> r" using a n(2) by (simp_all add: view_Some [OF t] fd_view_def)
qed

lemma view_dup2_fd:
  assumes inv: "pipe_inv st" and c: "is_pipe_fd cur oldfd st" and n: "0 \<le> newfd" "newfd < int MAX_FD"
  shows "view (snd (dup2_fd cur oldfd newfd st)) =
      (view st)(cur := (view st cur)(nat newfd := view st cur (nat oldfd)))"
    and "fst (dup2_fd cur oldfd newfd st) = newfd"
proof -
  from c obtain t where t: "find_table cur st = Some t" by (auto simp: is_pipe_fd_def split: option.splits)
  let ?o = "nat oldfd" and ?n = "nat newfd"
  define s1 where "s1 = (if f_used (entry st t ?n) \<and> is_pipe (entry st t ?n) then snd (close_fd cur newfd st) else st)"
  have o: "0 \<le> oldfd" "?o < MAX_FD" and nn: "?n < MAX_FD" using is_pipe_fdD [OF c t] n by auto
  show "fst (dup2_fd cur oldfd newfd st) = newfd" using c t n by (simp add: dup2_fd_def Let_def)
  show "view (snd (dup2_fd cur oldfd newfd st)) =
      (view st)(cur := (view st cur)(nat newfd := view st cur (nat oldfd)))"
  proof (cases "oldfd = newfd")
    case True
    with c t n show ?thesis by (simp add: dup2_fd_def)
  next
    case False
    have inv1: "pipe_inv s1" using inv close_fd_inv by (simp add: s1_def)
    have s1: "s1 = st \<or> s1 = drop_entry t ?n st"
      using t n by (auto simp: s1_def close_fd_def is_pipe_fd_def)
    have f1: "find_table cur s1 = Some t"
      using s1 t by (subst find_table_cong [of _ _ st]) (auto simp: drop_entry_frame)
    have v1: "(view s1 cur)(?n := x) = (view st cur)(?n := x)" "pid \<noteq> cur \<Longrightarrow> view s1 pid = view st pid" for x pid
      using s1 view_drop_entry [OF pipe_invD(1) [OF inv] t nn] by auto
    have "view s1 cur ?o = view st cur ?o" using fun_cong [OF v1(1) [of None], of ?o] False o(1) n(1) by (auto simp: fun_upd_def fun_eq_iff split: if_splits)
    moreover have "view (set_pipe k f (set_entry t ?n (entry s1 t ?o) s1)) =
        (view s1)(cur := (view s1 cur)(?n := view s1 cur ?o))" for k f
      using view_set_entry [OF pipe_invD(1) [OF inv1] f1 nn] by (simp add: view_Some [OF f1 o(2)])
    moreover have "(view s1)(cur := x) = (view st)(cur := x)" for x using v1(2) by auto
    ultimately show ?thesis
      using c t n False by (simp add: dup2_fd_def Let_def v1(1) flip: s1_def)
  qed
qed

lemma view_create:
  assumes inv: "pipe_inv st" and c: "pipe_create cur st = (0, Some (r, w), st')"
  shows "\<exists>pi < MAX_PIPES. \<not> p_used (pipes st ! pi) \<and> r \<noteq> w \<and> view st cur r = None \<and> view st cur w = None \<and>
    view st' = (view st)(cur := (view st cur)(r := Some (pi, False), w := Some (pi, True)))"
proof (rule pipe_create_cases [OF inv c], goal_cases)
  case (2 t st1 pi rr ww er ew)
  have i1: "pipe_inv st1" using table_for_spec(1) [OF inv 2(3)] .
  note v1 = view_table_for [OF inv 2(3)]
  have rw: "rr = r" "ww = w" using 2(2) by simp_all
  have t1: "t_used (tables st1 ! t)" and tt: "t < MAX_TABLES" using table_for_spec(2,3) [OF inv 2(3)] by simp_all
  let ?s = "set_entry t r er st1"
  have "tables_ok ?s"
    by (rule tables_ok_set_entry [OF pipe_invD(1) [OF i1]]) (use 2(4,13) t1 in simp)
  moreover have "find_table cur ?s = Some t"
    using v1(2) by (subst find_table_cong [of _ _ st1]) simp_all
  ultimately have "view (set_entry t w ew ?s) = (view ?s)(cur := (view ?s cur)(w := fd_view ew))"
    using 2(9) rw by (intro view_set_entry) simp_all
  moreover have "view ?s = (view st1)(cur := (view st1 cur)(r := fd_view er))"
    by (rule view_set_entry) (use pipe_invD(1) [OF i1] v1(2) 2(8) rw in simp_all)
  ultimately show ?case
    using 2(4-15) v1 rw by (auto simp: fd_view_def view_Some [OF v1(2), unfolded v1(1)] intro!: exI [of _ pi])
qed (simp add: errno_defs)

lemma view_close_all_of:
  assumes inv: "pipe_inv st"
  shows "view (close_all_of cur st) = (view st)(cur := (\<lambda>_. None))"
proof (cases "find_table cur st")
  case None
  then have "view st cur = (\<lambda>_. None)" by (auto simp: view_def)
  with None show ?thesis by (auto simp: close_all_of_def)
next
  case (Some t)
  have t: "t < MAX_TABLES" "t_pid (tables st ! t) = cur" using find_table_Some [OF Some] by simp_all
  note r = release_spec [OF inv t(1)]
  let ?r = "release t st"
  let ?s = "?r\<lparr>tables := (tables ?r)[t := no_table]\<rparr>"
  have len: "length (tables ?r) = MAX_TABLES" using pipe_invD(5) [OF r(1)] .
  have "view ?s pid = (if pid = cur then (\<lambda>_. None) else view ?r pid)" for pid
  proof (cases "pid = cur")
    case True
    have "find_table cur ?s = None"
    proof (cases "find_table cur ?s")
      case (Some t')
      have "t' = t" if "t_used (tables ?r ! t')" "t_pid (tables ?r ! t') = cur" "t' < MAX_TABLES"
        using tables_okD(5) [OF pipe_invD(1) [OF inv] that(3) t(1)] that r(2,3) t
          find_table_Some [OF \<open>find_table cur st = Some t\<close>] by simp
      with find_table_Some [OF Some] len show ?thesis
        by (cases "t' = t") (auto simp: no_table_def)
    qed
    with True show ?thesis by (auto simp: view_def)
  next
    case False
    have "view ?s pid = view ?r pid"
    proof (rule view_cong)
      fix ti assume "ti < MAX_TABLES"
      then show "(t_used (tables ?s ! ti) \<and> t_pid (tables ?s ! ti) = pid) =
          (t_used (tables ?r ! ti) \<and> t_pid (tables ?r ! ti) = pid)"
        using False t r(3) [of t] len by (cases "ti = t") (simp_all add: no_table_def)
    next
      fix ti j assume "find_table pid ?r = Some ti"
      then have "ti \<noteq> t" using find_table_Some [of pid ?r ti] r(3) [of t] t False by auto
      then show "fd_view (entry ?s ti j) = fd_view (entry ?r ti j)" by simp
    qed
    with False show ?thesis by simp
  qed
  with view_release [OF inv Some] Some show ?thesis by (auto simp: close_all_of_def Let_def)
qed

lemma fork_copy_tables:
  assumes inv: "pipe_inv st" and s: "find_table cur st = Some src"
    and d: "table_for child st = (Some dst, st1)"
  defines "r \<equiv> release dst st1"
  shows "tables (fork_copy cur child st) = (tables r)[dst := (tables r ! dst)\<lparr>t_e := t_e (tables r ! src)\<rparr>]"
    and "length (tables r) = MAX_TABLES" and "dst < MAX_TABLES" and "t_pid (tables r ! dst) = child"
    and "find_table pid (fork_copy cur child st) = find_table pid st1"
    and "view r = (view st)(child := (\<lambda>_. None))"
proof -
  note sp = table_for_spec [OF inv d] and v1 = view_table_for [OF inv d]
  note rel = release_spec [OF sp(1,2), folded r_def]
  show len: "length (tables r) = MAX_TABLES" using pipe_invD(5) [OF rel(1)] .
  show tb: "tables (fork_copy cur child st) = (tables r)[dst := (tables r ! dst)\<lparr>t_e := t_e (tables r ! src)\<rparr>]"
    using s d sp(3) fork_tables_inv(2) [OF rel(1) _ sp(2)] rel(2,5) find_table_Some [OF s]
    by (simp add: fork_copy_def Let_def flip: r_def)
  show "dst < MAX_TABLES" "t_pid (tables r ! dst) = child" using sp(2,4) rel(3) by simp_all
  show "find_table pid (fork_copy cur child st) = find_table pid st1"
    by (rule find_table_cong) (simp add: tb nth_list_update len sp(2) rel(2,3))
  show "view r = (view st)(child := (\<lambda>_. None))" using view_release [OF sp(1) v1(2)] v1(1) by (simp add: r_def)
qed

lemma view_fork_other:
  assumes inv: "pipe_inv st" and s: "find_table cur st = Some src"
    and d: "table_for child st = (Some dst, st1)" and ne: "pid \<noteq> child"
  shows "view (fork_copy cur child st) pid = view st pid"
proof -
  note f = fork_copy_tables [OF inv s d]
  let ?r = "release dst st1" and ?f = "fork_copy cur child st"
  have "view ?f pid = view ?r pid"
  proof (rule view_cong)
    fix ti j assume "find_table pid ?r = Some ti"
    then have "ti \<noteq> dst" using find_table_Some [of pid ?r ti] f(4) ne by auto
    then show "fd_view (entry ?f ti j) = fd_view (entry ?r ti j)" by (simp add: f(1))
  qed (simp add: f(1) nth_list_update f(2,3))
  with f(6) ne show ?thesis by simp
qed

lemma view_fork_child:
  assumes inv: "pipe_inv st" and s: "find_table cur st = Some src"
    and d: "table_for child st = (Some dst, st1)" and ne: "cur \<noteq> child"
  shows "view (fork_copy cur child st) child = view st cur"
proof
  fix m
  note f = fork_copy_tables [OF inv s d] and sp = table_for_spec [OF inv d]
  have src: "src < MAX_TABLES" "t_used (tables st ! src)" "t_pid (tables st ! src) = cur"
    using find_table_Some [OF s] by simp_all
  have src1: "tables st1 ! src = tables st ! src" by (rule sp(8)) (use src in simp_all)
  have sd: "src \<noteq> dst" using src src1 sp(4) ne by auto
  show "view (fork_copy cur child st) child m = view st cur m"
  proof (cases "m < MAX_FD")
    case True
    have "find_table child (fork_copy cur child st) = Some dst" using f(5) view_table_for(2) [OF inv d] by simp
    from view_Some [OF this True] have "view (fork_copy cur child st) child m = fd_view (entry (release dst st1) src m)"
      using f(2,3) by (simp add: f(1))
    also have "\<dots> = fd_view (entry st src m)" using release_spec(4) [OF sp(1,2) src(1) True sd] src1 by simp
    finally show ?thesis by (simp add: view_Some [OF s True])
  qed (simp add: view_beyond)
qed

lemma refs_zero_iff:
  assumes inv: "pipe_inv st"
  shows "refs we pi st = 0 \<longleftrightarrow> (\<forall>pid n. view st pid n \<noteq> Some (pi, we))"
proof
  assume z: "refs we pi st = 0"
  show "\<forall>pid n. view st pid n \<noteq> Some (pi, we)"
  proof (intro allI notI)
    fix pid n assume v: "view st pid n = Some (pi, we)"
    then obtain t where t: "find_table pid st = Some t" by (auto simp: view_def split: option.splits)
    have n: "n < MAX_FD" using v view_beyond by force
    with v t have "refers we pi (entry st t n)" by (auto simp: view_def refers_def split: if_splits)
    then show False
      using entry_le_refs [of t st n we pi] z find_table_Some [OF t] n pipe_invD(5,6) [OF inv] by simp
  qed
next
  assume no: "\<forall>pid n. view st pid n \<noteq> Some (pi, we)"
  note ok = pipe_invD [OF inv]
  have nr: "\<not> refers we pi (entry st t n)" if t: "t < MAX_TABLES" "n < MAX_FD" for t n
  proof
    assume r: "refers we pi (entry st t n)"
    then have "t_used (tables st ! t)" using tables_okD(4) [OF ok(1) t] by (simp add: refers_def)
    from view_Some [OF find_table_eq [OF ok(1) t(1) this refl] t(2)] r no show False
      by (simp add: fd_view_def refers_def)
  qed
  have "table_refs we pi x = 0" if x: "x \<in> set (tables st)" for x
  proof -
    from x ok(5) obtain t where t: "t < MAX_TABLES" "x = tables st ! t" by (auto simp: in_set_conv_nth)
    have "map (\<lambda>e. of_bool (refers we pi e)) (t_e x) = map (\<lambda>_. 0 :: int) (t_e x)"
      using nr [OF t(1)] ok(6) [OF t(1)] by (intro map_cong refl) (auto simp: in_set_conv_nth t(2))
    then show ?thesis unfolding table_refs_def by (simp only:) simp
  qed
  then have "map (table_refs we pi) (tables st) = map (\<lambda>_. 0) (tables st)" by simp
  then show "refs we pi st = 0" unfolding refs_def by (simp only:) simp
qed

lemma view_foreign:
  assumes inv: "pipe_inv st" and p: "pid \<noteq> cur" "c \<noteq> Fork pid"
  shows "view (do_call cur c st) pid = (if c = End_of pid then (\<lambda>_. None) else view st pid)"
proof (cases c)
  case Create
  obtain rc fds st' where e: "pipe_create cur st = (rc, fds, st')" by (metis prod_cases3)
  show ?thesis
  proof (cases "fds = None")
    case False
    then obtain r w where "fds = Some (r, w)" by auto
    moreover from this have "rc = 0" by (rule_tac pipe_create_cases [OF inv e]) simp_all
    ultimately show ?thesis using view_create [OF inv, of cur r w st'] e p(1) Create by auto
  next
    case True
    then show ?thesis by (rule_tac pipe_create_cases [OF inv e]) (simp_all add: e Create)
  qed
next
  case (Read n k)
  have "view (snd (snd (read_fd cur n k st))) = view st"
    by (simp add: read_fd_def Let_def split: option.split prod.split)
  with Read show ?thesis by simp
next
  case (Write n buf)
  have "view (snd (write_fd cur n buf st)) = view st"
    by (simp add: write_fd_def Let_def split: option.split prod.split)
  with Write show ?thesis by simp
next
  case (Close n)
  with view_close_fd(1) [OF inv, of cur n] p(1) show ?thesis
    by (cases "is_pipe_fd cur n st") (auto simp: close_fd_def split: option.split)
next
  case (Dup n)
  obtain r st' where d: "dup_fd cur n st = (r, st')" by fastforce
  show ?thesis
  proof (cases "is_pipe_fd cur n st \<and> 0 \<le> r")
    case True
    with view_dup_fd(1) [OF inv _ d] d p(1) Dup show ?thesis by simp
  next
    case False
    with d have "st' = st" by (auto simp: dup_fd_def Let_def split: option.splits if_splits)
    with d Dup show ?thesis by simp
  qed
next
  case (Dup2 n m)
  show ?thesis
  proof (cases "is_pipe_fd cur n st \<and> 0 \<le> m \<and> m < int MAX_FD")
    case True
    with view_dup2_fd(1) [OF inv, of cur n m] p(1) Dup2 show ?thesis by simp
  next
    case False
    then have "snd (dup2_fd cur n m st) = st" by (auto simp: dup2_fd_def split: option.split)
    with Dup2 show ?thesis by simp
  qed
next
  case (Fork child)
  show ?thesis
  proof (cases "find_table cur st")
    case (Some src)
    obtain od st1 where tf: "table_for child st = (od, st1)" by fastforce
    show ?thesis
    proof (cases od)
      case None
      with tf Some table_for_None [of child st st1] Fork show ?thesis by (simp add: fork_copy_def)
    next
      case (Some dst)
      with view_fork_other [OF inv \<open>find_table cur st = Some src\<close>] tf p Fork show ?thesis by simp
    qed
  qed (simp add: fork_copy_def Fork)
next
  case (End_of q)
  with view_close_all_of [OF inv] show ?thesis by auto
qed

section \<open>Properties\<close>

text \<open>For the witnesses: process 1 has created a pipe, and process 2 has inherited its ends.\<close>

definition one_proc :: pipe_state where
  "one_proc = do_call 1 Create pipe_init"

definition two_procs :: pipe_state where
  "two_procs = do_call 1 (Fork 2) one_proc"

lemma procs_reach: "pipe_reach one_proc" "pipe_reach two_procs"
  unfolding two_procs_def one_proc_def by (intro pipe_reach.intros)+

lemma boot_table_for:
  "table_for 1 pipe_init =
     (Some 0, pipe_init\<lparr>tables := (tables pipe_init)[0 := no_table\<lparr>t_used := True, t_pid := 1\<rparr>]\<rparr>)"
proof -
  have "find_table 1 pipe_init = None"
    by (simp add: find_table_def for_first_None_iff pipe_init_def no_table_def)
  moreover have "for_first 0 MAX_TABLES (\<lambda>i. if \<not> t_used (tables pipe_init ! i) then Some i else None) = Some 0"
    by (simp add: for_first_step pipe_init_def no_table_def MAX_TABLES_def)
  ultimately show ?thesis by (simp add: table_for_def)
qed

lemma boot_create:
  "pipe_create 1 pipe_init = (0, Some (3, 4), one_proc)"
  "one_proc = set_pipe 0 (\<lambda>_. no_pipe\<lparr>p_used := True, readers := 1, writers := 1\<rparr>)
     (pipe_init\<lparr>tables := (tables pipe_init)[0 := \<lparr>t_used = True, t_pid = 1, t_e = (replicate MAX_FD no_fd)
        [3 := \<lparr>f_used = True, is_pipe = True, pipe_id = 0, write_end = False\<rparr>,
         4 := \<lparr>f_used = True, is_pipe = True, pipe_id = 0, write_end = True\<rparr>]\<rparr>]\<rparr>)" (is "_ = ?s")
proof -
  let ?t = "\<lambda>es. \<lparr>t_used = True, t_pid = 1, t_e = es\<rparr>"
  have p: "for_first 0 MAX_PIPES (\<lambda>i. if \<not> p_used (pipes pipe_init ! i) then Some i else None) = Some 0"
    by (simp add: for_first_step pipe_init_def no_pipe_def MAX_PIPES_def)
  have a: "alloc_in (?t (replicate MAX_FD no_fd)) = Some 3"
    "f_used e \<Longrightarrow> alloc_in (?t ((replicate MAX_FD no_fd)[3 := e])) = Some 4" for e
    by (simp_all add: alloc_in_def for_first_step no_fd_def MAX_FD_def)
  have l: "0 < length (tables pipe_init)" by (simp add: pipe_init_def MAX_TABLES_def)
  have "pipe_create 1 pipe_init = (0, Some (3, 4), ?s)"
    using l by (simp add: pipe_create_def p boot_table_for no_table_def a set_entry_def Let_def)
  then show "pipe_create 1 pipe_init = (0, Some (3, 4), one_proc)" "one_proc = ?s" by (simp_all add: one_proc_def)
qed

lemma one_proc_view:
  "find_table 1 one_proc = Some 0" "view one_proc 1 3 = Some (0, False)" "view one_proc 1 4 = Some (0, True)"
proof -
  show t: "find_table 1 one_proc = Some 0"
    by (rule find_table_eq [OF pipe_invD(1) [OF pipe_reach_inv [OF procs_reach(1)]]])
      (simp_all add: boot_create(2) pipe_init_def MAX_TABLES_def)
  show "view one_proc 1 3 = Some (0, False)" "view one_proc 1 4 = Some (0, True)"
    by (simp_all add: view_def t) (simp_all add: boot_create(2) pipe_init_def MAX_TABLES_def MAX_FD_def)
qed

text \<open>
  C1. In every state the calls of any processes can reach, \<^verbatim>\<open>readers\<close> and \<^verbatim>\<open>writers\<close> of each pipe are
  the number of descriptors, over the tables of all processes, that refer to its read and its write
  end; the pipe is in use exactly when some descriptor refers to it, and its ring indices stay in
  range.
\<close>

theorem pipe_counts_exact:
  assumes "pipe_reach st" "pi < MAX_PIPES"
  shows "readers (pipes st ! pi) = refs False pi st \<and> writers (pipes st ! pi) = refs True pi st \<and>
    (p_used (pipes st ! pi) \<longleftrightarrow> (\<exists>pid n we. view st pid n = Some (pi, we))) \<and> ring_ok (pipes st ! pi)"
proof -
  note inv = pipe_reach_inv [OF assms(1)]
  have "(\<exists>pid n we. view st pid n = Some (pi, we)) \<longleftrightarrow> refs False pi st \<noteq> 0 \<or> refs True pi st \<noteq> 0"
    unfolding refs_zero_iff [OF inv] by (simp add: ex_bool_eq) blast
  also have "\<dots> \<longleftrightarrow> 0 < refs False pi st + refs True pi st"
    using refs_nonneg [of False pi st] refs_nonneg [of True pi st] by linarith
  finally have "(\<exists>pid n we. view st pid n = Some (pi, we)) \<longleftrightarrow> 0 < refs False pi st + refs True pi st" .
  then show ?thesis
    using counts_okD [OF pipe_invD(2) [OF inv] assms(2)] pipe_invD(3) [OF inv] assms(2) by (simp add: rings_ok_def)
qed

theorem pipe_counts_exact_witness:
  "pipe_reach two_procs \<and> 0 < MAX_PIPES \<and> readers (pipes two_procs ! 0) = refs False 0 two_procs"
  using pipe_counts_exact [OF procs_reach(2), of 0] procs_reach(2) by (simp add: MAX_PIPES_def)

text \<open>
  C19. Bytes come out of a pipe in the order they went in, none lost and none repeated: over any
  sequence of the copy loops of \<^verbatim>\<open>write_fd\<close> and \<^verbatim>\<open>read_fd\<close> on a pipe that \<^verbatim>\<open>create\<close> has just cleared, the
  bytes accepted are the bytes delivered followed by those still in the ring.
\<close>

theorem pipe_fifo:
  assumes "run_chan pipe_put pipe_get ops (no_pipe\<lparr>p_used := True, readers := 1, writers := 1\<rparr>) = (acc, del, p)"
  shows "acc = del @ ring_bytes p \<and> length (ring_bytes p) \<le> BUF"
proof -
  have "ring_ok (no_pipe\<lparr>p_used := True, readers := 1, writers := 1\<rparr>)"
    by (simp add: ring_ok_def no_pipe_def BUF_def)
  from ring.run_fifo [OF this assms] ring.bounded [of p] show ?thesis
    by (simp add: ring_bytes_def no_pipe_def)
qed

theorem pipe_fifo_witness:
  "\<exists>p. run_chan pipe_put pipe_get [Put [1, 2, 3], Get (Suc (Suc 0)), Put [4]]
       (no_pipe\<lparr>p_used := True, readers := 1, writers := 1\<rparr>) = ([1, 2, 3, 4], [1, 2], p) \<and>
     [1, 2, 3, 4] = [1, 2] @ ring_bytes p"
proof -
  have "\<exists>p. run_chan pipe_put pipe_get [Put [1, 2, 3], Get (Suc (Suc 0)), Put [4]]
       (no_pipe\<lparr>p_used := True, readers := 1, writers := 1\<rparr>) = ([1, 2, 3, 4], [1, 2], p)"
    by (simp add: no_pipe_def BUF_def)
  then show ?thesis using pipe_fifo by blast
qed

lemma view_entry:
  assumes inv: "pipe_inv st" and v: "0 \<le> n" "view st cur (nat n) = Some (pi, we)"
  obtains t where "find_table cur st = Some t" "is_pipe_fd cur n st" "pipe_id (entry st t (nat n)) = pi"
    "write_end (entry st t (nat n)) = we" "pi < MAX_PIPES" "ring_ok (pipes st ! pi)"
proof -
  from v obtain t where t: "find_table cur st = Some t" by (auto simp: view_def split: option.splits)
  have f: "is_pipe_fd cur n st" using is_pipe_fd_view [OF inv] v by simp
  show ?thesis
    by (rule that [OF t f]) (use v t held_ring [OF inv t f] in \<open>auto simp: view_def split: if_splits\<close>)
qed

text \<open>
  C3. Reading from a pipe end takes the oldest bytes of the ring, at most as many as asked for. An
  empty ring gives end of file (0) exactly when no process holds a write end of the pipe any more, and
  \<^verbatim>\<open>-EAGAIN\<close> as long as one does.
\<close>

theorem read_fd_result:
  assumes "pipe_reach st" "0 \<le> n" "view st cur (nat n) = Some (pi, False)" "0 < cnt"
    and "read_fd cur n cnt st = (r, out, st')"
  shows "out = take cnt (ring_bytes (pipes st ! pi)) \<and>
    ring_bytes (pipes st' ! pi) = drop cnt (ring_bytes (pipes st ! pi)) \<and>
    r = (if ring_bytes (pipes st ! pi) \<noteq> [] then int (length out)
         else if \<exists>pid m. view st pid m = Some (pi, True) then - VNU_EAGAIN else 0)"
proof -
  note inv = pipe_reach_inv [OF assms(1)]
  from view_entry [OF inv assms(2,3)] obtain t where t: "find_table cur st = Some t" "is_pipe_fd cur n st"
    "pipe_id (entry st t (nat n)) = pi" "\<not> write_end (entry st t (nat n))" "pi < MAX_PIPES"
    "ring_ok (pipes st ! pi)" by auto
  obtain o' p' where g: "pipe_get cnt (pipes st ! pi) = (o', p')" by fastforce
  have c: "out = o'" "o' = take cnt (ring_bytes (pipes st ! pi))" "ring_bytes p' = drop cnt (ring_bytes (pipes st ! pi))"
    using assms(5) t g ring.get_out [OF t(6) g] ring.get_contents [OF t(6) g]
    by (auto simp: read_fd_def Let_def split: if_splits)
  have w: "writers p' = refs True pi st"
    using pipe_get_frame [OF g] counts_okD [OF pipe_invD(2) [OF inv] t(5)] by simp
  have "pipes st' ! pi = p'"
    using assms(5) t g pipe_invD(4) [OF inv] by (auto simp: read_fd_def Let_def pipes_set_pipe split: if_splits)
  moreover have "r = (if out \<noteq> [] then int (length out) else if refs True pi st = 0 then 0 else - VNU_EAGAIN)"
    using assms(5) t g w by (auto simp: read_fd_def Let_def split: if_splits)
  ultimately show ?thesis using c assms(4) refs_zero_iff [OF inv, of True pi] by auto
qed

theorem read_fd_result_witness:
  "view one_proc 1 (nat 3) = Some (0, False) \<and> fst (read_fd 1 3 10 one_proc) = - VNU_EAGAIN"
proof -
  obtain r out st' where e: "read_fd 1 3 10 one_proc = (r, out, st')" by (metis prod_cases3)
  have "ring_bytes (pipes one_proc ! 0) = []"
    by (simp add: boot_create(2) pipe_init_def set_pipe_def MAX_PIPES_def no_pipe_def ring_bytes_def)
  with read_fd_result [OF procs_reach(1) _ _ _ e, of 0] one_proc_view e show ?thesis by auto
qed

text \<open>
  C4. Writing to a pipe end fails with \<^verbatim>\<open>-EPIPE\<close> exactly when no process holds a read end of the pipe;
  otherwise it appends the first bytes of the buffer, as many as the ring has room for, and answers
  their number.
\<close>

theorem write_fd_result:
  assumes "pipe_reach st" "0 \<le> n" "view st cur (nat n) = Some (pi, True)"
    and "write_fd cur n buf st = (r, st')"
  shows "if \<exists>pid m. view st pid m = Some (pi, False)
    then r = int (min (length buf) (BUF - length (ring_bytes (pipes st ! pi)))) \<and>
      ring_bytes (pipes st' ! pi) = ring_bytes (pipes st ! pi) @ take (nat r) buf
    else r = - VNU_EPIPE \<and> st' = st"
proof -
  note inv = pipe_reach_inv [OF assms(1)]
  from view_entry [OF inv assms(2,3)] obtain t where t: "find_table cur st = Some t" "is_pipe_fd cur n st"
    "pipe_id (entry st t (nat n)) = pi" "write_end (entry st t (nat n))" "pi < MAX_PIPES"
    "ring_ok (pipes st ! pi)" by auto
  obtain k p' where g: "pipe_put buf (pipes st ! pi) = (k, p')" by fastforce
  have "readers (pipes st ! pi) = refs False pi st" using counts_okD [OF pipe_invD(2) [OF inv] t(5)] by simp
  then have "(r, st') = (if refs False pi st = 0 then (- VNU_EPIPE, st) else (int k, set_pipe pi (\<lambda>_. p') st))"
    using assms(4) t g by (auto simp: write_fd_def Let_def split: if_splits)
  moreover have "pipes (set_pipe pi (\<lambda>_. p') st) ! pi = p'"
    using t(5) pipe_invD(4) [OF inv] by (simp add: pipes_set_pipe)
  ultimately show ?thesis
    using refs_zero_iff [OF inv, of False pi] ring.put_count [OF t(6) g] ring.put_contents [OF t(6) g]
    by (auto split: if_splits)
qed

theorem write_fd_result_witness:
  "view one_proc 1 (nat 4) = Some (0, True) \<and> fst (write_fd 1 4 [7, 8] one_proc) = 2"
proof -
  obtain r st' where e: "write_fd 1 4 [7, 8] one_proc = (r, st')" by fastforce
  have "ring_bytes (pipes one_proc ! 0) = []"
    by (simp add: boot_create(2) pipe_init_def set_pipe_def MAX_PIPES_def no_pipe_def ring_bytes_def)
  moreover have "\<exists>pid m. view one_proc pid m = Some (0, False)" using one_proc_view(2) by blast
  ultimately show ?thesis
    using write_fd_result [OF procs_reach(1) _ _ e, of 0] one_proc_view e by (simp add: BUF_def)
qed

text \<open>
  C15. Processes cannot touch each other's descriptors: no call of one process, failing or not,
  changes what another process sees behind its descriptor numbers, except the fork that creates it
  and the signal that kills it, which leaves it without descriptors.
\<close>

theorem pipe_calls_isolated:
  assumes "pipe_reach st" "pid \<noteq> cur" "c \<noteq> Fork pid"
  shows "view (do_call cur c st) pid = (if c = End_of pid then (\<lambda>_. None) else view st pid)"
  by (rule view_foreign [OF pipe_reach_inv [OF assms(1)] assms(2,3)])

theorem pipe_calls_isolated_witness:
  "view (do_call 2 (Close 3) one_proc) 1 3 = Some (0, False) \<and>
   view (do_call 2 (End_of 1) one_proc) 1 3 = None"
  using pipe_calls_isolated [OF procs_reach(1), of 1 2 "Close 3"]
    pipe_calls_isolated [OF procs_reach(1), of 1 2 "End_of 1"] one_proc_view(2) by simp

text \<open>
  C20. The descriptor calls act on the caller's table as POSIX asks. \<^verbatim>\<open>dup2\<close> makes the new number refer
  to the end the old one refers to, whatever it referred to before; a \<^verbatim>\<open>close\<close> clears the number and nothing
  else; \<^verbatim>\<open>fork_copy\<close> gives the child exactly the parent's descriptors (when a table is left for it) and
  changes no other process; \<^verbatim>\<open>close_all_of\<close> leaves the process without descriptors.
\<close>

theorem descriptor_calls:
  assumes "pipe_reach st" "is_pipe_fd cur old st" "0 \<le> new" "new < int MAX_FD" "cur \<noteq> child"
  shows "view (snd (dup2_fd cur old new st)) = (view st)(cur := (view st cur)(nat new := view st cur (nat old))) \<and>
    view (snd (close_fd cur old st)) = (view st)(cur := (view st cur)(nat old := None)) \<and>
    (fst (table_for child st) \<noteq> None \<longrightarrow> view (fork_copy cur child st) = (view st)(child := view st cur)) \<and>
    view (close_all_of cur st) = (view st)(cur := (\<lambda>_. None))"
proof -
  note inv = pipe_reach_inv [OF assms(1)]
  obtain src where src: "find_table cur st = Some src"
    using assms(2) by (auto simp: is_pipe_fd_def split: option.splits)
  have "view (fork_copy cur child st) = (view st)(child := view st cur)" if "fst (table_for child st) \<noteq> None"
  proof -
    from that obtain dst st1 where d: "table_for child st = (Some dst, st1)" by (cases "table_for child st") auto
    show ?thesis using view_fork_other [OF inv src d] view_fork_child [OF inv src d assms(5)] by auto
  qed
  then show ?thesis
    using view_dup2_fd(1) [OF inv assms(2-4)] view_close_fd(1) [OF inv assms(2)] view_close_all_of [OF inv] by blast
qed

theorem descriptor_calls_witness:
  "is_pipe_fd 1 3 one_proc \<and> view (snd (dup2_fd 1 3 0 one_proc)) 1 0 = Some (0, False) \<and>
     view (close_all_of 1 one_proc) 1 4 = None"
proof -
  have f: "is_pipe_fd 1 3 one_proc"
    using is_pipe_fd_view [OF pipe_reach_inv [OF procs_reach(1)], of 1 3] one_proc_view(2) by simp
  then show ?thesis
    using descriptor_calls [OF procs_reach(1) f, of 0 2] one_proc_view by (simp add: MAX_FD_def)
qed

end
