(* ===== verification/Paths.thy ===== *)
theory Paths
  imports Prelude
begin

text \<open>
  The path routines of \<^verbatim>\<open>vnu/kernel/fs/vfs.cpp\<close>: string comparison and copying, \<^verbatim>\<open>normalize\<close>, the
  parent/child tests and the splitting of an in-mount path. A NUL-terminated C string is the list
  of its characters before the NUL; a write into a buffer of \<open>n\<close> bytes keeps at most \<open>n - 1\<close> of them.
\<close>

section \<open>Definitions\<close>

definition PATH_CAP :: nat where "PATH_CAP = 64"

abbreviation slash :: char where "slash \<equiv> CHR ''/''"

fun same :: "string \<Rightarrow> string \<Rightarrow> bool" where
  "same (a # as) (b # bs) = (a = b \<and> same as bs)"
| "same [] [] = True"
| "same _ _ = False"

definition copy_str :: "string \<Rightarrow> nat \<Rightarrow> string" where
  "copy_str s n = take (n - 1) s"

fun prefix_at :: "string \<Rightarrow> string \<Rightarrow> bool" where
  "prefix_at path [] = (path = [] \<or> hd path = slash)"
| "prefix_at [] (a # as) = False"
| "prefix_at (p # ps) (a # as) = (if p = a then prefix_at ps as else False)"

text \<open>\<^verbatim>\<open>split_parent\<close>: the parent, cut to \<open>cap\<close> bytes, and the final component.\<close>

definition last_slash :: "string \<Rightarrow> nat option" where
  "last_slash s = fold (\<lambda>i r. if s ! i = slash then Some i else r) [0..<length s] None"

definition split_parent :: "string \<Rightarrow> nat \<Rightarrow> string \<times> string" where
  "split_parent rel cap =
     (case last_slash rel of
        None \<Rightarrow> ([], rel)
      | Some k \<Rightarrow> (take (if k \<ge> cap then cap - 1 else k) rel, drop (k + 1) rel))"

definition mount_vol_path :: "string \<Rightarrow> string \<Rightarrow> nat \<Rightarrow> string" where
  "mount_vol_path subdir rel cap =
     (let o1 = take (cap - 1) subdir;
          o2 = (if o1 \<noteq> [] \<and> rel \<noteq> [] \<and> length o1 + 1 < cap then o1 @ [slash] else o1)
      in o2 @ take (cap - 1 - length o2) rel)"

definition is_under :: "string \<Rightarrow> string \<Rightarrow> bool" where
  "is_under prefix path =
     (if same prefix path then False
      else take (length prefix) path = prefix \<and> length prefix < length path \<and> path ! length prefix = slash)"

text \<open>\<^verbatim>\<open>normalize\<close>: the raw path, its components resolved on a stack of at most 16, and the rebuilt text.\<close>

definition raw_path :: "string \<Rightarrow> string \<Rightarrow> string" where
  "raw_path cwd path =
     (if path = [] then copy_str cwd PATH_CAP
      else if hd path = slash then copy_str path PATH_CAP
      else let r = take (PATH_CAP - 2) cwd;
               r' = (if 1 < length r \<and> last r \<noteq> slash then r @ [slash] else r)
           in r' @ take (PATH_CAP - 1 - length r') path)"

definition MAX_DEPTH :: nat where "MAX_DEPTH = 16"

definition push_seg :: "string \<Rightarrow> string list \<Rightarrow> string list" where
  "push_seg seg st =
     (if seg = ''.'' then st
      else if seg = ''..'' then (if st \<noteq> [] then butlast st else st)
      else if length st < MAX_DEPTH then st @ [seg] else st)"

function scan_segs :: "string \<Rightarrow> string list \<Rightarrow> string list" where
  "scan_segs raw st =
     (let r = dropWhile (\<lambda>c. c = slash) raw
      in if r = [] then st
         else scan_segs (dropWhile (\<lambda>c. c \<noteq> slash) r) (push_seg (takeWhile (\<lambda>c. c \<noteq> slash) r) st))"
  by pat_completeness auto

lemma drop_comp_shorter:
  "dropWhile (\<lambda>c. c = slash) raw \<noteq> [] \<Longrightarrow>
     length (dropWhile (\<lambda>c. c \<noteq> slash) (dropWhile (\<lambda>c. c = slash) raw)) < length raw"
proof -
  assume ne: "dropWhile (\<lambda>c. c = slash) raw \<noteq> []"
  then obtain c cs where c: "dropWhile (\<lambda>c. c = slash) raw = c # cs" by (cases "dropWhile (\<lambda>c. c = slash) raw") auto
  then have "c \<noteq> slash" using hd_dropWhile [OF ne] by simp
  then have "length (dropWhile (\<lambda>c. c \<noteq> slash) (dropWhile (\<lambda>c. c = slash) raw)) \<le> length cs"
    using c length_dropWhile_le [of "\<lambda>c. c \<noteq> slash" cs] by simp
  also have "\<dots> < length raw" using c length_dropWhile_le [of "\<lambda>c. c = slash" raw] by simp
  finally show ?thesis .
qed

termination scan_segs
  by (relation "measure (\<lambda>(raw, _). length raw)") (auto simp: drop_comp_shorter)

definition put_char :: "nat \<Rightarrow> char \<Rightarrow> string \<Rightarrow> string" where
  "put_char outn c out = (if length out < outn - 1 then out @ [c] else out)"

definition rebuild :: "string list \<Rightarrow> nat \<Rightarrow> string" where
  "rebuild segs outn =
     (let o1 = (if 0 < outn then [slash] else []);
          o2 = fold (\<lambda>k out. fold (put_char outn) (segs ! k)
                 (if 0 < k then put_char outn slash out else out)) [0..<length segs] o1
      in if length o2 < outn then o2 else take (outn - 1) o2)"

definition normalize :: "string \<Rightarrow> string \<Rightarrow> nat \<Rightarrow> string" where
  "normalize cwd path outn = rebuild (scan_segs (raw_path cwd path) []) outn"

text \<open>The directory part that \<^verbatim>\<open>parent_dir\<close> looks up, and the two name tests of the listings.\<close>

fun last_slash_below :: "string \<Rightarrow> nat \<Rightarrow> nat" where
  "last_slash_below s 0 = 0"
| "last_slash_below s (Suc i) = (if s ! Suc i \<noteq> slash then last_slash_below s i else Suc i)"

definition parent_path :: "string \<Rightarrow> string" where
  "parent_path p =
     (let i = last_slash_below p (length p - 1)
      in if i = 0 then ''/'' else take i (copy_str p PATH_CAP))"

definition is_prefix_child :: "string \<Rightarrow> string \<Rightarrow> bool" where
  "is_prefix_child parent child =
     (if same parent child then False
      else if parent = ''/'' then
        child \<noteq> [] \<and> hd child = slash \<and> slash \<notin> set (tl child) \<and> tl child \<noteq> []
      else take (length parent) child = parent \<and> length parent < length child \<and>
        child ! length parent = slash \<and> slash \<notin> set (drop (length parent + 1) child) \<and>
        drop (length parent + 1) child \<noteq> [])"

definition basename :: "string \<Rightarrow> string" where
  "basename path = (case last_slash path of None \<Rightarrow> path | Some k \<Rightarrow> drop (k + 1) path)"

section \<open>Components\<close>

text \<open>The text of a list of components, and the components of a text.\<close>

definition path_of :: "string list \<Rightarrow> string" where
  "path_of segs = (if segs = [] then ''/'' else concat (map (\<lambda>s. slash # s) segs))"

function comps :: "string \<Rightarrow> string list" where
  "comps raw =
     (let r = dropWhile (\<lambda>c. c = slash) raw
      in if r = [] then [] else takeWhile (\<lambda>c. c \<noteq> slash) r # comps (dropWhile (\<lambda>c. c \<noteq> slash) r))"
  by pat_completeness auto

termination comps
  by (relation "measure length") (auto simp: drop_comp_shorter)

declare scan_segs.simps [simp del] comps.simps [simp del]
declare dropWhile_eq_Nil_conv [simp del]

definition plain :: "string \<Rightarrow> bool" where
  "plain s \<longleftrightarrow> s \<noteq> [] \<and> slash \<notin> set s"

definition clean :: "string \<Rightarrow> bool" where
  "clean s \<longleftrightarrow> plain s \<and> s \<noteq> ''.'' \<and> s \<noteq> ''..''"

lemma same_iff [simp]: "same a b \<longleftrightarrow> a = b"
  by (induction a b rule: same.induct) auto

lemma scan_segs_fold: "scan_segs raw st = fold push_seg (comps raw) st"
proof (induction raw st rule: scan_segs.induct)
  case (1 raw st)
  show ?case
  proof (cases "dropWhile (\<lambda>c. c = slash) raw = []")
    case True
    then show ?thesis by (simp add: scan_segs.simps [of raw] comps.simps [of raw] Let_def)
  next
    case False
    from "1.IH" [OF refl False] False show ?thesis
      by (simp add: scan_segs.simps [of raw] comps.simps [of raw] Let_def)
  qed
qed

lemma comps_Nil [simp]: "comps [] = []"
  by (simp add: comps.simps [of "[]"])

lemma comps_slash [simp]: "comps (slash # s) = comps s"
  by (simp add: comps.simps [of "slash # s"] comps.simps [of s])

lemma comps_append:
  assumes "plain s" "rest = [] \<or> hd rest = slash"
  shows "comps (s @ rest) = s # comps rest"
proof -
  from assms(1) obtain c cs where s: "s = c # cs" and c: "c \<noteq> slash" by (cases s) (auto simp: plain_def)
  have all: "\<And>x. x \<in> set s \<Longrightarrow> x \<noteq> slash" using assms(1) by (auto simp: plain_def)
  have "dropWhile (\<lambda>c. c = slash) (s @ rest) = s @ rest" using s c by simp
  moreover have "takeWhile (\<lambda>c. c \<noteq> slash) (s @ rest) = s @ takeWhile (\<lambda>c. c \<noteq> slash) rest"
    using all by (subst takeWhile_append2) auto
  moreover have "takeWhile (\<lambda>c. c \<noteq> slash) rest = []" using assms(2) by (cases rest) auto
  moreover have "dropWhile (\<lambda>c. c \<noteq> slash) (s @ rest) = dropWhile (\<lambda>c. c \<noteq> slash) rest"
    using all by (subst dropWhile_append2) auto
  moreover have "dropWhile (\<lambda>c. c \<noteq> slash) rest = rest" using assms(2) by (cases rest) auto
  moreover have "s @ rest \<noteq> []" using s by simp
  ultimately show ?thesis unfolding comps.simps [of "s @ rest"] by (simp add: Let_def)
qed

lemma comps_plain: "s \<in> set (comps raw) \<Longrightarrow> plain s"
proof (induction raw rule: comps.induct)
  case (1 raw)
  let ?r = "dropWhile (\<lambda>c. c = slash) raw"
  show ?case
  proof (cases "?r = []")
    case True
    with "1.prems" show ?thesis by (simp add: comps.simps [of raw])
  next
    case False
    from "1.prems" False have "s = takeWhile (\<lambda>c. c \<noteq> slash) ?r \<or> s \<in> set (comps (dropWhile (\<lambda>c. c \<noteq> slash) ?r))"
      by (simp add: comps.simps [of raw] Let_def del: dropWhile_eq_Nil_conv)
    moreover have "plain (takeWhile (\<lambda>c. c \<noteq> slash) ?r)"
      using hd_dropWhile [OF False] False by (cases ?r) (auto simp: plain_def dest: set_takeWhileD)
    ultimately show ?thesis using "1.IH" [OF refl False] by blast
  qed
qed

lemma comps_path_of:
  "(\<And>s. s \<in> set segs \<Longrightarrow> plain s) \<Longrightarrow> comps (path_of segs) = segs"
proof -
  have "comps (concat (map (\<lambda>s. slash # s) segs)) = segs" if "\<And>s. s \<in> set segs \<Longrightarrow> plain s" for segs
    using that
  proof (induction segs)
    case (Cons s segs)
    have "concat (map (\<lambda>s. slash # s) segs) = [] \<or> hd (concat (map (\<lambda>s. slash # s) segs)) = slash"
      by (cases segs) auto
    with Cons show ?case by (simp add: comps_append)
  qed simp
  then show "(\<And>s. s \<in> set segs \<Longrightarrow> plain s) \<Longrightarrow> comps (path_of segs) = segs"
    by (cases "segs = []") (simp_all add: path_of_def)
qed

text \<open>Resolving \<^verbatim>\<open>.\<close> and \<^verbatim>\<open>..\<close>: what is on the stack is clean, at most 16 deep, and no longer than its source.\<close>

definition weight :: "string list \<Rightarrow> nat" where
  "weight segs = length (concat (map (\<lambda>s. slash # s) segs))"

lemma weight_simps [simp]: "weight [] = 0" "weight (s # ss) = Suc (length s) + weight ss"
  "weight (xs @ ys) = weight xs + weight ys"
  by (simp_all add: weight_def)

lemma weight_butlast: "weight (butlast st) \<le> weight st"
proof (cases st rule: rev_cases)
  case (snoc xs x)
  then show ?thesis by simp
qed simp

lemma resolve_clean:
  "(\<And>s. s \<in> set cs \<Longrightarrow> plain s) \<Longrightarrow> (\<And>s. s \<in> set st \<Longrightarrow> clean s) \<Longrightarrow> s \<in> set (fold push_seg cs st) \<Longrightarrow> clean s"
proof (induction cs arbitrary: st)
  case (Cons c cs)
  show ?case
  proof (rule Cons.IH [of "push_seg c st"])
    fix t assume "t \<in> set (push_seg c st)"
    then show "clean t"
      using Cons.prems(1) [of c] Cons.prems(2)
      by (auto simp: push_seg_def clean_def split: if_splits dest: in_set_butlastD)
  qed (use Cons.prems in simp_all)
qed simp

lemma resolve_depth: "length st \<le> MAX_DEPTH \<Longrightarrow> length (fold push_seg cs st) \<le> MAX_DEPTH"
proof (induction cs arbitrary: st)
  case (Cons c cs)
  have "length (push_seg c st) \<le> MAX_DEPTH" using Cons.prems by (auto simp: push_seg_def)
  from Cons.IH [OF this] show ?case by simp
qed simp

lemma resolve_weight: "weight (fold push_seg cs st) \<le> weight st + weight cs"
proof (induction cs arbitrary: st)
  case (Cons c cs)
  have "weight (push_seg c st) \<le> weight st + Suc (length c)"
    using weight_butlast [of st] by (auto simp: push_seg_def)
  with Cons.IH [of "push_seg c st"] show ?case by simp
qed simp

lemma resolve_clean_id:
  "(\<And>s. s \<in> set cs \<Longrightarrow> clean s) \<Longrightarrow> length st + length cs \<le> MAX_DEPTH \<Longrightarrow> fold push_seg cs st = st @ cs"
proof (induction cs arbitrary: st)
  case (Cons c cs)
  have "push_seg c st = st @ [c]" using Cons.prems(1) [of c] Cons.prems(2) by (simp add: push_seg_def clean_def)
  with Cons show ?case by simp
qed simp

lemma resolve_keeps:
  "''..'' \<notin> set cs \<Longrightarrow> \<exists>more. fold push_seg cs st = st @ more"
proof (induction cs arbitrary: st)
  case (Cons c cs)
  have "c \<noteq> ''..''" using Cons.prems by auto
  then have "\<exists>m. push_seg c st = st @ m" by (simp add: push_seg_def)
  then obtain m where m: "push_seg c st = st @ m" by blast
  from Cons.IH [of "st @ m"] Cons.prems m show ?case by auto
qed simp

lemma weight_comps: "weight (comps raw) \<le> length raw + of_bool (raw \<noteq> [] \<and> hd raw \<noteq> slash)"
proof (induction raw rule: comps.induct)
  case (1 raw)
  let ?r = "dropWhile (\<lambda>c. c = slash) raw"
  let ?seg = "takeWhile (\<lambda>c. c \<noteq> slash) ?r" and ?rest = "dropWhile (\<lambda>c. c \<noteq> slash) ?r"
  show ?case
  proof (cases "?r = []")
    case False
    have c: "comps raw = ?seg # comps ?rest" using False by (simp add: comps.simps [of raw] Let_def)
    have l: "length ?seg + length ?rest = length ?r" by (metis length_append takeWhile_dropWhile_id)
    have "?rest = [] \<or> hd ?rest = slash" using hd_dropWhile [of "\<lambda>c. c \<noteq> slash" ?r] by blast
    with "1.IH" [OF refl False] have r: "weight (comps ?rest) \<le> length ?rest" by auto
    have "Suc (length ?r) \<le> length raw + of_bool (raw \<noteq> [] \<and> hd raw \<noteq> slash)"
      using False length_dropWhile_le [of "\<lambda>c. c = slash" "tl raw"] by (cases raw) auto
    with c l r show ?thesis by simp
  qed (simp add: comps.simps [of raw])
qed

text \<open>Rebuilding the text does not truncate when it fits.\<close>

lemma fold_put_char:
  "length out + length cs \<le> outn - 1 \<Longrightarrow> fold (put_char outn) cs out = out @ cs"
  by (induction cs arbitrary: out) (simp_all add: put_char_def)

lemma rebuild_loop:
  assumes "n \<le> length segs" "weight segs < outn" "segs \<noteq> []"
  shows "fold (\<lambda>k out. fold (put_char outn) (segs ! k)
            (if 0 < k then put_char outn slash out else out)) [0..<n] [slash] =
         (if n = 0 then [slash] else concat (map (\<lambda>s. slash # s) (take n segs)))"
  using assms(1)
proof (induction n)
  case (Suc n)
  let ?o = "if n = 0 then [slash] else concat (map (\<lambda>s. slash # s) (take n segs))"
  let ?c = "concat (map (\<lambda>s. slash # s) (take n segs))"
  have w: "weight (take n segs) + Suc (length (segs ! n)) \<le> weight segs"
    using Suc.prems arg_cong [OF id_take_nth_drop [of n segs], of weight] by simp
  then have lc: "length ?c + Suc (length (segs ! n)) < outn" using assms(2) by (simp add: weight_def)
  have "(if 0 < n then put_char outn slash ?o else ?o) = ?c @ [slash]"
    using lc by (cases "n = 0") (simp_all add: put_char_def)
  moreover have "fold (put_char outn) (segs ! n) (?c @ [slash]) = ?c @ slash # segs ! n"
    using lc by (subst fold_put_char) simp_all
  moreover have "concat (map (\<lambda>s. slash # s) (take (Suc n) segs)) = ?c @ slash # segs ! n"
    using Suc.prems by (simp add: take_Suc_conv_app_nth)
  ultimately show ?case
    using Suc by (cases "n = 0") simp_all
qed simp

lemma rebuild_path_of:
  assumes "weight segs < outn" "1 < outn"
  shows "rebuild segs outn = path_of segs"
proof (cases "segs = []")
  case False
  from rebuild_loop [OF order_refl assms(1) False] False assms show ?thesis
    by (simp add: rebuild_def path_of_def weight_def Let_def)
qed (use assms in \<open>simp add: rebuild_def path_of_def\<close>)

section \<open>The normal form\<close>

definition absolute :: "string \<Rightarrow> bool" where
  "absolute p \<longleftrightarrow> p \<noteq> [] \<and> hd p = slash \<and> length p < PATH_CAP"

definition canonical :: "string \<Rightarrow> bool" where
  "canonical p \<longleftrightarrow> absolute p \<and> (\<exists>segs. p = path_of segs \<and> length segs \<le> MAX_DEPTH \<and> (\<forall>s \<in> set segs. clean s))"

lemma raw_path_absolute:
  assumes "absolute cwd"
  shows "raw_path cwd path \<noteq> [] \<and> hd (raw_path cwd path) = slash \<and> length (raw_path cwd path) < PATH_CAP"
proof -
  from assms obtain c where "cwd = slash # c" by (cases cwd) (auto simp: absolute_def)
  then show ?thesis by (auto simp: raw_path_def copy_str_def PATH_CAP_def Let_def hd_append neq_Nil_conv)
qed

lemma normalize_path_of:
  assumes "absolute cwd"
  shows "normalize cwd path PATH_CAP = path_of (fold push_seg (comps (raw_path cwd path)) [])"
    and "weight (fold push_seg (comps (raw_path cwd path)) []) < PATH_CAP"
proof -
  let ?raw = "raw_path cwd path"
  show w: "weight (fold push_seg (comps ?raw) []) < PATH_CAP"
    using resolve_weight [of "comps ?raw" "[]"] weight_comps [of ?raw] raw_path_absolute [OF assms, of path] by simp
  show "normalize cwd path PATH_CAP = path_of (fold push_seg (comps ?raw) [])"
    unfolding normalize_def scan_segs_fold
    by (rule rebuild_path_of [OF w]) (simp add: PATH_CAP_def)
qed

lemma normalize_segs:
  assumes "absolute cwd"
  obtains segs where "normalize cwd path PATH_CAP = path_of segs" "length segs \<le> MAX_DEPTH"
    "\<And>s. s \<in> set segs \<Longrightarrow> clean s" "weight segs < PATH_CAP"
    "segs = fold push_seg (comps (raw_path cwd path)) []"
proof (rule that [OF normalize_path_of(1) [OF assms] _ _ normalize_path_of(2) [OF assms] refl])
  show "length (fold push_seg (comps (raw_path cwd path)) []) \<le> MAX_DEPTH" by (rule resolve_depth) simp
  show "clean s" if "s \<in> set (fold push_seg (comps (raw_path cwd path)) [])" for s
    by (rule resolve_clean [OF _ _ that]) (auto intro: comps_plain)
qed

lemma absolute_path_of: "weight segs < PATH_CAP \<Longrightarrow> absolute (path_of segs)"
  by (cases segs) (auto simp: path_of_def absolute_def weight_def PATH_CAP_def)

lemma raw_path_absolute_arg: "absolute p \<Longrightarrow> raw_path cwd p = p"
  by (simp add: raw_path_def absolute_def copy_str_def PATH_CAP_def)

lemma normalize_canonical_arg:
  assumes "canonical p"
  shows "normalize cwd p PATH_CAP = p"
proof -
  from assms obtain segs where p: "absolute p" "p = path_of segs" "length segs \<le> MAX_DEPTH" "\<And>s. s \<in> set segs \<Longrightarrow> clean s"
    by (auto simp: canonical_def)
  have c: "comps p = segs" using p(2,4) comps_path_of [of segs] by (simp add: clean_def)
  have r: "scan_segs (raw_path cwd p) [] = segs"
    using resolve_clean_id [of segs "[]"] p(3,4) by (simp add: scan_segs_fold raw_path_absolute_arg [OF p(1)] c)
  have "weight segs < PATH_CAP"
    using p(1,2) by (cases "segs = []") (simp_all add: absolute_def path_of_def weight_def PATH_CAP_def)
  then have "rebuild segs PATH_CAP = path_of segs" by (rule rebuild_path_of) (simp add: PATH_CAP_def)
  with r p(2) show ?thesis by (simp add: normalize_def)
qed

lemma normalize_canonical:
  assumes "absolute cwd"
  shows "canonical (normalize cwd path PATH_CAP)"
  by (rule normalize_segs [OF assms, of path]) (auto simp: canonical_def absolute_path_of)

section \<open>Parents, children and prefixes\<close>

lemma prefix_at_iff: "prefix_at path at \<longleftrightarrow> (\<exists>r. path = at @ r \<and> (r = [] \<or> hd r = slash))"
  by (induction path at rule: prefix_at.induct) auto

lemma last_slash_Suc:
  "fold (\<lambda>i r. if s ! i = slash then Some i else r) [0..<n] None =
     (if \<exists>i < n. s ! i = slash then Some (Max {i. i < n \<and> s ! i = slash}) else None)"
proof (induction n)
  case (Suc n)
  show ?case
  proof (cases "s ! n = slash")
    case True
    have "Max {i. i < Suc n \<and> s ! i = slash} = n" using True by (intro Max_eqI) auto
    moreover have "\<exists>i < Suc n. s ! i = slash" using True by blast
    ultimately show ?thesis using True by simp
  next
    case False
    then have "{i. i < Suc n \<and> s ! i = slash} = {i. i < n \<and> s ! i = slash}"
      "(\<exists>i < Suc n. s ! i = slash) = (\<exists>i < n. s ! i = slash)" by (auto simp: less_Suc_eq)
    with Suc False show ?thesis by simp
  qed
qed simp

lemma last_slash_split: "slash \<notin> set leaf \<Longrightarrow> last_slash (d @ slash # leaf) = Some (length d)"
proof -
  assume l: "slash \<notin> set leaf"
  let ?s = "d @ slash # leaf"
  have "Max {i. i < length ?s \<and> ?s ! i = slash} = length d"
  proof (rule Max_eqI)
    fix i assume "i \<in> {i. i < length ?s \<and> ?s ! i = slash}"
    then have i: "i < length ?s" "?s ! i = slash" by auto
    show "i \<le> length d"
    proof (rule ccontr)
      assume "\<not> i \<le> length d"
      then obtain k where "i = length d + Suc k" by (metis add_Suc_right less_imp_Suc_add not_le)
      with i have "leaf ! k = slash" "k < length leaf" by (simp_all add: nth_append)
      with l show False by (metis nth_mem)
    qed
  qed (auto simp: nth_append)
  moreover have "\<exists>i < length ?s. ?s ! i = slash" by (intro exI [of _ "length d"]) simp
  ultimately show ?thesis by (simp add: last_slash_def last_slash_Suc del: length_append)
qed

lemma last_slash_none: "slash \<notin> set s \<Longrightarrow> last_slash s = None"
  unfolding last_slash_def last_slash_Suc by (auto simp: in_set_conv_nth)

lemma last_slash_below_split:
  assumes "slash \<notin> set leaf" "leaf \<noteq> []"
  shows "last_slash_below (d @ slash # leaf) (length (d @ slash # leaf) - 1) = length d"
proof -
  let ?s = "d @ slash # leaf"
  have "last_slash_below ?s (length d + n) = length d" if "n \<le> length leaf" for n
    using that
  proof (induction n)
    case 0
    then show ?case by (cases "length d") (simp_all, metis append_Cons length_Cons nth_append_length)
  next
    case (Suc n)
    then have "?s ! (length d + Suc n) = leaf ! n" "leaf ! n \<in> set leaf" by (auto simp: nth_append)
    then have "?s ! (length d + Suc n) \<noteq> slash" using assms(1) by metis
    with Suc show ?case by simp
  qed
  from this [of "length leaf"] show ?thesis by simp
qed

lemma path_of_snoc: "path_of (segs @ [s]) = (if segs = [] then [] else path_of segs) @ slash # s"
  by (simp add: path_of_def)

lemma split_last_unique:
  assumes "a @ slash # x = b @ slash # y" "slash \<notin> set x" "slash \<notin> set y"
  shows "a = b \<and> x = y"
  using last_slash_split [OF assms(2), of a] last_slash_split [OF assms(3), of b] assms(1) by simp

lemma path_of_nonroot:
  assumes "segs \<noteq> []" "\<And>s. s \<in> set segs \<Longrightarrow> plain s"
  shows "path_of segs \<noteq> ''/''"
proof
  assume "path_of segs = ''/''"
  then have "comps (path_of segs) = []" by simp
  with comps_path_of [of segs] assms show False by simp
qed

lemma parent_path_snoc:
  assumes "plain s" "weight segs < PATH_CAP" "\<And>s. s \<in> set segs \<Longrightarrow> plain s"
  shows "parent_path (path_of (segs @ [s])) = path_of segs"
proof (cases "segs = []")
  case True
  then have "last_slash_below (path_of (segs @ [s])) (length (path_of (segs @ [s])) - 1) = 0"
    using last_slash_below_split [of s "[]"] assms(1) by (simp add: path_of_def plain_def)
  with True show ?thesis unfolding parent_path_def Let_def by (simp add: path_of_def)
next
  case False
  let ?p = "path_of segs"
  have l: "length ?p = weight segs" "?p \<noteq> []" using False by (auto simp: path_of_def weight_def neq_Nil_conv)
  have e: "path_of (segs @ [s]) = ?p @ slash # s" using False by (simp add: path_of_snoc)
  have "last_slash_below (?p @ slash # s) (length (?p @ slash # s) - 1) = length ?p"
    using assms(1) by (intro last_slash_below_split) (auto simp: plain_def)
  moreover have "0 < length ?p" using l(2) by simp
  ultimately show ?thesis using l(1) assms(2) unfolding e parent_path_def Let_def copy_str_def by simp
qed

lemma is_prefix_child_root: "is_prefix_child ''/'' c \<longleftrightarrow> (\<exists>leaf. c = slash # leaf \<and> leaf \<noteq> [] \<and> slash \<notin> set leaf)"
  by (cases c) (auto simp: is_prefix_child_def)

lemma is_prefix_child_iff:
  assumes "p \<noteq> ''/''"
  shows "is_prefix_child p c \<longleftrightarrow> (\<exists>leaf. c = p @ slash # leaf \<and> leaf \<noteq> [] \<and> slash \<notin> set leaf)"
proof
  assume "is_prefix_child p c"
  then have t: "take (length p) c = p" "length p < length c" "c ! length p = slash"
    "slash \<notin> set (drop (length p + 1) c)" "drop (length p + 1) c \<noteq> []"
    using assms unfolding is_prefix_child_def by (auto split: if_splits)
  have "c = p @ slash # drop (length p + 1) c" using id_take_nth_drop [OF t(2)] t(1,3) by simp
  with t(4,5) show "\<exists>leaf. c = p @ slash # leaf \<and> leaf \<noteq> [] \<and> slash \<notin> set leaf" by blast
next
  assume "\<exists>leaf. c = p @ slash # leaf \<and> leaf \<noteq> [] \<and> slash \<notin> set leaf"
  then show "is_prefix_child p c" using assms unfolding is_prefix_child_def by auto
qed

lemma path_of_inj:
  assumes "path_of xs = path_of ys" "\<And>s. s \<in> set xs \<Longrightarrow> plain s" "\<And>s. s \<in> set ys \<Longrightarrow> plain s"
  shows "xs = ys"
proof -
  have "comps (path_of xs) = xs" "comps (path_of ys) = ys" by (rule comps_path_of, fact)+
  with assms(1) show ?thesis by metis
qed

lemma is_prefix_child_snoc:
  assumes s: "plain s" and ss: "\<And>s. s \<in> set segs \<Longrightarrow> plain s" and ss': "\<And>s. s \<in> set segs' \<Longrightarrow> plain s"
  shows "is_prefix_child (path_of segs') (path_of (segs @ [s])) \<longleftrightarrow> segs' = segs"
proof (cases "segs' = []")
  case True
  then have r: "path_of segs' = ''/''" by (simp add: path_of_def)
  show ?thesis
  proof (cases "segs = []")
    case True
    then show ?thesis unfolding r using s \<open>segs' = []\<close> by (simp add: is_prefix_child_root path_of_def plain_def)
  next
    case False
    then have "slash \<in> set (tl (path_of (segs @ [s])))" by (cases segs) (simp_all add: path_of_def)
    then have "\<not> is_prefix_child ''/'' (path_of (segs @ [s]))" unfolding is_prefix_child_root by auto
    then show ?thesis unfolding r using False \<open>segs' = []\<close> by simp
  qed
next
  case False
  let ?p = "path_of segs'" and ?d = "if segs = [] then [] else path_of segs"
  have sl: "slash \<notin> set s" "s \<noteq> []" using s by (simp_all add: plain_def)
  have np: "?p \<noteq> ''/''" by (rule path_of_nonroot [OF False]) (rule ss')
  have "is_prefix_child ?p (path_of (segs @ [s])) \<longleftrightarrow> ?p = ?d"
  proof
    assume "is_prefix_child ?p (path_of (segs @ [s]))"
    then obtain leaf where "?d @ slash # s = ?p @ slash # leaf" "slash \<notin> set leaf"
      unfolding is_prefix_child_iff [OF np] path_of_snoc by blast
    from split_last_unique [OF this(1) sl(1) this(2)] show "?p = ?d" by simp
  next
    assume "?p = ?d"
    then show "is_prefix_child ?p (path_of (segs @ [s]))"
      unfolding is_prefix_child_iff [OF np] path_of_snoc using sl by (intro exI [of _ s]) simp
  qed
  moreover have "?p \<noteq> []" by (cases segs') (simp_all add: path_of_def)
  ultimately show ?thesis using path_of_inj [of segs' segs] ss ss' False by auto
qed

section \<open>Properties\<close>

text \<open>
  C16. \<^verbatim>\<open>normalize\<close> yields a normal form: whatever path is given, relative or absolute, with or without
  \<^verbatim>\<open>.\<close>, \<^verbatim>\<open>..\<close> and repeated slashes, the result is an absolute path of at most 63 characters and 16
  components, none of them empty, \<^verbatim>\<open>.\<close> or \<^verbatim>\<open>..\<close>; normalizing it again, from any directory, changes nothing.
\<close>

theorem normalize_normal_form:
  assumes "absolute cwd"
  shows "canonical (normalize cwd path PATH_CAP) \<and>
    normalize cwd' (normalize cwd path PATH_CAP) PATH_CAP = normalize cwd path PATH_CAP"
  using normalize_canonical [OF assms] normalize_canonical_arg by blast

theorem normalize_normal_form_witness:
  "absolute ''/usr/bin'' \<and> canonical (normalize ''/usr/bin'' ''../lib//./x'' PATH_CAP)"
  using normalize_normal_form [of "''/usr/bin''" "''../lib//./x''"] by (simp add: absolute_def PATH_CAP_def)

text \<open>
  The two ways the file system relates a file to its directory agree: for paths in normal form,
  \<^verbatim>\<open>is_prefix_child\<close>, which listings and the emptiness test of \<^verbatim>\<open>rmdir\<close> use, holds exactly of the
  directory that \<^verbatim>\<open>parent_dir\<close> looks up for the permission checks.
\<close>

theorem child_iff_parent:
  assumes "canonical d" "canonical p"
  shows "is_prefix_child d p \<longleftrightarrow> p \<noteq> ''/'' \<and> parent_path p = d"
proof -
  from assms obtain ds ps where d: "d = path_of ds" "\<And>s. s \<in> set ds \<Longrightarrow> plain s"
    and p: "p = path_of ps" "\<And>s. s \<in> set ps \<Longrightarrow> plain s" "absolute p"
    by (auto simp: canonical_def clean_def)
  show ?thesis
  proof (cases ps rule: rev_cases)
    case Nil
    with p(1) have "p = ''/''" by (simp add: path_of_def)
    with d show ?thesis
      by (cases ds) (auto simp: is_prefix_child_def path_of_def)
  next
    case (snoc qs s)
    have pl: "plain s" "\<And>s. s \<in> set qs \<Longrightarrow> plain s" using p(2) snoc by auto
    have "weight qs < PATH_CAP" using p(1,3) snoc by (simp add: absolute_def path_of_def weight_def)
    then have "parent_path p = path_of qs" using parent_path_snoc [OF pl(1)] pl(2) p(1) snoc by simp
    moreover have "is_prefix_child d p \<longleftrightarrow> ds = qs" using is_prefix_child_snoc [OF pl(1) pl(2) d(2)] d(1) p(1) snoc by simp
    moreover have "path_of qs = path_of ds \<longleftrightarrow> ds = qs"
      using comps_path_of [of qs] comps_path_of [of ds] pl(2) d(2) by metis
    moreover have "p \<noteq> ''/''" using path_of_nonroot [of ps] p snoc by simp
    ultimately show ?thesis using d(1) by simp
  qed
qed

theorem child_iff_parent_witness:
  "canonical ''/etc'' \<and> canonical ''/etc/motd'' \<and> is_prefix_child ''/etc'' ''/etc/motd'' \<and>
     parent_path ''/etc/motd'' = ''/etc''"
proof -
  have "canonical (normalize ''/'' ''/etc'' PATH_CAP)" "canonical (normalize ''/'' ''/etc/motd'' PATH_CAP)"
    by (rule normalize_canonical, simp add: absolute_def PATH_CAP_def)+
  moreover have "normalize ''/'' ''/etc'' PATH_CAP = ''/etc''" "normalize ''/'' ''/etc/motd'' PATH_CAP = ''/etc/motd''"
    by code_simp+
  ultimately have c: "canonical ''/etc''" "canonical ''/etc/motd''" by simp_all
  moreover have "is_prefix_child ''/etc'' ''/etc/motd''" by code_simp
  ultimately show ?thesis using child_iff_parent [OF c] by simp
qed

end
