(* ===== verification/Ustar.thy ===== *)
theory Ustar
  imports Prelude
begin

text \<open>
  The tar reader \<^verbatim>\<open>vnu/kernel/include/vnu/ustar.h\<close>, which walks the boot archive. The archive is a list
  of bytes, offsets and sizes are the 64-bit words of the sources, and a file name is the list of its
  characters. A header that the loop reads outside the archive is the result \<open>Wild\<close>. The loop of
  \<^verbatim>\<open>vnu_ustar_next\<close> need not end, so it is a partial function: \<open>None\<close> is not returning.
\<close>

section \<open>Definitions\<close>

text \<open>\<^verbatim>\<open>vnu_ustar_octal\<close>: a base-256 field, or blanks and zeros, octal digits and a blank or NUL tail.\<close>

definition is_octal :: "u8 \<Rightarrow> bool" where
  "is_octal b \<longleftrightarrow> 0x30 \<le> b \<and> b \<le> 0x37"

definition base256 :: "u8 list \<Rightarrow> u64" where
  "base256 p = foldl (\<lambda>v b. push_bit 8 v OR ucast b) (ucast (p ! 0 AND 0x7F)) (drop 1 p)"

definition vnu_ustar_octal :: "u8 list \<Rightarrow> u64 option" where
  "vnu_ustar_octal p =
     (if p = [] then None
      else if p ! 0 AND 0x80 \<noteq> 0 then Some (base256 p)
      else let q = dropWhile (\<lambda>b. b = 0x20 \<or> b = 0x30) p;
               v = foldl (\<lambda>v b. push_bit 3 v OR ucast (b - 0x30)) 0 (takeWhile is_octal q);
               rest = dropWhile is_octal q
           in if list_all (\<lambda>b. b = 0x20 \<or> b = 0) rest then Some v else None)"

definition vnu_ustar_checksum_ok :: "u8 list \<Rightarrow> bool" where
  "vnu_ustar_checksum_ok h =
     (case vnu_ustar_octal (take 8 (drop 148 h)) of
        None \<Rightarrow> False
      | Some want \<Rightarrow>
          foldl (\<lambda>sum b. sum + ucast b) (0 :: u32) (take 148 h @ replicate 8 0x20 @ drop 156 h) = ucast want)"

definition chars :: "u8 list \<Rightarrow> string" where
  "chars bs = map (\<lambda>b. char_of (unat b)) bs"

text \<open>\<^verbatim>\<open>vnu_ustar_path\<close>: prefix and name joined in a 260-byte buffer, then stripped of leading \<^verbatim>\<open>./\<close> and \<^verbatim>\<open>/\<close>.\<close>

fun strip_lead :: "string \<Rightarrow> string" where
  "strip_lead (a # b # s) =
     (if a = CHR ''.'' \<and> b = CHR ''/'' then strip_lead s
      else if a = CHR ''/'' then strip_lead (b # s) else a # b # s)"
| "strip_lead [a] = (if a = CHR ''/'' then [] else [a])"
| "strip_lead [] = []"

definition vnu_ustar_path :: "u8 list \<Rightarrow> nat \<Rightarrow> string" where
  "vnu_ustar_path h cap =
     (let pre = takeWhile (\<lambda>b. b \<noteq> 0) (take 155 (drop 345 h));
          nm = takeWhile (\<lambda>b. b \<noteq> 0) (take 100 h);
          tmp = take 259 ((if pre \<noteq> [] then chars pre @ ''/'' else []) @ chars nm)
      in take (cap - 1) (strip_lead tmp))"

record ustar_entry =
  e_name :: string
  e_data :: "nat option"
  e_size :: u64
  e_mode :: u32
  e_type :: u8

datatype ustar_result = Member ustar_entry | End | Malformed | Wild

datatype ustar_step = Skip u64 | Done ustar_result u64

fun strip_tail :: "string \<Rightarrow> string" where
  "strip_tail s = rev (dropWhile (\<lambda>c. c = CHR ''/'') (rev s))"

text \<open>One round of the loop of \<^verbatim>\<open>vnu_ustar_next\<close>. \<open>e_data\<close> is the offset of the member's bytes in the archive.\<close>

definition ustar_round :: "u8 list \<Rightarrow> u64 \<Rightarrow> u64 \<Rightarrow> ustar_step" where
  "ustar_round img image_size offset =
     (if \<not> offset + 512 \<le> image_size then Done End offset
      else if \<not> unat offset + 512 \<le> length img then Done Wild offset
      else let h = take 512 (drop (unat offset) img)
      in if list_all (\<lambda>b. b = 0) h then Done End offset
         else if take 5 (drop 257 h) \<noteq> [0x75, 0x73, 0x74, 0x61, 0x72] then Done Malformed offset
         else if \<not> vnu_ustar_checksum_ok h then Done Malformed offset
         else (case vnu_ustar_octal (take 12 (drop 124 h)) of
                 None \<Rightarrow> Done Malformed offset
               | Some sz \<Rightarrow>
                   let mode = (case vnu_ustar_octal (take 8 (drop 100 h)) of Some m \<Rightarrow> m | None \<Rightarrow> 0);
                       type = (if h ! 156 = 0 then 0x30 else h ! 156);
                       data_off = offset + 512;
                       offset' = data_off + ((sz + 511) AND NOT 511)
                   in if data_off + sz > image_size \<or> offset' > image_size then Done Malformed offset'
                      else if type \<in> {0x78, 0x67, 0x4C, 0x4B} then Skip offset'
                      else if type \<noteq> 0x30 \<and> type \<noteq> 0x35 then Skip offset'
                      else let name = vnu_ustar_path h 256
                           in Done (Member \<lparr>e_name = (if type = 0x35 then strip_tail name else name),
                                e_data = (if type = 0x30 then Some (unat data_off) else None),
                                e_size = sz, e_mode = ucast mode, e_type = type\<rparr>) offset'))"

partial_function (option) vnu_ustar_next :: "u8 list \<Rightarrow> u64 \<Rightarrow> u64 \<Rightarrow> (ustar_result \<times> u64) option" where
  "vnu_ustar_next img image_size offset =
     (case ustar_round img image_size offset of
        Skip offset' \<Rightarrow> vnu_ustar_next img image_size offset'
      | Done r offset' \<Rightarrow> Some (r, offset'))"

section \<open>Octal fields\<close>

fun to_octal :: "nat \<Rightarrow> nat \<Rightarrow> u8 list" where
  "to_octal 0 n = []"
| "to_octal (Suc w) n = to_octal w (n div 8) @ [0x30 + of_nat (n mod 8)]"

lemma digit_octal:
  assumes "d < 8"
  shows "is_octal (0x30 + of_nat d)" and "(0x30 + of_nat d :: u8) \<noteq> 0x20"
    and "ucast ((0x30 + of_nat d :: u8) - 0x30) = (of_nat d :: u64)"
    and "(0x30 + of_nat d :: u8) AND 0x80 = 0"
proof -
  from assms consider "d = 0" | "d = 1" | "d = 2" | "d = 3" | "d = 4" | "d = 5" | "d = 6" | "d = 7" by linarith
  then show "is_octal (0x30 + of_nat d)" "(0x30 + of_nat d :: u8) \<noteq> 0x20"
    "ucast ((0x30 + of_nat d :: u8) - 0x30) = (of_nat d :: u64)" "(0x30 + of_nat d :: u8) AND 0x80 = 0"
    by (cases; simp add: is_octal_def)+
qed

lemma to_octal_octal: "b \<in> set (to_octal w n) \<Longrightarrow> is_octal b \<and> b AND 0x80 = 0 \<and> b \<noteq> 0x20"
  by (induction w arbitrary: n) (auto simp: digit_octal)

definition octal_value :: "u8 list \<Rightarrow> u64" where
  "octal_value ds = foldl (\<lambda>v b. push_bit 3 v OR ucast (b - 0x30)) 0 ds"

lemma octal_value_snoc: "octal_value (ds @ [d]) = push_bit 3 (octal_value ds) OR ucast (d - 0x30)"
  by (simp add: octal_value_def)

lemma octal_value_to_octal: "n < 8 ^ w \<Longrightarrow> octal_value (to_octal w n) = of_nat n"
proof (induction w arbitrary: n)
  case (Suc w)
  then have "n div 8 < 8 ^ w" by (simp add: less_mult_imp_div_less mult.commute)
  with Suc.IH have "octal_value (to_octal (Suc w) n) = push_bit 3 (of_nat (n div 8)) OR of_nat (n mod 8)"
    using digit_octal(3) [of "n mod 8"] by (simp add: octal_value_snoc del: of_nat_mod)
  also have "\<dots> = push_bit 3 (of_nat (n div 8)) + of_nat (n mod 8)"
    by (rule push_or_add) (simp add: unat_of_nat take_bit_eq_mod)
  also have "\<dots> = of_nat (n div 8 * 8 + n mod 8)" unfolding of_nat_add of_nat_mult by (simp add: push_bit_eq_mult)
  finally show ?case by simp
qed (simp add: octal_value_def)

lemma octal_value_zeros: "list_all (\<lambda>b. b = 0x30) zs \<Longrightarrow> octal_value (zs @ ds) = octal_value ds"
  by (induction zs) (simp_all add: octal_value_def)

lemma octal_drop_zeros:
  assumes "\<And>b. b \<in> set ds \<Longrightarrow> is_octal b \<and> b \<noteq> 0x20" "\<not> is_octal t" "t \<noteq> 0x20"
  shows "octal_value (takeWhile is_octal (dropWhile (\<lambda>b. b = 0x20 \<or> b = 0x30) (ds @ t # rest))) = octal_value ds"
    and "dropWhile is_octal (dropWhile (\<lambda>b. b = 0x20 \<or> b = 0x30) (ds @ t # rest)) = t # rest"
proof -
  have t: "t \<noteq> 0x30" using assms(2) by (auto simp: is_octal_def)
  show "octal_value (takeWhile is_octal (dropWhile (\<lambda>b. b = 0x20 \<or> b = 0x30) (ds @ t # rest))) = octal_value ds"
    using assms t by (induction ds) (auto simp: octal_value_def takeWhile_append2)
  show "dropWhile is_octal (dropWhile (\<lambda>b. b = 0x20 \<or> b = 0x30) (ds @ t # rest)) = t # rest"
    using assms t by (induction ds) (auto simp: dropWhile_append2)
qed

lemma vnu_ustar_octal_to_octal:
  assumes "n < 8 ^ w"
  shows "vnu_ustar_octal (to_octal w n @ [0]) = Some (of_nat n)"
proof -
  let ?p = "to_octal w n @ [0]"
  have d: "\<And>b. b \<in> set (to_octal w n) \<Longrightarrow> is_octal b \<and> b \<noteq> 0x20" using to_octal_octal by blast
  have "?p ! 0 AND 0x80 = 0"
    using to_octal_octal [of "?p ! 0" w n] nth_mem [of 0 "to_octal w n"] by (cases "to_octal w n") auto
  with octal_drop_zeros [OF d, where t = 0 and rest = "[]"] octal_value_to_octal [OF assms] show ?thesis
    by (simp add: vnu_ustar_octal_def Let_def octal_value_def [symmetric] is_octal_def)
qed

lemma octal_digit_small: "is_octal d \<Longrightarrow> unat (ucast (d - 0x30) :: u64) < 8"
  by (simp add: is_octal_def unat_ucast_up unat_sub word_le_nat_alt) arith

lemma octal_value_bound:
  "(\<And>b. b \<in> set ds \<Longrightarrow> is_octal b) \<Longrightarrow> length ds \<le> 21 \<Longrightarrow> unat (octal_value ds) < 8 ^ length ds"
proof (induction ds rule: rev_induct)
  case (snoc d ds)
  let ?v = "octal_value ds" and ?d = "ucast (d - 0x30) :: u64"
  have d: "unat ?d < 8" using snoc.prems(1) by (intro octal_digit_small) simp
  have v: "unat ?v < 8 ^ length ds" using snoc by simp
  have "octal_value (ds @ [d]) = ?v * 8 + ?d"
    unfolding octal_value_snoc by (subst push_or_add) (use d in \<open>simp_all add: push_bit_eq_mult\<close>)
  moreover have "unat (?v * 8 + ?d) \<le> unat ?v * 8 + unat ?d"
    by (simp add: unat_word_ariths)
  ultimately show ?case using d v by simp
qed (simp add: octal_value_def)

lemma vnu_ustar_octal_bound:
  assumes "vnu_ustar_octal p = Some v" "p ! 0 AND 0x80 = 0" "length p \<le> 21"
  shows "unat v < 8 ^ length p"
proof -
  let ?q = "dropWhile (\<lambda>b. b = 0x20 \<or> b = 0x30) p"
  have v: "v = octal_value (takeWhile is_octal ?q)"
    using assms(1,2) by (auto simp: vnu_ustar_octal_def Let_def octal_value_def split: if_splits)
  have l: "length (takeWhile is_octal ?q) \<le> length p"
    by (rule order_trans [OF length_takeWhile_le length_dropWhile_le])
  have "unat v < 8 ^ length (takeWhile is_octal ?q)"
    unfolding v by (rule octal_value_bound) (use l assms(3) in \<open>auto dest: set_takeWhileD\<close>)
  also have "\<dots> \<le> 8 ^ length p" using l by (intro power_increasing) simp_all
  finally show ?thesis .
qed

lemma round_up_512:
  assumes "unat sz < 2 ^ 40"
  shows "unat ((sz + 511) AND NOT 511 :: u64) = (unat sz + 511) div 512 * 512"
  using unat_and_not_mask [of "sz + 511" 9] assms
  by (simp add: mask_eq_exp_minus_1 unat_word_ariths)

section \<open>Walking an archive\<close>

text \<open>The offsets the reader comes to when it is called again and again from offset 0.\<close>

inductive ustar_at :: "u8 list \<Rightarrow> u64 \<Rightarrow> u64 \<Rightarrow> bool" for img sz where
  first: "ustar_at img sz 0"
| skipped: "ustar_at img sz off \<Longrightarrow> ustar_round img sz off = Skip off' \<Longrightarrow> ustar_at img sz off'"
| taken: "ustar_at img sz off \<Longrightarrow> ustar_round img sz off = Done (Member e) off' \<Longrightarrow> ustar_at img sz off'"

text \<open>Every header reached has an octal size field, as POSIX asks.\<close>

definition posix_sizes :: "u8 list \<Rightarrow> u64 \<Rightarrow> bool" where
  "posix_sizes img sz \<longleftrightarrow>
     (\<forall>off. ustar_at img sz off \<longrightarrow> unat off + 512 \<le> length img \<longrightarrow> img ! (unat off + 124) AND 0x80 = 0)"

lemma ustar_round_moves:
  assumes "ustar_round img sz off = Skip off' \<or> ustar_round img sz off = Done (Member e) off'"
  obtains v where "off + 512 \<le> sz" "unat off + 512 \<le> length img"
    "vnu_ustar_octal (take 12 (drop (unat off + 124) img)) = Some v"
    "off' = off + 512 + ((v + 511) AND NOT 511)" "off + 512 + v \<le> sz" "off' \<le> sz"
    "ustar_round img sz off = Done (Member e) off' \<Longrightarrow> e_size e = v"
    "ustar_round img sz off = Done (Member e) off' \<Longrightarrow> e_data e \<noteq> None \<Longrightarrow> e_data e = Some (unat (off + 512))"
proof -
  have h: "take 12 (drop 124 (take 512 (drop (unat off) img))) = take 12 (drop (unat off + 124) img)"
    by (simp add: drop_take add.commute)
  let ?h = "take 512 (drop (unat off) img)"
  let ?st = "ustar_round img sz off"
  have c1: "off + 512 \<le> sz" using assms by (rule contrapos_pp) (simp add: ustar_round_def)
  have c2: "unat off + 512 \<le> length img" using assms by (rule contrapos_pp) (simp add: ustar_round_def c1)
  have c3: "\<not> list_all (\<lambda>b. b = 0) ?h"
    using assms by (rule contrapos_pn) (simp add: ustar_round_def c1 c2 Let_def)
  have c4: "take 5 (drop 257 ?h) = [0x75, 0x73, 0x74, 0x61, 0x72]"
    using assms by (rule contrapos_pp) (simp add: ustar_round_def c1 c2 c3 Let_def)
  have c5: "vnu_ustar_checksum_ok ?h"
    using assms by (rule contrapos_pp) (simp only: ustar_round_def c1 c2 c3 c4 Let_def if_True if_False not_True_eq_False not_False_eq_True ustar_step.simps ustar_result.simps simp_thms)
  have "vnu_ustar_octal (take 12 (drop 124 ?h)) \<noteq> None"
    using assms by (rule contrapos_pn) (simp only: ustar_round_def c1 c2 c3 c4 c5 Let_def if_True if_False not_True_eq_False not_False_eq_True option.case ustar_step.simps ustar_result.simps simp_thms)
  then obtain v where v: "vnu_ustar_octal (take 12 (drop 124 ?h)) = Some v" by blast
  let ?off' = "off + 512 + ((v + 511) AND NOT 511)"
  let ?type = "if ?h ! 156 = 0 then 0x30 else ?h ! 156"
  have st: "?st = (if off + 512 + v > sz \<or> ?off' > sz then Done Malformed ?off'
      else if ?type \<in> {0x78, 0x67, 0x4C, 0x4B} then Skip ?off'
      else if ?type \<noteq> 0x30 \<and> ?type \<noteq> 0x35 then Skip ?off'
      else Done (Member \<lparr>e_name = (if ?type = 0x35 then strip_tail (vnu_ustar_path ?h 256) else vnu_ustar_path ?h 256),
        e_data = (if ?type = 0x30 then Some (unat (off + 512)) else None), e_size = v,
        e_mode = ucast (case vnu_ustar_octal (take 8 (drop 100 ?h)) of Some m \<Rightarrow> m | None \<Rightarrow> 0), e_type = ?type\<rparr>) ?off')"
    by (simp only: ustar_round_def c1 c2 c3 c4 c5 v Let_def if_True if_False not_True_eq_False not_False_eq_True option.case simp_thms)
  show ?thesis
  proof (rule that [OF c1 c2 v [unfolded h]])
    show "off' = ?off'" using assms unfolding st by (simp split: if_splits)
    show "off + 512 + v \<le> sz" "off' \<le> sz" using assms unfolding st by (simp_all split: if_splits)
    show "e_size e = v" if "?st = Done (Member e) off'" using that unfolding st by (auto split: if_splits)
    show "e_data e = Some (unat (off + 512))" if "?st = Done (Member e) off'" "e_data e \<noteq> None"
      using that unfolding st by (auto split: if_splits)
  qed
qed

lemma ustar_round_progress:
  assumes len: "length img = unat sz" "unat sz < 2 ^ 40" and off: "unat off \<le> unat sz"
    and posix: "unat off + 512 \<le> length img \<Longrightarrow> img ! (unat off + 124) AND 0x80 = 0"
    and mv: "ustar_round img sz off = Skip off' \<or> ustar_round img sz off = Done (Member e) off'"
  shows "unat off < unat off' \<and> unat off' \<le> unat sz"
    and "ustar_round img sz off = Done (Member e) off' \<Longrightarrow> e_data e = Some d \<Longrightarrow> d + unat (e_size e) \<le> length img"
proof -
  from ustar_round_moves [OF mv] obtain v where v: "unat off + 512 \<le> length img"
    "vnu_ustar_octal (take 12 (drop (unat off + 124) img)) = Some v"
    "off' = off + 512 + ((v + 511) AND NOT 511)" "off + 512 + v \<le> sz" "off' \<le> sz"
    "ustar_round img sz off = Done (Member e) off' \<Longrightarrow> e_size e = v"
    "ustar_round img sz off = Done (Member e) off' \<Longrightarrow> e_data e \<noteq> None \<Longrightarrow> e_data e = Some (unat (off + 512))"
    by blast
  have "unat v < 8 ^ length (take 12 (drop (unat off + 124) img))"
    by (rule vnu_ustar_octal_bound [OF v(2)]) (use posix v(1) in simp_all)
  then have vb: "unat v < 2 ^ 36" using v(1) by simp
  have o: "unat off < 2 ^ 40" using off len(2) by simp
  have o512: "unat (off + 512) = unat off + 512" using o by (simp add: unat_word_ariths)
  have ov: "unat (off + 512 + v) = unat off + 512 + unat v" using o vb by (simp add: unat_word_ariths)
  let ?r = "(unat v + 511) div 512 * 512"
  have r: "unat ((v + 511) AND NOT 511 :: u64) = ?r" using vb by (intro round_up_512) simp
  have rb: "?r \<le> unat v + 511" by simp
  have "unat off' = unat off + 512 + ?r"
    unfolding v(3) unat_plus_if' r o512 using o vb rb by simp
  then show "unat off < unat off' \<and> unat off' \<le> unat sz" using v(5) by (simp add: word_le_nat_alt)
  show "d + unat (e_size e) \<le> length img"
    if "ustar_round img sz off = Done (Member e) off'" "e_data e = Some d"
    using v(4) v(6,7) [OF that(1)] that(2) ov o512 len(1) by (simp add: word_le_nat_alt)
qed

lemma ustar_round_not_wild:
  assumes "length img = unat sz" "unat off < 2 ^ 40"
  shows "ustar_round img sz off \<noteq> Done Wild off'"
proof -
  have "unat (off + 512) = unat off + 512" using assms(2) by (simp add: unat_word_ariths)
  then show ?thesis using assms(1) unfolding ustar_round_def Let_def
    by (auto simp: word_le_nat_alt split: option.splits)
qed

lemma ustar_at_bounded:
  assumes "length img = unat sz" "unat sz < 2 ^ 40" "posix_sizes img sz"
  shows "ustar_at img sz off \<Longrightarrow> unat off \<le> unat sz"
proof (induction rule: ustar_at.induct)
  case (skipped off off')
  then show ?case
    using ustar_round_progress(1) [OF assms(1,2), of off off'] assms(3) by (auto simp: posix_sizes_def)
next
  case (taken off e off')
  then show ?case
    using ustar_round_progress(1) [OF assms(1,2), of off off' e] assms(3) by (auto simp: posix_sizes_def)
qed simp

lemma ustar_next_total:
  assumes len: "length img = unat sz" "unat sz < 2 ^ 40" and posix: "posix_sizes img sz"
    and "ustar_at img sz off"
  shows "\<exists>r off'. vnu_ustar_next img sz off = Some (r, off') \<and> r \<noteq> Wild \<and>
    (\<forall>e. r = Member e \<longrightarrow> ustar_at img sz off' \<and> unat off < unat off' \<and> unat off' \<le> unat sz \<and>
       (\<forall>d. e_data e = Some d \<longrightarrow> d + unat (e_size e) \<le> length img))"
  using assms(4)
proof (induction "unat sz - unat off" arbitrary: off rule: less_induct)
  case less
  note b = ustar_at_bounded [OF len posix less.prems]
  have px: "unat off + 512 \<le> length img \<Longrightarrow> img ! (unat off + 124) AND 0x80 = 0"
    using posix less.prems by (simp add: posix_sizes_def)
  show ?case
  proof (cases "ustar_round img sz off")
    case (Skip off1)
    have p: "unat off < unat off1 \<and> unat off1 \<le> unat sz"
      by (rule ustar_round_progress(1) [OF len b px disjI1 [OF Skip]])
    have "unat sz - unat off1 < unat sz - unat off" using p by linarith
    from less.hyps [OF this ustar_at.skipped [OF less.prems Skip]] p Skip show ?thesis
      by (subst vnu_ustar_next.simps) force
  next
    case (Done r off1)
    have n: "r \<noteq> Wild" using ustar_round_not_wild [OF len(1), of off off1] b len(2) Done by auto
    have "ustar_at img sz off1 \<and> unat off < unat off1 \<and> unat off1 \<le> unat sz \<and>
       (\<forall>d. e_data e = Some d \<longrightarrow> d + unat (e_size e) \<le> length img)" if "r = Member e" for e
    proof -
      have D: "ustar_round img sz off = Done (Member e) off1" using Done that by simp
      show ?thesis
        using ustar_round_progress [OF len b px disjI2 [OF D]] D ustar_at.taken [OF less.prems D] by blast
    qed
    with n Done show ?thesis by (subst vnu_ustar_next.simps) simp
  qed
qed

text \<open>A header that sends the reader back to itself: a base-256 size of \<open>2 ^ 64 - 512\<close> bytes.\<close>

definition looping_header :: "u8 list" where
  "looping_header = replicate 124 0 @ [0x80, 0, 0, 0, 0xFF, 0xFF, 0xFF, 0xFF, 0xFF, 0xFF, 0xFE, 0] @
     replicate 12 0 @ [0x30, 0x30, 0x35, 0x34, 0x33, 0x37, 0, 0x20] @ [0x78] @ replicate 100 0 @
     [0x75, 0x73, 0x74, 0x61, 0x72] @ replicate 250 0"

lemma foldl_sum_zeros: "foldl (\<lambda>sum b. sum + ucast b) (s :: u32) (replicate n (0 :: u8)) = s"
  by (induction n) simp_all

lemma looping_header_round: "ustar_round looping_header 512 0 = Skip 0"
proof -
  let ?h = looping_header
  have l: "length ?h = 512" by (simp add: looping_header_def)
  have r8: "replicate 8 x = [x, x, x, x, x, x, x, x]" for x :: u8 by (simp add: eval_nat_numeral)
  have 1: "take 5 (drop 257 ?h) = [0x75, 0x73, 0x74, 0x61, 0x72]"
    "take 12 (drop 124 ?h) = [0x80, 0, 0, 0, 0xFF, 0xFF, 0xFF, 0xFF, 0xFF, 0xFF, 0xFE, 0]"
    "take 8 (drop 148 ?h) = [0x30, 0x30, 0x35, 0x34, 0x33, 0x37, 0, 0x20]" "?h ! 156 = 0x78"
    "take 148 ?h = replicate 124 0 @ [0x80, 0, 0, 0, 0xFF, 0xFF, 0xFF, 0xFF, 0xFF, 0xFF, 0xFE, 0] @ replicate 12 0"
    "drop 156 ?h = [0x78] @ replicate 100 0 @ [0x75, 0x73, 0x74, 0x61, 0x72] @ replicate 250 0"
    by (simp_all add: looping_header_def nth_append)
  have "vnu_ustar_octal [0x30, 0x30, 0x35, 0x34, 0x33, 0x37, 0, 0x20] = Some 2847"
    by (simp add: vnu_ustar_octal_def is_octal_def push_bit_eq_mult)
  moreover have "foldl (\<lambda>sum b. sum + ucast b) (0 :: u32) (take 148 ?h @ replicate 8 0x20 @ drop 156 ?h) = 2847"
    unfolding 1 foldl_append foldl_sum_zeros r8 by simp
  ultimately have c: "vnu_ustar_checksum_ok ?h" by (simp add: vnu_ustar_checksum_ok_def 1)
  have s: "vnu_ustar_octal (take 12 (drop 124 ?h)) = Some (- 512)"
    unfolding 1 by (simp add: vnu_ustar_octal_def base256_def push_bit_eq_mult)
  have z: "\<not> list_all (\<lambda>b. b = 0) ?h" by (simp add: looping_header_def)
  show ?thesis
    by (simp add: ustar_round_def l z 1(1,4) c s)
qed

lemma ustar_self_loop:
  assumes "ustar_round img sz off = Skip off"
  shows "vnu_ustar_next img sz off = None"
proof (rule ccontr)
  have "\<not> (i = img \<and> s = sz \<and> o' = off)" if "vnu_ustar_next i s o' = Some r" for i s o' r
    using that
  proof (rule vnu_ustar_next.raw_induct [rotated])
    fix f i s o' r
    assume ih: "\<And>i s o' r. f i s o' = Some r \<Longrightarrow> \<not> (i = img \<and> s = sz \<and> o' = off)"
      and eq: "(case ustar_round i s o' of Skip o'' \<Rightarrow> f i s o'' | Done r o'' \<Rightarrow> Some (r, o'')) = Some r"
    then show "\<not> (i = img \<and> s = sz \<and> o' = off)" using assms eq ih [of img sz off r] by auto
  qed
  moreover assume "vnu_ustar_next img sz off \<noteq> None"
  ultimately show False by blast
qed

text \<open>Stripping: no name begins with a slash or with \<^verbatim>\<open>./\<close>.\<close>

lemma strip_lead_form:
  "strip_lead s \<noteq> [] \<Longrightarrow> hd (strip_lead s) \<noteq> CHR ''/''"
  "\<not> (\<exists>r. strip_lead s = CHR ''.'' # CHR ''/'' # r)"
  by (induction s rule: strip_lead.induct) auto

section \<open>Properties\<close>

text \<open>
  The reader reads back every number a tar writer can put in a header field: \<open>w\<close> octal digits and a
  NUL give the number they were printed from, for every \<open>n < 8 ^ w\<close> of 64 bits.
\<close>

theorem ustar_octal_roundtrip:
  assumes "n < 8 ^ w" "w \<le> 21"
  shows "vnu_ustar_octal (to_octal w n @ [0]) = Some (of_nat n) \<and> unat (of_nat n :: u64) = n"
proof -
  have "(8 :: nat) ^ w \<le> 8 ^ 21" using assms(2) by (intro power_increasing) simp_all
  then have "n < 2 ^ 64" using assms(1) by simp
  then show ?thesis using vnu_ustar_octal_to_octal [OF assms(1)] by (simp add: unat_of_nat take_bit_eq_mod)
qed

theorem ustar_octal_roundtrip_witness: "vnu_ustar_octal (to_octal 11 4096 @ [0]) = Some 4096"
  using ustar_octal_roundtrip [of 4096 11] by simp

text \<open>
  C17. On an archive of less than 2 ^ 40 bytes whose size fields are octal, \<^verbatim>\<open>vnu_ustar_next\<close> called from any
  offset it came to returns, reads no header outside the archive, and a member it reports lies inside
  the archive and moves the offset forward.
\<close>

theorem ustar_next_safe:
  assumes "length img = unat sz" "unat sz < 2 ^ 40" "posix_sizes img sz" "ustar_at img sz off"
  shows "\<exists>r off'. vnu_ustar_next img sz off = Some (r, off') \<and> r \<noteq> Wild \<and>
    (\<forall>e. r = Member e \<longrightarrow> unat off < unat off' \<and> unat off' \<le> unat sz \<and>
       (\<forall>d. e_data e = Some d \<longrightarrow> d + unat (e_size e) \<le> length img))"
  using ustar_next_total [OF assms] by blast

lemma zero_block_at: "ustar_at (replicate 512 0) 512 off \<Longrightarrow> off = 0"
proof (induction rule: ustar_at.induct)
  have e: "ustar_round (replicate 512 0) 512 0 = Done End 0"
    by (simp add: ustar_round_def Let_def list_all_iff)
  case (skipped off off')
  with e show ?case by simp
next
  have e: "ustar_round (replicate 512 0) 512 0 = Done End 0"
    by (simp add: ustar_round_def Let_def list_all_iff)
  case (taken off e off')
  with e show ?case by simp
qed simp

theorem ustar_next_safe_witness:
  "\<exists>r off'. vnu_ustar_next (replicate 512 0) 512 0 = Some (r, off') \<and> r \<noteq> Wild"
proof -
  have "posix_sizes (replicate 512 0) 512"
    unfolding posix_sizes_def using zero_block_at by auto
  from ustar_next_safe [OF _ _ this ustar_at.first] show ?thesis by auto
qed

text \<open>
  C18. Without the condition on the size fields the reader can hang: there is an archive of one header, with
  a valid magic and checksum and a base-256 size, on which the first call never returns, because the
  64-bit sum that moves the offset wraps back to it and passes both bounds checks.
\<close>

theorem ustar_next_hangs: "\<exists>img. length img = 512 \<and> vnu_ustar_next img 512 0 = None"
proof (intro exI conjI)
  show "length looping_header = 512" by (simp add: looping_header_def)
  show "vnu_ustar_next looping_header 512 0 = None" by (rule ustar_self_loop [OF looping_header_round])
qed

end
