(* ===== verification/Sector_Device.thy ===== *)
theory Sector_Device
  imports Prelude
begin

text \<open>
  The sector interface between the FAT16 library and a disk (\<^verbatim>\<open>struct Device\<close> of
  \<^verbatim>\<open>vnu/kernel/include/vnu/fat16.h\<close>). A device is its two transfer callbacks over a state of its own; the
  library only ever asks for one sector at a time. A callback that answers a negative value is \<open>None\<close>
  for a read and \<open>False\<close> for a write; a null callback is one that always fails.
\<close>

definition SECTOR :: nat where "SECTOR = 512"

record 'd device =
  d_read :: "nat \<Rightarrow> 'd \<Rightarrow> u8 list option"
  d_write :: "nat \<Rightarrow> u8 list \<Rightarrow> 'd \<Rightarrow> bool \<times> 'd"
  d_flush :: "'d \<Rightarrow> 'd"

text \<open>
  The contract the library relies on: the sectors below \<open>lim\<close> can be read and written, and a sector
  keeps what was last written to it.
\<close>

locale sector_device =
  fixes dev :: "'d device"
    and lim :: nat
    and live :: "'d \<Rightarrow> bool"
  assumes read_live: "live d \<Longrightarrow> lba < lim \<Longrightarrow> \<exists>bs. d_read dev lba d = Some bs \<and> length bs = SECTOR"
    and write_live: "live d \<Longrightarrow> lba < lim \<Longrightarrow> length bs = SECTOR \<Longrightarrow> fst (d_write dev lba bs d) \<and> live (snd (d_write dev lba bs d))"
    and read_write: "live d \<Longrightarrow> lba < lim \<Longrightarrow> length bs = SECTOR \<Longrightarrow> l < lim \<Longrightarrow>
       d_read dev l (snd (d_write dev lba bs d)) = (if l = lba then Some bs else d_read dev l d)"
begin

definition sector_of :: "nat \<Rightarrow> 'd \<Rightarrow> u8 list" where
  "sector_of lba d = the (d_read dev lba d)"

lemma read_sector: "live d \<Longrightarrow> lba < lim \<Longrightarrow> d_read dev lba d = Some (sector_of lba d)"
  using read_live [of d lba] by (auto simp: sector_of_def)

lemma length_sector: "live d \<Longrightarrow> lba < lim \<Longrightarrow> length (sector_of lba d) = SECTOR"
  using read_live [of d lba] by (auto simp: sector_of_def)

lemma sector_write:
  "live d \<Longrightarrow> lba < lim \<Longrightarrow> length bs = SECTOR \<Longrightarrow> l < lim \<Longrightarrow>
     sector_of l (snd (d_write dev lba bs d)) = (if l = lba then bs else sector_of l d)"
  by (simp add: sector_of_def read_write)

end

section \<open>Little-endian fields\<close>

definition rd16 :: "nat \<Rightarrow> u8 list \<Rightarrow> u16" where
  "rd16 p b = ucast (b ! p) OR push_bit 8 (ucast (b ! (p + 1)))"

definition rd32 :: "nat \<Rightarrow> u8 list \<Rightarrow> u32" where
  "rd32 p b = ucast (b ! p) OR push_bit 8 (ucast (b ! (p + 1))) OR
     push_bit 16 (ucast (b ! (p + 2))) OR push_bit 24 (ucast (b ! (p + 3)))"

definition wr16 :: "nat \<Rightarrow> u16 \<Rightarrow> u8 list \<Rightarrow> u8 list" where
  "wr16 p v b = b[p := ucast v, p + 1 := ucast (drop_bit 8 v)]"

definition wr32 :: "nat \<Rightarrow> u32 \<Rightarrow> u8 list \<Rightarrow> u8 list" where
  "wr32 p v b = b[p := ucast v, p + 1 := ucast (drop_bit 8 v), p + 2 := ucast (drop_bit 16 v),
     p + 3 := ucast (drop_bit 24 v)]"

lemma wr_length [simp]: "length (wr16 p v b) = length b" "length (wr32 p w b) = length b"
  by (simp_all add: wr16_def wr32_def)

lemma rd16_wr16: "p + 1 < length b \<Longrightarrow> rd16 p (wr16 p v b) = v"
proof -
  assume p: "p + 1 < length b"
  have "rd16 p (wr16 p v b) = ucast (ucast v :: u8) OR push_bit 8 (ucast (ucast (drop_bit 8 v) :: u8))"
    using p by (simp add: rd16_def wr16_def)
  also have "\<dots> = v"
    by (rule bit_word_eqI) (auto simp: bit_simps)
  finally show ?thesis .
qed

lemma rd32_wr32: "p + 3 < length b \<Longrightarrow> rd32 p (wr32 p v b) = v"
proof -
  assume p: "p + 3 < length b"
  have "rd32 p (wr32 p v b) = ucast (ucast v :: u8) OR push_bit 8 (ucast (ucast (drop_bit 8 v) :: u8)) OR
      push_bit 16 (ucast (ucast (drop_bit 16 v) :: u8)) OR push_bit 24 (ucast (ucast (drop_bit 24 v) :: u8))"
    using p by (simp add: rd32_def wr32_def)
  also have "\<dots> = v"
  proof (rule bit_word_eqI)
    fix n assume "n < LENGTH(32)"
    then show "bit (ucast (ucast v :: u8) OR push_bit 8 (ucast (ucast (drop_bit 8 v) :: u8)) OR
      push_bit 16 (ucast (ucast (drop_bit 16 v) :: u8)) OR push_bit 24 (ucast (ucast (drop_bit 24 v) :: u8)) :: u32) n = bit v n"
      by (cases "n < 8"; cases "n < 16"; cases "n < 24") (auto simp: bit_simps)
  qed
  finally show ?thesis .
qed

lemma rd16_wr16_other: "q + 1 < p \<or> p + 1 < q \<Longrightarrow> rd16 q (wr16 p v b) = rd16 q b"
  by (auto simp: rd16_def wr16_def nth_list_update)

lemma unat_rd16: "unat (rd16 p b) = unat (b ! p) + 256 * unat (b ! (p + 1))"
proof -
  have x: "unat (ucast (b ! p) :: u16) = unat (b ! p)" "unat (ucast (b ! (p + 1)) :: u16) = unat (b ! (p + 1))"
    by (simp_all add: unat_ucast_up)
  have l: "unat (b ! p) < 256" "unat (b ! (p + 1)) < 256"
    using unsigned_less [of "b ! p", where 'a = nat] unsigned_less [of "b ! (p + 1)", where 'a = nat] by simp_all
  have "rd16 p b = push_bit 8 (ucast (b ! (p + 1))) OR ucast (b ! p)" by (simp add: rd16_def or.commute)
  also have "\<dots> = ucast (b ! (p + 1)) * 256 + ucast (b ! p)"
    by (subst push_or_add) (use x l in \<open>simp_all add: push_bit_eq_mult\<close>)
  finally have "unat (rd16 p b) = (unat (b ! (p + 1)) * 256 + unat (b ! p)) mod 65536"
    by (simp add: unat_word_ariths unat_ucast_up mod_simps)
  with l show ?thesis by simp
qed

lemma rd16_zero_iff: "rd16 p b = 0 \<longleftrightarrow> b ! p = 0 \<and> b ! (p + 1) = 0"
  using unat_rd16 [of p b] by (metis add_is_0 mult_is_0 unat_eq_zero zero_neq_numeral unsigned_0)

end
