(* ===== verification/Fat_Table.thy ===== *)
theory Fat_Table
  imports Sector_Device
begin

text \<open>
  The allocation layer of \<^verbatim>\<open>vnu/kernel/fs/fat16.cpp\<close>: the mounted-volume state, sector transfers, the
  file allocation table, cluster chains and the copy loops over them. A routine of the sources that
  returns \<^verbatim>\<open>bool\<close> and works on an \<^verbatim>\<open>Fs&\<close> is a function from the volume state to its result (\<open>None\<close> is
  \<^verbatim>\<open>false\<close>) and the volume state afterwards. Sector and cluster numbers are natural numbers; 32-bit
  arithmetic that can wrap is written with \<open>w32\<close>. The shared one-sector buffer \<^verbatim>\<open>fs.sec\<close> is part of the state.
\<close>

section \<open>Volume state\<close>

definition w32 :: "nat \<Rightarrow> nat" where "w32 n = n mod 2 ^ 32"

definition FAT_FREE :: u16 where "FAT_FREE = 0"
definition FAT_EOC :: u16 where "FAT_EOC = 0xFFFF"
definition FAT_BAD :: u16 where "FAT_BAD = 0xFFF7"

record 'd fs =
  f_dev :: "'d device"
  f_ctx :: 'd
  part_lba :: nat
  total_sectors :: nat
  spc :: nat
  fatsz :: nat
  num_fats :: nat
  root_entries :: nat
  root_dir_sectors :: nat
  first_fat :: nat
  first_root :: nat
  first_data :: nat
  max_cluster :: nat
  mounted :: bool
  sec :: "u8 list"

type_synonym ('d, 'a) fsm = "'d fs \<Rightarrow> 'a option \<times> 'd fs"

definition fs_ret :: "'a \<Rightarrow> ('d, 'a) fsm" where
  "fs_ret x fs = (Some x, fs)"

definition fs_fail :: "('d, 'a) fsm" where
  "fs_fail fs = (None, fs)"

definition fs_bind :: "('d, 'a) fsm \<Rightarrow> ('a \<Rightarrow> ('d, 'b) fsm) \<Rightarrow> ('d, 'b) fsm" where
  "fs_bind m f fs = (case m fs of (None, fs') \<Rightarrow> (None, fs') | (Some x, fs') \<Rightarrow> f x fs')"

definition fs_then :: "('d, 'a) fsm \<Rightarrow> ('d, 'b) fsm \<Rightarrow> ('d, 'b) fsm" where
  "fs_then m n = fs_bind m (\<lambda>_. n)"

definition fs_get :: "('d fs \<Rightarrow> 'a option) \<Rightarrow> ('d, 'a) fsm" where
  "fs_get f fs = (f fs, fs)"

primrec fs_each :: "'x list \<Rightarrow> ('x \<Rightarrow> ('d, unit) fsm) \<Rightarrow> ('d, unit) fsm" where
  "fs_each [] body = fs_ret ()"
| "fs_each (x # xs) body = fs_then (body x) (fs_each xs body)"

section \<open>Sector transfers\<close>

definition dev_read :: "nat \<Rightarrow> 'd fs \<Rightarrow> u8 list option" where
  "dev_read rel fs = d_read (f_dev fs) (w32 (part_lba fs + rel)) (f_ctx fs)"

definition read_sec :: "nat \<Rightarrow> ('d, unit) fsm" where
  "read_sec rel fs = (case dev_read rel fs of None \<Rightarrow> (None, fs) | Some b \<Rightarrow> (Some (), fs\<lparr>sec := b\<rparr>))"

definition dev_write :: "nat \<Rightarrow> u8 list \<Rightarrow> ('d, unit) fsm" where
  "dev_write rel b fs =
     (let (ok, d) = d_write (f_dev fs) (w32 (part_lba fs + rel)) b (f_ctx fs)
      in (if ok then Some () else None, fs\<lparr>f_ctx := d\<rparr>))"

definition write_sec :: "nat \<Rightarrow> ('d, unit) fsm" where
  "write_sec rel fs = dev_write rel (sec fs) fs"

definition mod_sec :: "(u8 list \<Rightarrow> u8 list) \<Rightarrow> ('d, unit) fsm" where
  "mod_sec f fs = (Some (), fs\<lparr>sec := f (sec fs)\<rparr>)"

definition cluster_to_sector :: "'d fs \<Rightarrow> nat \<Rightarrow> nat" where
  "cluster_to_sector fs c = w32 (first_data fs + w32 (c + (2 ^ 32 - 2)) * spc fs)"

section \<open>The allocation table\<close>

definition fat_get :: "nat \<Rightarrow> 'd fs \<Rightarrow> u16 option" where
  "fat_get c fs =
     (case dev_read (first_fat fs + c * 2 div SECTOR) fs of
        None \<Rightarrow> None
      | Some tmp \<Rightarrow> Some (rd16 (c * 2 mod SECTOR) tmp))"

definition fat_set :: "nat \<Rightarrow> u16 \<Rightarrow> ('d, unit) fsm" where
  "fat_set c v fs =
     fs_each [0..<num_fats fs] (\<lambda>k.
       fs_then (read_sec (first_fat fs + k * fatsz fs + c * 2 div SECTOR))
         (fs_then (mod_sec (wr16 (c * 2 mod SECTOR) v))
           (write_sec (first_fat fs + k * fatsz fs + c * 2 div SECTOR)))) fs"

text \<open>The cluster after \<open>c\<close>, or 0 at the end of a chain.\<close>

definition fat_next :: "nat \<Rightarrow> 'd fs \<Rightarrow> nat option" where
  "fat_next c fs =
     (case fat_get c fs of
        None \<Rightarrow> None
      | Some v \<Rightarrow> Some (if v = 0 \<or> v = FAT_BAD \<or> 0xFFF8 \<le> v then 0 else unat v))"

function chain_len_loop :: "'d fs \<Rightarrow> nat \<Rightarrow> nat \<Rightarrow> nat option" where
  "chain_len_loop fs c n =
     (if 2 \<le> c \<and> c \<le> max_cluster fs
      then if n + 1 > max_cluster fs + 2 then None
           else (case fat_next c fs of
                   None \<Rightarrow> None
                 | Some nx \<Rightarrow> if nx = 0 then Some (n + 1) else chain_len_loop fs nx (n + 1))
      else Some n)"
  by pat_completeness auto
termination
  by (relation "measure (\<lambda>(fs, _, n). max_cluster fs + 2 - n)") auto

definition chain_len :: "nat \<Rightarrow> 'd fs \<Rightarrow> nat option" where
  "chain_len first fs = chain_len_loop fs first 0"

fun chain_at :: "nat \<Rightarrow> nat \<Rightarrow> 'd fs \<Rightarrow> nat option" where
  "chain_at c 0 fs = (if c \<noteq> 0 then Some c else None)"
| "chain_at c (Suc n) fs =
     (case fat_next c fs of
        None \<Rightarrow> None
      | Some nx \<Rightarrow> if nx = 0 then None else chain_at nx n fs)"

definition zero_sectors :: "nat \<Rightarrow> nat \<Rightarrow> ('d, unit) fsm" where
  "zero_sectors rel count =
     fs_then (mod_sec (\<lambda>_. replicate SECTOR 0)) (fs_each [0..<count] (\<lambda>i. write_sec (rel + i)))"

definition zero_cluster :: "nat \<Rightarrow> ('d, unit) fsm" where
  "zero_cluster c fs = zero_sectors (cluster_to_sector fs c) (spc fs) fs"

text \<open>\<^verbatim>\<open>free_chain\<close>; \<open>maxc\<close> is \<^verbatim>\<open>fs.max_cluster\<close>, which nothing here changes.\<close>

function free_chain_loop :: "nat \<Rightarrow> nat \<Rightarrow> nat \<Rightarrow> ('d, unit) fsm" where
  "free_chain_loop maxc c guard fs =
     (if 2 \<le> c \<and> c \<le> maxc
      then if guard + 1 > maxc + 2 then (None, fs)
           else (case fat_next c fs of
                   None \<Rightarrow> (None, fs)
                 | Some nx \<Rightarrow>
                     (case fat_set c FAT_FREE fs of
                        (None, fs1) \<Rightarrow> (None, fs1)
                      | (Some _, fs1) \<Rightarrow> free_chain_loop maxc nx (guard + 1) fs1))
      else (Some (), fs))"
  by pat_completeness auto
termination
  by (relation "measure (\<lambda>(maxc, _, guard, _). maxc + 2 - guard)") auto

definition free_chain :: "nat \<Rightarrow> ('d, unit) fsm" where
  "free_chain first fs = free_chain_loop (max_cluster fs) first 0 fs"

text \<open>\<^verbatim>\<open>cluster_alloc\<close>: the first free entry of the table, one table sector at a time.\<close>

definition free_in_sector :: "'d fs \<Rightarrow> nat \<Rightarrow> nat option" where
  "free_in_sector fs s =
     for_first 0 (SECTOR div 2) (\<lambda>i.
       let cluster = s * (SECTOR div 2) + i
       in if cluster < 2 \<or> cluster > max_cluster fs then None
          else if sec fs ! (i * 2) = 0 \<and> sec fs ! (i * 2 + 1) = 0 then Some cluster else None)"

primrec find_free :: "nat list \<Rightarrow> ('d, nat) fsm" where
  "find_free [] fs = (None, fs)"
| "find_free (s # ss) fs =
     (case read_sec (first_fat fs + s) fs of
        (None, fs1) \<Rightarrow> (None, fs1)
      | (Some _, fs1) \<Rightarrow> (case free_in_sector fs1 s of Some c \<Rightarrow> (Some c, fs1) | None \<Rightarrow> find_free ss fs1))"

definition cluster_alloc :: "nat \<Rightarrow> ('d, nat) fsm" where
  "cluster_alloc prev fs =
     fs_bind (find_free [0..<fatsz fs]) (\<lambda>found.
       fs_then (fat_set found FAT_EOC)
         (fs_then (if prev \<noteq> 0 then fat_set prev (of_nat found) else fs_ret ())
           (fs_then (zero_cluster found) (fs_ret found)))) fs"

text \<open>\<^verbatim>\<open>ensure_chain\<close>: the appending loop and the routine.\<close>

fun append_clusters :: "nat \<Rightarrow> nat \<Rightarrow> ('d, unit) fsm" where
  "append_clusters lst 0 = fs_ret ()"
| "append_clusters lst (Suc n) = fs_bind (cluster_alloc lst) (\<lambda>nc. append_clusters nc n)"

definition ensure_chain :: "nat \<Rightarrow> nat \<Rightarrow> ('d, nat) fsm" where
  "ensure_chain first need =
     (if need = 0 then fs_ret first
      else fs_bind (if first \<noteq> 0 then fs_get (chain_len first) else fs_ret 0) (\<lambda>len.
        if need \<le> len then fs_ret first
        else if len = 0
          then fs_bind (cluster_alloc 0) (\<lambda>nc. fs_then (append_clusters nc (need - 1)) (fs_ret nc))
          else fs_bind (fs_get (chain_at first (len - 1))) (\<lambda>lst.
                 fs_then (append_clusters lst (need - len)) (fs_ret first))))"

section \<open>Bytes of a chain\<close>

text \<open>
  \<^verbatim>\<open>range_write\<close>: \<open>src = None\<close> writes zeros. The loop state is the cluster, the position in it and the
  number of bytes done.
\<close>

definition src_bytes :: "u8 list option \<Rightarrow> nat \<Rightarrow> nat \<Rightarrow> u8 list" where
  "src_bytes src pos n = (case src of None \<Rightarrow> replicate n 0 | Some bs \<Rightarrow> take n (drop pos bs))"

definition put_chunk :: "nat \<Rightarrow> nat \<Rightarrow> u8 list \<Rightarrow> ('d, unit) fsm" where
  "put_chunk rel so bs =
     (if so = 0 \<and> length bs = SECTOR then dev_write rel bs
      else fs_then (read_sec rel)
             (fs_then (mod_sec (\<lambda>s. take so s @ bs @ drop (so + length bs) s)) (write_sec rel)))"

lemma chunk_progress:
  "done < len \<Longrightarrow> len - (done + min (SECTOR - w mod SECTOR) (len - done)) < len - (done :: nat)"
proof -
  assume "done < len"
  moreover have "w mod SECTOR < SECTOR" by (simp add: SECTOR_def)
  ultimately have "0 < min (SECTOR - w mod SECTOR) (len - done)" by simp
  with \<open>done < len\<close> show ?thesis by linarith
qed

function range_write_loop :: "nat \<Rightarrow> nat \<Rightarrow> nat \<Rightarrow> u8 list option \<Rightarrow> nat \<Rightarrow> ('d, unit) fsm" where
  "range_write_loop clu within done src len fs =
     (if done < len
      then let cb = spc fs * SECTOR;
               so = within mod SECTOR;
               chunk = min (SECTOR - so) (len - done)
           in (case put_chunk (cluster_to_sector fs clu + within div SECTOR) so (src_bytes src done chunk) fs of
                 (None, fs1) \<Rightarrow> (None, fs1)
               | (Some _, fs1) \<Rightarrow>
                   if within + chunk \<ge> cb \<and> done + chunk < len
                   then (case fat_next clu fs1 of
                           None \<Rightarrow> (None, fs1)
                         | Some nx \<Rightarrow> if nx = 0 then (None, fs1)
                             else range_write_loop nx (within + chunk - cb) (done + chunk) src len fs1)
                   else range_write_loop clu (within + chunk) (done + chunk) src len fs1)
      else (Some (), fs))"
  by pat_completeness auto
termination
  by (relation "measure (\<lambda>(_, _, done, _, len, _). len - done)") (auto simp: chunk_progress)

definition range_write :: "nat \<Rightarrow> nat \<Rightarrow> u8 list option \<Rightarrow> nat \<Rightarrow> ('d, unit) fsm" where
  "range_write first off src len fs =
     (case chain_at first (off div (spc fs * SECTOR)) fs of
        None \<Rightarrow> (None, fs)
      | Some clu \<Rightarrow> range_write_loop clu (off mod (spc fs * SECTOR)) 0 src len fs)"

section \<open>The disk a volume sees\<close>

text \<open>
  A mounted volume has a consistent geometry: the areas follow each other inside the partition, and
  the table has an entry for every cluster.
\<close>

definition geo_ok :: "'d fs \<Rightarrow> bool" where
  "geo_ok fs \<longleftrightarrow> 1 \<le> spc fs \<and> 1 \<le> num_fats fs \<and> 1 \<le> first_fat fs \<and>
     first_root fs = first_fat fs + num_fats fs * fatsz fs \<and>
     first_data fs = first_root fs + root_dir_sectors fs \<and>
     2 \<le> max_cluster fs \<and> max_cluster fs \<le> 0xFFF3 \<and>
     first_data fs + (max_cluster fs - 1) * spc fs \<le> total_sectors fs \<and>
     max_cluster fs < fatsz fs * 256 \<and> part_lba fs + total_sectors fs \<le> 2 ^ 32 \<and> length (sec fs) = SECTOR"

definition same_geo :: "'d fs \<Rightarrow> 'd fs \<Rightarrow> bool" where
  "same_geo fs fs' \<longleftrightarrow> (\<exists>d s. fs' = fs\<lparr>f_ctx := d, sec := s\<rparr>)"

definition disk :: "'d fs \<Rightarrow> nat \<Rightarrow> u8 list" where
  "disk fs q = the (dev_read q fs)"

text \<open>The table entry of a cluster, and the cluster an entry leads to.\<close>

definition fat_entry :: "'d fs \<Rightarrow> nat \<Rightarrow> u16" where
  "fat_entry fs c = rd16 (c * 2 mod SECTOR) (disk fs (first_fat fs + c * 2 div SECTOR))"

definition next_of :: "u16 \<Rightarrow> nat" where
  "next_of v = (if v = 0 \<or> v = FAT_BAD \<or> 0xFFF8 \<le> v then 0 else unat v)"

definition in_fat :: "'d fs \<Rightarrow> nat \<Rightarrow> bool" where
  "in_fat fs q \<longleftrightarrow> first_fat fs \<le> q \<and> q < first_root fs"

definition data_sector :: "'d fs \<Rightarrow> nat \<Rightarrow> nat" where
  "data_sector fs c = first_data fs + (c - 2) * spc fs"

lemma same_geo_refl [simp]: "same_geo fs fs"
  unfolding same_geo_def by (rule exI [of _ "f_ctx fs"], rule exI [of _ "sec fs"]) simp

lemma same_geo_trans: "same_geo a b \<Longrightarrow> same_geo b c \<Longrightarrow> same_geo a c"
  unfolding same_geo_def by (elim exE, hypsubst, simp) blast

lemma same_geoD:
  assumes "same_geo fs fs'"
  shows "f_dev fs' = f_dev fs" "part_lba fs' = part_lba fs" "total_sectors fs' = total_sectors fs"
    "spc fs' = spc fs" "fatsz fs' = fatsz fs" "num_fats fs' = num_fats fs" "root_entries fs' = root_entries fs"
    "root_dir_sectors fs' = root_dir_sectors fs" "first_fat fs' = first_fat fs" "first_root fs' = first_root fs"
    "first_data fs' = first_data fs" "max_cluster fs' = max_cluster fs" "mounted fs' = mounted fs"
    "cluster_to_sector fs' c = cluster_to_sector fs c" "data_sector fs' c = data_sector fs c" "in_fat fs' q = in_fat fs q"
  using assms by (auto simp: same_geo_def cluster_to_sector_def data_sector_def in_fat_def)

lemma w32_small [simp]: "n < 2 ^ 32 \<Longrightarrow> w32 n = n"
  by (simp add: w32_def)

lemma cluster_sector:
  assumes "geo_ok fs" "2 \<le> c" "c \<le> max_cluster fs"
  shows "cluster_to_sector fs c = data_sector fs c"
    and "i < spc fs \<Longrightarrow> data_sector fs c + i < total_sectors fs"
    and "first_data fs \<le> data_sector fs c"
proof -
  have c: "c - 2 + 1 \<le> max_cluster fs - 1" using assms(2,3) by linarith
  have m: "(c - 2) * spc fs + spc fs \<le> (max_cluster fs - 1) * spc fs"
    using mult_le_mono1 [OF c, of "spc fs"] by (simp add: algebra_simps)
  have t: "first_data fs + (max_cluster fs - 1) * spc fs \<le> total_sectors fs" "total_sectors fs \<le> 2 ^ 32" "1 \<le> spc fs"
    using assms(1) by (simp_all add: geo_ok_def)
  show lt: "i < spc fs \<Longrightarrow> data_sector fs c + i < total_sectors fs"
    using m t by (simp add: data_sector_def)
  have "data_sector fs c < 2 ^ 32" using m t by (simp add: data_sector_def)
  moreover have "w32 (c + (2 ^ 32 - 2)) = c - 2"
  proof -
    have "c + (2 ^ 32 - 2) = (c - 2) + 2 ^ 32" using assms(2) by simp
    moreover have "max_cluster fs \<le> 0xFFF3" using assms(1) by (simp add: geo_ok_def)
    then have "c - 2 < 2 ^ 32" using assms(3) by simp
    ultimately show ?thesis unfolding w32_def by (simp only: mod_add_self2 mod_less)
  qed
  ultimately show "cluster_to_sector fs c = data_sector fs c"
    by (simp add: cluster_to_sector_def data_sector_def)
  show "first_data fs \<le> data_sector fs c" by (simp add: data_sector_def)
qed

lemma fat_sector:
  assumes "geo_ok fs" "c \<le> max_cluster fs" "k < num_fats fs"
  shows "first_fat fs + k * fatsz fs + c * 2 div SECTOR < total_sectors fs"
    and "in_fat fs (first_fat fs + k * fatsz fs + c * 2 div SECTOR)"
    and "c * 2 div SECTOR < fatsz fs" and "c * 2 mod SECTOR + 1 < SECTOR"
proof -
  have c: "c * 2 div SECTOR < fatsz fs"
    using assms(1,2) by (simp add: geo_ok_def SECTOR_def) linarith
  have "Suc k * fatsz fs \<le> num_fats fs * fatsz fs" using assms(3) by (intro mult_le_mono1) simp
  with c show "first_fat fs + k * fatsz fs + c * 2 div SECTOR < total_sectors fs"
    "in_fat fs (first_fat fs + k * fatsz fs + c * 2 div SECTOR)" "c * 2 div SECTOR < fatsz fs"
    using assms(1) by (simp_all add: geo_ok_def in_fat_def)
  have "c * 2 mod SECTOR = 2 * (c mod 256)" by (simp add: SECTOR_def mult_mod_right mult.commute)
  moreover have "c mod 256 < 256" by simp
  ultimately show "c * 2 mod SECTOR + 1 < SECTOR" by (simp add: SECTOR_def)
qed

lemma fat_area_sector: "geo_ok fs \<Longrightarrow> k < fatsz fs \<Longrightarrow> first_fat fs + k < total_sectors fs"
proof -
  assume g: "geo_ok fs" and k: "k < fatsz fs"
  have "fatsz fs \<le> num_fats fs * fatsz fs" using g by (cases "num_fats fs") (simp_all add: geo_ok_def)
  moreover have "first_fat fs + num_fats fs * fatsz fs \<le> total_sectors fs" using g by (simp add: geo_ok_def)
  ultimately show ?thesis using k by linarith
qed

lemma fs_run:
  "m fs = (Some x, fs') \<Longrightarrow> fs_bind m f fs = f x fs'"
  "m fs = (Some x, fs') \<Longrightarrow> fs_then m n fs = n fs'"
  "m fs = (None, fs') \<Longrightarrow> fs_bind m f fs = (None, fs')"
  "m fs = (None, fs') \<Longrightarrow> fs_then m n fs = (None, fs')"
  by (simp_all add: fs_bind_def fs_then_def)

text \<open>
  On a device that keeps the contract every transfer inside the partition succeeds. A step keeps the
  volume and its geometry.
\<close>

definition volume :: "'d device \<Rightarrow> nat \<Rightarrow> ('d \<Rightarrow> bool) \<Rightarrow> 'd fs \<Rightarrow> bool" where
  "volume dev lim live fs \<longleftrightarrow> geo_ok fs \<and> f_dev fs = dev \<and> live (f_ctx fs) \<and> part_lba fs + total_sectors fs \<le> lim"

context sector_device
begin

abbreviation vol :: "'d fs \<Rightarrow> bool" where
  "vol \<equiv> volume dev lim live"

abbreviation step :: "'d fs \<Rightarrow> 'd fs \<Rightarrow> bool" where
  "step fs fs' \<equiv> vol fs' \<and> same_geo fs fs'"

lemmas vol_def = volume_def [of dev lim live]

lemma step_trans: "step a b \<Longrightarrow> step b c \<Longrightarrow> step a c"
  using same_geo_trans by auto

lemma vol_addr: "vol fs \<Longrightarrow> q < total_sectors fs \<Longrightarrow> w32 (part_lba fs + q) = part_lba fs + q \<and> part_lba fs + q < lim"
  by (auto simp: vol_def geo_ok_def)

lemma dev_read_vol:
  assumes "vol fs" "q < total_sectors fs"
  shows "dev_read q fs = Some (disk fs q)" and "length (disk fs q) = SECTOR"
  using read_live [of "f_ctx fs" "part_lba fs + q"] vol_addr [OF assms] assms(1)
  by (auto simp: dev_read_def disk_def vol_def)

lemma read_sec_vol:
  assumes "vol fs" "q < total_sectors fs"
  shows "read_sec q fs = (Some (), fs\<lparr>sec := disk fs q\<rparr>)" and "step fs (fs\<lparr>sec := disk fs q\<rparr>)"
proof -
  show "read_sec q fs = (Some (), fs\<lparr>sec := disk fs q\<rparr>)" by (simp add: read_sec_def dev_read_vol [OF assms])
  have "same_geo fs (fs\<lparr>sec := disk fs q\<rparr>)"
    unfolding same_geo_def by (rule exI [of _ "f_ctx fs"], rule exI) simp
  with assms dev_read_vol(2) [OF assms] show "step fs (fs\<lparr>sec := disk fs q\<rparr>)"
    by (simp add: vol_def geo_ok_def)
qed

lemma sec_update_vol:
  assumes "vol fs" "length s = SECTOR"
  shows "step fs (fs\<lparr>sec := s\<rparr>)" and "disk (fs\<lparr>sec := s\<rparr>) = disk fs"
proof -
  have "same_geo fs (fs\<lparr>sec := s\<rparr>)"
    unfolding same_geo_def by (rule exI [of _ "f_ctx fs"], rule exI) simp
  with assms show "step fs (fs\<lparr>sec := s\<rparr>)" by (simp add: vol_def geo_ok_def)
  show "disk (fs\<lparr>sec := s\<rparr>) = disk fs" by (rule ext) (simp add: disk_def dev_read_def)
qed

lemma dev_write_vol:
  assumes "vol fs" "q < total_sectors fs" "length b = SECTOR"
  obtains fs' where "dev_write q b fs = (Some (), fs')" "step fs fs'" "sec fs' = sec fs"
    "\<And>r. r < total_sectors fs \<Longrightarrow> disk fs' r = (if r = q then b else disk fs r)"
proof -
  let ?l = "part_lba fs + q"
  let ?fs' = "fs\<lparr>f_ctx := snd (d_write dev ?l b (f_ctx fs))\<rparr>"
  have a: "w32 ?l = ?l" "?l < lim" "f_dev fs = dev" "live (f_ctx fs)"
    using vol_addr [OF assms(1,2)] assms(1) by (auto simp: vol_def)
  have w: "fst (d_write dev ?l b (f_ctx fs))" "live (snd (d_write dev ?l b (f_ctx fs)))"
    using write_live [OF a(4,2) assms(3)] by auto
  show ?thesis
  proof (rule that)
    show "dev_write q b fs = (Some (), ?fs')"
      using w(1) a by (simp add: dev_write_def split_beta)
    have "same_geo fs ?fs'" unfolding same_geo_def by (rule exI, rule exI [of _ "sec fs"]) simp
    then show "step fs ?fs'" using w(2) assms(1) by (simp add: vol_def geo_ok_def)
    show "sec ?fs' = sec fs" by simp
    fix r assume r: "r < total_sectors fs"
    have "w32 (part_lba fs + r) = part_lba fs + r" "part_lba fs + r < lim" using vol_addr [OF assms(1) r] by auto
    then show "disk ?fs' r = (if r = q then b else disk fs r)"
      using read_write [OF a(4,2) assms(3), of "part_lba fs + r"] a by (simp add: disk_def dev_read_def)
  qed
qed

end

lemma fs_each_append: "fs_each (xs @ ys) b fs = fs_then (fs_each xs b) (fs_each ys b) fs"
  by (induction xs arbitrary: fs) (auto simp: fs_then_def fs_bind_def fs_ret_def split: prod.splits option.splits)

lemma copy_index_inj:
  "k * n + a = j * n + b \<Longrightarrow> a < n \<Longrightarrow> b < n \<Longrightarrow> k = j \<and> a = (b :: nat)"
proof -
  assume e: "k * n + a = j * n + b" and a: "a < n" and b: "b < n"
  have "(k * n + a) div n = k" "(j * n + b) div n = j" using a b by simp_all
  with e show ?thesis by simp
qed

lemma even_apart: "even a \<Longrightarrow> even b \<Longrightarrow> a \<noteq> b \<Longrightarrow> a + 1 < b \<or> b + 1 < (a :: nat)"
  by presburger

text \<open>Writing one entry changes that entry, in every copy of the table, and nothing else.\<close>

context sector_device
begin

lemma fat_set_copies:
  assumes v: "vol fs" and c: "c \<le> max_cluster fs" and n: "n \<le> num_fats fs"
  defines "pos \<equiv> \<lambda>k. first_fat fs + k * fatsz fs + c * 2 div SECTOR"
  shows "\<exists>fs'. fs_each [0..<n] (\<lambda>k. fs_then (read_sec (pos k))
         (fs_then (mod_sec (wr16 (c * 2 mod SECTOR) x)) (write_sec (pos k)))) fs = (Some (), fs') \<and> step fs fs' \<and>
     (\<forall>r < total_sectors fs. disk fs' r =
        (if \<exists>k < n. r = pos k then wr16 (c * 2 mod SECTOR) x (disk fs r) else disk fs r))"
  using n
proof (induction n)
  case 0
  then show ?case using v by (simp add: fs_ret_def)
next
  case (Suc n)
  let ?b = "\<lambda>k. fs_then (read_sec (pos k)) (fs_then (mod_sec (wr16 (c * 2 mod SECTOR) x)) (write_sec (pos k)))"
  let ?w = "wr16 (c * 2 mod SECTOR) x"
  from Suc obtain f1 where f1: "fs_each [0..<n] ?b fs = (Some (), f1)" "step fs f1"
    "\<And>r. r < total_sectors fs \<Longrightarrow> disk f1 r = (if \<exists>k < n. r = pos k then ?w (disk fs r) else disk fs r)"
    by auto
  have t1: "total_sectors f1 = total_sectors fs" using f1(2) same_geoD by blast
  have geo: "geo_ok fs" using v by (simp add: vol_def)
  have pn: "pos n < total_sectors fs" unfolding pos_def using fat_sector(1) [OF geo c] Suc.prems by simp
  have pn1: "pos n < total_sectors f1" using pn t1 by simp
  have fresh: "\<not> (\<exists>k < n. pos n = pos k)"
    using copy_index_inj [of n "fatsz fs" "c * 2 div SECTOR"] fat_sector(3) [OF geo c, of 0] geo Suc.prems
    by (auto simp: pos_def)
  have d: "disk f1 (pos n) = disk fs (pos n)" using f1(3) [OF pn] fresh by auto
  let ?f2 = "f1\<lparr>sec := disk f1 (pos n)\<rparr>"
  have r2: "read_sec (pos n) f1 = (Some (), ?f2)" "step f1 ?f2"
    using read_sec_vol [of f1 "pos n"] f1(2) pn1 by auto
  let ?s3 = "?w (disk f1 (pos n))"
  let ?f3 = "f1\<lparr>sec := ?s3\<rparr>"
  have l3: "length ?s3 = SECTOR" using dev_read_vol(2) [of f1 "pos n"] f1(2) pn1 by simp
  have v3: "step f1 ?f3" "disk ?f3 = disk f1" using sec_update_vol [of f1 ?s3] f1(2) l3 by auto
  have m3: "mod_sec ?w ?f2 = (Some (), ?f3)" by (simp add: mod_sec_def)
  from dev_write_vol [of ?f3 "pos n" ?s3] v3 pn1 l3 obtain f4 where
    f4: "dev_write (pos n) ?s3 ?f3 = (Some (), f4)" "step ?f3 f4"
      "\<And>r. r < total_sectors ?f3 \<Longrightarrow> disk f4 r = (if r = pos n then ?s3 else disk ?f3 r)" by auto
  have "?b n f1 = (Some (), f4)"
    using r2(1) m3 f4(1) by (simp add: fs_run write_sec_def)
  then have run: "fs_each [0..<Suc n] ?b fs = (Some (), f4)"
    using f1(1) by (simp add: fs_each_append fs_run fs_ret_def)
  have st: "step fs f4" using step_trans [OF f1(2)] step_trans [OF v3(1) f4(2)] by blast
  have "disk f4 r = (if \<exists>k < Suc n. r = pos k then ?w (disk fs r) else disk fs r)" if r: "r < total_sectors fs" for r
    using f4(3) [of r] f1(3) [OF r] r t1 v3(2) d fresh by (auto simp: less_Suc_eq)
  with run st show ?case by blast
qed

lemma fat_set_vol:
  assumes v: "vol fs" and c: "c \<le> max_cluster fs"
  obtains fs' where "fat_set c x fs = (Some (), fs')" "step fs fs'"
    "\<And>c'. c' \<le> max_cluster fs \<Longrightarrow> fat_entry fs' c' = (if c' = c then x else fat_entry fs c')"
    "\<And>r. r < total_sectors fs \<Longrightarrow> \<not> in_fat fs r \<Longrightarrow> disk fs' r = disk fs r"
proof -
  let ?pos = "\<lambda>k. first_fat fs + k * fatsz fs + c * 2 div SECTOR"
  have geo: "geo_ok fs" using v by (simp add: vol_def)
  have nf: "0 < num_fats fs" using geo by (simp add: geo_ok_def)
  from fat_set_copies [OF v c order_refl] obtain fs' where
    f: "fat_set c x fs = (Some (), fs')" "step fs fs'"
      "\<And>r. r < total_sectors fs \<Longrightarrow> disk fs' r =
         (if \<exists>k < num_fats fs. r = ?pos k then wr16 (c * 2 mod SECTOR) x (disk fs r) else disk fs r)"
    by (auto simp: fat_set_def)
  show ?thesis
  proof (rule that [OF f(1,2)])
    fix r assume r: "r < total_sectors fs" "\<not> in_fat fs r"
    then show "disk fs' r = disk fs r" using f(3) [OF r(1)] fat_sector(2) [OF geo c] by auto
  next
    fix c' assume c': "c' \<le> max_cluster fs"
    let ?q = "first_fat fs + c' * 2 div SECTOR"
    have q: "?q < total_sectors fs" using fat_sector(1) [OF geo c' nf] by simp
    have g: "first_fat fs' = first_fat fs" using f(2) same_geoD by blast
    have ix: "(\<exists>k < num_fats fs. ?q = ?pos k) \<longleftrightarrow> c' * 2 div SECTOR = c * 2 div SECTOR"
    proof
      assume "\<exists>k < num_fats fs. ?q = ?pos k"
      then obtain k where "0 * fatsz fs + c' * 2 div SECTOR = k * fatsz fs + c * 2 div SECTOR" by auto
      from copy_index_inj [OF this fat_sector(3) [OF geo c' nf] fat_sector(3) [OF geo c nf]]
      show "c' * 2 div SECTOR = c * 2 div SECTOR" by simp
    qed (use nf in auto)
    have l: "length (disk fs ?q) = SECTOR" using dev_read_vol(2) [OF v q] .
    show "fat_entry fs' c' = (if c' = c then x else fat_entry fs c')"
    proof (cases "c' * 2 div SECTOR = c * 2 div SECTOR")
      case False
      then show ?thesis using f(3) [OF q] ix by (auto simp: fat_entry_def g)
    next
      case True
      have d: "disk fs' ?q = wr16 (c * 2 mod SECTOR) x (disk fs ?q)" using f(3) [OF q] ix True by simp
      show ?thesis
      proof (cases "c' = c")
        case True
        with d l fat_sector(4) [OF geo c nf] show ?thesis by (simp add: fat_entry_def g rd16_wr16)
      next
        case False
        have "c' * 2 mod SECTOR \<noteq> c * 2 mod SECTOR"
          using False True div_mult_mod_eq [of "c' * 2" SECTOR] div_mult_mod_eq [of "c * 2" SECTOR] by auto
        moreover have "even (c' * 2 mod SECTOR)" "even (c * 2 mod SECTOR)" by (simp_all add: SECTOR_def dvd_mod)
        ultimately have "c' * 2 mod SECTOR + 1 < c * 2 mod SECTOR \<or> c * 2 mod SECTOR + 1 < c' * 2 mod SECTOR"
          using even_apart by blast
        with d False show ?thesis by (simp add: fat_entry_def g rd16_wr16_other)
      qed
    qed
  qed
qed

end

section \<open>Cluster chains\<close>

text \<open>A chain of the table: each entry leads to the next cluster, the last one ends it.\<close>

fun is_chain :: "(nat \<Rightarrow> u16) \<Rightarrow> nat \<Rightarrow> nat list \<Rightarrow> bool" where
  "is_chain F m [] = False"
| "is_chain F m [c] = (2 \<le> c \<and> c \<le> m \<and> next_of (F c) = 0)"
| "is_chain F m (c # d # cs) = (2 \<le> c \<and> c \<le> m \<and> next_of (F c) = d \<and> is_chain F m (d # cs))"

lemma is_chain_Cons:
  "is_chain F m (c # cs) \<longleftrightarrow> 2 \<le> c \<and> c \<le> m \<and> (if cs = [] then next_of (F c) = 0 else next_of (F c) = hd cs \<and> is_chain F m cs)"
  by (cases cs) auto

lemma is_chain_range: "is_chain F m cs \<Longrightarrow> c \<in> set cs \<Longrightarrow> 2 \<le> c \<and> c \<le> m"
  by (induction F m cs rule: is_chain.induct) auto

lemma is_chain_nonempty: "is_chain F m cs \<Longrightarrow> cs \<noteq> []"
  by auto

lemma is_chain_cong:
  "(\<And>c. c \<in> set cs \<Longrightarrow> F c = G c) \<Longrightarrow> is_chain F m cs = is_chain G m cs"
  by (induction F m cs rule: is_chain.induct) auto

lemma is_chain_suffix: "is_chain F m (xs @ ys) \<Longrightarrow> ys \<noteq> [] \<Longrightarrow> is_chain F m ys"
  by (induction xs) (auto simp: is_chain_Cons split: if_splits)

lemma is_chain_unique: "is_chain F m (c # xs) \<Longrightarrow> is_chain F m (c # ys) \<Longrightarrow> xs = ys"
proof (induction xs arbitrary: c ys)
  case Nil
  then have "next_of (F c) = 0" by simp
  with Nil.prems(2) show ?case
    by (cases ys) (auto dest: is_chain_range [where c = 0])
next
  case (Cons x xs)
  then have x: "next_of (F c) = x" "is_chain F m (x # xs)" by simp_all
  then have "x \<noteq> 0" using is_chain_range [OF x(2), of x] by simp
  then obtain ys' where "ys = x # ys'" "is_chain F m (x # ys')"
    using Cons.prems(2) x(1) by (cases ys) auto
  with Cons.IH [OF x(2)] show ?case by simp
qed

lemma is_chain_distinct: "is_chain F m cs \<Longrightarrow> distinct cs"
proof (induction cs)
  case (Cons c cs)
  show ?case
  proof (cases cs)
    case (Cons d ds)
    have ch: "is_chain F m cs" using Cons.prems Cons by simp
    have "c \<notin> set cs"
    proof
      assume "c \<in> set cs"
      then obtain xs ys where s: "cs = xs @ c # ys" by (meson split_list)
      have "is_chain F m (c # ys)" using is_chain_suffix [of F m xs "c # ys"] ch s by simp
      from is_chain_unique [OF Cons.prems this] s show False by simp
    qed
    with Cons.IH [OF ch] show ?thesis by simp
  qed simp
qed simp

lemma is_chain_length: "is_chain F m cs \<Longrightarrow> length cs < m"
proof -
  assume ch: "is_chain F m cs"
  have "set cs \<subseteq> {2..m}" using is_chain_range [OF ch] by auto
  then have "card (set cs) \<le> card {2..m}" by (intro card_mono) simp_all
  then have "length cs \<le> m - 1" using distinct_card [OF is_chain_distinct [OF ch]] by simp
  moreover have "2 \<le> m" using is_chain_range [OF ch, of "hd cs"] is_chain_nonempty [OF ch] by simp
  ultimately show ?thesis by linarith
qed

lemma next_of_nonzero: "next_of v \<noteq> 0 \<Longrightarrow> next_of v = unat v"
  by (simp add: next_of_def split: if_splits)

lemma next_of_EOC [simp]: "next_of FAT_EOC = 0"
  by (simp add: next_of_def FAT_EOC_def)

lemma next_of_cluster: "2 \<le> c \<Longrightarrow> c \<le> 0xFFF3 \<Longrightarrow> next_of (of_nat c) = c"
proof -
  assume c: "2 \<le> c" "c \<le> 0xFFF3"
  have u: "unat (of_nat c :: u16) = c" using c by (simp add: unat_of_nat take_bit_eq_mod)
  have "(of_nat c :: u16) \<noteq> 0" "(of_nat c :: u16) \<noteq> FAT_BAD" "\<not> 0xFFF8 \<le> (of_nat c :: u16)"
    using c u by (auto simp: FAT_BAD_def word_le_nat_alt unat_eq_zero dest: arg_cong [where f = unat])
  then show ?thesis by (simp add: next_of_def u)
qed

text \<open>What the search for a free cluster is meant to answer.\<close>

definition first_free :: "(nat \<Rightarrow> u16) \<Rightarrow> nat \<Rightarrow> nat option \<Rightarrow> bool" where
  "first_free F m r = (case r of
       None \<Rightarrow> \<forall>c. 2 \<le> c \<longrightarrow> c \<le> m \<longrightarrow> F c \<noteq> 0
     | Some c \<Rightarrow> 2 \<le> c \<and> c \<le> m \<and> F c = 0 \<and> (\<forall>c'. 2 \<le> c' \<longrightarrow> c' < c \<longrightarrow> F c' \<noteq> 0))"

text \<open>Linking a new last cluster.\<close>

lemma is_chain_snoc:
  assumes "is_chain F m cs" "2 \<le> n" "n \<le> m" "n \<notin> set cs"
    and "next_of (G n) = 0" "next_of (G (last cs)) = n" "\<And>c. c \<in> set (butlast cs) \<Longrightarrow> G c = F c"
  shows "is_chain G m (cs @ [n])"
  using assms
proof (induction cs)
  case (Cons c cs)
  show ?case
  proof (cases "cs = []")
    case True
    with Cons.prems show ?thesis by simp
  next
    case False
    have "is_chain G m (cs @ [n])"
      using Cons False by (intro Cons.IH) (auto simp: is_chain_Cons)
    moreover have "G c = F c" using Cons.prems(7) [of c] False by simp
    ultimately show ?thesis using Cons.prems(1) False by (simp add: is_chain_Cons)
  qed
qed simp

context sector_device
begin

lemma fat_next_vol: "vol fs \<Longrightarrow> c \<le> max_cluster fs \<Longrightarrow> fat_next c fs = Some (next_of (fat_entry fs c))"
proof -
  assume v: "vol fs" and c: "c \<le> max_cluster fs"
  have "first_fat fs + c * 2 div SECTOR < total_sectors fs"
    using fat_sector(1) [of fs c 0] v c by (simp add: vol_def geo_ok_def)
  from dev_read_vol(1) [OF v this] show ?thesis
    by (simp add: fat_next_def fat_get_def fat_entry_def next_of_def)
qed

lemma chain_len_loop_vol:
  "vol fs \<Longrightarrow> is_chain (fat_entry fs) (max_cluster fs) cs \<Longrightarrow> n + length cs \<le> max_cluster fs + 2 \<Longrightarrow>
     chain_len_loop fs (hd cs) n = Some (n + length cs)"
proof (induction cs arbitrary: n)
  case (Cons c cs)
  have c: "2 \<le> c" "c \<le> max_cluster fs" using is_chain_range [OF Cons.prems(2)] by auto
  show ?case
  proof (cases "cs = []")
    case True
    with Cons.prems c fat_next_vol [OF Cons.prems(1) c(2)] show ?thesis by simp
  next
    case False
    then have ch: "is_chain (fat_entry fs) (max_cluster fs) cs" "next_of (fat_entry fs c) = hd cs"
      using Cons.prems(2) by (auto simp: is_chain_Cons)
    have h: "hd cs \<noteq> 0" using is_chain_range [OF ch(1), of "hd cs"] False by simp
    have "chain_len_loop fs (hd cs) (n + 1) = Some (n + 1 + length cs)"
      by (rule Cons.IH [OF Cons.prems(1) ch(1)]) (use Cons.prems(3) in simp)
    with Cons.prems(3) c fat_next_vol [OF Cons.prems(1) c(2)] ch(2) h show ?thesis
      by (subst chain_len_loop.simps) simp
  qed
qed simp

lemma chain_len_vol:
  "vol fs \<Longrightarrow> is_chain (fat_entry fs) (max_cluster fs) cs \<Longrightarrow> chain_len (hd cs) fs = Some (length cs)"
  using chain_len_loop_vol [of fs cs 0] is_chain_length [of "fat_entry fs" "max_cluster fs" cs]
  by (simp add: chain_len_def)

lemma chain_at_vol:
  "vol fs \<Longrightarrow> is_chain (fat_entry fs) (max_cluster fs) cs \<Longrightarrow>
     chain_at (hd cs) n fs = (if n < length cs then Some (cs ! n) else None)"
proof (induction n arbitrary: cs)
  case 0
  then show ?case using is_chain_range [OF 0(2), of "hd cs"] is_chain_nonempty [OF 0(2)]
    by (auto simp: hd_conv_nth)
next
  case (Suc n)
  then obtain c ds where cs: "cs = c # ds" by (cases cs) auto
  have c: "c \<le> max_cluster fs" using is_chain_range [OF Suc.prems(2), of c] cs by simp
  show ?case
  proof (cases "ds = []")
    case True
    with Suc.prems cs fat_next_vol [OF Suc.prems(1) c] show ?thesis by simp
  next
    case False
    then have ch: "is_chain (fat_entry fs) (max_cluster fs) ds" "next_of (fat_entry fs c) = hd ds"
      using Suc.prems(2) cs by (auto simp: is_chain_Cons)
    have "hd ds \<noteq> 0" using is_chain_range [OF ch(1), of "hd ds"] False by simp
    with Suc.IH [OF Suc.prems(1) ch(1)] cs fat_next_vol [OF Suc.prems(1) c] ch(2) show ?thesis by simp
  qed
qed

lemma write_each_vol:
  assumes "vol fs" "rel + n \<le> total_sectors fs"
  shows "\<exists>fs'. fs_each [0..<n] (\<lambda>i. write_sec (rel + i)) fs = (Some (), fs') \<and> step fs fs' \<and> sec fs' = sec fs \<and>
    (\<forall>r < total_sectors fs. disk fs' r = (if rel \<le> r \<and> r < rel + n then sec fs else disk fs r))"
  using assms(2)
proof (induction n)
  case 0
  then show ?case using assms(1) by (auto simp: fs_ret_def)
next
  case (Suc n)
  then obtain f1 where f1: "fs_each [0..<n] (\<lambda>i. write_sec (rel + i)) fs = (Some (), f1)" "step fs f1" "sec f1 = sec fs"
    "\<And>r. r < total_sectors fs \<Longrightarrow> disk f1 r = (if rel \<le> r \<and> r < rel + n then sec fs else disk fs r)" by auto
  have t1: "total_sectors f1 = total_sectors fs" using f1(2) same_geoD by blast
  have "length (sec f1) = SECTOR" using f1(2) by (simp add: vol_def geo_ok_def)
  then obtain f2 where f2: "dev_write (rel + n) (sec f1) f1 = (Some (), f2)" "step f1 f2" "sec f2 = sec f1"
    "\<And>r. r < total_sectors f1 \<Longrightarrow> disk f2 r = (if r = rel + n then sec f1 else disk f1 r)"
    using dev_write_vol [of f1 "rel + n" "sec f1"] f1(2) Suc.prems t1 by auto
  have "fs_each [0..<Suc n] (\<lambda>i. write_sec (rel + i)) fs = (Some (), f2)"
    using f1(1) f2(1) by (simp add: fs_each_append fs_run fs_ret_def write_sec_def)
  moreover have "step fs f2" using step_trans [OF f1(2) f2(2)] .
  moreover have "disk f2 r = (if rel \<le> r \<and> r < rel + Suc n then sec fs else disk fs r)" if "r < total_sectors fs" for r
    using f1(3) f1(4) [OF that] f2(4) [of r] that t1 by auto
  ultimately show ?case using f1(3) f2(3) by auto
qed

lemma zero_sectors_vol:
  assumes "vol fs" "rel + n \<le> total_sectors fs"
  obtains fs' where "zero_sectors rel n fs = (Some (), fs')" "step fs fs'"
    "\<And>r. r < total_sectors fs \<Longrightarrow> disk fs' r = (if rel \<le> r \<and> r < rel + n then replicate SECTOR 0 else disk fs r)"
proof -
  let ?f1 = "fs\<lparr>sec := replicate SECTOR 0\<rparr>"
  have s1: "step fs ?f1" "disk ?f1 = disk fs" using sec_update_vol [of fs "replicate SECTOR 0"] assms(1) by simp_all
  from write_each_vol [of ?f1 rel n] s1 assms(2) obtain fs' where
    f: "fs_each [0..<n] (\<lambda>i. write_sec (rel + i)) ?f1 = (Some (), fs')" "step ?f1 fs'"
      "\<And>r. r < total_sectors ?f1 \<Longrightarrow> disk fs' r = (if rel \<le> r \<and> r < rel + n then sec ?f1 else disk ?f1 r)" by auto
  have "zero_sectors rel n fs = (Some (), fs')"
    using f(1) by (simp add: zero_sectors_def fs_then_def fs_bind_def mod_sec_def)
  with step_trans [OF s1(1) f(2)] f(3) s1(2) show ?thesis by (intro that) auto
qed

lemma free_chain_loop_vol:
  "vol fs \<Longrightarrow> is_chain (fat_entry fs) (max_cluster fs) cs \<Longrightarrow> g + length cs \<le> max_cluster fs + 2 \<Longrightarrow>
   \<exists>fs'. free_chain_loop (max_cluster fs) (hd cs) g fs = (Some (), fs') \<and> step fs fs' \<and>
     (\<forall>c \<le> max_cluster fs. fat_entry fs' c = (if c \<in> set cs then 0 else fat_entry fs c)) \<and>
     (\<forall>r < total_sectors fs. \<not> in_fat fs r \<longrightarrow> disk fs' r = disk fs r)"
proof (induction cs arbitrary: fs g)
  case (Cons c cs)
  have c: "2 \<le> c" "c \<le> max_cluster fs" using is_chain_range [OF Cons.prems(2)] by auto
  have dist: "c \<notin> set cs" using is_chain_distinct [OF Cons.prems(2)] by simp
  from fat_set_vol [OF Cons.prems(1) c(2), of FAT_FREE] obtain f1 where
    f1: "fat_set c FAT_FREE fs = (Some (), f1)" "step fs f1"
      "\<And>c'. c' \<le> max_cluster fs \<Longrightarrow> fat_entry f1 c' = (if c' = c then FAT_FREE else fat_entry fs c')"
      "\<And>r. r < total_sectors fs \<Longrightarrow> \<not> in_fat fs r \<Longrightarrow> disk f1 r = disk fs r" by blast
  have g1: "max_cluster f1 = max_cluster fs" "total_sectors f1 = total_sectors fs" "\<And>r. in_fat f1 r = in_fat fs r"
    using same_geoD [OF conjunct2 [OF f1(2)]] by simp_all
  have nx: "fat_next c fs = Some (next_of (fat_entry fs c))" by (rule fat_next_vol [OF Cons.prems(1) c(2)])
  have unf: "free_chain_loop (max_cluster fs) c g fs =
      free_chain_loop (max_cluster fs) (next_of (fat_entry fs c)) (g + 1) f1"
    using c Cons.prems(3) nx f1(1) by (subst free_chain_loop.simps) simp
  show ?case
  proof (cases "cs = []")
    case True
    then have "next_of (fat_entry fs c) = 0" using Cons.prems(2) by simp
    then have "free_chain_loop (max_cluster fs) c g fs = (Some (), f1)"
      using unf by (simp add: free_chain_loop.simps)
    with f1 True show ?thesis by (auto simp: FAT_FREE_def)
  next
    case False
    then have ch: "is_chain (fat_entry fs) (max_cluster fs) cs" "next_of (fat_entry fs c) = hd cs"
      using Cons.prems(2) by (auto simp: is_chain_Cons)
    have ch1: "is_chain (fat_entry f1) (max_cluster f1) cs"
      using ch(1) is_chain_range [OF ch(1)] f1(3) dist g1(1)
      by (subst is_chain_cong [of cs "fat_entry f1" "fat_entry fs"]) auto
    from Cons.IH [OF _ ch1, of "g + 1"] f1(2) Cons.prems(3) g1 obtain f2 where
      f2: "free_chain_loop (max_cluster fs) (hd cs) (g + 1) f1 = (Some (), f2)" "step f1 f2"
        "\<And>c. c \<le> max_cluster fs \<Longrightarrow> fat_entry f2 c = (if c \<in> set cs then 0 else fat_entry f1 c)"
        "\<And>r. r < total_sectors fs \<Longrightarrow> \<not> in_fat fs r \<Longrightarrow> disk f2 r = disk f1 r" by auto
    have "free_chain_loop (max_cluster fs) c g fs = (Some (), f2)" using unf ch(2) f2(1) by simp
    moreover have "step fs f2" using step_trans [OF f1(2) f2(2)] .
    ultimately show ?thesis using f1(3,4) f2(3,4) by (auto simp: FAT_FREE_def)
  qed
qed simp

lemma free_chain_vol:
  assumes "vol fs" "is_chain (fat_entry fs) (max_cluster fs) cs"
  obtains fs' where "free_chain (hd cs) fs = (Some (), fs')" "step fs fs'"
    "\<And>c. c \<le> max_cluster fs \<Longrightarrow> fat_entry fs' c = (if c \<in> set cs then 0 else fat_entry fs c)"
    "\<And>r. r < total_sectors fs \<Longrightarrow> \<not> in_fat fs r \<Longrightarrow> disk fs' r = disk fs r"
  using free_chain_loop_vol [OF assms, of 0] is_chain_length [OF assms(2)] by (auto simp: free_chain_def)

lemma free_in_sector_vol:
  assumes v: "vol fs" and s: "s < fatsz fs" and sec: "sec fs = disk fs (first_fat fs + s)"
  shows "free_in_sector fs s =
    for_first 0 256 (\<lambda>i. if 2 \<le> s * 256 + i \<and> s * 256 + i \<le> max_cluster fs \<and> fat_entry fs (s * 256 + i) = 0
      then Some (s * 256 + i) else None)"
proof -
  have "sec fs ! (i * 2) = 0 \<and> sec fs ! (i * 2 + 1) = 0 \<longleftrightarrow> fat_entry fs (s * 256 + i) = 0" if i: "i < 256" for i
  proof -
    have "(s * 256 + i) * 2 = s * 512 + i * 2" by simp
    then have "(s * 256 + i) * 2 div SECTOR = s" "(s * 256 + i) * 2 mod SECTOR = i * 2"
      using i by (simp_all add: SECTOR_def)
    then show ?thesis by (simp add: fat_entry_def sec rd16_zero_iff)
  qed
  moreover have "SECTOR div 2 = 256" by (simp add: SECTOR_def)
  ultimately show ?thesis unfolding free_in_sector_def
    by (simp only:) (rule for_first_cong, auto simp: Let_def)
qed

lemma find_free_vol:
  assumes "vol fs" "k \<le> fatsz fs"
    and "\<And>c. 2 \<le> c \<Longrightarrow> c \<le> max_cluster fs \<Longrightarrow> c < k * 256 \<Longrightarrow> fat_entry fs c \<noteq> 0"
  shows "\<exists>r fs'. find_free [k..<fatsz fs] fs = (r, fs') \<and> step fs fs' \<and> disk fs' = disk fs \<and>
    first_free (fat_entry fs) (max_cluster fs) r"
  using assms
proof (induction "fatsz fs - k" arbitrary: k fs)
  case 0
  have "c < k * 256" if "c \<le> max_cluster fs" for c
    using that 0 by (auto simp: vol_def geo_ok_def)
  with 0 show ?case by (auto simp: first_free_def)
next
  case (Suc n)
  have k: "k < fatsz fs" using Suc.hyps(2) by simp
  have q: "first_fat fs + k < total_sectors fs"
    using fat_area_sector [of fs k] Suc.prems(1) k by (simp add: vol_def)
  let ?f1 = "fs\<lparr>sec := disk fs (first_fat fs + k)\<rparr>"
  have r: "read_sec (first_fat fs + k) fs = (Some (), ?f1)" "step fs ?f1"
    using read_sec_vol [OF Suc.prems(1) q] by simp_all
  have d1: "disk ?f1 = disk fs" using sec_update_vol(2) [OF Suc.prems(1) dev_read_vol(2) [OF Suc.prems(1) q]] .
  have e1: "fat_entry ?f1 = fat_entry fs" by (rule ext) (simp add: fat_entry_def d1)
  let ?P = "\<lambda>i. 2 \<le> k * 256 + i \<and> k * 256 + i \<le> max_cluster fs \<and> fat_entry fs (k * 256 + i) = 0"
  have ff: "free_in_sector ?f1 k = for_first 0 256 (\<lambda>i. if ?P i then Some (k * 256 + i) else None)"
    using free_in_sector_vol [of ?f1 k] r(2) k d1 e1 by simp
  have up: "[k..<fatsz fs] = k # [Suc k..<fatsz fs]" using k by (simp add: upt_conv_Cons)
  show ?case
  proof (cases "free_in_sector ?f1 k")
    case (Some c)
    from for_first_SomeD [OF Some [unfolded ff]] obtain i where
      i0: "i < 256" "(if ?P i then Some (k * 256 + i) else None) = Some c"
        "\<forall>j. 0 \<le> j \<and> j < i \<longrightarrow> (if ?P j then Some (k * 256 + j) else None) = None" by blast
    have i: "i < 256" "?P i" "c = k * 256 + i" using i0(1,2) by (auto split: if_splits)
    have i4: "\<not> ?P j" if "j < i" for j using i0(3) that by (auto split: if_splits)
    have low: "fat_entry fs c' \<noteq> 0" if c': "2 \<le> c'" "c' < c" for c'
    proof (cases "c' < k * 256")
      case True
      show ?thesis by (rule Suc.prems(3) [OF c'(1) _ True]) (use c' i in linarith)
    next
      case False
      then have "c' = k * 256 + (c' - k * 256)" by simp
      moreover have "c' - k * 256 < i" using c'(2) i(3) False by linarith
      ultimately show ?thesis using i4 [of "c' - k * 256"] c' i by auto
    qed
    have "find_free [k..<fatsz fs] fs = (Some c, ?f1)" using up r(1) Some by simp
    with r(2) d1 low i show ?thesis by (auto simp: first_free_def)
  next
    case None
    have none: "\<And>i. i < 256 \<Longrightarrow> \<not> ?P i" using None unfolding ff for_first_None_iff by (auto split: if_splits)
    have nz: "fat_entry ?f1 c \<noteq> 0" if c: "2 \<le> c" "c \<le> max_cluster ?f1" "c < Suc k * 256" for c
    proof (cases "c < k * 256")
      case True
      then show ?thesis using Suc.prems(3) c e1 by simp
    next
      case False
      then have "c = k * 256 + (c - k * 256)" "c - k * 256 < 256" using c(3) by simp_all
      with none [of "c - k * 256"] c e1 show ?thesis by auto
    qed
    have "n = fatsz ?f1 - Suc k" "Suc k \<le> fatsz ?f1" using Suc.hyps(2) k by simp_all
    from Suc.hyps(1) [OF this(1) _ this(2) nz] r(2) obtain res f2 where
      f2: "find_free [Suc k..<fatsz fs] ?f1 = (res, f2)" "step ?f1 f2" "disk f2 = disk ?f1"
        "first_free (fat_entry ?f1) (max_cluster ?f1) res"
      by auto
    have "find_free [k..<fatsz fs] fs = (res, f2)" using up r(1) None f2(1) by simp
    moreover have "step fs f2" using step_trans [OF r(2) f2(2)] .
    ultimately show ?thesis using f2(3,4) d1 e1 by auto
  qed
qed

lemma fat_entry_frame:
  assumes "vol fs" "same_geo fs fs'" "c \<le> max_cluster fs"
    and "\<And>r. r < total_sectors fs \<Longrightarrow> in_fat fs r \<Longrightarrow> disk fs' r = disk fs r"
  shows "fat_entry fs' c = fat_entry fs c"
proof -
  have g: "geo_ok fs" "0 < num_fats fs" using assms(1) by (simp_all add: vol_def geo_ok_def)
  from assms(4) [OF fat_sector(1,2) [OF g(1) assms(3) g(2)]] show ?thesis
    using same_geoD(9) [OF assms(2)] by (simp add: fat_entry_def)
qed

lemma zero_cluster_vol:
  assumes v: "vol fs" and c: "2 \<le> c" "c \<le> max_cluster fs"
  obtains fs' where "zero_cluster c fs = (Some (), fs')" "step fs fs'"
    "\<And>x. x \<le> max_cluster fs \<Longrightarrow> fat_entry fs' x = fat_entry fs x"
    "\<And>r. r < total_sectors fs \<Longrightarrow>
       disk fs' r = (if data_sector fs c \<le> r \<and> r < data_sector fs c + spc fs then replicate SECTOR 0 else disk fs r)"
proof -
  have g: "geo_ok fs" using v by (simp add: vol_def)
  note cs = cluster_sector [OF g c]
  have "1 \<le> spc fs" using g by (simp add: geo_ok_def)
  then have "data_sector fs c + (spc fs - 1) < total_sectors fs" by (intro cs(2)) simp
  with \<open>1 \<le> spc fs\<close> have "data_sector fs c + spc fs \<le> total_sectors fs" by linarith
  from zero_sectors_vol [OF v this] obtain fs' where f: "zero_sectors (data_sector fs c) (spc fs) fs = (Some (), fs')" "step fs fs'"
    "\<And>r. r < total_sectors fs \<Longrightarrow>
       disk fs' r = (if data_sector fs c \<le> r \<and> r < data_sector fs c + spc fs then replicate SECTOR 0 else disk fs r)"
    by blast
  have "fat_entry fs' x = fat_entry fs x" if "x \<le> max_cluster fs" for x
  proof (rule fat_entry_frame [OF v conjunct2 [OF f(2)] that])
    fix r assume r: "r < total_sectors fs" "in_fat fs r"
    then have "r < data_sector fs c" using cs(3) g by (auto simp: in_fat_def geo_ok_def)
    then show "disk fs' r = disk fs r" using f(3) [OF r(1)] by simp
  qed
  with f show ?thesis by (intro that [of fs']) (simp_all add: zero_cluster_def cs(1))
qed

lemma cluster_alloc_vol:
  assumes v: "vol fs" and pv: "prev = 0 \<or> 2 \<le> prev \<and> prev \<le> max_cluster fs"
  obtains (full) fs' where "cluster_alloc prev fs = (None, fs')" "step fs fs'" "disk fs' = disk fs"
      "first_free (fat_entry fs) (max_cluster fs) None"
  | (got) c fs' where "cluster_alloc prev fs = (Some c, fs')" "step fs fs'"
      "first_free (fat_entry fs) (max_cluster fs) (Some c)"
      "\<And>x. x \<le> max_cluster fs \<Longrightarrow> fat_entry fs' x =
         (if prev \<noteq> 0 \<and> x = prev then of_nat c else if x = c then FAT_EOC else fat_entry fs x)"
      "\<And>r. r < total_sectors fs \<Longrightarrow> \<not> in_fat fs r \<Longrightarrow>
         disk fs' r = (if data_sector fs c \<le> r \<and> r < data_sector fs c + spc fs then replicate SECTOR 0 else disk fs r)"
proof -
  from find_free_vol [OF v, of 0] obtain r f1 where f1: "find_free [0..<fatsz fs] fs = (r, f1)" "step fs f1"
    "disk f1 = disk fs" "first_free (fat_entry fs) (max_cluster fs) r" by auto
  show ?thesis
  proof (cases r)
    case None
    have "cluster_alloc prev fs = (None, f1)"
      unfolding cluster_alloc_def by (rule fs_run(3)) (use f1(1) None in simp)
    with f1 None show ?thesis by (intro full [of f1]) auto
  next
    case (Some c)
    have c: "2 \<le> c" "c \<le> max_cluster fs" using f1(4) Some by (auto simp: first_free_def)
    note g1 = same_geoD [OF conjunct2 [OF f1(2)]]
    have e1: "fat_entry f1 x = fat_entry fs x" for x by (simp add: fat_entry_def f1(3) g1)
    have c1: "c \<le> max_cluster f1" using c g1 by simp
    from fat_set_vol [OF conjunct1 [OF f1(2)] c1, of FAT_EOC] obtain f2 where
      f2: "fat_set c FAT_EOC f1 = (Some (), f2)" "step f1 f2"
      "\<And>x. x \<le> max_cluster f1 \<Longrightarrow> fat_entry f2 x = (if x = c then FAT_EOC else fat_entry f1 x)"
      "\<And>r. r < total_sectors f1 \<Longrightarrow> \<not> in_fat f1 r \<Longrightarrow> disk f2 r = disk f1 r" by blast
    note e2 = f2(3) [unfolded g1 e1] and d2 = f2(4) [unfolded g1 f1(3)]
    note g2 = same_geoD [OF conjunct2 [OF f2(2)]]
    obtain f3 where f3: "(if prev \<noteq> 0 then fat_set prev (of_nat c) else fs_ret ()) f2 = (Some (), f3)" "step f2 f3"
      "\<And>x. x \<le> max_cluster fs \<Longrightarrow> fat_entry f3 x = (if prev \<noteq> 0 \<and> x = prev then of_nat c else fat_entry f2 x)"
      "\<And>r. r < total_sectors fs \<Longrightarrow> \<not> in_fat fs r \<Longrightarrow> disk f3 r = disk f2 r"
    proof (cases "prev = 0")
      case True
      show ?thesis by (rule that [of f2]) (use True f2(2) in \<open>auto simp: fs_ret_def\<close>)
    next
      case False
      have p2: "prev \<le> max_cluster f2" using False pv g1 g2 by simp
      from fat_set_vol [OF conjunct1 [OF f2(2)] p2, of "of_nat c"] obtain f3 where
        f3: "fat_set prev (of_nat c) f2 = (Some (), f3)" "step f2 f3"
        "\<And>x. x \<le> max_cluster f2 \<Longrightarrow> fat_entry f3 x = (if x = prev then of_nat c else fat_entry f2 x)"
        "\<And>r. r < total_sectors f2 \<Longrightarrow> \<not> in_fat f2 r \<Longrightarrow> disk f3 r = disk f2 r" by blast
      show ?thesis by (rule that [OF _ f3(2)]) (use False f3(1) f3(3,4) [unfolded g2 g1] in simp_all)
    qed
    note g3 = same_geoD [OF conjunct2 [OF f3(2)]]
    have c3: "c \<le> max_cluster f3" using c g1 g2 g3 by simp
    from zero_cluster_vol [OF conjunct1 [OF f3(2)] c(1) c3] obtain f4 where
      f4: "zero_cluster c f3 = (Some (), f4)" "step f3 f4"
      "\<And>x. x \<le> max_cluster f3 \<Longrightarrow> fat_entry f4 x = fat_entry f3 x"
      "\<And>r. r < total_sectors f3 \<Longrightarrow>
       disk f4 r = (if data_sector f3 c \<le> r \<and> r < data_sector f3 c + spc f3 then replicate SECTOR 0 else disk f3 r)"
      by blast
    note e4 = f4(3) [unfolded g3 g2 g1] and d4 = f4(4) [unfolded g3 g2 g1]
    have run: "cluster_alloc prev fs = (Some c, f4)"
      unfolding cluster_alloc_def using f1(1) Some f2(1) f3(1) f4(1) by (simp add: fs_run fs_ret_def)
    have st: "step fs f4"
      using step_trans [OF step_trans [OF f1(2) f2(2)] step_trans [OF f3(2) f4(2)]] .
    show ?thesis
      by (rule got [OF run st]) (use f1(4) Some in \<open>simp_all add: e4 d4 f3(3,4) e2 d2\<close>)
  qed
qed

end

text \<open>Growing a chain.\<close>

definition free_set :: "(nat \<Rightarrow> u16) \<Rightarrow> nat \<Rightarrow> nat set" where
  "free_set F m = {c. 2 \<le> c \<and> c \<le> m \<and> F c = 0}"

lemma finite_free_set [simp]: "finite (free_set F m)"
  by (rule finite_subset [of _ "{..m}"]) (auto simp: free_set_def)

lemma first_free_None: "first_free F m None \<longleftrightarrow> free_set F m = {}"
  by (auto simp: first_free_def free_set_def)

lemma first_free_Some: "first_free F m (Some c) \<Longrightarrow> c \<in> free_set F m"
  by (simp add: first_free_def free_set_def)

definition in_cluster :: "'d fs \<Rightarrow> nat \<Rightarrow> nat \<Rightarrow> bool" where
  "in_cluster fs c r \<longleftrightarrow> data_sector fs c \<le> r \<and> r < data_sector fs c + spc fs"

lemma is_chain_nonzero: "is_chain F m cs \<Longrightarrow> c \<in> set cs \<Longrightarrow> c \<notin> free_set F m \<or> c = last cs"
proof (induction F m cs rule: is_chain.induct)
  case (3 F m c' d cs)
  have "next_of (F c') = d" "2 \<le> d" using "3.prems" is_chain_range [of F m "d # cs" d] by auto
  then have "F c' \<noteq> 0" by (auto simp: next_of_def)
  with 3 show ?case by (auto simp: free_set_def)
qed auto

text \<open>A chain in use: its last entry is an end mark, not a free entry.\<close>

definition live_chain :: "(nat \<Rightarrow> u16) \<Rightarrow> nat \<Rightarrow> nat list \<Rightarrow> bool" where
  "live_chain F m cs \<longleftrightarrow> is_chain F m cs \<and> set cs \<inter> free_set F m = {}"

lemma live_chainI: "is_chain F m cs \<Longrightarrow> F (last cs) \<noteq> 0 \<Longrightarrow> live_chain F m cs"
  using is_chain_nonzero by (fastforce simp: live_chain_def free_set_def)

context sector_device
begin

text \<open>One new cluster at the end of a chain.\<close>

lemma grow_chain:
  assumes v: "vol fs" and ch: "live_chain (fat_entry fs) (max_cluster fs) cs"
    and free: "free_set (fat_entry fs) (max_cluster fs) \<noteq> {}"
  obtains c fs' where "cluster_alloc (last cs) fs = (Some c, fs')" "step fs fs'"
    "c \<in> free_set (fat_entry fs) (max_cluster fs)"
    "live_chain (fat_entry fs') (max_cluster fs) (cs @ [c])"
    "free_set (fat_entry fs') (max_cluster fs) = free_set (fat_entry fs) (max_cluster fs) - {c}"
    "\<And>x. x \<le> max_cluster fs \<Longrightarrow> x \<noteq> c \<Longrightarrow> x \<noteq> last cs \<Longrightarrow> fat_entry fs' x = fat_entry fs x"
    "\<And>r. r < total_sectors fs \<Longrightarrow> \<not> in_fat fs r \<Longrightarrow>
       disk fs' r = (if in_cluster fs c r then replicate SECTOR 0 else disk fs r)"
proof -
  have chain: "is_chain (fat_entry fs) (max_cluster fs) cs" using ch by (simp add: live_chain_def)
  have ne: "cs \<noteq> []" using is_chain_nonempty [OF chain] .
  have l: "2 \<le> last cs" "last cs \<le> max_cluster fs" using is_chain_range [OF chain, of "last cs"] ne by auto
  show ?thesis
  proof (rule cluster_alloc_vol [OF v, of "last cs"], goal_cases)
    case 1
    then show ?case using l by simp
  next
    case (2 fs')
    then show ?case using free first_free_None by blast
  next
    case (3 c fs')
    have c: "c \<in> free_set (fat_entry fs) (max_cluster fs)" using first_free_Some [OF 3(3)] .
    then have c2: "2 \<le> c" "c \<le> max_cluster fs" "fat_entry fs c = 0" by (auto simp: free_set_def)
    have nc: "c \<notin> set cs" using ch c by (auto simp: live_chain_def)
    then have nl: "c \<noteq> last cs" using ne by auto
    have E: "fat_entry fs' x = (if x = last cs then of_nat c else if x = c then FAT_EOC else fat_entry fs x)"
      if "x \<le> max_cluster fs" for x using 3(4) [OF that] l by simp
    have m: "max_cluster fs \<le> 0xFFF3" using v by (simp add: vol_def geo_ok_def)
    have nz: "(of_nat c :: u16) \<noteq> 0"
      using next_of_cluster [of c] c2 m by (auto simp: next_of_def)
    have fr: "free_set (fat_entry fs') (max_cluster fs) = free_set (fat_entry fs) (max_cluster fs) - {c}"
    proof (intro set_eqI iffI)
      fix x assume "x \<in> free_set (fat_entry fs') (max_cluster fs)"
      then show "x \<in> free_set (fat_entry fs) (max_cluster fs) - {c}"
        using E [of x] nz by (auto simp: free_set_def FAT_EOC_def split: if_splits)
    next
      fix x assume x: "x \<in> free_set (fat_entry fs) (max_cluster fs) - {c}"
      then have "x \<noteq> last cs" using ch last_in_set [OF ne] by (auto simp: live_chain_def)
      with x show "x \<in> free_set (fat_entry fs') (max_cluster fs)"
        using E [of x] by (auto simp: free_set_def)
    qed
    have "is_chain (fat_entry fs') (max_cluster fs) (cs @ [c])"
    proof (rule is_chain_snoc [OF chain c2(1,2) nc])
      show "next_of (fat_entry fs' c) = 0" using E [OF c2(2)] nl by simp
      show "next_of (fat_entry fs' (last cs)) = c" using E [OF l(2)] next_of_cluster [of c] c2 m by simp
      fix x assume x: "x \<in> set (butlast cs)"
      then have "x \<in> set cs" by (rule in_set_butlastD)
      moreover have "x \<noteq> last cs"
        using x is_chain_distinct [OF chain] ne by (metis append_butlast_last_id distinct_butlast not_distinct_conv_prefix)
      ultimately show "fat_entry fs' x = fat_entry fs x"
        using E [of x] is_chain_range [OF chain, of x] nc by auto
    qed
    then have "live_chain (fat_entry fs') (max_cluster fs) (cs @ [c])"
      by (rule live_chainI) (use E [OF c2(2)] nl in \<open>simp add: FAT_EOC_def\<close>)
    then show ?case
      using 3(1,2,5) c fr E by (intro that [of c fs']) (auto simp: in_cluster_def)
  qed
qed

end

lemma live_chainD: "live_chain F m cs \<Longrightarrow> is_chain F m cs"
  by (simp add: live_chain_def)

text \<open>What allocating the clusters \<open>new\<close> does to the area behind the table.\<close>

definition zeroed :: "'d fs \<Rightarrow> nat list \<Rightarrow> 'd fs \<Rightarrow> bool" where
  "zeroed fs new fs' \<longleftrightarrow> (\<forall>r < total_sectors fs. \<not> in_fat fs r \<longrightarrow>
     disk fs' r = (if \<exists>c \<in> set new. in_cluster fs c r then replicate SECTOR 0 else disk fs r))"

lemma zeroedD:
  "zeroed fs new fs' \<Longrightarrow> r < total_sectors fs \<Longrightarrow> \<not> in_fat fs r \<Longrightarrow>
     disk fs' r = (if \<exists>c \<in> set new. in_cluster fs c r then replicate SECTOR 0 else disk fs r)"
  by (simp add: zeroed_def)

lemma in_cluster_geo: "same_geo fs fs' \<Longrightarrow> in_cluster fs' c r = in_cluster fs c r"
  using same_geoD [of fs fs'] by (simp add: in_cluster_def)

context sector_device
begin

lemma append_clusters_vol:
  assumes "vol fs" and "live_chain (fat_entry fs) (max_cluster fs) cs"
    and "n \<le> card (free_set (fat_entry fs) (max_cluster fs))"
  shows "\<exists>new fs'. append_clusters (last cs) n fs = (Some (), fs') \<and> step fs fs' \<and> length new = n \<and>
    set new \<subseteq> free_set (fat_entry fs) (max_cluster fs) \<and>
    live_chain (fat_entry fs') (max_cluster fs) (cs @ new) \<and>
    free_set (fat_entry fs') (max_cluster fs) = free_set (fat_entry fs) (max_cluster fs) - set new \<and>
    (\<forall>x \<le> max_cluster fs. x \<notin> set new \<longrightarrow> x \<noteq> last cs \<longrightarrow> fat_entry fs' x = fat_entry fs x) \<and>
    zeroed fs new fs'"
  using assms
proof (induction n arbitrary: cs fs)
  case 0
  then show ?case by (intro exI [of _ "[]"]) (simp add: fs_ret_def zeroed_def)
next
  case (Suc n)
  let ?F = "fat_entry fs" and ?m = "max_cluster fs"
  have "free_set ?F ?m \<noteq> {}" using Suc.prems(3) by auto
  from grow_chain [OF Suc.prems(1,2) this] obtain c f1 where
    f1: "cluster_alloc (last cs) fs = (Some c, f1)" "step fs f1" "c \<in> free_set ?F ?m"
      "live_chain (fat_entry f1) ?m (cs @ [c])" "free_set (fat_entry f1) ?m = free_set ?F ?m - {c}"
      "\<And>x. x \<le> ?m \<Longrightarrow> x \<noteq> c \<Longrightarrow> x \<noteq> last cs \<Longrightarrow> fat_entry f1 x = ?F x"
      "\<And>r. r < total_sectors fs \<Longrightarrow> \<not> in_fat fs r \<Longrightarrow>
         disk f1 r = (if in_cluster fs c r then replicate SECTOR 0 else disk fs r)" by blast
  note g = same_geoD [OF conjunct2 [OF f1(2)]] and ic = in_cluster_geo [OF conjunct2 [OF f1(2)]]
  have "n \<le> card (free_set (fat_entry f1) (max_cluster f1))"
    using Suc.prems(3) f1(3) by (simp add: g f1(5) card_Diff_singleton)
  moreover have "live_chain (fat_entry f1) (max_cluster f1) (cs @ [c])" using f1(4) g by simp
  ultimately obtain new fs' where h: "append_clusters c n f1 = (Some (), fs')" "step f1 fs'" "length new = n"
      "set new \<subseteq> free_set (fat_entry f1) ?m" "live_chain (fat_entry fs') ?m ((cs @ [c]) @ new)"
      "free_set (fat_entry fs') ?m = free_set (fat_entry f1) ?m - set new"
      "\<forall>x \<le> ?m. x \<notin> set new \<longrightarrow> x \<noteq> c \<longrightarrow> fat_entry fs' x = fat_entry f1 x" "zeroed f1 new fs'"
    using Suc.IH [OF conjunct1 [OF f1(2)], of "cs @ [c]"] g by auto
  have z: "zeroed fs (c # new) fs'"
    unfolding zeroed_def
  proof (intro allI impI)
    fix r assume r: "r < total_sectors fs" "\<not> in_fat fs r"
    then show "disk fs' r = (if \<exists>c \<in> set (c # new). in_cluster fs c r then replicate SECTOR 0 else disk fs r)"
      using zeroedD [OF h(8), of r] f1(7) [OF r] by (simp add: g ic)
  qed
  have "append_clusters (last cs) (Suc n) fs = (Some (), fs')" using f1(1) h(1) by (simp add: fs_run)
  moreover have "fat_entry fs' x = ?F x" if "x \<le> ?m" "x \<notin> set (c # new)" "x \<noteq> last cs" for x
    using h(7) f1(6) that by simp
  ultimately show ?case
    using step_trans [OF f1(2) h(2)] h(3-6) f1(3,5) z by (intro exI [of _ "c # new"] exI [of _ fs']) auto
qed

lemma append_clusters_full:
  assumes "vol fs" and "live_chain (fat_entry fs) (max_cluster fs) cs"
    and "card (free_set (fat_entry fs) (max_cluster fs)) < n"
  shows "\<exists>fs'. append_clusters (last cs) n fs = (None, fs') \<and> step fs fs'"
  using assms
proof (induction n arbitrary: cs fs)
  case (Suc n)
  let ?F = "fat_entry fs" and ?m = "max_cluster fs"
  have ch: "is_chain ?F ?m cs" using live_chainD [OF Suc.prems(2)] .
  have "last cs \<in> set cs" using last_in_set [OF is_chain_nonempty [OF ch]] .
  from is_chain_range [OF ch this] have l: "2 \<le> last cs" "last cs \<le> ?m" by simp_all
  show ?case
  proof (cases "free_set ?F ?m = {}")
    case True
    show ?thesis
    proof (rule cluster_alloc_vol [OF Suc.prems(1), of "last cs"], goal_cases)
      case (2 fs')
      have "append_clusters (last cs) (Suc n) fs = (None, fs')" using 2(1) by (simp add: fs_bind_def)
      with 2(2) show ?case by blast
    next
      case (3 c fs')
      then show ?case using True first_free_Some by blast
    qed (use l in simp)
  next
    case False
    from grow_chain [OF Suc.prems(1,2) this] obtain c f1 where
      f1: "cluster_alloc (last cs) fs = (Some c, f1)" "step fs f1" "c \<in> free_set ?F ?m"
        "live_chain (fat_entry f1) ?m (cs @ [c])" "free_set (fat_entry f1) ?m = free_set ?F ?m - {c}"
        "\<And>x. x \<le> ?m \<Longrightarrow> x \<noteq> c \<Longrightarrow> x \<noteq> last cs \<Longrightarrow> fat_entry f1 x = ?F x"
        "\<And>r. r < total_sectors fs \<Longrightarrow> \<not> in_fat fs r \<Longrightarrow>
           disk f1 r = (if in_cluster fs c r then replicate SECTOR 0 else disk fs r)" by blast
    note g = same_geoD [OF conjunct2 [OF f1(2)]]
    have "0 < card (free_set ?F ?m)" using False by (simp add: card_gt_0_iff)
    then have n: "card (free_set (fat_entry f1) (max_cluster f1)) < n"
      using Suc.prems(3) f1(3) unfolding g(12) f1(5) by (simp add: card_Diff_singleton)
    have "live_chain (fat_entry f1) (max_cluster f1) (cs @ [c])" using f1(4) g(12) by simp
    from Suc.IH [OF conjunct1 [OF f1(2)] this n] obtain fs' where
      f2: "append_clusters c n f1 = (None, fs')" "step f1 fs'" by auto
    then have "append_clusters (last cs) (Suc n) fs = (None, fs')" using f1(1) by (simp add: fs_bind_def)
    with step_trans [OF f1(2) f2(2)] show ?thesis by blast
  qed
qed simp

end

text \<open>
  The chain of a file or directory: none when its first cluster is 0. \<open>grown fs cs new fs'\<close> says what a
  step that extends the chain \<open>cs\<close> by the clusters \<open>new\<close> does to the volume.
\<close>

definition file_chain :: "'d fs \<Rightarrow> nat \<Rightarrow> nat list \<Rightarrow> bool" where
  "file_chain fs first cs \<longleftrightarrow>
     (if first = 0 then cs = [] else live_chain (fat_entry fs) (max_cluster fs) cs \<and> first = hd cs)"

definition free_clusters :: "'d fs \<Rightarrow> nat set" where
  "free_clusters fs = free_set (fat_entry fs) (max_cluster fs)"

definition grown :: "'d fs \<Rightarrow> nat list \<Rightarrow> nat list \<Rightarrow> 'd fs \<Rightarrow> bool" where
  "grown fs cs new fs' \<longleftrightarrow> set new \<subseteq> free_clusters fs \<and> free_clusters fs' = free_clusters fs - set new \<and>
     (\<forall>x \<le> max_cluster fs. x \<notin> set new \<longrightarrow> (cs = [] \<or> x \<noteq> last cs) \<longrightarrow> fat_entry fs' x = fat_entry fs x) \<and>
     zeroed fs new fs'"

lemma file_chain_hd: "live_chain (fat_entry fs) (max_cluster fs) cs \<Longrightarrow> file_chain fs (hd cs) cs"
  using is_chain_range [OF live_chainD, of "fat_entry fs" "max_cluster fs" cs "hd cs"]
    is_chain_nonempty [OF live_chainD, of "fat_entry fs" "max_cluster fs" cs]
  by (auto simp: file_chain_def)

lemma file_chainD: "file_chain fs first cs \<Longrightarrow> first \<noteq> 0 \<Longrightarrow> live_chain (fat_entry fs) (max_cluster fs) cs \<and> first = hd cs"
  by (simp add: file_chain_def)

lemma live_chain_nonempty: "live_chain F m cs \<Longrightarrow> cs \<noteq> []"
  using is_chain_nonempty [OF live_chainD] .

lemma last_single: "last [c] = c"
  by simp

lemma grown_trans:
  assumes "grown fs cs [c] f1" "grown f1 (cs @ [c]) new fs'" "same_geo fs f1" "c \<in> free_clusters fs"
    "cs \<noteq> [] \<Longrightarrow> last cs \<notin> free_clusters fs"
  shows "grown fs cs (c # new) fs'"
proof -
  note g = same_geoD [OF assms(3)] and ic = in_cluster_geo [OF assms(3)]
  have "zeroed fs (c # new) fs'"
    unfolding zeroed_def
  proof (intro allI impI)
    fix r assume r: "r < total_sectors fs" "\<not> in_fat fs r"
    have "zeroed fs [c] f1" "zeroed f1 new fs'" using assms(1,2) by (simp_all add: grown_def)
    from zeroedD [OF this(1) r] zeroedD [OF this(2), of r] r
    show "disk fs' r = (if \<exists>c \<in> set (c # new). in_cluster fs c r then replicate SECTOR 0 else disk fs r)"
      by (simp add: g ic)
  qed
  with assms show ?thesis by (auto simp: grown_def g)
qed

lemma cluster_sectors_apart:
  assumes "in_cluster fs c r" "in_cluster fs d r" "2 \<le> c" "2 \<le> d"
  shows "c = d"
proof (rule ccontr)
  assume "c \<noteq> d"
  have less: False if "c < d" "2 \<le> c" "in_cluster fs c r" "in_cluster fs d r" for c d
  proof -
    have "Suc (c - 2) * spc fs \<le> (d - 2) * spc fs" using that by (intro mult_le_mono1) simp
    then show False using that by (simp add: in_cluster_def data_sector_def)
  qed
  with assms \<open>c \<noteq> d\<close> show False by (meson linorder_neqE_nat)
qed

context sector_device
begin

lemma fresh_chain:
  assumes v: "vol fs" and free: "free_clusters fs \<noteq> {}"
  obtains c fs' where "cluster_alloc 0 fs = (Some c, fs')" "step fs fs'" "c \<in> free_clusters fs"
    "live_chain (fat_entry fs') (max_cluster fs) [c]" "grown fs [] [c] fs'"
proof -
  show ?thesis
  proof (rule cluster_alloc_vol [OF v, of 0], goal_cases)
    case (2 fs')
    then show ?case using free first_free_None by (simp add: free_clusters_def)
  next
    case (3 c fs')
    note g = same_geoD [OF conjunct2 [OF 3(2)]]
    have c: "c \<in> free_clusters fs" using first_free_Some [OF 3(3)] by (simp add: free_clusters_def)
    then have c2: "2 \<le> c" "c \<le> max_cluster fs" by (auto simp: free_set_def free_clusters_def)
    have E: "fat_entry fs' x = (if x = c then FAT_EOC else fat_entry fs x)" if "x \<le> max_cluster fs" for x
      using 3(4) [OF that] by simp
    have fr: "free_clusters fs' = free_clusters fs - {c}"
      using E by (auto simp: free_clusters_def free_set_def g FAT_EOC_def split: if_splits)
    have "live_chain (fat_entry fs') (max_cluster fs) [c]"
      using E [OF c2(2)] c2 by (simp add: live_chain_def free_set_def next_of_def FAT_EOC_def)
    moreover have "grown fs [] [c] fs'"
      using c fr E 3(5) by (simp add: grown_def zeroed_def in_cluster_def)
    ultimately show ?case using 3(1,2) c by (intro that [of c fs'])
  qed simp
qed

lemma append_clusters_grown:
  assumes v: "vol fs" and ch: "live_chain (fat_entry fs) (max_cluster fs) cs" and n: "n \<le> card (free_clusters fs)"
  obtains new fs' where "append_clusters (last cs) n fs = (Some (), fs')" "step fs fs'" "length new = n"
    "live_chain (fat_entry fs') (max_cluster fs) (cs @ new)" "grown fs cs new fs'"
proof -
  from append_clusters_vol [OF v ch n [unfolded free_clusters_def]] obtain new fs' where
    h: "append_clusters (last cs) n fs = (Some (), fs')" "step fs fs'" "length new = n"
      "set new \<subseteq> free_set (fat_entry fs) (max_cluster fs)"
      "live_chain (fat_entry fs') (max_cluster fs) (cs @ new)"
      "free_set (fat_entry fs') (max_cluster fs) = free_set (fat_entry fs) (max_cluster fs) - set new"
      "\<forall>x \<le> max_cluster fs. x \<notin> set new \<longrightarrow> x \<noteq> last cs \<longrightarrow> fat_entry fs' x = fat_entry fs x"
      "zeroed fs new fs'" by blast
  note g = same_geoD [OF conjunct2 [OF h(2)]]
  have "grown fs cs new fs'"
    using h(4,6-8) live_chain_nonempty [OF ch] by (simp add: grown_def free_clusters_def g)
  with h show ?thesis by (intro that)
qed

lemma ensure_chain_vol:
  assumes v: "vol fs" and ch: "file_chain fs first cs" and n: "need - length cs \<le> card (free_clusters fs)"
  obtains first' new fs' where "ensure_chain first need fs = (Some first', fs')" "step fs fs'"
    "length new = need - length cs" "file_chain fs' first' (cs @ new)" "grown fs cs new fs'"
proof -
  have g0: "grown fs cs [] fs" by (simp add: grown_def zeroed_def)
  show ?thesis
  proof (cases "first = 0")
    case True
    then have cs: "cs = []" using ch by (simp add: file_chain_def)
    show ?thesis
    proof (cases need)
      case 0
      with v ch cs g0 show ?thesis by (intro that [of first fs "[]"]) (simp_all add: ensure_chain_def fs_ret_def)
    next
      case (Suc k)
      then have "free_clusters fs \<noteq> {}" using n cs by auto
      from fresh_chain [OF v this] obtain c f1 where
        f1: "cluster_alloc 0 fs = (Some c, f1)" "step fs f1" "c \<in> free_clusters fs"
          "live_chain (fat_entry f1) (max_cluster fs) [c]" "grown fs [] [c] f1" by blast
      note g = same_geoD [OF conjunct2 [OF f1(2)]]
      have "k \<le> card (free_clusters f1)"
        using f1(3,5) n cs Suc by (simp add: grown_def card_Diff_singleton free_clusters_def)
      from append_clusters_grown [OF conjunct1 [OF f1(2)] f1(4) [folded g(12)] this, unfolded last_single] obtain new fs' where
        f2: "append_clusters c k f1 = (Some (), fs')" "step f1 fs'" "length new = k"
          "live_chain (fat_entry fs') (max_cluster f1) ([c] @ new)" "grown f1 [c] new fs'" by blast
      note g2 = same_geoD [OF conjunct2 [OF f2(2)]]
      have run: "ensure_chain first need fs = (Some c, fs')"
        using True Suc f1(1) f2(1) by (simp add: ensure_chain_def fs_run fs_ret_def)
      have "grown fs [] (c # new) fs'"
        using grown_trans [of fs "[]" c f1 new fs'] f1(2,3,5) f2(5) by simp
      moreover have "file_chain fs' c (c # new)"
        using file_chain_hd [of fs' "c # new"] f2(4) g2 by simp
      ultimately show ?thesis
        using that [OF run step_trans [OF f1(2) f2(2)], of "c # new"] f2(3) cs Suc by simp
    qed
  next
    case False
    with file_chainD [OF ch] have lc: "live_chain (fat_entry fs) (max_cluster fs) cs" "first = hd cs" by auto
    note isc = live_chainD [OF lc(1)] and ne = live_chain_nonempty [OF lc(1)]
    have len: "chain_len first fs = Some (length cs)" using chain_len_vol [OF v isc] lc(2) by simp
    show ?thesis
    proof (cases "need \<le> length cs")
      case True
      have "ensure_chain first need fs = (Some first, fs)"
        using True len False by (simp add: ensure_chain_def fs_get_def fs_bind_def fs_ret_def)
      with v ch g0 True show ?thesis by (intro that [of first fs "[]"]) simp_all
    next
      case more: False
      have at: "chain_at first (length cs - 1) fs = Some (last cs)"
        using chain_at_vol [OF v isc, of "length cs - 1"] ne lc(2) by (simp add: last_conv_nth)
      from append_clusters_grown [OF v lc(1) n] obtain new fs' where
        f: "append_clusters (last cs) (need - length cs) fs = (Some (), fs')" "step fs fs'" "length new = need - length cs"
          "live_chain (fat_entry fs') (max_cluster fs) (cs @ new)" "grown fs cs new fs'" by blast
      note g = same_geoD [OF conjunct2 [OF f(2)]]
      have run: "ensure_chain first need fs = (Some first, fs')"
        using more False len at f(1) ne by (simp add: ensure_chain_def fs_get_def fs_bind_def fs_then_def fs_ret_def)
      have "file_chain fs' first (cs @ new)"
        using file_chain_hd [of fs' "cs @ new"] f(4) g lc(2) ne by simp
      with that [OF run f(2,3) _ f(5)] show ?thesis by simp
    qed
  qed
qed

end

section \<open>The bytes of a chain\<close>

definition chain_sector :: "'d fs \<Rightarrow> nat list \<Rightarrow> nat \<Rightarrow> nat" where
  "chain_sector fs cs s = data_sector fs (cs ! (s div spc fs)) + s mod spc fs"

definition chain_byte :: "'d fs \<Rightarrow> nat list \<Rightarrow> nat \<Rightarrow> u8" where
  "chain_byte fs cs p = disk fs (chain_sector fs cs (p div SECTOR)) ! (p mod SECTOR)"

text \<open>
  \<open>patched fs cs lo n b fs'\<close>: the bytes \<open>lo\<close> to \<open>lo + n\<close> of the chain are now given by \<open>b\<close>, every other byte of
  it and every sector outside the chain is what it was.
\<close>

definition patched :: "'d fs \<Rightarrow> nat list \<Rightarrow> nat \<Rightarrow> nat \<Rightarrow> (nat \<Rightarrow> u8) \<Rightarrow> 'd fs \<Rightarrow> bool" where
  "patched fs cs lo n b fs' \<longleftrightarrow>
     (\<forall>r < total_sectors fs. (\<forall>c \<in> set cs. \<not> in_cluster fs c r) \<longrightarrow> disk fs' r = disk fs r) \<and>
     (\<forall>p < length cs * (spc fs * SECTOR).
        chain_byte fs' cs p = (if lo \<le> p \<and> p < lo + n then b p else chain_byte fs cs p))"

lemma chain_sector_geo: "same_geo fs fs' \<Longrightarrow> chain_sector fs' cs s = chain_sector fs cs s"
  using same_geoD [of fs fs'] by (simp add: chain_sector_def)

lemma patched_trans:
  "patched fs cs lo n b f1 \<Longrightarrow> same_geo fs f1 \<Longrightarrow> patched f1 cs (lo + n) k b fs' \<Longrightarrow> patched fs cs lo (n + k) b fs'"
  using same_geoD [of fs f1] in_cluster_geo [of fs f1] by (auto simp: patched_def)

lemma patched_none: "patched fs cs lo 0 b fs"
  by (auto simp: patched_def)

lemma chain_sector_in:
  assumes "s < length cs * spc fs"
  shows "cs ! (s div spc fs) \<in> set cs" "in_cluster fs (cs ! (s div spc fs)) (chain_sector fs cs s)"
proof -
  have "0 < spc fs" using assms by (cases "spc fs") auto
  then have "s div spc fs < length cs" "s mod spc fs < spc fs"
    using assms by (simp_all add: less_mult_imp_div_less)
  then show "cs ! (s div spc fs) \<in> set cs" "in_cluster fs (cs ! (s div spc fs)) (chain_sector fs cs s)"
    by (simp_all add: chain_sector_def in_cluster_def)
qed

lemma chain_sector_inj:
  assumes "is_chain F m cs" "s < length cs * spc fs" "t < length cs * spc fs"
    "chain_sector fs cs s = chain_sector fs cs t"
  shows "s = t"
proof -
  note S = chain_sector_in [OF assms(2)] and T = chain_sector_in [OF assms(3)]
  have "cs ! (s div spc fs) = cs ! (t div spc fs)"
    using cluster_sectors_apart [OF S(2) T(2) [folded assms(4)]] is_chain_range [OF assms(1)] S(1) T(1) by blast
  moreover from this have "s div spc fs = t div spc fs"
    using nth_eq_iff_index_eq [OF is_chain_distinct [OF assms(1)]] assms(2,3) by (simp add: less_mult_imp_div_less)
  ultimately have "s div spc fs = t div spc fs" "s mod spc fs = t mod spc fs"
    using assms(4) by (simp_all add: chain_sector_def)
  then show ?thesis using div_mult_mod_eq [of s "spc fs"] div_mult_mod_eq [of t "spc fs"] by metis
qed

lemma is_chain_nth: "is_chain F m cs \<Longrightarrow> Suc k < length cs \<Longrightarrow> next_of (F (cs ! k)) = cs ! Suc k"
proof (induction cs arbitrary: k)
  case (Cons c cs)
  then show ?case by (cases k) (auto simp: is_chain_Cons hd_conv_nth split: if_splits)
qed simp

lemma sector_split:
  "p div (n * SECTOR) = p div SECTOR div n" "p mod (n * SECTOR) div SECTOR = p div SECTOR mod n"
  "p mod (n * SECTOR) mod SECTOR = p mod SECTOR"
proof -
  show "p div (n * SECTOR) = p div SECTOR div n" by (simp add: mult.commute div_mult2_eq)
  show "p mod (n * SECTOR) mod SECTOR = p mod SECTOR" by (simp add: mod_mod_cancel)
  have "p mod (n * SECTOR) = SECTOR * (p div SECTOR mod n) + p mod SECTOR"
    by (simp add: mult.commute [of n] mod_mult2_eq)
  moreover have "0 < SECTOR" by (simp add: SECTOR_def)
  ultimately show "p mod (n * SECTOR) div SECTOR = p div SECTOR mod n" by simp
qed

context sector_device
begin

lemma put_chunk_vol:
  assumes v: "vol fs" and q: "q < total_sectors fs" and b: "so + length bs \<le> SECTOR"
  obtains fs' where "put_chunk q so bs fs = (Some (), fs')" "step fs fs'"
    "\<And>r. r < total_sectors fs \<Longrightarrow> disk fs' r =
       (if r = q then take so (disk fs q) @ bs @ drop (so + length bs) (disk fs q) else disk fs r)"
proof (cases "so = 0 \<and> length bs = SECTOR")
  case True
  from dev_write_vol [OF v q, of bs] True obtain fs' where f: "dev_write q bs fs = (Some (), fs')" "step fs fs'" "sec fs' = sec fs"
    "\<And>r. r < total_sectors fs \<Longrightarrow> disk fs' r = (if r = q then bs else disk fs r)" by blast
  show ?thesis
    by (rule that [OF _ f(2)]) (use True f(1,4) dev_read_vol(2) [OF v q] in \<open>simp_all add: put_chunk_def\<close>)
next
  case False
  let ?s = "take so (disk fs q) @ bs @ drop (so + length bs) (disk fs q)"
  let ?f1 = "fs\<lparr>sec := disk fs q\<rparr>" and ?f2 = "fs\<lparr>sec := ?s\<rparr>"
  have l: "length (disk fs q) = SECTOR" "length ?s = SECTOR" using dev_read_vol(2) [OF v q] b by simp_all
  note f2 = sec_update_vol [OF v l(2)]
  note g = same_geoD [OF conjunct2 [OF f2(1)]]
  have q2: "q < total_sectors ?f2" using q g by simp
  from dev_write_vol [OF conjunct1 [OF f2(1)] q2 l(2)] obtain fs' where
    f: "dev_write q ?s ?f2 = (Some (), fs')" "step ?f2 fs'" "sec fs' = sec ?f2"
      "\<And>r. r < total_sectors ?f2 \<Longrightarrow> disk fs' r = (if r = q then ?s else disk ?f2 r)" by blast
  have "put_chunk q so bs fs = (Some (), fs')"
  proof -
    have "mod_sec (\<lambda>s. take so s @ bs @ drop (so + length bs) s) ?f1 = (Some (), ?f2)" by (simp add: mod_sec_def)
    moreover have "write_sec q ?f2 = (Some (), fs')" using f(1) by (simp add: write_sec_def)
    ultimately show ?thesis
      unfolding put_chunk_def if_not_P [OF False] by (simp add: fs_then_def fs_bind_def read_sec_vol(1) [OF v q])
  qed
  then show ?thesis
    by (rule that [OF _ step_trans [OF f2(1) f(2)]]) (use f(4) f2(2) in simp)
qed

text \<open>One chunk of \<^verbatim>\<open>range_write\<close>.\<close>

lemma chunk_vol:
  assumes v: "vol fs" and ch: "is_chain (fat_entry fs) (max_cluster fs) cs"
    and p: "p < length cs * (spc fs * SECTOR)" and bs: "p mod SECTOR + length bs \<le> SECTOR"
    and b: "\<And>i. i < length bs \<Longrightarrow> bs ! i = b (p + i)"
  obtains fs' where
    "put_chunk (cluster_to_sector fs (cs ! (p div (spc fs * SECTOR))) + p mod (spc fs * SECTOR) div SECTOR) (p mod SECTOR) bs fs
       = (Some (), fs')" "step fs fs'" "patched fs cs p (length bs) b fs'"
proof -
  have geo: "geo_ok fs" using v by (simp add: vol_def)
  let ?s = "p div SECTOR" and ?so = "p mod SECTOR"
  let ?q = "chain_sector fs cs ?s"
  have s: "?s < length cs * spc fs" using p by (simp add: less_mult_imp_div_less mult.assoc [symmetric])
  note in_s = chain_sector_in [OF s]
  have c: "2 \<le> cs ! (?s div spc fs)" "cs ! (?s div spc fs) \<le> max_cluster fs" using is_chain_range [OF ch in_s(1)] by auto
  have q: "?q < total_sectors fs"
    using in_s(2) cluster_sector(2) [OF geo c, of "?s mod spc fs"] geo by (simp add: chain_sector_def geo_ok_def)
  have addr: "cluster_to_sector fs (cs ! (p div (spc fs * SECTOR))) + p mod (spc fs * SECTOR) div SECTOR = ?q"
    using cluster_sector(1) [OF geo c] by (simp add: sector_split chain_sector_def)
  from put_chunk_vol [OF v q bs] obtain fs' where f: "put_chunk ?q ?so bs fs = (Some (), fs')" "step fs fs'"
    "\<And>r. r < total_sectors fs \<Longrightarrow> disk fs' r =
       (if r = ?q then take ?so (disk fs ?q) @ bs @ drop (?so + length bs) (disk fs ?q) else disk fs r)" by blast
  note cg = chain_sector_geo [OF conjunct2 [OF f(2)]]
  have l: "length (disk fs ?q) = SECTOR" using dev_read_vol(2) [OF v q] .
  have byte: "chain_byte fs' cs x = (if p \<le> x \<and> x < p + length bs then b x else chain_byte fs cs x)"
    if x: "x < length cs * (spc fs * SECTOR)" for x
  proof -
    have t: "x div SECTOR < length cs * spc fs" using x by (simp add: less_mult_imp_div_less mult.assoc [symmetric])
    note in_t = chain_sector_in [OF t]
    have qt: "chain_sector fs cs (x div SECTOR) < total_sectors fs"
      using cluster_sector(2) [OF geo, of "cs ! (x div SECTOR div spc fs)" "x div SECTOR mod spc fs"]
        is_chain_range [OF ch in_t(1)] geo by (simp add: chain_sector_def geo_ok_def)
    show ?thesis
    proof (cases "x div SECTOR = ?s")
      case True
      have xs: "x = ?s * SECTOR + x mod SECTOR" using div_mult_mod_eq [of x SECTOR] True by simp
      have ps: "p = ?s * SECTOR + ?so" by simp
      have xm: "x mod SECTOR < SECTOR" by (simp add: SECTOR_def)
      have iff: "p \<le> x \<longleftrightarrow> ?so \<le> x mod SECTOR" "x < p + length bs \<longleftrightarrow> x mod SECTOR < ?so + length bs"
        using xs ps by linarith+
      have off: "?so \<le> x mod SECTOR \<Longrightarrow> p + (x mod SECTOR - ?so) = x" using xs ps by linarith
      show ?thesis
        using f(3) [OF q] True xm l b off bs
        by (auto simp: chain_byte_def cg iff nth_append)
    next
      case False
      then have ne: "chain_sector fs cs (x div SECTOR) \<noteq> ?q" using chain_sector_inj [OF ch t s] by blast
      have "\<not> (p \<le> x \<and> x < p + length bs)"
      proof
        assume a: "p \<le> x \<and> x < p + length bs"
        then have "x - ?s * SECTOR < SECTOR" "?s * SECTOR \<le> x"
          using bs div_mult_mod_eq [of p SECTOR] by linarith+
        then have "x div SECTOR = ?s"
          by (metis add.commute div_mult_self3 div_less add_0 le_add_diff_inverse2 less_nat_zero_code)
        with False show False ..
      qed
      with f(3) [OF qt] ne show ?thesis by (auto simp: chain_byte_def cg)
    qed
  qed
  have "disk fs' r = disk fs r" if "r < total_sectors fs" "\<forall>c \<in> set cs. \<not> in_cluster fs c r" for r
    using f(3) [OF that(1)] that(2) in_s by auto
  with byte have "patched fs cs p (length bs) b fs'" by (simp add: patched_def)
  with f addr show ?thesis by (intro that [of fs']) simp_all
qed

end

text \<open>\<^verbatim>\<open>range_write\<close> on a chain long enough for the bytes.\<close>

definition src_byte :: "u8 list option \<Rightarrow> nat \<Rightarrow> u8" where
  "src_byte src i = (case src of None \<Rightarrow> 0 | Some bs \<Rightarrow> bs ! i)"

lemma src_bytes_nth:
  assumes "\<And>bs. src = Some bs \<Longrightarrow> d + n \<le> length bs"
  shows "length (src_bytes src d n) = n" "i < n \<Longrightarrow> src_bytes src d n ! i = src_byte src (d + i)"
  using assms by (auto simp: src_bytes_def src_byte_def split: option.splits)

lemma cluster_cross:
  assumes "p mod SECTOR + n \<le> SECTOR" "0 < k" "0 < n"
  shows "p mod (k * SECTOR) + n \<le> k * SECTOR"
    and "p mod (k * SECTOR) + n < k * SECTOR \<Longrightarrow> (p + n) div (k * SECTOR) = p div (k * SECTOR) \<and> (p + n) mod (k * SECTOR) = p mod (k * SECTOR) + n"
    and "p mod (k * SECTOR) + n = k * SECTOR \<Longrightarrow> (p + n) div (k * SECTOR) = Suc (p div (k * SECTOR)) \<and> (p + n) mod (k * SECTOR) = 0"
proof -
  let ?cb = "k * SECTOR"
  have cb: "0 < ?cb" using assms(2) by (simp add: SECTOR_def)
  have e: "p mod ?cb = SECTOR * (p div SECTOR mod k) + p mod SECTOR"
    by (simp add: mult.commute [of k] mod_mult2_eq)
  have "Suc (p div SECTOR mod k) * SECTOR \<le> k * SECTOR" using assms(2) by (intro mult_le_mono1) (simp add: Suc_le_eq)
  with e assms(1) show "p mod ?cb + n \<le> ?cb" by (simp add: algebra_simps)
  have d: "p + n = p div ?cb * ?cb + (p mod ?cb + n)" using div_mult_mod_eq [of p ?cb] by linarith
  show "(p + n) div ?cb = p div ?cb \<and> (p + n) mod ?cb = p mod ?cb + n" if "p mod ?cb + n < ?cb"
    using that cb by (subst d, subst d) (simp only: div_mult_self3 mod_mult_self3 div_less mod_less, simp)
  show "(p + n) div ?cb = Suc (p div ?cb) \<and> (p + n) mod ?cb = 0" if "p mod ?cb + n = ?cb"
  proof -
    have "p + n = Suc (p div ?cb) * ?cb" using d that by simp
    with cb show ?thesis by (metis mod_mult_self2_is_0 nonzero_mult_div_cancel_right less_numeral_extra(3))
  qed
qed

context sector_device
begin

lemma patched_fat:
  assumes v: "vol fs" and ch: "is_chain (fat_entry fs) (max_cluster fs) cs" and g: "same_geo fs fs'"
    and p: "patched fs cs lo n b fs'" and c: "c \<le> max_cluster fs"
  shows "fat_entry fs' c = fat_entry fs c"
proof (rule fat_entry_frame [OF v g c])
  fix r assume r: "r < total_sectors fs" "in_fat fs r"
  have "\<not> in_cluster fs d r" if "d \<in> set cs" for d
    using r(2) v by (auto simp: in_cluster_def in_fat_def data_sector_def vol_def geo_ok_def)
  with p r(1) show "disk fs' r = disk fs r" by (simp add: patched_def)
qed

lemma patched_chain:
  assumes v: "vol fs" and ch: "is_chain (fat_entry fs) (max_cluster fs) cs" and g: "same_geo fs fs'"
    and p: "patched fs cs lo n b fs'"
  shows "is_chain (fat_entry fs') (max_cluster fs') cs"
  using is_chain_cong [of cs "fat_entry fs'" "fat_entry fs" "max_cluster fs"] is_chain_range [OF ch]
    patched_fat [OF v ch g p] ch same_geoD(12) [OF g] by auto

lemma range_write_loop_vol:
  assumes "vol fs" and "is_chain (fat_entry fs) (max_cluster fs) cs"
    and "off + len \<le> length cs * (spc fs * SECTOR)" and "\<And>bs. src = Some bs \<Longrightarrow> len \<le> length bs"
    and "d < len \<Longrightarrow> clu = cs ! ((off + d) div (spc fs * SECTOR)) \<and> within = (off + d) mod (spc fs * SECTOR)"
    and "d \<le> len"
  shows "\<exists>fs'. range_write_loop clu within d src len fs = (Some (), fs') \<and> step fs fs' \<and>
    patched fs cs (off + d) (len - d) (\<lambda>p. src_byte src (p - off)) fs'"
  using assms
proof (induction "len - d" arbitrary: fs clu within d rule: less_induct)
  case less
  show ?case
  proof (cases "d < len")
    case False
    with less.prems(1) show ?thesis by (subst range_write_loop.simps) (simp add: patched_none)
  next
    case True
    let ?cb = "spc fs * SECTOR" and ?p = "off + d"
    let ?n = "min (SECTOR - within mod SECTOR) (len - d)"
    let ?b = "\<lambda>p. src_byte src (p - off)"
    have cw: "clu = cs ! (?p div ?cb)" "within = ?p mod ?cb" using less.prems(5) True by auto
    have wm: "within mod SECTOR = ?p mod SECTOR" "within mod SECTOR < SECTOR"
      using cw(2) by (simp add: sector_split, simp add: SECTOR_def)
    have n0: "0 < ?n" "d + ?n \<le> len" using True wm(2) by auto
    have spc: "0 < spc fs" using less.prems(1) by (simp add: vol_def geo_ok_def)
    note sb = src_bytes_nth [of src d ?n]
    have lb: "length (src_bytes src d ?n) = ?n" using sb(1) less.prems(4) n0(2) by force
    have bb: "src_bytes src d ?n ! i = ?b (?p + i)" if "i < length (src_bytes src d ?n)" for i
      using sb(2) [of i] less.prems(4) n0(2) that lb by (force simp: add.assoc)
    have p: "?p < length cs * ?cb" using True less.prems(3) by linarith
    have fit: "?p mod SECTOR + length (src_bytes src d ?n) \<le> SECTOR"
      unfolding lb using wm by linarith
    from chunk_vol [OF less.prems(1,2) p fit bb] obtain f1 where
      f1: "put_chunk (cluster_to_sector fs (cs ! (?p div ?cb)) + ?p mod ?cb div SECTOR) (?p mod SECTOR) (src_bytes src d ?n) fs
         = (Some (), f1)" "step fs f1" "patched fs cs ?p (length (src_bytes src d ?n)) ?b f1" by blast
    note g = same_geoD [OF conjunct2 [OF f1(2)]]
    note pat = f1(3) [unfolded lb]
    note ch1 = patched_chain [OF less.prems(1,2) conjunct2 [OF f1(2)] pat]
    note cross = cluster_cross [of ?p ?n "spc fs", OF _ spc n0(1)]
    have fit': "?p mod SECTOR + ?n \<le> SECTOR" using fit lb by simp
    have rest: "\<exists>fs'. range_write_loop c w (d + ?n) src len f1 = (Some (), fs') \<and> step f1 fs' \<and>
        patched f1 cs (off + (d + ?n)) (len - (d + ?n)) ?b fs'"
      if "d + ?n < len \<Longrightarrow> c = cs ! ((off + (d + ?n)) div ?cb) \<and> w = (off + (d + ?n)) mod ?cb" for c w
      by (rule less.hyps [OF _ conjunct1 [OF f1(2)] ch1]) (use n0 True that less.prems(3,4) g in auto)
    have run: "put_chunk (cluster_to_sector fs clu + within div SECTOR) (within mod SECTOR) (src_bytes src d ?n) fs = (Some (), f1)"
      using f1(1) unfolding cw(1) [symmetric] cw(2) [symmetric] wm(1) [symmetric] .
    have eq: "range_write_loop clu within d src len fs =
        (if within + ?n \<ge> ?cb \<and> d + ?n < len
         then (case fat_next clu f1 of None \<Rightarrow> (None, f1)
               | Some nx \<Rightarrow> if nx = 0 then (None, f1) else range_write_loop nx (within + ?n - ?cb) (d + ?n) src len f1)
         else range_write_loop clu (within + ?n) (d + ?n) src len f1)"
      by (subst range_write_loop.simps) (simp only: True if_True Let_def run prod.case option.case)
    have goal: "?thesis" if "range_write_loop clu within d src len fs = range_write_loop c w (d + ?n) src len f1"
      "d + ?n < len \<Longrightarrow> c = cs ! ((off + (d + ?n)) div ?cb) \<and> w = (off + (d + ?n)) mod ?cb" for c w
    proof -
      from rest [OF that(2)] obtain fs' where h: "range_write_loop c w (d + ?n) src len f1 = (Some (), fs')" "step f1 fs'"
        "patched f1 cs (off + (d + ?n)) (len - (d + ?n)) ?b fs'" by blast
      have "patched fs cs ?p (?n + (len - (d + ?n))) ?b fs'"
        using patched_trans [OF pat conjunct2 [OF f1(2)], of "len - (d + ?n)" fs'] h(3) by (simp only: add.assoc)
      moreover have "?n + (len - (d + ?n)) = len - d" using n0(2) by linarith
      ultimately show ?thesis using h(1) that(1) step_trans [OF f1(2) h(2)] by (intro exI [of _ fs']) (simp only:)
    qed
    show ?thesis
    proof (cases "within + ?n \<ge> ?cb \<and> d + ?n < len")
      case False
      show ?thesis
      proof (rule goal)
        show "range_write_loop clu within d src len fs = range_write_loop clu (within + ?n) (d + ?n) src len f1"
          using eq False by (simp only: if_False)
        show "clu = cs ! ((off + (d + ?n)) div ?cb) \<and> within + ?n = (off + (d + ?n)) mod ?cb" if "d + ?n < len"
          using cross(2) [OF fit'] False that cw by (simp only: add.assoc [symmetric]) auto
      qed
    next
      case True
      then have full: "?p mod ?cb + ?n = ?cb" using cross(1) [OF fit'] cw(2) by linarith
      note nx = cross(3) [OF fit' full]
      have "off + (d + ?n) < length cs * ?cb" using True less.prems(3) by linarith
      then have k: "Suc (?p div ?cb) < length cs"
        using nx by (metis add.assoc less_mult_imp_div_less)
      have clu: "clu \<le> max_cluster f1" "clu \<in> set cs"
        using is_chain_range [OF less.prems(2), of clu] cw(1) k g by auto
      have "fat_next clu f1 = Some (cs ! Suc (?p div ?cb))"
        using fat_next_vol [OF conjunct1 [OF f1(2)] clu(1)] is_chain_nth [OF ch1 k] cw(1) by simp
      moreover have "cs ! Suc (?p div ?cb) \<noteq> 0"
        using is_chain_range [OF less.prems(2) nth_mem [OF k]] by simp
      ultimately have "range_write_loop clu within d src len fs =
          range_write_loop (cs ! Suc (?p div ?cb)) (within + ?n - ?cb) (d + ?n) src len f1"
        using eq True by (simp only: if_True option.case if_False simp_thms)
      then show ?thesis
        by (rule goal) (use nx full cw(2) in \<open>simp only: add.assoc [symmetric], simp\<close>)
    qed
  qed
qed

end

end
