(* ===== verification/Fat_Names.thy ===== *)
theory Fat_Names
  imports Sector_Device
begin

text \<open>
  Names in FAT16 directories (\<^verbatim>\<open>vnu/kernel/fs/fat16.cpp\<close>): 8.3 short names with the NT case bits, VFAT
  long-name slots, and the reading of one directory slot by \<^verbatim>\<open>scan_next\<close>. A directory slot is its 32 bytes; a
  name is the list of its bytes before the terminating NUL.
\<close>

definition NAME_MAX :: nat where "NAME_MAX = 256"
definition MAX_LFN :: nat where "MAX_LFN = 20"

definition ATTR_VOLUME :: u8 where "ATTR_VOLUME = 0x08"
definition ATTR_DIR :: u8 where "ATTR_DIR = 0x10"
definition ATTR_ARCH :: u8 where "ATTR_ARCH = 0x20"

section \<open>Characters\<close>

definition is_lower :: "u8 \<Rightarrow> bool" where
  "is_lower c \<longleftrightarrow> 0x61 \<le> c \<and> c \<le> 0x7A"

definition is_upper :: "u8 \<Rightarrow> bool" where
  "is_upper c \<longleftrightarrow> 0x41 \<le> c \<and> c \<le> 0x5A"

definition upper :: "u8 \<Rightarrow> u8" where
  "upper c = (if is_lower c then c - 0x61 + 0x41 else c)"

definition lower :: "u8 \<Rightarrow> u8" where
  "lower c = (if is_upper c then c - 0x41 + 0x61 else c)"

fun ci_equal :: "u8 list \<Rightarrow> u8 list \<Rightarrow> bool" where
  "ci_equal (a # as) (b # bs) = (upper a = upper b \<and> ci_equal as bs)"
| "ci_equal as bs = (as = [] \<and> bs = [])"

definition sfn_equal :: "u8 list \<Rightarrow> u8 list \<Rightarrow> bool" where
  "sfn_equal a b = (\<forall>i \<in> set [0..<11]. upper (a ! i) = upper (b ! i))"

text \<open>\<^verbatim>\<open>char\<close> is signed, so a byte from 0x80 on compares below 0x20.\<close>

definition sfn_char_ok :: "u8 \<Rightarrow> bool" where
  "sfn_char_ok c \<longleftrightarrow> \<not> (c < 0x20 \<or> 0x80 \<le> c) \<and>
     c \<notin> set [0x20, 0x22, 0x2A, 0x2B, 0x2C, 0x2F, 0x3A, 0x3B, 0x3C, 0x3D, 0x3E, 0x3F, 0x5B, 0x5C, 0x5D, 0x7C]"

section \<open>Short names\<close>

definition sfn_checksum :: "u8 list \<Rightarrow> u8" where
  "sfn_checksum sfn =
     foldl (\<lambda>sum i. (if sum AND 1 \<noteq> 0 then 0x80 else 0) + drop_bit 1 sum + sfn ! i) 0 [0..<11]"

text \<open>The C string a byte buffer holds.\<close>

definition c_str :: "u8 list \<Rightarrow> u8 list" where
  "c_str bs = takeWhile (\<lambda>b. b \<noteq> 0) bs"

definition build_sfn_name :: "u8 list \<Rightarrow> u8 list" where
  "build_sfn_name e =
     (let first = (\<lambda>i c. if i = 0 \<and> c = 0x05 then 0xE5 else c);
          nt = e ! 12;
          base = map (\<lambda>i. (if nt AND 0x08 \<noteq> 0 then lower else id) (first i (e ! i)))
                   (takeWhile (\<lambda>i. e ! i \<noteq> 0x20) [0..<8]);
          ext = map (\<lambda>i. (if nt AND 0x10 \<noteq> 0 then lower else id) (e ! (8 + i)))
                   (takeWhile (\<lambda>i. e ! (8 + i) \<noteq> 0x20) [0..<3])
      in c_str (base @ (if ext \<noteq> [] then 0x2E # ext else [])))"

text \<open>\<^verbatim>\<open>build_short\<close>: one part of a name is squeezed into its field of the entry.\<close>

definition pad_field :: "nat \<Rightarrow> u8 list \<Rightarrow> u8 list" where
  "pad_field n bs = take n bs @ replicate (n - length bs) 0x20"

definition sfn_field :: "nat \<Rightarrow> u8 list \<Rightarrow> u8 list" where
  "sfn_field n part = pad_field n (map (\<lambda>c. upper (if sfn_char_ok c then c else 0x5F)) part)"

definition part_fits :: "nat \<Rightarrow> u8 list \<Rightarrow> bool" where
  "part_fits n part \<longleftrightarrow> list_all sfn_char_ok part \<and> length part \<le> n"

definition has_lower :: "u8 list \<Rightarrow> bool" where
  "has_lower part \<longleftrightarrow> list_ex is_lower part"

definition has_upper :: "u8 list \<Rightarrow> bool" where
  "has_upper part \<longleftrightarrow> list_ex is_upper part"

fun last_dot :: "u8 list \<Rightarrow> nat option" where
  "last_dot [] = None"
| "last_dot (c # cs) =
     (case last_dot cs of Some d \<Rightarrow> Some (Suc d) | None \<Rightarrow> if c = 0x2E then Some 0 else None)"

record short_name =
  s_base :: "u8 list"
  s_ext :: "u8 list"
  s_nt :: u8
  s_fits :: bool
  s_uniform :: bool

definition base_part :: "u8 list \<Rightarrow> u8 list" where
  "base_part name = (case last_dot name of None \<Rightarrow> name | Some d \<Rightarrow> take d name)"

definition ext_part :: "u8 list \<Rightarrow> u8 list" where
  "ext_part name = (case last_dot name of None \<Rightarrow> [] | Some d \<Rightarrow> drop (d + 1) name)"

definition build_short :: "u8 list \<Rightarrow> short_name" where
  "build_short name =
     (let base = base_part name; ext = ext_part name
      in \<lparr>s_base = sfn_field 8 base, s_ext = sfn_field 3 ext,
          s_nt = (if has_lower base \<and> \<not> has_upper base then 0x08 else 0) OR
                 (if has_lower ext \<and> \<not> has_upper ext then 0x10 else 0),
          s_fits = (part_fits 8 base \<and> base \<noteq> [] \<and> part_fits 3 ext),
          s_uniform = (\<not> (has_lower base \<and> has_upper base) \<and> \<not> (has_lower ext \<and> has_upper ext))\<rparr>)"

text \<open>The \<open>n\<close>-th mangled short name \<^verbatim>\<open>make_unique_sfn\<close> tries.\<close>

function dec_digits :: "nat \<Rightarrow> u8 list" where
  "dec_digits m = (if m div 10 = 0 then [of_nat (0x30 + m mod 10)] else dec_digits (m div 10) @ [of_nat (0x30 + m mod 10)])"
  by pat_completeness auto
termination
  by (relation "measure id") auto

declare dec_digits.simps [simp del]

definition sfn_candidate :: "short_name \<Rightarrow> nat \<Rightarrow> u8 list" where
  "sfn_candidate s n =
     (let tail = 0x7E # dec_digits n;
          keep = max 1 (8 - length tail);
          stem = take keep (takeWhile (\<lambda>c. c \<noteq> 0x20) (s_base s));
          stem' = (if stem = [] then [0x46] else stem)
      in pad_field 8 (stem' @ tail) @ s_ext s)"

section \<open>Directory slots\<close>

definition lfn_off :: "nat list" where
  "lfn_off = [1, 3, 5, 7, 9, 14, 16, 18, 20, 22, 24, 28, 30]"

definition lfn_unit :: "u8 list \<Rightarrow> nat \<Rightarrow> u16" where
  "lfn_unit name g = (if g < length name then ucast (name ! g) else if g = length name then 0 else 0xFFFF)"

definition lfn_slot :: "u8 list \<Rightarrow> u8 \<Rightarrow> nat \<Rightarrow> bool \<Rightarrow> u8 list" where
  "lfn_slot name chk seq tp =
     foldl (\<lambda>e k. e[lfn_off ! k := ucast (lfn_unit name ((seq - 1) * 13 + k) AND 0xFF),
                    lfn_off ! k + 1 := ucast (drop_bit 8 (lfn_unit name ((seq - 1) * 13 + k)))])
       ((replicate 32 0)[0 := of_nat seq OR (if tp then 0x40 else 0), 11 := 0x0F, 13 := chk]) [0..<13]"

definition short_slot :: "u8 list \<Rightarrow> u8 \<Rightarrow> u8 \<Rightarrow> nat \<Rightarrow> nat \<Rightarrow> u8 list" where
  "short_slot sfn attr nt cluster sz =
     wr32 28 (of_nat sz)
       ((take 11 sfn @ replicate 21 0)[11 := attr, 12 := nt, 26 := of_nat cluster AND 0xFF,
          27 := of_nat (cluster div 256) AND 0xFF])"

text \<open>\<^verbatim>\<open>build_entries\<close> once the short name is chosen: the long-name slots, highest first, and the short slot.\<close>

definition lfn_chunks :: "u8 list \<Rightarrow> nat" where
  "lfn_chunks name = max 1 ((length name + 12) div 13)"

definition lfn_slots :: "u8 list \<Rightarrow> u8 \<Rightarrow> u8 list list" where
  "lfn_slots name chk =
     map (\<lambda>c. lfn_slot name chk (lfn_chunks name - c) (c = 0)) [0..<lfn_chunks name]"

definition long_entries :: "u8 list \<Rightarrow> u8 list \<Rightarrow> u8 \<Rightarrow> nat \<Rightarrow> nat \<Rightarrow> u8 list list option" where
  "long_entries name sfn attr cluster sz =
     (if lfn_chunks name > MAX_LFN then None
      else Some (lfn_slots name (sfn_checksum sfn) @ [short_slot sfn attr 0 cluster sz]))"

definition short_entries :: "short_name \<Rightarrow> u8 \<Rightarrow> nat \<Rightarrow> nat \<Rightarrow> u8 list list" where
  "short_entries s attr cluster sz = [short_slot (s_base s @ s_ext s) attr (s_nt s) cluster sz]"

definition needs_lfn :: "short_name \<Rightarrow> bool" where
  "needs_lfn s \<longleftrightarrow> \<not> s_fits s \<or> \<not> s_uniform s"

definition name_slots :: "u8 list \<Rightarrow> u8 list \<Rightarrow> u8 \<Rightarrow> nat \<Rightarrow> nat \<Rightarrow> u8 list list option" where
  "name_slots name uniq attr cluster sz =
     (let s = build_short name
      in if needs_lfn s then long_entries name uniq attr cluster sz else Some (short_entries s attr cluster sz))"

section \<open>Reading slots\<close>

record entry =
  e_pos :: nat
  e_cluster :: nat
  e_size :: nat
  e_attr :: u8
  e_sfn :: "u8 list"
  e_name :: "u8 list"
  e_lfn_pos :: "nat list"

record lfn_state =
  l_buf :: "u8 list"
  l_pos :: "nat list"
  l_max :: nat
  l_chk :: u8

definition lfn_start :: lfn_state where
  "lfn_start = \<lparr>l_buf = replicate NAME_MAX 0, l_pos = [], l_max = 0, l_chk = 0\<rparr>"

datatype scan = Stop | Skip lfn_state | Found entry

definition put_lfn :: "nat \<Rightarrow> u8 list \<Rightarrow> u8 list \<Rightarrow> u8 list" where
  "put_lfn at e buf =
     foldl (\<lambda>b k. if at + k < NAME_MAX then b[at + k := e ! (lfn_off ! k)] else b) buf [0..<13]"

definition scan_lfn :: "nat \<Rightarrow> u8 list \<Rightarrow> lfn_state \<Rightarrow> lfn_state" where
  "scan_lfn here e L =
     (let seq = unat (e ! 0 AND 0x1F);
          chk = e ! 13;
          L1 = (if l_pos L = [] then L\<lparr>l_chk := chk, l_max := 0, l_buf := replicate NAME_MAX 0\<rparr> else L)
      in if chk \<noteq> l_chk L1 \<or> seq = 0 \<or> seq > MAX_LFN \<or> length (l_pos L1) \<ge> MAX_LFN
         then L1\<lparr>l_pos := [], l_max := 0\<rparr>
         else L1\<lparr>l_buf := put_lfn ((seq - 1) * 13) e (l_buf L1), l_pos := l_pos L1 @ [here],
                 l_max := max (l_max L1) seq\<rparr>)"

definition scan_short :: "nat \<Rightarrow> u8 list \<Rightarrow> lfn_state \<Rightarrow> entry" where
  "scan_short here e L =
     (let long = (l_pos L \<noteq> [] \<and> l_chk L = sfn_checksum e)
      in \<lparr>e_pos = here, e_cluster = unat (rd16 26 e), e_size = unat (rd32 28 e), e_attr = e ! 11 AND 0x3F,
          e_sfn = take 11 e,
          e_name = (if long then c_str (take (min (l_max L * 13) (NAME_MAX - 1)) (l_buf L)) else build_sfn_name e),
          e_lfn_pos = (if long then l_pos L else [])\<rparr>)"

definition scan_slot :: "nat \<Rightarrow> u8 list \<Rightarrow> lfn_state \<Rightarrow> scan" where
  "scan_slot here e L =
     (if e ! 0 = 0 then Stop
      else if e ! 0 = 0xE5 then Skip (L\<lparr>l_pos := [], l_max := 0\<rparr>)
      else if e ! 11 AND 0x3F = 0x0F then Skip (scan_lfn here e L)
      else Found (scan_short here e L))"

text \<open>Scanning a list of slots, the first of them at byte offset \<open>pos\<close>.\<close>

fun scan_slots :: "nat \<Rightarrow> u8 list list \<Rightarrow> lfn_state \<Rightarrow> (entry \<times> u8 list list) option" where
  "scan_slots pos [] L = None"
| "scan_slots pos (e # es) L =
     (case scan_slot pos e L of
        Stop \<Rightarrow> None
      | Skip L' \<Rightarrow> scan_slots (pos + 32) es L'
      | Found ev \<Rightarrow> Some (ev, es))"

section \<open>Long names survive\<close>

lemma upt13: "[0..<13] = [0, 1, 2, 3, 4, 5, 6, 7, 8, 9, 10, 11, 12 :: nat]"
  by code_simp

lemma less13: "k < 13 \<Longrightarrow> k \<in> {0, 1, 2, 3, 4, 5, 6, 7, 8, 9, 10, 11, 12 :: nat}"
  by simp arith

lemma length_lfn_slot [simp]: "length (lfn_slot name chk seq t) = 32"
  unfolding lfn_slot_def upt13 by simp

lemma lfn_slot_head:
  "lfn_slot name chk seq t ! 0 = of_nat seq OR (if t then 0x40 else 0)"
  "lfn_slot name chk seq t ! 11 = 0x0F" "lfn_slot name chk seq t ! 13 = chk"
  unfolding lfn_slot_def upt13 lfn_off_def by simp_all

lemma low_byte: "(ucast ((x :: u16) AND 0xFF) :: u8) = ucast x"
proof -
  have m: "(0xFF :: u16) = mask 8" by (simp add: mask_eq_exp_minus_1)
  show ?thesis unfolding m by (rule bit_word_eqI) (simp add: bit_unsigned_iff bit_and_iff bit_mask_iff)
qed

lemma ucast_round: "(ucast (ucast (b :: u8) :: u16) :: u8) = b"
  by (rule bit_word_eqI) (simp add: bit_unsigned_iff)

lemma lfn_slot_char:
  "k < 13 \<Longrightarrow> lfn_slot name chk seq t ! (lfn_off ! k) = ucast (lfn_unit name ((seq - 1) * 13 + k))"
  by (drule less13) (unfold lfn_slot_def upt13 lfn_off_def, auto simp: low_byte)

lemma seq_byte:
  assumes "1 \<le> seq" "seq \<le> MAX_LFN"
  shows "unat ((of_nat seq OR (if t then 0x40 else 0) :: u8) AND 0x1F) = seq"
    "(of_nat seq OR (if t then 0x40 else 0) :: u8) \<noteq> 0" "(of_nat seq OR (if t then 0x40 else 0) :: u8) \<noteq> 0xE5"
proof -
  have all: "\<forall>s \<in> set [1..<21]. \<forall>t \<in> set [True, False]. unat ((of_nat s OR (if t then 0x40 else 0) :: u8) AND 0x1F) = s \<and>
      (of_nat s OR (if t then 0x40 else 0) :: u8) \<noteq> 0 \<and> (of_nat s OR (if t then 0x40 else 0) :: u8) \<noteq> 0xE5"
    by code_simp
  have "seq \<in> set [1..<21]" using assms by (auto simp: MAX_LFN_def)
  moreover have "t \<in> set [True, False]" by simp
  ultimately show "unat ((of_nat seq OR (if t then 0x40 else 0) :: u8) AND 0x1F) = seq"
    "(of_nat seq OR (if t then 0x40 else 0) :: u8) \<noteq> 0" "(of_nat seq OR (if t then 0x40 else 0) :: u8) \<noteq> 0xE5"
    using all by blast+
qed

lemma length_put_lfn [simp]: "length (put_lfn a e buf) = length buf"
  unfolding put_lfn_def upt13 by simp

lemma put_lfn_nth:
  assumes "length buf = NAME_MAX" "i < NAME_MAX"
  shows "put_lfn a e buf ! i = (if a \<le> i \<and> i < a + 13 then e ! (lfn_off ! (i - a)) else buf ! i)"
proof -
  have "foldl (\<lambda>b k. if a + k < NAME_MAX then b[a + k := e ! (lfn_off ! k)] else b) buf [0..<n] ! i =
      (if a \<le> i \<and> i < a + n then e ! (lfn_off ! (i - a)) else buf ! i) \<and>
      length (foldl (\<lambda>b k. if a + k < NAME_MAX then b[a + k := e ! (lfn_off ! k)] else b) buf [0..<n]) = NAME_MAX" for n
    using assms by (induction n) (auto simp: nth_list_update)
  then show ?thesis by (simp add: put_lfn_def)
qed

lemma scan_lfn_slot:
  assumes "1 \<le> seq" "seq \<le> MAX_LFN" "l_pos L = [] \<or> l_chk L = chk \<and> length (l_pos L) < MAX_LFN"
  shows "scan_slot here (lfn_slot name chk seq t) L =
    Skip (let L1 = (if l_pos L = [] then L\<lparr>l_chk := chk, l_max := 0, l_buf := replicate NAME_MAX 0\<rparr> else L)
          in L1\<lparr>l_buf := put_lfn ((seq - 1) * 13) (lfn_slot name chk seq t) (l_buf L1), l_pos := l_pos L1 @ [here],
                l_max := max (l_max L1) seq\<rparr>)"
  using seq_byte [OF assms(1,2), of t] assms
  by (auto simp: scan_slot_def scan_lfn_def lfn_slot_head Let_def MAX_LFN_def)

text \<open>
  The state of the scan after the slots \<open>n\<close> down to \<open>j + 1\<close> of a name have been read.
\<close>

definition lfn_read :: "u8 list \<Rightarrow> u8 \<Rightarrow> nat \<Rightarrow> nat \<Rightarrow> nat list \<Rightarrow> lfn_state \<Rightarrow> bool" where
  "lfn_read name chk n j ps L \<longleftrightarrow> l_pos L = ps \<and> l_max L = n \<and> l_chk L = chk \<and> length (l_buf L) = NAME_MAX \<and>
     (\<forall>i < NAME_MAX. j * 13 \<le> i \<and> i < n * 13 \<longrightarrow> l_buf L ! i = ucast (lfn_unit name i))"

lemma lfn_read_slot:
  assumes "lfn_read name chk n (Suc j) ps L" "ps \<noteq> []" "length ps < MAX_LFN" "Suc j \<le> n" "n \<le> MAX_LFN"
  obtains L' where "scan_slot here (lfn_slot name chk (Suc j) t) L = Skip L'" "lfn_read name chk n j (ps @ [here]) L'"
proof -
  have s: "1 \<le> Suc j" "Suc j \<le> MAX_LFN" using assms by simp_all
  let ?L = "L\<lparr>l_buf := put_lfn (j * 13) (lfn_slot name chk (Suc j) t) (l_buf L), l_pos := ps @ [here], l_max := n\<rparr>"
  have "scan_slot here (lfn_slot name chk (Suc j) t) L = Skip ?L"
    using scan_lfn_slot [OF s, of L chk here name t] assms by (simp add: lfn_read_def max_def)
  moreover have "lfn_read name chk n j (ps @ [here]) ?L"
  proof -
    have "put_lfn (j * 13) (lfn_slot name chk (Suc j) t) (l_buf L) ! i = ucast (lfn_unit name i)"
      if "i < NAME_MAX" "j * 13 \<le> i" "i < n * 13" for i
      using that assms(1) lfn_slot_char [of "i - j * 13" name chk "Suc j" t]
      by (auto simp: lfn_read_def put_lfn_nth)
    then show ?thesis using assms(1) by (simp add: lfn_read_def)
  qed
  ultimately show ?thesis by (rule that)
qed

lemma lfn_read_first:
  assumes "l_pos L = []" "1 \<le> n" "n \<le> MAX_LFN"
  obtains L' where "scan_slot here (lfn_slot name chk n t) L = Skip L'" "lfn_read name chk n (n - 1) [here] L'"
proof -
  let ?b = "put_lfn ((n - 1) * 13) (lfn_slot name chk n t) (replicate NAME_MAX 0)"
  let ?L = "L\<lparr>l_chk := chk, l_buf := ?b, l_pos := [here], l_max := n\<rparr>"
  have "scan_slot here (lfn_slot name chk n t) L = Skip ?L"
    using scan_lfn_slot [OF assms(2,3), of L chk here name t] assms(1) by (simp add: Let_def)
  moreover have "lfn_read name chk n (n - 1) [here] ?L"
  proof -
    have "?b ! i = ucast (lfn_unit name i)" if "i < NAME_MAX" "(n - 1) * 13 \<le> i" "i < n * 13" for i
    proof -
      have "n * 13 = (n - 1) * 13 + 13" using assms(2) by (cases n) simp_all
      with that have "i - (n - 1) * 13 < 13" "i < (n - 1) * 13 + 13" by linarith+
      then show ?thesis using that lfn_slot_char [of "i - (n - 1) * 13" name chk n t] by (simp add: put_lfn_nth)
    qed
    then show ?thesis by (simp add: lfn_read_def)
  qed
  ultimately show ?thesis by (rule that)
qed

definition lfn_tail :: "u8 list \<Rightarrow> u8 \<Rightarrow> nat \<Rightarrow> u8 list list" where
  "lfn_tail name chk j = map (\<lambda>s. lfn_slot name chk s False) (rev [1..<Suc j])"

lemma lfn_tail_Suc: "lfn_tail name chk (Suc j) = lfn_slot name chk (Suc j) False # lfn_tail name chk j"
  by (simp add: lfn_tail_def)

lemma lfn_slots_eq:
  "lfn_slots name chk = lfn_slot name chk (lfn_chunks name) True # lfn_tail name chk (lfn_chunks name - 1)"
proof -
  let ?n = "lfn_chunks name"
  have n: "1 \<le> ?n" by (simp add: lfn_chunks_def)
  then have "lfn_slots name chk = map (\<lambda>c. lfn_slot name chk (?n - c) (c = 0)) (0 # [1..<?n])"
    by (simp add: lfn_slots_def upt_conv_Cons)
  moreover have "map (\<lambda>c. lfn_slot name chk (?n - c) (c = 0)) [1..<?n] = lfn_tail name chk (?n - 1)"
    unfolding lfn_tail_def by (rule nth_equalityI) (use n in \<open>auto simp: rev_nth Suc_diff_Suc\<close>)
  ultimately show ?thesis by simp
qed

lemma scan_lfn_tail:
  assumes "lfn_read name chk n j ps L" "ps \<noteq> []" "length ps + j \<le> MAX_LFN" "j \<le> n" "n \<le> MAX_LFN"
  shows "\<exists>L'. scan_slots pos (lfn_tail name chk j @ es) L = scan_slots (pos + 32 * j) es L' \<and>
    lfn_read name chk n 0 (ps @ map (\<lambda>i. pos + 32 * i) [0..<j]) L'"
  using assms
proof (induction j arbitrary: pos ps L)
  case 0
  then show ?case by (intro exI [of _ L]) (simp add: lfn_tail_def)
next
  case (Suc j)
  obtain L1 where L1: "scan_slot pos (lfn_slot name chk (Suc j) False) L = Skip L1"
    "lfn_read name chk n j (ps @ [pos]) L1"
    by (rule lfn_read_slot [OF Suc.prems(1,2), of pos False]) (use Suc.prems in auto)
  have "map (\<lambda>i. pos + 32 * i) [0..<Suc j] = pos # map (\<lambda>i. pos + 32 + 32 * i) [0..<j]"
    by (simp only: upt_conv_Cons [OF zero_less_Suc] map_Suc_upt [symmetric]) simp
  with Suc.IH [OF L1(2), of "pos + 32"] Suc.prems L1(1) show ?case
    by (auto simp: lfn_tail_Suc add.assoc)
qed

lemma c_str_buf:
  assumes "\<And>i. i < length name \<Longrightarrow> b ! i = name ! i" "length name \<le> length b"
    "length name < length b \<Longrightarrow> b ! length name = 0" "0 \<notin> set name"
  shows "c_str b = name"
proof -
  have b: "b = name @ drop (length name) b"
    by (rule nth_equalityI) (use assms(1,2) in \<open>auto simp: nth_append\<close>)
  have "takeWhile (\<lambda>x. x \<noteq> 0) (drop (length name) b) = []"
    using assms(3) by (cases "length name < length b") (simp_all add: Cons_nth_drop_Suc [symmetric])
  moreover have "takeWhile (\<lambda>x. x \<noteq> 0) (name @ drop (length name) b) = name @ takeWhile (\<lambda>x. x \<noteq> 0) (drop (length name) b)"
    by (rule takeWhile_append2) (use assms(4) in auto)
  ultimately show ?thesis unfolding c_str_def using b by simp
qed

lemma lfn_read_name:
  assumes "lfn_read name chk (lfn_chunks name) 0 ps L" "length name < NAME_MAX" "0 \<notin> set name"
  shows "c_str (take (min (l_max L * 13) (NAME_MAX - 1)) (l_buf L)) = name"
proof (rule c_str_buf [OF _ _ _ assms(3)])
  let ?n = "lfn_chunks name"
  have len: "length (take (min (l_max L * 13) (NAME_MAX - 1)) (l_buf L)) = min (?n * 13) (NAME_MAX - 1)"
    using assms(1) by (simp add: lfn_read_def NAME_MAX_def)
  have n: "length name \<le> ?n * 13" unfolding lfn_chunks_def by linarith
  show "length name \<le> length (take (min (l_max L * 13) (NAME_MAX - 1)) (l_buf L))"
    unfolding len using n assms(2) by simp
  fix i assume i: "i < length name"
  then show "take (min (l_max L * 13) (NAME_MAX - 1)) (l_buf L) ! i = name ! i"
    using assms n by (simp add: lfn_read_def lfn_unit_def ucast_round)
next
  assume "length name < length (take (min (l_max L * 13) (NAME_MAX - 1)) (l_buf L))"
  then show "take (min (l_max L * 13) (NAME_MAX - 1)) (l_buf L) ! length name = 0"
    using assms by (simp add: lfn_read_def lfn_unit_def)
qed

lemma short_slot_length [simp]: "length sfn = 11 \<Longrightarrow> length (short_slot sfn attr nt cluster sz) = 32"
  by (simp add: short_slot_def)

lemma short_slot_nth:
  assumes "length sfn = 11"
  shows "i < 11 \<Longrightarrow> short_slot sfn attr nt cluster sz ! i = sfn ! i"
    "short_slot sfn attr nt cluster sz ! 11 = attr" "short_slot sfn attr nt cluster sz ! 12 = nt"
  using assms by (simp_all add: short_slot_def wr32_def nth_append)

lemma short_slot_sfn: "length sfn = 11 \<Longrightarrow> take 11 (short_slot sfn attr nt cluster sz) = sfn"
  by (rule nth_equalityI) (simp_all add: short_slot_nth)

lemma short_slot_checksum: "length sfn = 11 \<Longrightarrow> sfn_checksum (short_slot sfn attr nt cluster sz) = sfn_checksum sfn"
  unfolding sfn_checksum_def by (intro foldl_cong) (simp_all add: short_slot_nth)

lemma short_slot_size: "length sfn = 11 \<Longrightarrow> sz < 2 ^ 32 \<Longrightarrow> unat (rd32 28 (short_slot sfn attr nt cluster sz)) = sz"
  by (simp add: short_slot_def rd32_wr32 unat_of_nat)

lemma cluster_bytes:
  assumes "e ! 26 = of_nat cluster AND 0xFF" "e ! 27 = of_nat (cluster div 256) AND 0xFF" "cluster < 2 ^ 16"
  shows "unat (rd16 26 e) = cluster"
proof -
  have "(x :: u8) AND 0xFF = x" for x
  proof -
    have "(0xFF :: u8) = -1" by simp
    then show ?thesis by (metis and.right_neutral)
  qed
  then have "unat (rd16 26 e) = unat (of_nat cluster :: u8) + 256 * unat (of_nat (cluster div 256) :: u8)"
    using unat_rd16 [of 26 e] assms(1,2) by simp
  also have "\<dots> = cluster mod 256 + 256 * (cluster div 256)"
    using assms(3) by (simp add: unat_of_nat)
  finally show ?thesis by simp
qed

lemma short_slot_cluster:
  "length sfn = 11 \<Longrightarrow> cluster < 2 ^ 16 \<Longrightarrow> unat (rd16 26 (short_slot sfn attr nt cluster sz)) = cluster"
  by (rule cluster_bytes) (simp_all add: short_slot_def wr32_def nth_append)

text \<open>The attributes a live file or directory entry can carry, and a usable first byte.\<close>

definition good_short :: "u8 list \<Rightarrow> u8 \<Rightarrow> bool" where
  "good_short sfn attr \<longleftrightarrow> length sfn = 11 \<and> sfn ! 0 \<noteq> 0 \<and> sfn ! 0 \<noteq> 0xE5 \<and> attr AND 0x3F = attr \<and> attr \<noteq> 0x0F"

lemma scan_short_slot:
  "good_short sfn attr \<Longrightarrow>
     scan_slot pos (short_slot sfn attr nt cluster sz) L = Found (scan_short pos (short_slot sfn attr nt cluster sz) L)"
  by (simp add: scan_slot_def short_slot_nth good_short_def)

lemma scan_long_entries:
  assumes g: "good_short sfn attr" and n: "length name < NAME_MAX" "0 \<notin> set name" and L: "l_pos L = []"
    and f: "cluster < 2 ^ 16" "sz < 2 ^ 32" and es: "long_entries name sfn attr cluster sz = Some es"
  shows "scan_slots pos (es @ rest) L =
    Some (\<lparr>e_pos = pos + 32 * lfn_chunks name, e_cluster = cluster, e_size = sz, e_attr = attr, e_sfn = sfn,
           e_name = name, e_lfn_pos = map (\<lambda>i. pos + 32 * i) [0..<lfn_chunks name]\<rparr>, rest)"
proof -
  let ?n = "lfn_chunks name" and ?c = "sfn_checksum sfn"
  let ?s = "short_slot sfn attr 0 cluster sz"
  have n20: "?n \<le> MAX_LFN" and es': "es = lfn_slots name ?c @ [?s]"
    using es by (auto simp: long_entries_def split: if_splits)
  have n1: "1 \<le> ?n" by (simp add: lfn_chunks_def)
  obtain L1 where L1: "scan_slot pos (lfn_slot name ?c ?n True) L = Skip L1" "lfn_read name ?c ?n (?n - 1) [pos] L1"
    by (rule lfn_read_first [OF L n1 n20])
  from scan_lfn_tail [OF L1(2), of "pos + 32" "?s # rest"] n20 n1 obtain L2 where
    L2: "scan_slots (pos + 32) (lfn_tail name ?c (?n - 1) @ ?s # rest) L1 = scan_slots (pos + 32 + 32 * (?n - 1)) (?s # rest) L2"
      "lfn_read name ?c ?n 0 ([pos] @ map (\<lambda>i. pos + 32 + 32 * i) [0..<?n - 1]) L2" by auto
  have ps: "[pos] @ map (\<lambda>i. pos + 32 + 32 * i) [0..<?n - 1] = map (\<lambda>i. pos + 32 * i) [0..<?n]"
    using n1 by (intro nth_equalityI) (auto simp: nth_Cons split: nat.splits)
  have p: "pos + 32 + 32 * (?n - 1) = pos + 32 * ?n" using n1 by (simp add: algebra_simps)
  have "scan_slots pos (es @ rest) L = scan_slots (pos + 32 * ?n) (?s # rest) L2"
    unfolding p [symmetric] L2(1) [symmetric] using L1(1) by (simp add: es' lfn_slots_eq)
  also have "\<dots> = Some (scan_short (pos + 32 * ?n) ?s L2, rest)" using scan_short_slot [OF g] by simp
  finally show ?thesis
    using g f n L2(2) lfn_read_name [OF L2(2) n] n1 unfolding ps
    by (simp add: scan_short_def good_short_def short_slot_checksum short_slot_sfn short_slot_size short_slot_cluster
        short_slot_nth lfn_read_def)
qed

section \<open>Short names survive\<close>

lemma sfn_char_range: "sfn_char_ok c \<Longrightarrow> 0x21 \<le> c \<and> c < 0x80"
  unfolding sfn_char_ok_def
proof -
  assume "\<not> (c < 0x20 \<or> 0x80 \<le> c) \<and>
     c \<notin> set [0x20, 0x22, 0x2A, 0x2B, 0x2C, 0x2F, 0x3A, 0x3B, 0x3C, 0x3D, 0x3E, 0x3F, 0x5B, 0x5C, 0x5D, 0x7C]"
  then have c: "0x20 \<le> c" "c \<noteq> 0x20" "c < 0x80" by auto
  from c(2) have "unat c \<noteq> unat (0x20 :: u8)" unfolding word_unat_eq_iff .
  with c(1,3) show "0x21 \<le> c \<and> c < 0x80" by (simp add: word_le_nat_alt)
qed

lemma upper_printable:
  assumes "sfn_char_ok c"
  shows "upper c \<noteq> 0x20" "upper c \<noteq> 0x05" "upper c \<noteq> 0" "upper c \<noteq> 0xE5"
proof -
  have r: "unat (0x21 :: u8) \<le> unat c" "unat c < unat (0x80 :: u8)"
    using sfn_char_range [OF assms] by (simp_all add: word_le_nat_alt word_less_nat_alt)
  have "unat (upper c) = (if is_lower c then unat c - 0x20 else unat c)"
  proof (cases "is_lower c")
    case True
    then have "0x20 \<le> c" using sfn_char_range [OF assms] by (simp add: word_le_nat_alt)
    moreover have "upper c = c - 0x20" using True by (simp add: upper_def)
    ultimately show ?thesis using True by (simp add: unat_sub)
  qed (simp add: upper_def)
  moreover have "is_lower c \<Longrightarrow> 0x61 \<le> unat c" by (simp add: is_lower_def word_le_nat_alt)
  ultimately have "0x21 \<le> unat (upper c)" "unat (upper c) < 0x80" using r by (auto split: if_splits)
  then show "upper c \<noteq> 0x20" "upper c \<noteq> 0x05" "upper c \<noteq> 0" "upper c \<noteq> 0xE5" by auto
qed

lemma case_fold:
  "\<not> is_upper c \<Longrightarrow> lower (upper c) = c" "\<not> is_lower c \<Longrightarrow> upper c = c"
proof -
  show "\<not> is_lower c \<Longrightarrow> upper c = c" by (simp add: upper_def)
  assume u: "\<not> is_upper c"
  show "lower (upper c) = c"
  proof (cases "is_lower c")
    case True
    then have "0x61 \<le> unat c" "unat c \<le> 0x7A" by (simp_all add: is_lower_def word_le_nat_alt)
    moreover have up: "upper c = c - 0x20" using True by (simp add: upper_def)
    moreover have "0x20 \<le> c" using calculation(1) by (simp add: word_le_nat_alt)
    ultimately have "unat (upper c) = unat c - 0x20" by (simp add: unat_sub)
    then have "0x41 \<le> unat (upper c)" "unat (upper c) \<le> 0x5A"
      using \<open>0x61 \<le> unat c\<close> \<open>unat c \<le> 0x7A\<close> by linarith+
    then have "is_upper (upper c)" by (simp add: is_upper_def word_le_nat_alt)
    then show ?thesis by (simp add: lower_def up)
  next
    case False
    with u show ?thesis by (simp add: upper_def lower_def)
  qed
qed

lemma takeWhile_upt:
  assumes "\<And>i. i < k \<Longrightarrow> P i" "k \<le> n" "k < n \<Longrightarrow> \<not> P k"
  shows "takeWhile P [0..<n] = [0..<k]"
proof -
  have "[0..<n] = [0..<k] @ [k..<n]" using assms(2) by (metis upt_add_eq_append le0 le_add_diff_inverse)
  moreover have "takeWhile P [k..<n] = []" using assms(3) by (cases "k < n") (simp_all add: upt_conv_Cons)
  moreover have "takeWhile P ([0..<k] @ [k..<n]) = [0..<k] @ takeWhile P [k..<n]"
    by (rule takeWhile_append2) (use assms(1) in auto)
  ultimately show ?thesis by simp
qed

lemma sfn_field_fits:
  "part_fits n p \<Longrightarrow> sfn_field n p = map upper p @ replicate (n - length p) 0x20"
  by (auto simp: sfn_field_def pad_field_def part_fits_def list_all_iff)

lemma length_sfn_field [simp]: "length (sfn_field n p) = n"
  by (simp add: sfn_field_def pad_field_def)

lemma read_field:
  assumes "part_fits n p" "\<And>i. i < n \<Longrightarrow> g i = sfn_field n p ! i"
  shows "map (\<lambda>i. f i (g i)) (takeWhile (\<lambda>i. g i \<noteq> 0x20) [0..<n]) = map (\<lambda>i. f i (upper (p ! i))) [0..<length p]"
proof -
  have len: "length p \<le> n" and ok: "\<And>i. i < length p \<Longrightarrow> sfn_char_ok (p ! i)"
    using assms(1) by (simp_all add: part_fits_def list_all_length)
  have F: "g i = (if i < length p then upper (p ! i) else 0x20)" if "i < n" for i
    using assms(2) [OF that] that sfn_field_fits [OF assms(1)] by (simp add: nth_append)
  have "takeWhile (\<lambda>i. g i \<noteq> 0x20) [0..<n] = [0..<length p]"
    by (rule takeWhile_upt) (use len F upper_printable(1) [OF ok] in auto)
  then show ?thesis using F len by simp
qed

lemma last_dot_Some: "last_dot name = Some d \<Longrightarrow> d < length name \<and> name = take d name @ 0x2E # drop (d + 1) name"
proof (induction name arbitrary: d)
  case (Cons c cs)
  then show ?case by (cases "last_dot cs") (auto split: if_splits)
qed simp

lemma name_parts:
  assumes "name = [] \<or> last name \<noteq> 0x2E"
  shows "name = base_part name @ (if ext_part name \<noteq> [] then 0x2E # ext_part name else [])"
proof (cases "last_dot name")
  case None
  then show ?thesis by (simp add: base_part_def ext_part_def)
next
  case (Some d)
  note n = last_dot_Some [OF Some]
  have "drop (d + 1) name \<noteq> []"
  proof
    assume "drop (d + 1) name = []"
    with n have e: "name = take d name @ [0x2E]" by simp
    then have "last name = 0x2E" by (metis last_snoc)
    moreover have "name \<noteq> []" using n by auto
    ultimately show False using assms by simp
  qed
  with n Some show ?thesis by (simp add: base_part_def ext_part_def)
qed

text \<open>What a short slot keeps of a name: a dot at the end is lost.\<close>

definition short_shown :: "u8 list \<Rightarrow> u8 list" where
  "short_shown name = (if name \<noteq> [] \<and> last name = 0x2E then butlast name else name)"

lemma last_dot_snoc: "last_dot (xs @ [0x2E]) = Some (length xs)"
  by (induction xs) simp_all

lemma shown_parts: "short_shown name = base_part name @ (if ext_part name \<noteq> [] then 0x2E # ext_part name else [])"
proof (cases "name \<noteq> [] \<and> last name = 0x2E")
  case True
  then have n: "name = butlast name @ [0x2E]" using append_butlast_last_id by metis
  have "base_part name = butlast name" "ext_part name = []"
    by (subst n, simp add: base_part_def ext_part_def last_dot_snoc)+
  with True show ?thesis by (simp add: short_shown_def)
next
  case False
  then show ?thesis using name_parts [of name] by (auto simp: short_shown_def)
qed

lemma nt_bits:
  "((if a then 0x08 else 0) OR (if b then 0x10 else 0) :: u8) AND 0x08 \<noteq> 0 \<longleftrightarrow> a"
  "((if a then 0x08 else 0) OR (if b then 0x10 else 0) :: u8) AND 0x10 \<noteq> 0 \<longleftrightarrow> b"
  by simp_all

lemma part_read:
  assumes "part_fits n p" "\<not> (has_lower p \<and> has_upper p)" "\<And>i. i < n \<Longrightarrow> g i = sfn_field n p ! i"
  shows "map (\<lambda>i. (if has_lower p \<and> \<not> has_upper p then lower else id) (g i)) (takeWhile (\<lambda>i. g i \<noteq> 0x20) [0..<n]) = p"
proof -
  have "(if has_lower p \<and> \<not> has_upper p then lower else id) (upper (p ! i)) = p ! i" if "i < length p" for i
  proof (cases "has_lower p")
    case True
    then have "\<not> is_upper (p ! i)" using assms(2) that by (auto simp: has_upper_def list_ex_iff)
    with True assms(2) show ?thesis by (simp add: case_fold)
  next
    case False
    then have "\<not> is_lower (p ! i)" using that by (auto simp: has_lower_def list_ex_iff)
    with False show ?thesis by (simp add: case_fold)
  qed
  then have "map (\<lambda>i. (if has_lower p \<and> \<not> has_upper p then lower else id) (upper (p ! i))) [0..<length p] = p"
    by (intro nth_equalityI) simp_all
  then show ?thesis
    using read_field [OF assms(1,3), of "\<lambda>_. if has_lower p \<and> \<not> has_upper p then lower else id"] by (simp only:)
qed

text \<open>
  Reading back the short slot of a name that fits one gives the name, without the dot at its end.
\<close>

lemma build_sfn_name_short:
  assumes s: "s_fits (build_short name)" "s_uniform (build_short name)"
  shows "build_sfn_name (short_slot (s_base (build_short name) @ s_ext (build_short name)) attr
           (s_nt (build_short name)) cluster sz) = short_shown name"
proof -
  let ?b = "base_part name" and ?e = "ext_part name"
  let ?S = "build_short name"
  let ?x = "short_slot (s_base ?S @ s_ext ?S) attr (s_nt ?S) cluster sz"
  have fit: "part_fits 8 ?b" "part_fits 3 ?e" "?b \<noteq> []" "\<not> (has_lower ?b \<and> has_upper ?b)" "\<not> (has_lower ?e \<and> has_upper ?e)"
    using s by (simp_all add: build_short_def Let_def)
  have F: "s_base ?S = sfn_field 8 ?b" "s_ext ?S = sfn_field 3 ?e" by (simp_all add: build_short_def Let_def)
  have l: "length (s_base ?S @ s_ext ?S) = 11" by (simp add: F)
  have x: "?x ! i = sfn_field 8 ?b ! i" if "i < 8" for i
    using that by (subst short_slot_nth(1) [OF l]) (simp_all add: F nth_append)
  have y: "?x ! (8 + i) = sfn_field 3 ?e ! i" if "i < 3" for i
    using that by (subst short_slot_nth(1) [OF l]) (simp_all add: F nth_append)
  have nt: "?x ! 12 AND 0x08 \<noteq> 0 \<longleftrightarrow> has_lower ?b \<and> \<not> has_upper ?b" "?x ! 12 AND 0x10 \<noteq> 0 \<longleftrightarrow> has_lower ?e \<and> \<not> has_upper ?e"
    unfolding short_slot_nth(3) [OF l] by (simp_all only: build_short_def Let_def short_name.simps nt_bits)
  have ok: "sfn_char_ok (?b ! 0)" using fit(1,3) by (simp add: part_fits_def list_all_length)
  then have no5: "?x ! 0 \<noteq> 0x05" using x [of 0] upper_printable(2) fit(3) by (simp add: sfn_field_fits [OF fit(1)] nth_append)
  have first: "(\<lambda>i c. if i = 0 \<and> c = 0x05 then 0xE5 else c) i (?x ! i) = ?x ! i" for i :: nat using no5 by auto
  have parts: "map (\<lambda>i. (if has_lower ?b \<and> \<not> has_upper ?b then lower else id) (?x ! i)) (takeWhile (\<lambda>i. ?x ! i \<noteq> 0x20) [0..<8]) = ?b"
    "map (\<lambda>i. (if has_lower ?e \<and> \<not> has_upper ?e then lower else id) (?x ! (8 + i))) (takeWhile (\<lambda>i. ?x ! (8 + i) \<noteq> 0x20) [0..<3]) = ?e"
    by (rule part_read [OF fit(1,4)], erule x) (rule part_read [OF fit(2,5)], erule y)
  have "build_sfn_name ?x = c_str (?b @ (if ?e \<noteq> [] then 0x2E # ?e else []))"
    unfolding build_sfn_name_def Let_def first nt parts ..
  also have "\<dots> = c_str (short_shown name)" by (simp only: shown_parts)
  also have "\<dots> = short_shown name"
  proof (rule c_str_buf)
    have "sfn_char_ok c \<Longrightarrow> c \<noteq> 0" for c using sfn_char_range [of c] by auto
    then have "0 \<notin> set ?b" "0 \<notin> set ?e" using fit(1,2) by (auto simp: part_fits_def list_all_iff)
    then show "0 \<notin> set (short_shown name)" by (simp add: shown_parts)
  qed simp_all
  finally show ?thesis .
qed

lemma length_short [simp]:
  "length (s_base (build_short name)) = 8" "length (s_ext (build_short name)) = 3"
  by (simp_all add: build_short_def Let_def)

lemma sfn_byte_good:
  "upper (if sfn_char_ok c then c else 0x5F) \<noteq> 0" "upper (if sfn_char_ok c then c else 0x5F) \<noteq> 0xE5"
proof -
  have "upper 0x5F = 0x5F" by (simp add: upper_def is_lower_def)
  then show "upper (if sfn_char_ok c then c else 0x5F) \<noteq> 0" "upper (if sfn_char_ok c then c else 0x5F) \<noteq> 0xE5"
    using upper_printable(3,4) [of c] by auto
qed

lemma sfn_field_bytes: "c \<in> set (sfn_field n p) \<Longrightarrow> c \<noteq> 0 \<and> c \<noteq> 0xE5"
  using sfn_byte_good by (auto simp: sfn_field_def pad_field_def dest!: in_set_takeD)

lemma length_pad_field [simp]: "length (pad_field n bs) = n"
  by (simp add: pad_field_def)

lemma candidate_good:
  assumes "attr AND 0x3F = attr" "attr \<noteq> 0x0F"
  shows "good_short (sfn_candidate (build_short name) n) attr"
proof -
  let ?s = "build_short name"
  let ?st = "take (max 1 (8 - length (0x7E # dec_digits n))) (takeWhile (\<lambda>c. c \<noteq> 0x20) (s_base ?s))"
  let ?st' = "if ?st = [] then [0x46] else ?st"
  have e: "sfn_candidate ?s n = pad_field 8 (?st' @ 0x7E # dec_digits n) @ s_ext ?s"
    by (simp add: sfn_candidate_def Let_def)
  have hd: "sfn_candidate ?s n ! 0 = hd ?st'"
    unfolding e by (cases ?st') (auto simp: pad_field_def nth_append split: if_splits)
  have "hd ?st' = 0x46 \<or> hd ?st' \<in> set (s_base ?s)"
    by (cases "?st = []") (auto dest: in_set_takeD set_takeWhileD hd_in_set)
  then have "hd ?st' \<noteq> 0 \<and> hd ?st' \<noteq> 0xE5"
    using sfn_field_bytes [of "hd ?st'" 8 "base_part name"] by (auto simp: build_short_def Let_def)
  moreover have "length (sfn_candidate ?s n) = 11" unfolding e by simp
  ultimately show ?thesis using assms hd by (simp add: good_short_def)
qed

lemma short_good:
  assumes "attr AND 0x3F = attr" "attr \<noteq> 0x0F"
  shows "good_short (s_base (build_short name) @ s_ext (build_short name)) attr"
  using assms sfn_field_bytes [of "s_base (build_short name) ! 0" 8 "base_part name"] nth_mem [of 0 "sfn_field 8 (base_part name)"]
  by (simp add: good_short_def nth_append) (simp add: build_short_def Let_def)

text \<open>
  C29. A file name in the directory: whatever form \<^verbatim>\<open>build_entries\<close> chooses for a name of 1 to 255 bytes
  without NUL (an 8.3 slot with the case bits, or long-name slots with any of the mangled short names),
  scanning the slots it stores gives one entry with the same first cluster, size and attributes, placed on
  the last of these slots.  The entry has the same name, with one exception: a name that ends in a dot and
  otherwise fits an 8.3 slot loses that dot, since the slot has no place for it and no long name is made.
\<close>

theorem name_slots_roundtrip:
  assumes "name \<noteq> []" "length name < NAME_MAX" "0 \<notin> set name"
    and "attr AND 0x3F = attr" "attr \<noteq> 0x0F" "cluster < 2 ^ 16" "sz < 2 ^ 32"
  shows "\<exists>es ev. name_slots name (sfn_candidate (build_short name) n) attr cluster sz = Some es \<and>
     scan_slots pos (es @ rest) lfn_start = Some (ev, rest) \<and>
     e_name ev = (if last name = 0x2E \<and> \<not> needs_lfn (build_short name) then butlast name else name) \<and>
     e_cluster ev = cluster \<and> e_size ev = sz \<and> e_attr ev = attr \<and> e_pos ev = pos + 32 * (length es - 1)"
proof (cases "needs_lfn (build_short name)")
  case True
  let ?u = "sfn_candidate (build_short name) n"
  have "lfn_chunks name \<le> MAX_LFN" using assms(2) by (simp add: lfn_chunks_def NAME_MAX_def MAX_LFN_def)
  then have es: "long_entries name ?u attr cluster sz =
      Some (lfn_slots name (sfn_checksum ?u) @ [short_slot ?u attr 0 cluster sz])" (is "_ = Some ?es")
    by (simp add: long_entries_def)
  have "length ?es - 1 = lfn_chunks name" by (simp add: lfn_slots_def)
  moreover have "l_pos lfn_start = []" by (simp add: lfn_start_def)
  ultimately show ?thesis
    using True es scan_long_entries [OF candidate_good [OF assms(4,5)] assms(2,3) _ assms(6,7) es, of lfn_start pos rest]
    by (simp add: name_slots_def Let_def)
next
  case False
  let ?s = "build_short name"
  let ?es = "short_entries ?s attr cluster sz"
  have fit: "s_fits ?s" "s_uniform ?s" using False by (simp_all add: needs_lfn_def)
  note g = short_good [OF assms(4,5), of name]
  then have l: "length (s_base ?s @ s_ext ?s) = 11" by simp
  have "scan_slots pos (?es @ rest) lfn_start =
      Some (scan_short pos (short_slot (s_base ?s @ s_ext ?s) attr (s_nt ?s) cluster sz) lfn_start, rest)"
    by (simp add: short_entries_def scan_short_slot [OF g])
  then show ?thesis
    using False assms(1) build_sfn_name_short [OF fit] assms(4,6,7) short_slot_size [OF l] short_slot_cluster [OF l]
      short_slot_nth(2) [OF l]
    by (simp add: name_slots_def Let_def scan_short_def lfn_start_def short_entries_def short_shown_def)
qed

theorem name_slots_roundtrip_witness:
  "\<exists>es ev. name_slots [0x52, 0x65, 0x61, 0x64, 0x6D, 0x65, 0x2E, 0x6D, 0x64] (sfn_candidate (build_short
       [0x52, 0x65, 0x61, 0x64, 0x6D, 0x65, 0x2E, 0x6D, 0x64]) 1) ATTR_ARCH 7 1234 = Some es \<and>
     scan_slots 64 (es @ []) lfn_start = Some (ev, []) \<and> e_name ev = [0x52, 0x65, 0x61, 0x64, 0x6D, 0x65, 0x2E, 0x6D, 0x64]"
  using name_slots_roundtrip [of "[0x52, 0x65, 0x61, 0x64, 0x6D, 0x65, 0x2E, 0x6D, 0x64]" ATTR_ARCH 7 1234 1 64 "[]"]
  by (auto simp: NAME_MAX_def ATTR_ARCH_def)

end
