(* ===== verification/Fat_Dir.thy ===== *)
theory Fat_Dir
  imports Fat_Table Fat_Names
begin

text \<open>
  Directories of a FAT16 volume (\<^verbatim>\<open>vnu/kernel/fs/fat16.cpp\<close>): reading and writing directory sectors,
  scanning for entries, choosing a short name, and adding, changing and deleting entries. A directory is
  named by its first cluster; 0 is the fixed root directory.
\<close>

section \<open>Directory sectors\<close>

definition dir_total_bytes :: "nat \<Rightarrow> 'd fs \<Rightarrow> nat" where
  "dir_total_bytes dir fs =
     (if dir = 0 then root_dir_sectors fs * SECTOR
      else case chain_len dir fs of None \<Rightarrow> 0 | Some len \<Rightarrow> w32 (len * spc fs * SECTOR))"

text \<open>The volume sector that holds sector \<open>idx\<close> of a directory.\<close>

definition dir_sector :: "nat \<Rightarrow> nat \<Rightarrow> 'd fs \<Rightarrow> nat option" where
  "dir_sector dir idx fs =
     (if dir = 0 then Some (first_root fs + idx)
      else case chain_at dir (idx div spc fs) fs of
             None \<Rightarrow> None
           | Some clu \<Rightarrow> if clu = 0 then None else Some (cluster_to_sector fs clu + idx mod spc fs))"

definition dir_read_sector :: "nat \<Rightarrow> nat \<Rightarrow> ('d, unit) fsm" where
  "dir_read_sector dir idx = fs_bind (fs_get (dir_sector dir idx)) read_sec"

definition dir_write_sector :: "nat \<Rightarrow> nat \<Rightarrow> ('d, unit) fsm" where
  "dir_write_sector dir idx = fs_bind (fs_get (dir_sector dir idx)) write_sec"

section \<open>Scanning\<close>

definition slot_at :: "nat \<Rightarrow> u8 list \<Rightarrow> u8 list" where
  "slot_at off b = take 32 (drop off b)"

text \<open>
  \<^verbatim>\<open>scan_next\<close>: the next live entry at or after \<open>pos\<close>, and the position behind it. A failing sector read ends
  the scan like the end of the directory does.
\<close>

function scan_loop :: "nat \<Rightarrow> nat \<Rightarrow> nat \<Rightarrow> lfn_state \<Rightarrow> 'd fs \<Rightarrow> (entry option \<times> nat) \<times> 'd fs" where
  "scan_loop dir pos tot L fs =
     (if pos + 32 \<le> tot
      then (case dir_read_sector dir (pos div SECTOR) fs of
              (None, fs1) \<Rightarrow> ((None, pos), fs1)
            | (Some _, fs1) \<Rightarrow>
                (case scan_slot pos (slot_at (pos mod SECTOR) (sec fs1)) L of
                   Stop \<Rightarrow> ((None, pos + 32), fs1)
                 | Skip L' \<Rightarrow> scan_loop dir (pos + 32) tot L' fs1
                 | Found ev \<Rightarrow> ((Some ev, pos + 32), fs1)))
      else ((None, pos), fs))"
  by pat_completeness auto
termination
  by (relation "measure (\<lambda>(_, pos, tot, _, _). tot - pos)") auto

declare scan_loop.simps [simp del]

definition scan_next :: "nat \<Rightarrow> nat \<Rightarrow> nat \<Rightarrow> 'd fs \<Rightarrow> (entry option \<times> nat) \<times> 'd fs" where
  "scan_next dir pos tot fs = scan_loop dir pos tot lfn_start fs"

lemma scan_loop_pos:
  "scan_loop dir pos tot L fs = ((Some ev, pos'), fs') \<Longrightarrow> pos < pos' \<and> pos' \<le> tot"
proof (induction dir pos tot L fs rule: scan_loop.induct)
  case (1 dir pos tot L fs)
  then show ?case
    by (subst (asm) (2) scan_loop.simps) (fastforce split: if_splits prod.splits option.splits scan.splits)
qed

text \<open>The loops over \<^verbatim>\<open>scan_next\<close>: the first entry that meets a condition.\<close>

function scan_until :: "(entry \<Rightarrow> bool) \<Rightarrow> nat \<Rightarrow> nat \<Rightarrow> nat \<Rightarrow> 'd fs \<Rightarrow> (entry option \<times> nat) \<times> 'd fs" where
  "scan_until P dir pos tot fs =
     (case scan_next dir pos tot fs of
        ((None, pos'), fs1) \<Rightarrow> ((None, pos'), fs1)
      | ((Some ev, pos'), fs1) \<Rightarrow> if P ev then ((Some ev, pos'), fs1) else scan_until P dir pos' tot fs1)"
  by pat_completeness auto
termination
proof (relation "measure (\<lambda>(_, _, pos, tot, _). tot - pos)", goal_cases)
  case (2 P dir pos tot fs r fs1 o' pos' ev)
  then have "scan_loop dir pos tot lfn_start fs = ((Some ev, pos'), fs1)" by (simp add: scan_next_def)
  from scan_loop_pos [OF this] show ?case by auto
qed simp

declare scan_until.simps [simp del]

lemma scan_until_pos: "scan_until P dir pos tot fs = ((Some ev, pos'), fs') \<Longrightarrow> pos < pos' \<and> pos' \<le> tot"
proof (induction P dir pos tot fs rule: scan_until.induct)
  case (1 P dir pos tot fs)
  obtain r q fs1 where s: "scan_loop dir pos tot lfn_start fs = ((r, q), fs1)" by (metis prod.exhaust)
  then have n: "scan_next dir pos tot fs = ((r, q), fs1)" by (simp add: scan_next_def)
  obtain e where r: "r = Some e" using 1(2) n by (cases r) (simp_all add: scan_until.simps [of P dir pos])
  have q: "pos < q" "q \<le> tot" using scan_loop_pos [OF s [unfolded r]] by simp_all
  show ?case
  proof (cases "P e")
    case True then show ?thesis using 1(2) n r q by (simp add: scan_until.simps [of P dir pos])
  next
    case False
    then have "scan_until P dir q tot fs1 = ((Some ev, pos'), fs')" using 1(2) n r by (simp add: scan_until.simps [of P dir pos])
    from 1(1) [OF n [symmetric] _ _ False this] r have "q < pos' \<and> pos' \<le> tot" by simp
    with q show ?thesis by simp
  qed
qed

definition find_entry :: "nat \<Rightarrow> u8 list \<Rightarrow> ('d, entry) fsm" where
  "find_entry dir name fs =
     (let tot = dir_total_bytes dir fs
      in if tot = 0 then (None, fs)
         else case scan_until (\<lambda>ev. e_attr ev AND ATTR_VOLUME = 0 \<and> ci_equal (e_name ev) name) dir 0 tot fs of
                ((r, _), fs1) \<Rightarrow> (r, fs1))"

definition dir_has_sfn :: "nat \<Rightarrow> u8 list \<Rightarrow> 'd fs \<Rightarrow> bool \<times> 'd fs" where
  "dir_has_sfn dir sfn fs =
     (case scan_until (\<lambda>ev. e_attr ev AND ATTR_VOLUME = 0 \<and> sfn_equal (e_sfn ev) sfn) dir 0 (dir_total_bytes dir fs) fs of
        ((r, _), fs1) \<Rightarrow> (r \<noteq> None, fs1))"

section \<open>New entries\<close>

function unique_sfn_loop :: "nat \<Rightarrow> short_name \<Rightarrow> nat \<Rightarrow> 'd fs \<Rightarrow> u8 list \<times> 'd fs" where
  "unique_sfn_loop dir s n fs =
     (if n < 1000000
      then (case dir_has_sfn dir (sfn_candidate s n) fs of
              (False, fs1) \<Rightarrow> (sfn_candidate s n, fs1)
            | (True, fs1) \<Rightarrow> unique_sfn_loop dir s (n + 1) fs1)
      else (s_base s @ s_ext s, fs))"
  by pat_completeness auto
termination
  by (relation "measure (\<lambda>(_, _, n, _). 1000000 - n)") auto

declare unique_sfn_loop.simps [simp del]

definition make_unique_sfn :: "nat \<Rightarrow> short_name \<Rightarrow> 'd fs \<Rightarrow> u8 list \<times> 'd fs" where
  "make_unique_sfn dir s fs = unique_sfn_loop dir s 1 fs"

definition build_entries :: "nat \<Rightarrow> u8 list \<Rightarrow> u8 \<Rightarrow> nat \<Rightarrow> nat \<Rightarrow> ('d, u8 list list) fsm" where
  "build_entries dir name attr cluster sz fs =
     (let s = build_short name;
          (sfn, fs1) = (if needs_lfn s then make_unique_sfn dir s fs else (s_base s @ s_ext s, fs))
      in (name_slots name sfn attr cluster sz, fs1))"

definition patch_slot :: "nat \<Rightarrow> u8 list \<Rightarrow> u8 list \<Rightarrow> u8 list" where
  "patch_slot off e b = take off b @ take 32 e @ drop (off + 32) b"

definition edit_dir :: "nat \<Rightarrow> nat \<Rightarrow> (nat \<Rightarrow> u8 list \<Rightarrow> u8 list) \<Rightarrow> ('d, unit) fsm" where
  "edit_dir dir pos f =
     fs_then (dir_read_sector dir (pos div SECTOR))
       (fs_then (mod_sec (f (pos mod SECTOR))) (dir_write_sector dir (pos div SECTOR)))"

definition write_entry_at :: "nat \<Rightarrow> nat \<Rightarrow> u8 list \<Rightarrow> ('d, unit) fsm" where
  "write_entry_at dir pos e = edit_dir dir pos (\<lambda>off. patch_slot off e)"

definition mark_deleted :: "nat \<Rightarrow> nat \<Rightarrow> ('d, unit) fsm" where
  "mark_deleted dir pos = edit_dir dir pos (\<lambda>off b. b[off := 0xE5])"

text \<open>
  \<^verbatim>\<open>dir_append\<close>: the search for the end mark, the growth of the directory and the writing of the batch. A
  round of the growth loop adds a cluster of at least 16 slots, so on a volume with a non-zero cluster
  size \<open>count\<close> rounds are enough (\<open>extend_rounds\<close> below); the round counter stands for the loop.
\<close>

function find_end :: "nat \<Rightarrow> nat \<Rightarrow> nat \<Rightarrow> ('d, nat) fsm" where
  "find_end dir pos tot fs =
     (if pos + 32 \<le> tot
      then (case dir_read_sector dir (pos div SECTOR) fs of
              (None, fs1) \<Rightarrow> (None, fs1)
            | (Some _, fs1) \<Rightarrow> if sec fs1 ! (pos mod SECTOR) = 0 then (Some pos, fs1) else find_end dir (pos + 32) tot fs1)
      else (Some pos, fs))"
  by pat_completeness auto
termination
  by (relation "measure (\<lambda>(_, pos, tot, _). tot - pos)") auto

declare find_end.simps [simp del]

definition extend_once :: "nat \<Rightarrow> ('d, unit) fsm" where
  "extend_once dir =
     (if dir = 0 then fs_fail
      else fs_bind (fs_get (chain_len dir)) (\<lambda>len.
             if len = 0 then fs_fail
             else fs_bind (fs_get (chain_at dir (len - 1))) (\<lambda>lst.
                    fs_then (cluster_alloc lst) (fs_ret ()))))"

fun extend_dir :: "nat \<Rightarrow> nat \<Rightarrow> nat \<Rightarrow> nat \<Rightarrow> ('d, nat) fsm" where
  "extend_dir 0 dir want tot fs = (if tot < want then None else Some tot, fs)"
| "extend_dir (Suc rounds) dir want tot fs =
     (if tot < want
      then (case extend_once dir fs of
              (None, fs1) \<Rightarrow> (None, fs1)
            | (Some _, fs1) \<Rightarrow> extend_dir rounds dir want (tot + spc fs1 * SECTOR) fs1)
      else (Some tot, fs))"

text \<open>
  No round of the loop changes the cluster size, so \<open>count\<close> rounds are enough: more rounds give the same result.
\<close>

definition keeps_spc :: "('d, 'a) fsm \<Rightarrow> bool" where
  "keeps_spc m \<longleftrightarrow> (\<forall>fs. spc (snd (m fs)) = spc fs)"

lemma keeps_spc_bind: "keeps_spc m \<Longrightarrow> (\<And>x. keeps_spc (f x)) \<Longrightarrow> keeps_spc (fs_bind m f)"
  by (auto simp: keeps_spc_def fs_bind_def split: prod.split option.split) (metis snd_conv)+

lemma keeps_spc_then: "keeps_spc m \<Longrightarrow> keeps_spc n \<Longrightarrow> keeps_spc (fs_then m n)"
  by (simp add: fs_then_def keeps_spc_bind)

lemma keeps_spc_each: "(\<And>x. keeps_spc (body x)) \<Longrightarrow> keeps_spc (fs_each xs body)"
  by (induction xs) (simp_all add: keeps_spc_then, simp add: keeps_spc_def fs_ret_def)

lemma keeps_spc_sector:
  "keeps_spc (read_sec rel)" "keeps_spc (write_sec rel)" "keeps_spc (mod_sec g)"
  "keeps_spc (fs_ret x)" "keeps_spc fs_fail" "keeps_spc (fs_get h)"
  by (auto simp: keeps_spc_def read_sec_def write_sec_def dev_write_def mod_sec_def fs_ret_def
    fs_fail_def fs_get_def Let_def split: option.split prod.split)

lemmas keeps_spc_intros = keeps_spc_bind keeps_spc_then keeps_spc_each keeps_spc_sector

lemma keeps_spc_at: "keeps_spc m \<Longrightarrow> spc (snd (m fs)) = spc fs"
  by (simp add: keeps_spc_def)

lemma keeps_spc_fat_set: "keeps_spc (fat_set c v :: ('d, unit) fsm)"
proof -
  have "keeps_spc (fs_each ks (\<lambda>k. fs_then (read_sec (g k)) (fs_then (mod_sec w) (write_sec (g k)))) :: ('d, unit) fsm)"
    for ks :: "nat list" and g w by (intro keeps_spc_intros)
  then show ?thesis by (simp add: keeps_spc_def fat_set_def)
qed

lemma keeps_spc_zero_cluster: "keeps_spc (zero_cluster c :: ('d, unit) fsm)"
proof -
  have "keeps_spc (zero_sectors rel n :: ('d, unit) fsm)" for rel n
    unfolding zero_sectors_def by (intro keeps_spc_intros)
  then show ?thesis by (simp add: keeps_spc_def zero_cluster_def)
qed

lemma keeps_spc_find_free: "keeps_spc (find_free ss)"
  by (induction ss) (auto simp: keeps_spc_def read_sec_def fs_fail_def split: option.split prod.split)

lemma keeps_spc_cluster_alloc: "keeps_spc (cluster_alloc prev :: ('d, nat) fsm)"
proof -
  have "keeps_spc (fs_bind (find_free ss) (\<lambda>found. fs_then (fat_set found FAT_EOC)
      (fs_then (if prev \<noteq> 0 then fat_set prev (of_nat found) else fs_ret ())
        (fs_then (zero_cluster found) (fs_ret found)))) :: ('d, nat) fsm)" for ss
    by (intro keeps_spc_bind keeps_spc_then keeps_spc_find_free keeps_spc_fat_set keeps_spc_zero_cluster
        keeps_spc_sector) (simp add: keeps_spc_fat_set keeps_spc_sector)
  then show ?thesis by (simp add: keeps_spc_def cluster_alloc_def)
qed

lemma keeps_spc_extend_once: "keeps_spc (extend_once dir)"
  by (auto simp: extend_once_def intro!: keeps_spc_intros keeps_spc_cluster_alloc)

lemma extend_rounds:
  assumes "0 < spc fs" "want \<le> tot + 32 * rounds"
  shows "extend_dir (rounds + k) dir want tot fs = extend_dir rounds dir want tot fs"
  using assms
proof (induction rounds arbitrary: tot fs)
  case 0
  then show ?case by (cases k) simp_all
next
  case (Suc r)
  show ?case
  proof (cases "extend_once dir fs")
    case (Pair x fs1)
    then have sp: "spc fs1 = spc fs" using keeps_spc_at [OF keeps_spc_extend_once, of dir fs] by simp
    have "32 \<le> spc fs * SECTOR" using Suc.prems(1) by (simp add: SECTOR_def)
    then have "want \<le> tot + spc fs1 * SECTOR + 32 * r" using Suc.prems(2) sp by simp
    then show ?thesis using Suc.IH [of fs1 "tot + spc fs1 * SECTOR"] Suc.prems(1) Pair sp
      by (simp split: option.split)
  qed
qed

definition dir_append :: "nat \<Rightarrow> u8 list list \<Rightarrow> ('d, unit) fsm" where
  "dir_append dir es fs =
     (let tot = dir_total_bytes dir fs; count = length es
      in if tot = 0 then (None, fs)
         else fs_bind (find_end dir 0 tot) (\<lambda>pos.
                fs_bind (extend_dir count dir (pos + count * 32) tot) (\<lambda>tot'.
                  fs_then (fs_each [0..<count] (\<lambda>i. write_entry_at dir (pos + i * 32) (es ! i)))
                    (if pos + count * 32 + 32 \<le> tot'
                     then edit_dir dir (pos + count * 32) (\<lambda>off b. b[off := 0])
                     else fs_ret ()))) fs)"

text \<open>\<^verbatim>\<open>update_entry\<close> returns nothing: a failing transfer leaves the entry as it was.\<close>

definition update_entry :: "nat \<Rightarrow> nat \<Rightarrow> nat \<Rightarrow> nat \<Rightarrow> 'd fs \<Rightarrow> 'd fs" where
  "update_entry dir pos cluster sz fs =
     snd (edit_dir dir pos (\<lambda>off b.
       wr32 (off + 28) (of_nat sz) (b[off + 20 := 0, off + 21 := 0, off + 26 := of_nat cluster AND 0xFF,
         off + 27 := of_nat (cluster div 256) AND 0xFF])) fs)"

definition dot_slot :: "nat \<Rightarrow> nat \<Rightarrow> u8 list" where
  "dot_slot dots cluster = short_slot (replicate dots 0x2E @ replicate (11 - dots) 0x20) ATTR_DIR 0 cluster 0"

definition init_subdir :: "nat \<Rightarrow> nat \<Rightarrow> ('d, unit) fsm" where
  "init_subdir clu parent fs =
     (let s = cluster_to_sector fs clu
      in fs_then (read_sec s)
           (fs_then (mod_sec (\<lambda>b. dot_slot 1 clu @ dot_slot 2 parent @ drop 64 b)) (write_sec s)) fs)"

end
