(* ===== verification/Fat_Volume.thy ===== *)
theory Fat_Volume
  imports Fat_Dir
begin

text \<open>
  The operations of the FAT16 library (\<^verbatim>\<open>vnu/kernel/fs/fat16.cpp\<close>, \<^verbatim>\<open>vnu/kernel/include/vnu/fat16.h\<close>):
  formatting and mounting a volume, looking names up, reading and writing files, and creating, removing
  and listing directory entries. The names carry the prefix \<open>fat_\<close> for the namespace \<^verbatim>\<open>vnu::fat16\<close>.
\<close>

definition NUM_FATS :: nat where "NUM_FATS = 2"
definition RESERVED :: nat where "RESERVED = 1"
definition ROOT_ENTRIES :: nat where "ROOT_ENTRIES = 512"
definition FAT16_MIN_CLUSTERS :: nat where "FAT16_MIN_CLUSTERS = 4085"
definition FAT16_MAX_CLUSTER :: nat where "FAT16_MAX_CLUSTER = 0xFFF4"

section \<open>Formatting\<close>

definition copy_padded :: "nat \<Rightarrow> u8 list \<Rightarrow> u8 list" where
  "copy_padded cap src = pad_field cap src"

text \<open>Sectors per cluster: doubled until at most 60000 clusters are needed.\<close>

function pick_spc :: "nat \<Rightarrow> nat \<Rightarrow> nat" where
  "pick_spc sectors s = (if s \<noteq> 0 \<and> sectors div s > 60000 \<and> s < 128 then pick_spc sectors (2 * s) else s)"
  by pat_completeness auto
termination
  by (relation "measure (\<lambda>(_, s). 128 - s)") auto

declare pick_spc.simps [simp del]

text \<open>Sectors per table copy: grown until the table covers the clusters that are left.\<close>

definition fat_need :: "nat \<Rightarrow> nat \<Rightarrow> nat \<Rightarrow> nat \<Rightarrow> nat" where
  "fat_need sectors s rds fsz =
     (let data = sectors - RESERVED - NUM_FATS * fsz - rds; clusters = data div s
      in ((clusters + 2) * 2 + SECTOR - 1) div SECTOR)"

function pick_fatsz :: "nat \<Rightarrow> nat \<Rightarrow> nat \<Rightarrow> nat \<Rightarrow> nat option" where
  "pick_fatsz sectors s rds fsz =
     (if sectors \<le> RESERVED + NUM_FATS * fsz + rds then None
      else let fatsecs = fat_need sectors s rds fsz
           in if fatsecs \<le> fsz then Some fsz
              else if fatsecs > 0xFFFF then None
              else pick_fatsz sectors s rds fatsecs)"
  by pat_completeness auto
termination
  by (relation "measure (\<lambda>(_, _, _, fsz). 0xFFFF - fsz)") auto

declare pick_fatsz.simps [simp del]

definition put_bytes :: "nat \<Rightarrow> u8 list \<Rightarrow> u8 list \<Rightarrow> u8 list" where
  "put_bytes off bs b = take off b @ bs @ drop (off + length bs) b"

definition boot_sector :: "nat \<Rightarrow> nat \<Rightarrow> nat \<Rightarrow> nat \<Rightarrow> u8 list \<Rightarrow> u8 list \<Rightarrow> nat \<Rightarrow> u8 list" where
  "boot_sector lba sectors s fsz oem label vid =
     (let b0 = put_bytes 3 (copy_padded 8 oem) ((replicate SECTOR 0)[0 := 0xEB, 1 := 0x3C, 2 := 0x90]);
          b1 = wr16 17 (of_nat ROOT_ENTRIES) ((wr16 14 (of_nat RESERVED) ((wr16 11 (of_nat SECTOR) b0)[13 := of_nat s]))[16 := of_nat NUM_FATS]);
          b2 = (if sectors < 65536 then wr32 32 0 (wr16 19 (of_nat sectors) b1) else wr32 32 (of_nat sectors) (wr16 19 0 b1));
          b3 = wr32 28 (of_nat lba) (wr16 26 255 (wr16 24 63 (wr16 22 (of_nat fsz) (b2[21 := 0xF8]))));
          b4 = put_bytes 43 (copy_padded 11 label) (wr32 39 (of_nat vid) (b3[36 := 0x80, 38 := 0x29]))
      in (put_bytes 54 [0x46, 0x41, 0x54, 0x31, 0x36, 0x20, 0x20, 0x20] b4)[510 := 0x55, 511 := 0xAA])"

definition new_fs :: "'d device \<Rightarrow> 'd \<Rightarrow> nat \<Rightarrow> u8 list \<Rightarrow> 'd fs" where
  "new_fs dev d lba buf =
     \<lparr>f_dev = dev, f_ctx = d, part_lba = lba, total_sectors = 0, spc = 0, fatsz = 0, num_fats = 0, root_entries = 0,
      root_dir_sectors = 0, first_fat = 0, first_root = 0, first_data = 0, max_cluster = 0, mounted = False, sec = buf\<rparr>"

definition format_fs :: "'d device \<Rightarrow> 'd \<Rightarrow> nat \<Rightarrow> nat \<Rightarrow> 'd fs option" where
  "format_fs dev d lba sectors =
     (let s = pick_spc sectors 1; rds = (ROOT_ENTRIES * 32 + SECTOR - 1) div SECTOR
      in case pick_fatsz sectors s rds 1 of
           None \<Rightarrow> None
         | Some fsz \<Rightarrow>
             let clusters = (sectors - RESERVED - NUM_FATS * fsz - rds) div s
             in if clusters < FAT16_MIN_CLUSTERS \<or> clusters + 2 > FAT16_MAX_CLUSTER then None
                else Some ((new_fs dev d lba (replicate SECTOR 0))
                       \<lparr>total_sectors := sectors, spc := s, fatsz := fsz, num_fats := NUM_FATS, root_entries := ROOT_ENTRIES,
                        root_dir_sectors := rds, first_fat := RESERVED, first_root := RESERVED + NUM_FATS * fsz,
                        first_data := RESERVED + NUM_FATS * fsz + rds, max_cluster := clusters + 1, mounted := True\<rparr>))"

definition format_writes :: "nat \<Rightarrow> nat \<Rightarrow> u8 list \<Rightarrow> u8 list \<Rightarrow> nat \<Rightarrow> ('d, unit) fsm" where
  "format_writes lba sectors oem label vid fs =
     fs_then (mod_sec (\<lambda>_. boot_sector lba sectors (spc fs) (fatsz fs) oem label vid))
     (fs_then (write_sec 0)
     (fs_then (zero_sectors (first_fat fs) (fatsz fs))
     (fs_then (zero_sectors (first_fat fs + fatsz fs) (fatsz fs))
     (fs_then (fs_each [0..<NUM_FATS] (\<lambda>copy.
        fs_then (read_sec (first_fat fs + copy * fatsz fs))
          (fs_then (mod_sec (\<lambda>b. wr16 2 0xFFFF (wr16 0 0xFFF8 b))) (write_sec (first_fat fs + copy * fatsz fs)))))
     (fs_then (zero_sectors (first_root fs) (root_dir_sectors fs))
       (write_entry_at 0 0 ((copy_padded 11 label @ replicate 21 0)[11 := ATTR_VOLUME]))))))) fs"

definition fat_format :: "'d device \<Rightarrow> nat \<Rightarrow> nat \<Rightarrow> u8 list \<Rightarrow> u8 list \<Rightarrow> nat \<Rightarrow> 'd \<Rightarrow> bool \<times> 'd" where
  "fat_format dev lba sectors oem label vid d =
     (case format_fs dev d lba sectors of
        None \<Rightarrow> (False, d)
      | Some fs \<Rightarrow> (case format_writes lba sectors oem label vid fs of (r, fs') \<Rightarrow> (r \<noteq> None, f_ctx fs')))"

section \<open>Mounting\<close>

text \<open>
  \<^verbatim>\<open>mount\<close> with a sector buffer: every caller passes an array, so the test for a null buffer has no
  counterpart. A volume that is refused is left unmounted, and no caller looks at its other fields.
\<close>

definition fat_mount :: "'d device \<Rightarrow> nat \<Rightarrow> 'd \<Rightarrow> u8 list \<Rightarrow> bool \<times> 'd fs" where
  "fat_mount dev lba d buf =
     (case read_sec 0 (new_fs dev d lba buf) of
        (None, fs) \<Rightarrow> (False, fs)
      | (Some _, fs) \<Rightarrow>
          let b = sec fs; s = b ! 13; rsv = unat (rd16 14 b); nf = unat (b ! 16); re = unat (rd16 17 b);
              tot16 = unat (rd16 19 b); tot = (if tot16 = 0 then unat (rd32 32 b) else tot16);
              fsz = unat (rd16 22 b); rds = (re * 32 + SECTOR - 1) div SECTOR;
              root = rsv + nf * fsz; data = root + rds;
              clusters = (tot - data) div unat s
          in if b ! 510 \<noteq> 0x55 \<or> b ! 511 \<noteq> 0xAA \<or> unat (rd16 11 b) \<noteq> SECTOR \<or>
                s = 0 \<or> s AND (s - 1) \<noteq> 0 \<or> rsv = 0 \<or> nf = 0 \<or> fsz = 0 \<or> tot \<le> data \<or>
                clusters < FAT16_MIN_CLUSTERS \<or> clusters + 2 > FAT16_MAX_CLUSTER
             then (False, fs)
             else (True, fs\<lparr>spc := unat s, num_fats := nf, root_entries := re, total_sectors := tot, fatsz := fsz,
                     first_fat := rsv, root_dir_sectors := rds, first_root := root, first_data := data,
                     max_cluster := clusters + 1, mounted := True\<rparr>))"

definition fat_umount :: "'d fs \<Rightarrow> bool \<times> 'd fs" where
  "fat_umount fs = (True, fs\<lparr>mounted := False\<rparr>)"

definition fat_sync :: "'d fs \<Rightarrow> bool \<times> 'd fs" where
  "fat_sync fs = (if mounted fs then (True, fs\<lparr>f_ctx := d_flush (f_dev fs) (f_ctx fs)\<rparr>) else (False, fs))"

text \<open>\<^verbatim>\<open>volume_stats\<close>: the table is walked cluster by cluster; \<open>loaded\<close> is the table sector in the buffer.\<close>

fun stats_loop :: "nat list \<Rightarrow> nat option \<Rightarrow> nat \<Rightarrow> ('d, nat) fsm" where
  "stats_loop [] loaded free fs = (Some free, fs)"
| "stats_loop (c # cs) loaded free fs =
     (let s = c * 2 div SECTOR
      in case (if loaded = Some s then (Some (), fs) else read_sec (first_fat fs + s) fs) of
           (None, fs1) \<Rightarrow> (None, fs1)
         | (Some _, fs1) \<Rightarrow> stats_loop cs (Some s) (free + (if rd16 (c * 2 mod SECTOR) (sec fs1) = 0 then 1 else 0)) fs1)"

definition fat_volume_stats :: "('d, nat \<times> nat) fsm" where
  "fat_volume_stats fs =
     (if \<not> mounted fs \<or> spc fs = 0 \<or> max_cluster fs < 2 then (None, fs)
      else case stats_loop [2..<max_cluster fs + 1] None 0 fs of
             (None, fs1) \<Rightarrow> (None, fs1)
           | (Some free, fs1) \<Rightarrow>
               (Some (w32 ((max_cluster fs - 1) * (spc fs * SECTOR)), w32 (free * (spc fs * SECTOR))), fs1))"

section \<open>Looking up\<close>

definition fat_lookup :: "nat \<Rightarrow> u8 list \<Rightarrow> ('d, nat \<times> nat \<times> u8) fsm" where
  "fat_lookup dir name = fs_bind (find_entry dir name) (\<lambda>ev. fs_ret (e_cluster ev, e_size ev, e_attr ev))"

text \<open>\<^verbatim>\<open>resolve\<close>: the path is split at its slashes, a component is cut to 255 bytes.\<close>

definition slash_byte :: u8 where "slash_byte = 0x2F"

function resolve_loop :: "u8 list \<Rightarrow> nat \<Rightarrow> nat \<Rightarrow> u8 \<Rightarrow> ('d, nat \<times> nat \<times> u8) fsm" where
  "resolve_loop p cur sz attr fs =
     (let q = dropWhile (\<lambda>c. c = slash_byte) p; comp = takeWhile (\<lambda>c. c \<noteq> slash_byte) q; rest = dropWhile (\<lambda>c. c \<noteq> slash_byte) q
      in if q = [] then (Some (cur, sz, attr), fs)
         else if comp = [0x2E] then resolve_loop rest cur sz attr fs
         else if comp = [0x2E, 0x2E]
         then (if cur = 0 then resolve_loop rest cur sz attr fs
               else case find_entry cur [0x2E, 0x2E] fs of
                      (None, fs1) \<Rightarrow> resolve_loop rest 0 sz attr fs1
                    | (Some up, fs1) \<Rightarrow> resolve_loop rest (e_cluster up) sz attr fs1)
         else case find_entry cur (take (NAME_MAX - 1) comp) fs of
                (None, fs1) \<Rightarrow> (None, fs1)
              | (Some ev, fs1) \<Rightarrow>
                  if e_attr ev AND ATTR_DIR = 0 \<and> rest \<noteq> [] then (None, fs1)
                  else resolve_loop rest (e_cluster ev) (e_size ev) (e_attr ev) fs1)"
  by pat_completeness auto
termination
proof (relation "measure (\<lambda>(p, _). length p)", goal_cases)
  have len: "length (dropWhile (\<lambda>c. c \<noteq> slash_byte) (dropWhile (\<lambda>c. c = slash_byte) p)) < length p"
    if "dropWhile (\<lambda>c. c = slash_byte) p \<noteq> []" for p :: "u8 list"
  proof -
    have "hd (dropWhile (\<lambda>c. c = slash_byte) p) \<noteq> slash_byte" using hd_dropWhile [OF that] .
    with that obtain c q where q: "dropWhile (\<lambda>c. c = slash_byte) p = c # q" "c \<noteq> slash_byte" by (cases "dropWhile (\<lambda>c. c = slash_byte) p") auto
    have "length (dropWhile (\<lambda>c. c \<noteq> slash_byte) q) \<le> length q" by (rule length_dropWhile_le)
    also have "length q < length p" using length_dropWhile_le [of "\<lambda>c. c = slash_byte" p] q by simp
    finally show ?thesis using q by simp
  qed
  {
    case 2
    then show ?case using len by simp
  next
    case 3
    then show ?case using len by simp
  next
    case 4
    then show ?case using len by simp
  next
    case 5
    then show ?case using len by simp
  next
    case 6
    then show ?case using len by simp
  }
qed simp

declare resolve_loop.simps [simp del]

definition fat_resolve :: "u8 list \<Rightarrow> ('d, nat \<times> nat \<times> u8) fsm" where
  "fat_resolve p = resolve_loop p 0 0 ATTR_DIR"

section \<open>File contents\<close>

text \<open>\<^verbatim>\<open>read\<close>: the copy loop answers the bytes it has copied; a chain that ends early ends the copy.\<close>

function read_loop :: "nat \<Rightarrow> nat \<Rightarrow> nat \<Rightarrow> u8 list \<Rightarrow> ('d, u8 list) fsm" where
  "read_loop clu within len acc fs =
     (if length acc < len
      then let cb = spc fs * SECTOR; so = within mod SECTOR; chunk = min (SECTOR - so) (len - length acc)
           in (case read_sec (cluster_to_sector fs clu + within div SECTOR) fs of
                 (None, fs1) \<Rightarrow> (None, fs1)
               | (Some _, fs1) \<Rightarrow>
                   let acc' = acc @ map (\<lambda>i. sec fs1 ! (so + i)) [0..<chunk]
                   in if within + chunk \<ge> cb \<and> length acc' < len
                      then (case fat_next clu fs1 of
                              None \<Rightarrow> (Some acc', fs1)
                            | Some nx \<Rightarrow> if nx = 0 then (Some acc', fs1) else read_loop nx (within + chunk - cb) len acc' fs1)
                      else read_loop clu (within + chunk) len acc' fs1)
      else (Some acc, fs))"
  by pat_completeness auto
termination
proof (relation "measure (\<lambda>(_, _, len, acc, _). len - length acc)", goal_cases)
  have "(len :: nat) - (n + min (SECTOR - w mod SECTOR) (len - n)) < len - n" if "n < len" for len n w
    by (rule chunk_progress [OF that])
  {
    case 2
    then show ?case using chunk_progress by simp
  next
    case 3
    then show ?case using chunk_progress by simp
  }
qed simp

declare read_loop.simps [simp del]

definition fat_read :: "nat \<Rightarrow> u8 list \<Rightarrow> nat \<Rightarrow> nat \<Rightarrow> ('d, u8 list) fsm" where
  "fat_read dir name off len =
     fs_bind (find_entry dir name) (\<lambda>ev fs.
       if e_attr ev AND ATTR_DIR \<noteq> 0 then (None, fs)
       else if off \<ge> e_size ev then (Some [], fs)
       else let cb = spc fs * SECTOR
            in case chain_at (e_cluster ev) (off div cb) fs of
                 None \<Rightarrow> (Some [], fs)
               | Some clu \<Rightarrow> if clu = 0 then (Some [], fs)
                   else read_loop clu (off mod cb) (min len (e_size ev - off)) [] fs)"

definition fat_create :: "nat \<Rightarrow> u8 list \<Rightarrow> ('d, unit) fsm" where
  "fat_create dir name fs =
     (case find_entry dir name fs of
        (Some _, fs1) \<Rightarrow> (None, fs1)
      | (None, fs1) \<Rightarrow> fs_bind (build_entries dir name ATTR_ARCH 0 0) (dir_append dir) fs1)"

definition write_found :: "nat \<Rightarrow> entry \<Rightarrow> nat \<Rightarrow> u8 list \<Rightarrow> ('d, nat) fsm" where
  "write_found dir ev off buf fs =
     (let len = length buf; cb = spc fs * SECTOR
      in if e_attr ev AND ATTR_DIR \<noteq> 0 then (None, fs)
         else if len = 0 then (Some 0, fs)
         else if off > 0xFFFFFFFF - len then (None, fs)
         else fs_bind (ensure_chain (e_cluster ev) (w32 (off + len + cb - 1) div cb)) (\<lambda>nf.
                fs_then (if off > e_size ev then range_write nf (e_size ev) None (off - e_size ev) else fs_ret ())
                  (fs_then (range_write nf off (Some buf) len) (\<lambda>fs1.
                     (Some len, update_entry dir (e_pos ev) nf (max (off + len) (e_size ev)) fs1)))) fs)"

definition fat_write :: "nat \<Rightarrow> u8 list \<Rightarrow> nat \<Rightarrow> u8 list \<Rightarrow> ('d, nat) fsm" where
  "fat_write dir name off buf fs =
     (case find_entry dir name fs of
        (Some ev, fs1) \<Rightarrow> write_found dir ev off buf fs1
      | (None, fs1) \<Rightarrow>
          fs_then (fat_create dir name) (fs_bind (find_entry dir name) (\<lambda>ev. write_found dir ev off buf)) fs1)"

definition fat_truncate :: "nat \<Rightarrow> u8 list \<Rightarrow> nat \<Rightarrow> ('d, unit) fsm" where
  "fat_truncate dir name sz =
     fs_bind (find_entry dir name) (\<lambda>ev fs.
       let cb = spc fs * SECTOR; first = e_cluster ev; finish = (\<lambda>c fs1. (Some (), update_entry dir (e_pos ev) c sz fs1));
           keep = w32 (sz + cb - 1) div cb
       in if e_attr ev AND ATTR_DIR \<noteq> 0 then (None, fs)
          else if sz = e_size ev then (Some (), fs)
          else if sz > e_size ev then fs_bind (ensure_chain first keep) finish fs
          else if keep = 0
          then fs_then (if first \<noteq> 0 then free_chain first else fs_ret ()) (finish 0) fs
          else fs_bind (fs_get (chain_at first (keep - 1))) (\<lambda>lst.
                 fs_bind (fs_get (fat_next lst)) (\<lambda>rest.
                   fs_then (if rest \<noteq> 0 then fs_then (free_chain rest) (fat_set lst FAT_EOC) else fs_ret ())
                     (let tail = sz - (keep - 1) * cb
                      in fs_then (if tail < cb then range_write first sz None (cb - tail) else fs_ret ()) (finish first)))) fs)"

section \<open>Removing and making entries\<close>

definition delete_slots :: "nat \<Rightarrow> entry \<Rightarrow> ('d, unit) fsm" where
  "delete_slots dir ev = fs_then (fs_each (e_lfn_pos ev) (mark_deleted dir)) (mark_deleted dir (e_pos ev))"

definition fat_unlink :: "nat \<Rightarrow> u8 list \<Rightarrow> ('d, unit) fsm" where
  "fat_unlink dir name =
     fs_bind (find_entry dir name) (\<lambda>ev.
       if e_attr ev AND ATTR_DIR \<noteq> 0 then fs_fail
       else fs_then (if e_cluster ev \<noteq> 0 then free_chain (e_cluster ev) else fs_ret ()) (delete_slots dir ev))"

definition fat_mkdir :: "nat \<Rightarrow> u8 list \<Rightarrow> ('d, unit) fsm" where
  "fat_mkdir dir name fs =
     (case find_entry dir name fs of
        (Some _, fs1) \<Rightarrow> (None, fs1)
      | (None, fs1) \<Rightarrow>
          fs_bind (cluster_alloc 0) (\<lambda>clu fs2.
            case fs_then (init_subdir clu dir) (fs_bind (build_entries dir name ATTR_DIR clu 0) (dir_append dir)) fs2 of
              (Some _, fs3) \<Rightarrow> (Some (), fs3)
            | (None, fs3) \<Rightarrow> (None, snd (free_chain clu fs3))) fs1)"

definition dot_name :: "u8 list \<Rightarrow> bool" where
  "dot_name name \<longleftrightarrow> name = [0x2E] \<or> name = [0x2E, 0x2E]"

definition fat_rmdir :: "nat \<Rightarrow> u8 list \<Rightarrow> ('d, unit) fsm" where
  "fat_rmdir dir name =
     fs_bind (find_entry dir name) (\<lambda>ev fs.
       if e_attr ev AND ATTR_DIR = 0 then (None, fs)
       else case scan_until (\<lambda>child. \<not> dot_name (e_name child)) (e_cluster ev) 0 (dir_total_bytes (e_cluster ev) fs) fs of
              ((Some _, _), fs1) \<Rightarrow> (None, fs1)
            | ((None, _), fs1) \<Rightarrow> fs_then (free_chain (e_cluster ev)) (delete_slots dir ev) fs1)"

section \<open>Listing\<close>

record dir_iter =
  i_dir :: nat
  i_pos :: nat
  i_total :: nat
  i_seen :: nat

definition fat_opendir :: "nat \<Rightarrow> 'd fs \<Rightarrow> dir_iter" where
  "fat_opendir dir fs = \<lparr>i_dir = dir, i_pos = 0, i_total = dir_total_bytes dir fs, i_seen = 0\<rparr>"

definition fat_readdir :: "nat \<Rightarrow> dir_iter \<Rightarrow> 'd fs \<Rightarrow> ((u8 list \<times> nat \<times> nat \<times> u8) option \<times> dir_iter) \<times> 'd fs" where
  "fat_readdir cap it fs =
     (case scan_until (\<lambda>ev. e_attr ev AND ATTR_VOLUME = 0 \<and> \<not> dot_name (e_name ev)) (i_dir it) (i_pos it) (i_total it) fs of
        ((None, pos), fs1) \<Rightarrow> ((None, it\<lparr>i_pos := pos\<rparr>), fs1)
      | ((Some ev, pos), fs1) \<Rightarrow>
          ((Some (take (cap - 1) (e_name ev), e_cluster ev, e_size ev, e_attr ev),
            it\<lparr>i_pos := pos, i_seen := i_seen it + 1\<rparr>), fs1))"

end
