(* ===== verification/Vfs_Nodes.thy ===== *)
theory Vfs_Nodes
  imports Pmm Paths
begin

text \<open>
  The in-memory file tree of \<^verbatim>\<open>vnu/kernel/fs/vfs.cpp\<close>: the node table, the content buffers its files keep
  in frames of the physical memory manager, access checks and the per-user quotas. A node names its
  buffer by address; the bytes are those of the machine memory (\<open>ram\<close>) in the frame pool. The calling
  process is an argument: \<open>None\<close> is the kernel itself, before any process runs.
\<close>

section \<open>Nodes\<close>

datatype dev_kind = DevNone | DevNull | DevZero | DevFull | DevRandom | DevTty | DevAudio | DevFramebuffer
  | DevBlock | DevClipboard

datatype synth_kind = SynNone | SynVersion | SynCpuInfo | SynMemInfo | SynSelfStatus | SynMounts | SynUptime
  | SynDisks | SynDfStat | SynImages | SynGfx | SynBoot | SynStat | SynNetDev | SynSysOstype
  | SynSysOsrelease | SynSysOsrevision | SynSysVersion | SynSysHostname | SynSysDomainname

definition MAX_N :: nat where "MAX_N = 1024"

record node =
  n_used :: bool
  n_dir :: bool
  n_dev :: dev_kind
  n_synth :: synth_kind
  n_blk :: int
  n_path :: string
  n_buf :: u32
  n_cap :: u32
  n_size :: u32
  n_perm :: u16
  n_uid :: u32
  n_gid :: u32

definition no_node :: node where
  "no_node = \<lparr>n_used = False, n_dir = False, n_dev = DevNone, n_synth = SynNone, n_blk = 0, n_path = [], n_buf = 0,
     n_cap = 0, n_size = 0, n_perm = 0, n_uid = 0, n_gid = 0\<rparr>"

record proc_id =
  p_pid :: u32
  p_uid :: u32
  p_gid :: u32

type_synonym caller = "proc_id option"

definition cur_uid :: "caller \<Rightarrow> u32" where
  "cur_uid cur = (case cur of None \<Rightarrow> 0 | Some p \<Rightarrow> p_uid p)"

definition cur_gid :: "caller \<Rightarrow> u32" where
  "cur_gid cur = (case cur of None \<Rightarrow> 0 | Some p \<Rightarrow> p_gid p)"

text \<open>The quota table and the node table with the frame pool behind it.\<close>

record quota_entry =
  q_used :: bool
  q_uid :: u32
  q_limit :: u32

definition QUOTA_USERS :: nat where "QUOTA_USERS = 32"

record tree =
  nodes :: "node list"
  pool :: pmm
  quota_entries :: "quota_entry list"
  quota_default_bytes :: u32

definition find_index :: "string \<Rightarrow> tree \<Rightarrow> nat option" where
  "find_index p t =
     for_first 0 MAX_N (\<lambda>i. if n_used (nodes t ! i) \<and> same (n_path (nodes t ! i)) p then Some i else None)"

definition add_node :: "string \<Rightarrow> bool \<Rightarrow> caller \<Rightarrow> tree \<Rightarrow> nat option \<times> tree" where
  "add_node p d cur t =
     (case for_first 0 MAX_N (\<lambda>i. if \<not> n_used (nodes t ! i) then Some i else None) of
        None \<Rightarrow> (None, t)
      | Some i \<Rightarrow>
          (Some i, t\<lparr>nodes := (nodes t)[i := no_node\<lparr>n_used := True, n_dir := d, n_path := copy_str p PATH_CAP,
                       n_perm := (if d then 0x1ED else 0x1A4), n_uid := cur_uid cur, n_gid := cur_gid cur\<rparr>]\<rparr>))"

definition set_node :: "nat \<Rightarrow> node \<Rightarrow> tree \<Rightarrow> tree" where
  "set_node i n t = t\<lparr>nodes := (nodes t)[i := n]\<rparr>"

section \<open>Content buffers\<close>

definition copy_ram :: "u32 \<Rightarrow> u32 \<Rightarrow> nat \<Rightarrow> (u32 \<Rightarrow> u8) \<Rightarrow> (u32 \<Rightarrow> u8)" where
  "copy_ram dst src n m = fold (\<lambda>k m. m(dst + of_nat k := m (src + of_nat k))) [0..<n] m"

definition put_ram :: "u32 \<Rightarrow> u8 list \<Rightarrow> (u32 \<Rightarrow> u8) \<Rightarrow> (u32 \<Rightarrow> u8)" where
  "put_ram a bs m = fold (\<lambda>k m. m(a + of_nat k := bs ! k)) [0..<length bs] m"

definition get_ram :: "u32 \<Rightarrow> nat \<Rightarrow> (u32 \<Rightarrow> u8) \<Rightarrow> u8 list" where
  "get_ram a n m = map (\<lambda>k. m (a + of_nat k)) [0..<n]"

definition node_release :: "nat \<Rightarrow> tree \<Rightarrow> tree" where
  "node_release i t =
     (let n = nodes t ! i;
          t1 = (if n_buf n \<noteq> 0 then t\<lparr>pool := free_contig (n_buf n) (drop_bit 12 (n_cap n)) (pool t)\<rparr> else t)
      in set_node i (n\<lparr>n_buf := 0, n_cap := 0, n_size := 0\<rparr>) t1)"

definition grow_pages :: "u32 \<Rightarrow> u32 \<Rightarrow> u32" where
  "grow_pages need cap =
     (let old_pages = drop_bit 12 cap; pages = drop_bit 12 (need + 4096 - 1)
      in if pages < old_pages * 2 then old_pages * 2 else pages)"

definition node_reserve :: "nat \<Rightarrow> u32 \<Rightarrow> tree \<Rightarrow> bool \<times> tree" where
  "node_reserve i need t =
     (let n = nodes t ! i
      in if need \<le> n_cap n then (True, t)
         else let old_pages = drop_bit 12 (n_cap n);
                  pages = grow_pages need (n_cap n);
                  (phys, s1) = alloc_contig pages (pool t)
              in if phys = 0 then (False, t\<lparr>pool := s1\<rparr>)
                 else let s2 = s1\<lparr>ram := copy_ram phys (n_buf n) (unat (n_size n)) (ram s1)\<rparr>;
                          s3 = (if n_buf n \<noteq> 0 then free_contig (n_buf n) old_pages s2 else s2)
                      in (True, set_node i (n\<lparr>n_buf := phys, n_cap := push_bit 12 pages\<rparr>) (t\<lparr>pool := s3\<rparr>)))"

definition node_set :: "nat \<Rightarrow> u8 list \<Rightarrow> tree \<Rightarrow> tree" where
  "node_set i src t =
     (case node_reserve i (of_nat (length src)) t of
        (False, t1) \<Rightarrow> t1
      | (True, t1) \<Rightarrow>
          let n = nodes t1 ! i
          in set_node i (n\<lparr>n_size := of_nat (length src)\<rparr>)
               (t1\<lparr>pool := (pool t1)\<lparr>ram := put_ram (n_buf n) src (ram (pool t1))\<rparr>\<rparr>))"

definition node_bytes :: "nat \<Rightarrow> tree \<Rightarrow> u8 list" where
  "node_bytes i t = get_ram (n_buf (nodes t ! i)) (unat (n_size (nodes t ! i))) (ram (pool t))"

section \<open>Access\<close>

definition A_R :: u16 where "A_R = 4"
definition A_W :: u16 where "A_W = 2"
definition A_X :: u16 where "A_X = 1"

definition have_access :: "caller \<Rightarrow> node \<Rightarrow> u16 \<Rightarrow> bool" where
  "have_access cur n want =
     (if cur_uid cur = 0 then True
      else if cur_uid cur = n_uid n then n_perm n AND push_bit 6 want = push_bit 6 want
      else if cur_gid cur = n_gid n then n_perm n AND push_bit 3 want = push_bit 3 want
      else n_perm n AND want = want)"

definition parent_dir :: "string \<Rightarrow> tree \<Rightarrow> nat option" where
  "parent_dir p t = find_index (parent_path p) t"

section \<open>Quotas\<close>

definition counts_for :: "u32 \<Rightarrow> node \<Rightarrow> bool" where
  "counts_for uid n \<longleftrightarrow> n_used n \<and> \<not> n_dir n \<and> n_dev n = DevNone \<and> n_synth n = SynNone \<and> n_uid n = uid"

fun quota_sum :: "u32 \<Rightarrow> node list \<Rightarrow> u32 \<Rightarrow> u32" where
  "quota_sum uid [] acc = acc"
| "quota_sum uid (n # ns) acc =
     (if \<not> counts_for uid n then quota_sum uid ns acc
      else if n_size n > 0xFFFFFFFF - acc then 0xFFFFFFFF
      else quota_sum uid ns (acc + n_size n))"

definition quota_used :: "u32 \<Rightarrow> tree \<Rightarrow> u32" where
  "quota_used uid t = quota_sum uid (take MAX_N (nodes t)) 0"

definition quota_limit :: "u32 \<Rightarrow> tree \<Rightarrow> u32" where
  "quota_limit uid t =
     (case for_first 0 QUOTA_USERS (\<lambda>i. if q_used (quota_entries t ! i) \<and> q_uid (quota_entries t ! i) = uid
                                         then Some (q_limit (quota_entries t ! i)) else None) of
        Some l \<Rightarrow> l | None \<Rightarrow> quota_default_bytes t)"

definition quota_set :: "u32 \<Rightarrow> u32 \<Rightarrow> tree \<Rightarrow> int \<times> tree" where
  "quota_set uid limit t =
     (case for_first 0 QUOTA_USERS (\<lambda>i. if q_used (quota_entries t ! i) \<and> q_uid (quota_entries t ! i) = uid then Some i else None) of
        Some i \<Rightarrow> (0, t\<lparr>quota_entries := (quota_entries t)[i := (quota_entries t ! i)\<lparr>q_limit := limit\<rparr>]\<rparr>)
      | None \<Rightarrow>
          (case for_first 0 QUOTA_USERS (\<lambda>i. if \<not> q_used (quota_entries t ! i) then Some i else None) of
             None \<Rightarrow> (- VNU_ENOSPC, t)
           | Some i \<Rightarrow> (0, t\<lparr>quota_entries := (quota_entries t)[i := \<lparr>q_used = True, q_uid = uid, q_limit = limit\<rparr>]\<rparr>)))"

definition quota_set_default :: "u32 \<Rightarrow> tree \<Rightarrow> tree" where
  "quota_set_default limit t = t\<lparr>quota_default_bytes := limit\<rparr>"

section \<open>Buffers do not overlap\<close>

lemma run_unat:
  assumes "pmm_ok s" "run_addrs p n \<subseteq> held s" "k < 4096 * n"
  obtains i where "p = frame_addr s i" "i + n \<le> nframes s" "unat (p + of_nat k) = unat (g_pool_base s) + i * 4096 + k"
proof -
  have "0 < n" using assms(3) by simp
  from held_run_frames [OF assms(1,2) this] obtain i where i: "p = frame_addr s i" "i + n \<le> nframes s" .
  then have lt: "i < nframes s" using \<open>0 < n\<close> by simp
  have g: "unat (g_pool_base s) + nframes s * 4096 = 32964608" using pool_end_unat [OF assms(1)] lt by simp
  have p: "unat p = unat (g_pool_base s) + i * 4096" using unat_frame_addr [OF assms(1) lt] i(1) by simp
  have "(i + n) * 4096 \<le> nframes s * 4096" using i(2) by simp
  then have "unat p + k < 2 ^ 32" using p g assms(3) by simp
  moreover from this have "unat (of_nat k :: u32) = k" by (simp add: unat_of_nat)
  ultimately have "unat (p + of_nat k) = unat p + k" by (simp add: unat_word_ariths)
  with i p show ?thesis by (intro that) simp_all
qed

lemma run_inj:
  assumes "pmm_ok s" "run_addrs p n \<subseteq> held s" "k < 4096 * n" "l < 4096 * n" "p + of_nat k = p + of_nat l"
  shows "k = l"
proof -
  obtain i where i: "p = frame_addr s i" "i + n \<le> nframes s" "unat (p + of_nat k) = unat (g_pool_base s) + i * 4096 + k"
    by (rule run_unat [OF assms(1-3)])
  obtain j where j: "p = frame_addr s j" "j + n \<le> nframes s" "unat (p + of_nat l) = unat (g_pool_base s) + j * 4096 + l"
    by (rule run_unat [OF assms(1,2,4)])
  have "i < nframes s" "j < nframes s" using i(2) j(2) assms(3) by auto
  moreover have "frame_addr s i = frame_addr s j" using trans [OF i(1) [symmetric] j(1)] .
  ultimately have "i = j" using frame_addr_inj [OF assms(1), of i j] by blast
  then show ?thesis using arg_cong [OF assms(5), of unat] unfolding i(3) j(3) by linarith
qed

lemma runs_apart:
  assumes "pmm_ok s" "run_addrs p n \<subseteq> held s" "run_addrs q m \<subseteq> held s" "run_addrs p n \<inter> run_addrs q m = {}"
    "k < 4096 * n" "l < 4096 * m"
  shows "p + of_nat k \<noteq> q + of_nat l"
proof
  assume eq: "p + of_nat k = q + of_nat l"
  obtain i where i: "p = frame_addr s i" "i + n \<le> nframes s" "unat (p + of_nat k) = unat (g_pool_base s) + i * 4096 + k"
    by (rule run_unat [OF assms(1,2,5)])
  obtain j where j: "q = frame_addr s j" "j + m \<le> nframes s" "unat (q + of_nat l) = unat (g_pool_base s) + j * 4096 + l"
    by (rule run_unat [OF assms(1,3,6)])
  have "i * 4096 + k = j * 4096 + l" using eq i(3) j(3) by simp
  then have "(i * 4096 + k) div 4096 = (j * 4096 + l) div 4096" by simp
  then have f: "i + k div 4096 = j + l div 4096" by simp
  have "k div 4096 < n" "l div 4096 < m" using assms(5,6) by (simp_all add: less_mult_imp_div_less mult.commute)
  then have "frame_addr s (i + k div 4096) \<in> run_addrs p n" "frame_addr s (j + l div 4096) \<in> run_addrs q m"
    unfolding i(1) j(1) run_addrs_frame by auto
  with f assms(4) show False by auto
qed

lemma put_ram_other: "(\<And>k. k < length bs \<Longrightarrow> x \<noteq> a + of_nat k) \<Longrightarrow> put_ram a bs m x = m x"
proof -
  assume x: "\<And>k. k < length bs \<Longrightarrow> x \<noteq> a + of_nat k"
  have "fold (\<lambda>k m. m(a + of_nat k := bs ! k)) [0..<n] m x = m x" if "n \<le> length bs" for n
    using that x by (induction n) auto
  then show ?thesis by (simp add: put_ram_def)
qed

lemma put_ram_same:
  assumes "\<And>k l. k < length bs \<Longrightarrow> l < length bs \<Longrightarrow> a + of_nat k = a + of_nat l \<Longrightarrow> k = l" "k < length bs"
  shows "put_ram a bs m (a + of_nat k) = bs ! k"
proof -
  have "fold (\<lambda>k m. m(a + of_nat k := bs ! k)) [0..<n] m (a + of_nat k) = (if k < n then bs ! k else m (a + of_nat k))"
    if "n \<le> length bs" for n
    using that
  proof (induction n)
    case (Suc n)
    then have "a + of_nat k = a + of_nat n \<longleftrightarrow> k = n" using assms(1) [of k n] assms(2) by auto
    with Suc show ?case by (auto simp: less_Suc_eq)
  qed simp
  then show ?thesis using assms(2) by (simp add: put_ram_def)
qed

lemma copy_ram_other: "(\<And>k. k < n \<Longrightarrow> x \<noteq> dst + of_nat k) \<Longrightarrow> copy_ram dst src n m x = m x"
proof -
  assume x: "\<And>k. k < n \<Longrightarrow> x \<noteq> dst + of_nat k"
  have "fold (\<lambda>k m. m(dst + of_nat k := m (src + of_nat k))) [0..<j] m x = m x" if "j \<le> n" for j
    using that x by (induction j) auto
  then show ?thesis by (simp add: copy_ram_def)
qed

lemma copy_ram_same:
  assumes "\<And>k l. k < n \<Longrightarrow> l < n \<Longrightarrow> dst + of_nat k = dst + of_nat l \<Longrightarrow> k = l"
    and "\<And>k l. k < n \<Longrightarrow> l < n \<Longrightarrow> src + of_nat k \<noteq> dst + of_nat l" and "k < n"
  shows "copy_ram dst src n m (dst + of_nat k) = m (src + of_nat k)"
proof -
  define f where "f = (\<lambda>k (m :: u32 \<Rightarrow> u8). m(dst + of_nat k := m (src + of_nat k)))"
  have f: "f i m x = (if x = dst + of_nat i then m (src + of_nat i) else m x)" for i m x by (simp add: f_def)
  have src: "fold f [0..<j] m (src + of_nat k) = m (src + of_nat k)" if "k < n" "j \<le> n" for j k
    using that assms(2) by (induction j) (auto simp: f)
  have "fold f [0..<j] m (dst + of_nat k) = (if k < j then m (src + of_nat k) else m (dst + of_nat k))" if "j \<le> n" for j
    using that
  proof (induction j)
    case (Suc j)
    then have "dst + of_nat k = dst + of_nat j \<longleftrightarrow> k = j" using assms(1) [of k j] assms(3) by auto
    with Suc src [of j j] show ?case by (auto simp: less_Suc_eq f [of j "fold f [0..<j] m"])
  qed simp
  then have "fold f [0..<n] m (dst + of_nat k) = m (src + of_nat k)" using assms(3) by simp
  then show ?thesis unfolding copy_ram_def f_def .
qed

section \<open>The tree invariant\<close>

text \<open>
  Every node's buffer is a run of frames the pool counts as held, large enough for the size of a stored
  file; a node without a buffer has no capacity; the buffers of different nodes are apart; and no two
  nodes in use have the same path. The size of a generated file is not covered: \<^verbatim>\<open>regen_synth\<close> sets it before
  there is room for the text.
\<close>

abbreviation pages_of :: "node \<Rightarrow> nat" where
  "pages_of n \<equiv> unat (drop_bit 12 (n_cap n))"

definition node_ok :: "pmm \<Rightarrow> node \<Rightarrow> bool" where
  "node_ok s n \<longleftrightarrow> unat (n_cap n) = 4096 * pages_of n \<and> (n_synth n = SynNone \<longrightarrow> n_size n \<le> n_cap n) \<and>
     (n_buf n = 0 \<longleftrightarrow> n_cap n = 0) \<and> run_addrs (n_buf n) (pages_of n) \<subseteq> held s"

definition bufs_apart :: "node list \<Rightarrow> bool" where
  "bufs_apart ns \<longleftrightarrow> (\<forall>i < length ns. \<forall>j < length ns. i \<noteq> j \<longrightarrow>
     run_addrs (n_buf (ns ! i)) (pages_of (ns ! i)) \<inter> run_addrs (n_buf (ns ! j)) (pages_of (ns ! j)) = {})"

definition paths_unique :: "node list \<Rightarrow> bool" where
  "paths_unique ns \<longleftrightarrow> (\<forall>i < length ns. \<forall>j < length ns.
     n_used (ns ! i) \<and> n_used (ns ! j) \<and> n_path (ns ! i) = n_path (ns ! j) \<longrightarrow> i = j)"

definition tree_ok :: "tree \<Rightarrow> bool" where
  "tree_ok t \<longleftrightarrow> length (nodes t) = MAX_N \<and> pmm_ok (pool t) \<and> (\<forall>i < MAX_N. node_ok (pool t) (nodes t ! i)) \<and>
     bufs_apart (nodes t) \<and> paths_unique (nodes t)"

lemma pmm_ok_ram [simp]: "pmm_ok (s\<lparr>ram := m\<rparr>) = pmm_ok s"
  by (simp add: pmm_ok_def)

lemma held_ram [simp]: "held (s\<lparr>ram := m\<rparr>) = held s"
  by (simp add: held_def used_def frame_addr_def [abs_def])

lemma tree_okD:
  assumes "tree_ok t"
  shows "length (nodes t) = MAX_N" "pmm_ok (pool t)" "i < MAX_N \<Longrightarrow> node_ok (pool t) (nodes t ! i)"
    "i < MAX_N \<Longrightarrow> j < MAX_N \<Longrightarrow> i \<noteq> j \<Longrightarrow>
       run_addrs (n_buf (nodes t ! i)) (pages_of (nodes t ! i)) \<inter> run_addrs (n_buf (nodes t ! j)) (pages_of (nodes t ! j)) = {}"
  using assms by (simp_all add: tree_ok_def bufs_apart_def)

lemma node_okD:
  assumes "node_ok s n"
  shows "unat (n_cap n) = 4096 * pages_of n" "n_synth n = SynNone \<Longrightarrow> unat (n_size n) \<le> 4096 * pages_of n" "n_buf n = 0 \<longleftrightarrow> n_cap n = 0"
    "run_addrs (n_buf n) (pages_of n) \<subseteq> held s"
  using assms by (simp_all add: node_ok_def word_le_nat_alt)

lemma pages_bound:
  assumes "pmm_ok s" "run_addrs p n \<subseteq> held s"
  shows "n \<le> 5488"
proof (cases "n = 0")
  case False
  then obtain i where "i + n \<le> nframes s" using held_run_frames [OF assms] by auto
  with nframes_le [OF assms(1)] show ?thesis by linarith
qed simp

text \<open>A fresh run of frames leaves the bytes of every held run alone.\<close>

lemma alloc_keeps_run:
  assumes ok: "pmm_ok s" and al: "alloc_contig n s = (p, s1)" "p \<noteq> 0" and q: "run_addrs q m \<subseteq> held s" "l < 4096 * m"
  shows "ram s1 (q + of_nat l) = ram s (q + of_nat l)"
proof -
  note fresh = kernel_pool.alloc_fresh [OF ok al] and own = kernel_pool.alloc_owned [OF ok al]
  have "\<not> unat (q + of_nat l - a) < 4096" if a: "a \<in> run_addrs p (unat n)" for a
  proof
    assume d: "unat (q + of_nat l - a) < 4096"
    have "run_addrs a 1 = {a}" by (simp add: run_addrs_def lessThan_Suc)
    then have "run_addrs a 1 \<subseteq> held s1" "run_addrs q m \<subseteq> held s1" "run_addrs a 1 \<inter> run_addrs q m = {}"
      using own fresh a q(1) by auto
    from runs_apart [OF kernel_pool.alloc_invar [OF ok al(1)] this, of "unat (q + of_nat l - a)" l] d q(2)
    show False by simp
  qed
  then show ?thesis using kernel_pool.alloc_bytes [OF ok al] by auto
qed

text \<open>What replacing node \<open>i\<close> by one with a run of its own does to the invariant.\<close>

lemma tree_ok_replace:
  assumes t: "tree_ok t" and i: "i < MAX_N" and s: "pmm_ok s" and n: "node_ok s n"
    and apart: "\<And>j. j < MAX_N \<Longrightarrow> j \<noteq> i \<Longrightarrow>
       run_addrs (n_buf n) (pages_of n) \<inter> run_addrs (n_buf (nodes t ! j)) (pages_of (nodes t ! j)) = {}"
    and keep: "\<And>j. j < MAX_N \<Longrightarrow> j \<noteq> i \<Longrightarrow> run_addrs (n_buf (nodes t ! j)) (pages_of (nodes t ! j)) \<subseteq> held s"
    and path: "n_used n \<Longrightarrow> n_used (nodes t ! i) \<and> n_path n = n_path (nodes t ! i) \<or> (\<forall>j < MAX_N. n_used (nodes t ! j) \<longrightarrow> n_path (nodes t ! j) \<noteq> n_path n)"
  shows "tree_ok (set_node i n (t\<lparr>pool := s\<rparr>))"
proof -
  note T = tree_okD [OF t]
  let ?ns = "(nodes t)[i := n]"
  have "node_ok s (?ns ! j)" if "j < MAX_N" for j
    using that T(1,3) n keep [OF that] by (cases "j = i") (auto simp: node_ok_def)
  moreover have "bufs_apart ?ns"
    unfolding bufs_apart_def
  proof (intro allI impI)
    fix a b assume ab: "a < length ?ns" "b < length ?ns" "a \<noteq> b"
    then have "a < MAX_N" "b < MAX_N" using T(1) by simp_all
    then show "run_addrs (n_buf (?ns ! a)) (pages_of (?ns ! a)) \<inter> run_addrs (n_buf (?ns ! b)) (pages_of (?ns ! b)) = {}"
      using T(1) T(4) [of a b] apart [of b] apart [of a] ab(3) i
      by (cases "a = i"; cases "b = i") (simp_all add: Int_commute)
  qed
  moreover have "paths_unique ?ns"
  proof -
    have u: "paths_unique (nodes t)" using t by (simp add: tree_ok_def)
    show ?thesis
      unfolding paths_unique_def
    proof (intro allI impI)
      fix a b assume ab: "a < length ?ns" "b < length ?ns"
        "n_used (?ns ! a) \<and> n_used (?ns ! b) \<and> n_path (?ns ! a) = n_path (?ns ! b)"
      then have "a < MAX_N" "b < MAX_N" using T(1) by simp_all
      with ab u i T(1) path show "a = b"
        by (cases "a = i"; cases "b = i") (auto simp: paths_unique_def)
    qed
  qed
  ultimately show ?thesis using T(1) s by (simp add: tree_ok_def set_node_def)
qed

lemma page_count:
  assumes "unat (need :: u32) + 4095 < 2 ^ 32"
  shows "unat (drop_bit 12 (need + 4096 - 1)) = (unat need + 4095) div 4096"
proof -
  have "unat (need + 4095) = unat need + 4095" using assms by (simp add: unat_word_ariths)
  moreover have "need + 4096 - 1 = need + 4095" by simp
  ultimately have "unat (drop_bit 12 (need + 4096 - 1)) = drop_bit 12 (unat need + 4095)"
    by (simp only: unat_drop_bit_eq)
  then show ?thesis by (simp add: drop_bit_eq_div)
qed

lemma cap_of_pages:
  assumes "unat (pages :: u32) \<le> 5488"
  shows "unat (push_bit 12 pages) = 4096 * unat pages" "unat (drop_bit 12 (push_bit 12 pages)) = unat pages"
proof -
  show e: "unat (push_bit 12 pages) = 4096 * unat pages"
    using assms by (simp add: push_bit_eq_mult unat_word_ariths)
  then show "unat (drop_bit 12 (push_bit 12 pages)) = unat pages"
    by (simp add: drop_bit_eq_div unat_div)
qed

text \<open>\<^verbatim>\<open>node_reserve\<close> keeps the invariant and every file's bytes, and makes room.\<close>

lemma node_bytes_cong:
  assumes "n_buf (nodes t' ! j) = n_buf (nodes t ! j)" "n_size (nodes t' ! j) = n_size (nodes t ! j)"
    and "\<And>k. k < unat (n_size (nodes t ! j)) \<Longrightarrow>
      ram (pool t') (n_buf (nodes t ! j) + of_nat k) = ram (pool t) (n_buf (nodes t ! j) + of_nat k)"
  shows "node_bytes j t' = node_bytes j t"
  using assms by (simp add: node_bytes_def get_ram_def)

lemma node_reserve_fresh:
  assumes t: "tree_ok t" and i: "i < MAX_N" and need: "unat need + 4095 < 2 ^ 32" "\<not> need \<le> n_cap (nodes t ! i)"
  defines "n \<equiv> nodes t ! i"
  defines "pages \<equiv> grow_pages need (n_cap n)"
  assumes al: "alloc_contig pages (pool t) = (p, s1)" "p \<noteq> 0"
  shows "unat pages \<le> 5488" "unat need \<le> 4096 * unat pages" "pages_of n \<le> unat pages"
proof -
  note T = tree_okD [OF t] and N = node_okD [OF T(3) [OF i]]
  have run: "run_addrs p (unat pages) \<subseteq> held s1" using kernel_pool.alloc_owned [OF T(2) al] by simp
  show pb: "unat pages \<le> 5488" using pages_bound [OF kernel_pool.alloc_invar [OF T(2) al(1)] run] .
  have ob: "pages_of n \<le> 5488" using pages_bound [OF T(2) N(4)] by (simp add: n_def)
  have pc: "unat (drop_bit 12 (need + 4096 - 1)) = (unat need + 4095) div 4096" by (rule page_count [OF need(1)])
  have dbl: "unat (drop_bit 12 (n_cap n) * 2) = pages_of n * 2" using ob by (simp add: unat_word_ariths)
  have "unat need \<le> 4096 * ((unat need + 4095) div 4096)" by linarith
  then show "unat need \<le> 4096 * unat pages"
    unfolding pages_def grow_pages_def Let_def using pc dbl by (auto simp: word_less_nat_alt)
  have "4096 * pages_of n < unat need" using need(2) N(1) by (simp add: word_le_nat_alt n_def)
  then have "pages_of n \<le> (unat need + 4095) div 4096" by linarith
  then show "pages_of n \<le> unat pages" unfolding pages_def grow_pages_def Let_def using pc dbl by (auto simp: word_less_nat_alt)
qed

lemma node_reserve_cases:
  assumes t: "tree_ok t" and i: "i < MAX_N" and need: "unat need + 4095 < 2 ^ 32"
  obtains (fits) "need \<le> n_cap (nodes t ! i)" "node_reserve i need t = (True, t)"
  | (full) "\<not> need \<le> n_cap (nodes t ! i)" "node_reserve i need t = (False, t)"
  | (moved) p pages s1 s2 s3 where "\<not> need \<le> n_cap (nodes t ! i)"
      "alloc_contig pages (pool t) = (p, s1)" "p \<noteq> 0"
      "unat pages \<le> 5488" "unat need \<le> 4096 * unat pages" "pages_of (nodes t ! i) \<le> unat pages"
      "s2 = s1\<lparr>ram := copy_ram p (n_buf (nodes t ! i)) (unat (n_size (nodes t ! i))) (ram s1)\<rparr>"
      "s3 = (if n_buf (nodes t ! i) \<noteq> 0 then free_contig (n_buf (nodes t ! i)) (drop_bit 12 (n_cap (nodes t ! i))) s2 else s2)"
      "node_reserve i need t = (True, set_node i ((nodes t ! i)\<lparr>n_buf := p, n_cap := push_bit 12 pages\<rparr>) (t\<lparr>pool := s3\<rparr>))"
proof (cases "need \<le> n_cap (nodes t ! i)")
  case True
  then show ?thesis by (intro fits) (simp_all add: node_reserve_def Let_def)
next
  case False
  let ?n = "nodes t ! i"
  let ?pages = "grow_pages need (n_cap ?n)"
  obtain p s1 where al: "alloc_contig ?pages (pool t) = (p, s1)" by fastforce
  show ?thesis
  proof (cases "p = 0")
    case True
    with al have "s1 = pool t" using kernel_pool.alloc_fail [OF tree_okD(2) [OF t]] by blast
    with True False al show ?thesis by (intro full) (simp_all add: node_reserve_def Let_def)
  next
    case p: False
    note f = node_reserve_fresh [OF t i need False al p]
    show ?thesis
      by (rule moved [OF False al p f refl refl]) (use False al p in \<open>simp add: node_reserve_def Let_def\<close>)
  qed
qed

text \<open>The case in which the content moves to a larger run.\<close>

definition moved_to :: "tree \<Rightarrow> nat \<Rightarrow> u32 \<Rightarrow> u32 \<Rightarrow> pmm \<Rightarrow> tree \<Rightarrow> bool" where
  "moved_to t i p pages s1 t' \<longleftrightarrow>
     (let n = nodes t ! i; s2 = s1\<lparr>ram := copy_ram p (n_buf n) (unat (n_size n)) (ram s1)\<rparr>;
          s3 = (if n_buf n \<noteq> 0 then free_contig (n_buf n) (drop_bit 12 (n_cap n)) s2 else s2)
      in t' = set_node i (n\<lparr>n_buf := p, n_cap := push_bit 12 pages\<rparr>) (t\<lparr>pool := s3\<rparr>))"

lemma moved_pool:
  assumes t: "tree_ok t" and i: "i < MAX_N" and al: "alloc_contig pages (pool t) = (p, s1)" "p \<noteq> 0"
    and m: "moved_to t i p pages s1 t'"
  shows "pmm_ok (pool t')" "held (pool t') = held (pool t) \<union> run_addrs p (unat pages) - run_addrs (n_buf (nodes t ! i)) (pages_of (nodes t ! i))"
    "ram (pool t') = copy_ram p (n_buf (nodes t ! i)) (unat (n_size (nodes t ! i))) (ram s1)"
    "nodes t' = (nodes t)[i := (nodes t ! i)\<lparr>n_buf := p, n_cap := push_bit 12 pages\<rparr>]"
    "quota_entries t' = quota_entries t" "quota_default_bytes t' = quota_default_bytes t"
proof -
  note T = tree_okD [OF t] and N = node_okD [OF tree_okD(3) [OF t i]]
  let ?n = "nodes t ! i"
  let ?s2 = "s1\<lparr>ram := copy_ram p (n_buf ?n) (unat (n_size ?n)) (ram s1)\<rparr>"
  have ok2: "pmm_ok ?s2" "held ?s2 = held (pool t) \<union> run_addrs p (unat pages)"
    using kernel_pool.alloc_invar [OF T(2) al(1)] kernel_pool.alloc_owned [OF T(2) al] by simp_all
  then have "run_addrs (n_buf ?n) (pages_of ?n) \<subseteq> held ?s2" using N(4) by blast
  note fc = free_contig_held [OF ok2(1) this]
  show "pmm_ok (pool t')" "held (pool t') = held (pool t) \<union> run_addrs p (unat pages) - run_addrs (n_buf ?n) (pages_of ?n)"
    "ram (pool t') = copy_ram p (n_buf ?n) (unat (n_size ?n)) (ram s1)"
  proof -
    have pt: "pool t' = (if n_buf ?n \<noteq> 0 then free_contig (n_buf ?n) (drop_bit 12 (n_cap ?n)) ?s2 else ?s2)"
      using m by (simp add: moved_to_def Let_def set_node_def)
    have "pmm_ok (pool t') \<and> held (pool t') = held ?s2 - run_addrs (n_buf ?n) (pages_of ?n) \<and> ram (pool t') = ram ?s2"
    proof (cases "n_buf ?n = 0")
      case True
      then have "pages_of ?n = 0" using N(3) by simp
      with True pt ok2(1) show ?thesis by simp
    next
      case False
      with pt fc show ?thesis by simp
    qed
    with ok2(2) show "pmm_ok (pool t')" "held (pool t') = held (pool t) \<union> run_addrs p (unat pages) - run_addrs (n_buf ?n) (pages_of ?n)"
      "ram (pool t') = copy_ram p (n_buf ?n) (unat (n_size ?n)) (ram s1)" by simp_all
  qed
  show "nodes t' = (nodes t)[i := ?n\<lparr>n_buf := p, n_cap := push_bit 12 pages\<rparr>]"
    "quota_entries t' = quota_entries t" "quota_default_bytes t' = quota_default_bytes t"
    using m by (simp_all add: moved_to_def Let_def set_node_def)
qed

lemma moved_ok:
  assumes t: "tree_ok t" and i: "i < MAX_N" and al: "alloc_contig pages (pool t) = (p, s1)" "p \<noteq> 0"
    and m: "moved_to t i p pages s1 t'" and pg: "unat pages \<le> 5488" "pages \<noteq> 0" "pages_of (nodes t ! i) \<le> unat pages"
  shows "tree_ok t'"
proof -
  note T = tree_okD [OF t] and N = node_okD [OF tree_okD(3) [OF t i]] and P = moved_pool [OF t i al m]
  note cap = cap_of_pages [OF pg(1)] and fresh = kernel_pool.alloc_fresh [OF T(2) al]
  let ?n = "nodes t ! i"
  let ?n' = "?n\<lparr>n_buf := p, n_cap := push_bit 12 pages\<rparr>"
  have t': "t' = set_node i ?n' (t\<lparr>pool := pool t'\<rparr>)" using m by (simp add: moved_to_def Let_def set_node_def)
  have "push_bit 12 pages \<noteq> 0" using cap(1) pg(2) unat_eq_zero [of pages] by auto
  moreover have "n_synth ?n = SynNone \<Longrightarrow> unat (n_size ?n) \<le> 4096 * unat pages"
    using N(2) mult_le_mono2 [OF pg(3), of 4096] by linarith
  moreover have "run_addrs p (unat pages) \<subseteq> held (pool t')" using P(2) fresh N(4) by blast
  ultimately have n': "node_ok (pool t') ?n'" using cap al(2) by (simp add: node_ok_def word_le_nat_alt)
  show ?thesis
  proof (subst t', rule tree_ok_replace [OF t i P(1) n'])
    fix j assume j: "j < MAX_N" "j \<noteq> i"
    note J = node_okD [OF T(3) [OF j(1)]]
    show "run_addrs (n_buf ?n') (pages_of ?n') \<inter> run_addrs (n_buf (nodes t ! j)) (pages_of (nodes t ! j)) = {}"
      using fresh J(4) cap(2) by auto
    show "run_addrs (n_buf (nodes t ! j)) (pages_of (nodes t ! j)) \<subseteq> held (pool t')"
      using P(2) J(4) T(4) [OF j(1) i j(2)] by blast
  qed simp
qed

lemma moved_bytes:
  assumes t: "tree_ok t" and i: "i < MAX_N" and al: "alloc_contig pages (pool t) = (p, s1)" "p \<noteq> 0"
    and m: "moved_to t i p pages s1 t'" and sz: "unat (n_size (nodes t ! i)) \<le> 4096 * unat pages"
    and j: "j < MAX_N" "n_synth (nodes t ! j) = SynNone"
  shows "node_bytes j t' = node_bytes j t"
proof -
  note T = tree_okD [OF t] and J = node_okD [OF tree_okD(3) [OF t j(1)]] and P = moved_pool [OF t i al m]
  note ok1 = kernel_pool.alloc_invar [OF T(2) al(1)] and own = kernel_pool.alloc_owned [OF T(2) al]
    and fresh = kernel_pool.alloc_fresh [OF T(2) al]
  let ?n = "nodes t ! i" and ?b = "n_buf (nodes t ! j)"
  have keep: "ram s1 (?b + of_nat k) = ram (pool t) (?b + of_nat k)" if "k < unat (n_size (nodes t ! j))" for k
    by (rule alloc_keeps_run [OF T(2) al J(4)]) (use that J(2) [OF j(2)] in simp)
  have apart: "?b + of_nat k \<noteq> p + of_nat l" if "k < unat (n_size (nodes t ! j))" "l < unat (n_size ?n)" for k l
    by (rule runs_apart [OF ok1, of _ "pages_of (nodes t ! j)" p "unat pages"])
      (use own J(2) [OF j(2)] J(4) fresh that sz in \<open>auto simp: Int_commute\<close>)
  show ?thesis
  proof (cases "j = i")
    case True
    have "copy_ram p (n_buf ?n) (unat (n_size ?n)) (ram s1) (p + of_nat k) = ram s1 (n_buf ?n + of_nat k)"
      if "k < unat (n_size ?n)" for k
    proof (rule copy_ram_same [OF _ _ that])
      fix k l assume kl: "k < unat (n_size ?n)" "l < unat (n_size ?n)"
      then show "n_buf ?n + of_nat k \<noteq> p + of_nat l" using apart True by blast
      assume "p + of_nat k = p + of_nat l"
      then show "k = l" using run_inj [OF ok1, of p "unat pages" k l] own sz kl by auto
    qed
    then show ?thesis using True keep P(3,4) T(1) i by (simp add: node_bytes_def get_ram_def)
  next
    case False
    have "copy_ram p (n_buf ?n) (unat (n_size ?n)) (ram s1) (?b + of_nat k) = ram s1 (?b + of_nat k)"
      if "k < unat (n_size (nodes t ! j))" for k
      by (rule copy_ram_other) (use apart that in blast)
    then show ?thesis using False keep P(3,4) by (simp add: node_bytes_def get_ram_def)
  qed
qed

lemma node_reserve_spec:
  assumes t: "tree_ok t" and i: "i < MAX_N" and need: "unat need + 4095 < 2 ^ 32"
    and sz: "n_synth (nodes t ! i) = SynNone \<or> n_size (nodes t ! i) \<le> need" and r: "node_reserve i need t = (ok, t')"
  shows "tree_ok t'" "\<And>j. j < MAX_N \<Longrightarrow> n_synth (nodes t ! j) = SynNone \<Longrightarrow> node_bytes j t' = node_bytes j t"
    "\<And>j. j \<noteq> i \<Longrightarrow> nodes t' ! j = nodes t ! j" "ok \<Longrightarrow> need \<le> n_cap (nodes t' ! i)" "\<not> ok \<Longrightarrow> t' = t"
    "\<exists>b c. nodes t' ! i = (nodes t ! i)\<lparr>n_buf := b, n_cap := c\<rparr>"
    "quota_entries t' = quota_entries t" "quota_default_bytes t' = quota_default_bytes t"
proof -
  note T = tree_okD [OF t] and N = node_okD [OF tree_okD(3) [OF t i]]
  let ?n = "nodes t ! i"
  have triv: "\<exists>b c. ?n = ?n\<lparr>n_buf := b, n_cap := c\<rparr>" by (rule exI [of _ "n_buf ?n"], rule exI [of _ "n_cap ?n"]) simp
  have "tree_ok t' \<and> (\<forall>j < MAX_N. n_synth (nodes t ! j) = SynNone \<longrightarrow> node_bytes j t' = node_bytes j t) \<and>
      (\<forall>j. j \<noteq> i \<longrightarrow> nodes t' ! j = nodes t ! j) \<and> (ok \<longrightarrow> need \<le> n_cap (nodes t' ! i)) \<and> (\<not> ok \<longrightarrow> t' = t) \<and>
      (\<exists>b c. nodes t' ! i = ?n\<lparr>n_buf := b, n_cap := c\<rparr>) \<and> quota_entries t' = quota_entries t \<and> quota_default_bytes t' = quota_default_bytes t"
    using t i need
  proof (cases rule: node_reserve_cases)
    case fits
    with r t triv show ?thesis by simp
  next
    case full
    with r t triv show ?thesis by simp
  next
    case (moved p pages s1 s2 s3)
    then have m: "moved_to t i p pages s1 t'" and ok: ok using r by (simp_all add: moved_to_def Let_def)
    note P = moved_pool [OF t i moved(2,3) m]
    have "unat (n_size ?n) \<le> 4096 * unat pages"
      using sz N(2) moved(5) mult_le_mono2 [OF moved(6), of 4096] by (auto simp: word_le_nat_alt)
    note mb = moved_bytes [OF t i moved(2,3) m this]
    have "pages \<noteq> 0" using moved(1,5) by (auto simp: word_le_nat_alt)
    from moved_ok [OF t i moved(2,3) m moved(4) this moved(6)] have "tree_ok t'" .
    moreover have "need \<le> push_bit 12 pages" using moved(5) cap_of_pages(1) [OF moved(4)] by (simp add: word_le_nat_alt)
    ultimately show ?thesis using mb P(4-6) ok T(1) i by auto
  qed
  then show "tree_ok t'" "\<And>j. j < MAX_N \<Longrightarrow> n_synth (nodes t ! j) = SynNone \<Longrightarrow> node_bytes j t' = node_bytes j t"
    "\<And>j. j \<noteq> i \<Longrightarrow> nodes t' ! j = nodes t ! j" "ok \<Longrightarrow> need \<le> n_cap (nodes t' ! i)" "\<not> ok \<Longrightarrow> t' = t"
    "\<exists>b c. nodes t' ! i = ?n\<lparr>n_buf := b, n_cap := c\<rparr>"
    "quota_entries t' = quota_entries t" "quota_default_bytes t' = quota_default_bytes t" by blast+
qed

text \<open>Storing bytes in a node's buffer: the copy loops of \<^verbatim>\<open>node_set\<close> and \<^verbatim>\<open>write\<close>.\<close>

definition node_store :: "nat \<Rightarrow> u32 \<Rightarrow> u8 list \<Rightarrow> tree \<Rightarrow> tree" where
  "node_store i pos bs t =
     (let n = nodes t ! i; fin = pos + of_nat (length bs)
      in set_node i (if fin > n_size n then n\<lparr>n_size := fin\<rparr> else n)
           (t\<lparr>pool := (pool t)\<lparr>ram := put_ram (n_buf n + pos) bs (ram (pool t))\<rparr>\<rparr>))"

lemma node_resize_ok:
  assumes t: "tree_ok t" and i: "i < MAX_N" and z: "n_synth (nodes t ! i) = SynNone \<Longrightarrow> z \<le> n_cap (nodes t ! i)"
  shows "tree_ok (set_node i ((nodes t ! i)\<lparr>n_size := z\<rparr>) (t\<lparr>pool := (pool t)\<lparr>ram := m\<rparr>\<rparr>))"
proof (rule tree_ok_replace [OF t i])
  show "pmm_ok ((pool t)\<lparr>ram := m\<rparr>)" using tree_okD(2) [OF t] by simp
  show "node_ok ((pool t)\<lparr>ram := m\<rparr>) ((nodes t ! i)\<lparr>n_size := z\<rparr>)"
    using tree_okD(3) [OF t i] z by (simp add: node_ok_def)
  fix j assume j: "j < MAX_N" "j \<noteq> i"
  show "run_addrs (n_buf (nodes t ! j)) (pages_of (nodes t ! j)) \<subseteq> held ((pool t)\<lparr>ram := m\<rparr>)"
    using node_okD(4) [OF tree_okD(3) [OF t j(1)]] by simp
  show "run_addrs (n_buf ((nodes t ! i)\<lparr>n_size := z\<rparr>)) (pages_of ((nodes t ! i)\<lparr>n_size := z\<rparr>)) \<inter>
      run_addrs (n_buf (nodes t ! j)) (pages_of (nodes t ! j)) = {}"
    using tree_okD(4) [OF t i j(1)] j(2) by simp
qed simp

lemma store_bytes:
  assumes t: "tree_ok t" and i: "i < MAX_N" and fit: "unat pos + length bs \<le> unat (n_cap (nodes t ! i))"
    and j: "j < MAX_N" and k: "k < unat (n_cap (nodes t ! j))"
  shows "put_ram (n_buf (nodes t ! i) + pos) bs (ram (pool t)) (n_buf (nodes t ! j) + of_nat k) =
    (if j = i \<and> unat pos \<le> k \<and> k < unat pos + length bs then bs ! (k - unat pos)
     else ram (pool t) (n_buf (nodes t ! j) + of_nat k))"
proof -
  let ?b = "n_buf (nodes t ! i)"
  note T = tree_okD [OF t] and I = node_okD [OF tree_okD(3) [OF t i]] and J = node_okD [OF tree_okD(3) [OF t j]]
  have ad: "?b + pos + of_nat l = ?b + of_nat (unat pos + l)" for l by simp
  have inj: "l = l'" if "l < length bs" "l' < length bs" "?b + pos + of_nat l = ?b + pos + of_nat l'" for l l'
    using run_inj [OF T(2) I(4), of "unat pos + l" "unat pos + l'"] that fit I(1) unfolding ad by simp
  show ?thesis
  proof (cases "j = i \<and> unat pos \<le> k \<and> k < unat pos + length bs")
    case True
    then have "put_ram (?b + pos) bs (ram (pool t)) (?b + pos + of_nat (k - unat pos)) = bs ! (k - unat pos)"
      by (intro put_ram_same [OF inj]) auto
    with True show ?thesis unfolding ad by simp
  next
    case False
    have "n_buf (nodes t ! j) + of_nat k \<noteq> ?b + pos + of_nat l" if l: "l < length bs" for l
      unfolding ad
    proof (cases "j = i")
      case True
      show "n_buf (nodes t ! j) + of_nat k \<noteq> ?b + of_nat (unat pos + l)"
      proof
        assume "n_buf (nodes t ! j) + of_nat k = ?b + of_nat (unat pos + l)"
        then have "k = unat pos + l"
          using run_inj [OF T(2) I(4), of k "unat pos + l"] True k l fit I(1) by simp
        with False True l show False by simp
      qed
    next
      case ne: False
      show "n_buf (nodes t ! j) + of_nat k \<noteq> ?b + of_nat (unat pos + l)"
        by (rule runs_apart [OF T(2) J(4) I(4) T(4) [OF j i ne]]) (use k l fit I(1) J(1) in auto)
    qed
    with False show ?thesis by (simp only: if_False) (rule put_ram_other)
  qed
qed

lemma node_store_spec:
  assumes t: "tree_ok t" and i: "i < MAX_N" "n_synth (nodes t ! i) = SynNone" and fit: "unat pos + length bs \<le> unat (n_cap (nodes t ! i))"
  defines "t' \<equiv> node_store i pos bs t"
  shows "tree_ok t'" "\<And>j. j \<noteq> i \<Longrightarrow> nodes t' ! j = nodes t ! j"
    "\<And>j. j < MAX_N \<Longrightarrow> j \<noteq> i \<Longrightarrow> n_synth (nodes t ! j) = SynNone \<Longrightarrow> node_bytes j t' = node_bytes j t"
    "unat (n_size (nodes t' ! i)) = max (unat (n_size (nodes t ! i))) (unat pos + length bs)"
    "\<And>k. k < unat (n_size (nodes t' ! i)) \<Longrightarrow> node_bytes i t' ! k =
       (if unat pos \<le> k \<and> k < unat pos + length bs then bs ! (k - unat pos)
        else ram (pool t) (n_buf (nodes t ! i) + of_nat k))"
    "n_cap (nodes t' ! i) = n_cap (nodes t ! i)" "n_buf (nodes t' ! i) = n_buf (nodes t ! i)"
proof -
  note T = tree_okD [OF t] and I = node_okD [OF tree_okD(3) [OF t i(1)]]
  let ?n = "nodes t ! i" and ?fin = "pos + of_nat (length bs) :: u32"
  have lt: "unat pos + length bs < 2 ^ 32" using fit unsigned_less [where 'a = nat and w = "n_cap ?n"] by simp
  then have fin: "unat ?fin = unat pos + length bs" by (simp add: unat_word_ariths unat_of_nat)
  define z where "z = (if ?fin > n_size ?n then ?fin else n_size ?n)"
  have z: "unat z = max (unat (n_size ?n)) (unat pos + length bs)"
    unfolding z_def using fin by (simp add: word_less_nat_alt)
  then have zc: "z \<le> n_cap ?n" using fit I(1) I(2) [OF i(2)] by (simp add: word_le_nat_alt)
  have e: "t' = set_node i (?n\<lparr>n_size := z\<rparr>) (t\<lparr>pool := (pool t)\<lparr>ram := put_ram (n_buf ?n + pos) bs (ram (pool t))\<rparr>\<rparr>)"
    by (simp add: t'_def node_store_def Let_def z_def)
  show "tree_ok t'" unfolding e by (rule node_resize_ok [OF t i(1) zc])
  show "\<And>j. j \<noteq> i \<Longrightarrow> nodes t' ! j = nodes t ! j" by (simp add: e set_node_def)
  show "n_cap (nodes t' ! i) = n_cap ?n" "n_buf (nodes t' ! i) = n_buf ?n" "unat (n_size (nodes t' ! i)) = max (unat (n_size ?n)) (unat pos + length bs)"
    using T(1) i z by (simp_all add: e set_node_def)
  show "node_bytes j t' = node_bytes j t" if "j < MAX_N" "j \<noteq> i" "n_synth (nodes t ! j) = SynNone" for j
  proof (rule node_bytes_cong)
    fix k assume "k < unat (n_size (nodes t ! j))"
    moreover have "unat (n_size (nodes t ! j)) \<le> unat (n_cap (nodes t ! j))" using node_okD(1) [OF T(3) [OF that(1)]] node_okD(2) [OF T(3) [OF that(1)] that(3)] by simp
    ultimately show "ram (pool t') (n_buf (nodes t ! j) + of_nat k) = ram (pool t) (n_buf (nodes t ! j) + of_nat k)"
      using store_bytes [OF t i(1) fit that(1), of k] that(2) by (simp add: e set_node_def)
  qed (use that in \<open>simp_all add: e set_node_def\<close>)
  fix k assume k: "k < unat (n_size (nodes t' ! i))"
  then have "k < unat (n_cap ?n)" using zc T(1) i by (simp add: e set_node_def word_le_nat_alt)
  from store_bytes [OF t i(1) fit i(1) this] k T(1) i
  show "node_bytes i t' ! k = (if unat pos \<le> k \<and> k < unat pos + length bs then bs ! (k - unat pos)
      else ram (pool t) (n_buf ?n + of_nat k))"
    by (simp add: e set_node_def node_bytes_def get_ram_def)
qed

section \<open>Looking up and adding nodes\<close>

lemma find_index_Some: "find_index p t = Some i \<Longrightarrow> i < MAX_N \<and> n_used (nodes t ! i) \<and> n_path (nodes t ! i) = p"
  unfolding find_index_def by (drule for_first_SomeD) (auto split: if_splits)

lemma find_index_None:
  "find_index p t = None \<longleftrightarrow> (\<forall>i < MAX_N. n_used (nodes t ! i) \<longrightarrow> n_path (nodes t ! i) \<noteq> p)"
  unfolding find_index_def for_first_None_iff by auto

lemma find_index_used:
  assumes "tree_ok t" "i < MAX_N" "n_used (nodes t ! i)"
  shows "find_index (n_path (nodes t ! i)) t = Some i"
proof (cases "find_index (n_path (nodes t ! i)) t")
  case None
  with assms show ?thesis using find_index_None by blast
next
  case (Some j)
  with find_index_Some [OF Some] assms show ?thesis by (auto simp: tree_ok_def paths_unique_def)
qed

lemma add_node_spec:
  assumes t: "tree_ok t" and p: "length p < PATH_CAP" "find_index p t = None" and a: "add_node p d cur t = (r, t')"
  shows "tree_ok t'" "r = None \<Longrightarrow> t' = t"
    "r = Some i \<Longrightarrow> i < MAX_N \<and> \<not> n_used (nodes t ! i) \<and> nodes t' = (nodes t)[i := no_node\<lparr>n_used := True, n_dir := d, n_path := p,
       n_perm := (if d then 0x1ED else 0x1A4), n_uid := cur_uid cur, n_gid := cur_gid cur\<rparr>] \<and> pool t' = pool t"
    "quota_entries t' = quota_entries t" "quota_default_bytes t' = quota_default_bytes t"
proof -
  have cp: "copy_str p PATH_CAP = p" using p(1) by (simp add: copy_str_def)
  let ?new = "no_node\<lparr>n_used := True, n_dir := d, n_path := p, n_perm := (if d then 0x1ED else 0x1A4), n_uid := cur_uid cur, n_gid := cur_gid cur\<rparr>"
  let ?ff = "for_first 0 MAX_N (\<lambda>i. if \<not> n_used (nodes t ! i) then Some i else None)"
  have "tree_ok t' \<and> (r = None \<longrightarrow> t' = t) \<and>
      (\<forall>i. r = Some i \<longrightarrow> i < MAX_N \<and> \<not> n_used (nodes t ! i) \<and> nodes t' = (nodes t)[i := ?new] \<and> pool t' = pool t) \<and>
      quota_entries t' = quota_entries t \<and> quota_default_bytes t' = quota_default_bytes t"
  proof (cases ?ff)
    case None
    with a t show ?thesis by (auto simp: add_node_def)
  next
    case (Some i)
    then have i: "i < MAX_N" "\<not> n_used (nodes t ! i)" by (auto dest!: for_first_SomeD split: if_splits)
    have t': "t' = set_node i ?new (t\<lparr>pool := pool t\<rparr>)" and r: "r = Some i"
      using a Some cp by (auto simp: add_node_def set_node_def)
    have "tree_ok t'"
      unfolding t'
    proof (rule tree_ok_replace [OF t i(1)])
      show "node_ok (pool t) ?new" by (simp add: node_ok_def no_node_def)
      show "n_used ?new \<Longrightarrow> n_used (nodes t ! i) \<and> n_path ?new = n_path (nodes t ! i) \<or>
          (\<forall>j < MAX_N. n_used (nodes t ! j) \<longrightarrow> n_path (nodes t ! j) \<noteq> n_path ?new)"
        using p(2) by (simp add: find_index_None)
    qed (use tree_okD(2) [OF t] node_okD(4) [OF tree_okD(3) [OF t]] in \<open>auto simp: no_node_def\<close>)
    with i r show ?thesis by (simp add: t' set_node_def)
  qed
  then show "tree_ok t'" "r = None \<Longrightarrow> t' = t"
    "r = Some i \<Longrightarrow> i < MAX_N \<and> \<not> n_used (nodes t ! i) \<and> nodes t' = (nodes t)[i := ?new] \<and> pool t' = pool t"
    "quota_entries t' = quota_entries t" "quota_default_bytes t' = quota_default_bytes t" by blast+
qed

lemma node_release_spec:
  assumes t: "tree_ok t" and i: "i < MAX_N"
  shows "tree_ok (node_release i t)" "\<And>j. j \<noteq> i \<Longrightarrow> nodes (node_release i t) ! j = nodes t ! j"
    "\<And>j. j \<noteq> i \<Longrightarrow> node_bytes j (node_release i t) = node_bytes j t"
    "nodes (node_release i t) ! i = (nodes t ! i)\<lparr>n_buf := 0, n_cap := 0, n_size := 0\<rparr>"
    "held (pool (node_release i t)) = held (pool t) - run_addrs (n_buf (nodes t ! i)) (pages_of (nodes t ! i))"
    "length (nodes (node_release i t)) = MAX_N"
proof -
  note T = tree_okD [OF t] and N = node_okD [OF tree_okD(3) [OF t i]]
  let ?n = "nodes t ! i" and ?t = "node_release i t"
  let ?n' = "?n\<lparr>n_buf := 0, n_cap := 0, n_size := 0\<rparr>"
  note fc = free_contig_held [OF T(2) N(4)]
  have pt: "pool ?t = (if n_buf ?n \<noteq> 0 then free_contig (n_buf ?n) (drop_bit 12 (n_cap ?n)) (pool t) else pool t)"
    by (simp add: node_release_def Let_def set_node_def)
  have P: "pmm_ok (pool ?t) \<and> held (pool ?t) = held (pool t) - run_addrs (n_buf ?n) (pages_of ?n) \<and> ram (pool ?t) = ram (pool t)"
  proof (cases "n_buf ?n = 0")
    case True
    then have "pages_of ?n = 0" using N(3) by simp
    with True pt T(2) show ?thesis by simp
  next
    case False
    with pt fc show ?thesis by simp
  qed
  have e: "?t = set_node i ?n' (t\<lparr>pool := pool ?t\<rparr>)" by (simp add: node_release_def Let_def set_node_def)
  show "tree_ok ?t"
  proof (subst e, rule tree_ok_replace [OF t i])
    show "node_ok (pool ?t) ?n'" by (simp add: node_ok_def)
    fix j assume j: "j < MAX_N" "j \<noteq> i"
    show "run_addrs (n_buf (nodes t ! j)) (pages_of (nodes t ! j)) \<subseteq> held (pool ?t)"
      using P node_okD(4) [OF T(3) [OF j(1)]] T(4) [OF j(1) i j(2)] by blast
  qed (use P in auto)
  have n: "nodes ?t = (nodes t)[i := ?n']" by (simp add: node_release_def Let_def set_node_def)
  then show "\<And>j. j \<noteq> i \<Longrightarrow> nodes ?t ! j = nodes t ! j" "nodes ?t ! i = ?n'" "length (nodes ?t) = MAX_N"
    using T(1) i by simp_all
  show "\<And>j. j \<noteq> i \<Longrightarrow> node_bytes j ?t = node_bytes j t" using n P by (simp add: node_bytes_def)
  show "held (pool ?t) = held (pool t) - run_addrs (n_buf ?n) (pages_of ?n)" using P by blast
qed

lemma node_set_eq:
  "node_set i src t = (case node_reserve i (of_nat (length src)) t of (False, t1) \<Rightarrow> t1
     | (True, t1) \<Rightarrow> set_node i ((nodes t1 ! i)\<lparr>n_size := of_nat (length src)\<rparr>)
         (t1\<lparr>pool := (pool t1)\<lparr>ram := put_ram (n_buf (nodes t1 ! i) + 0) src (ram (pool t1))\<rparr>\<rparr>))"
  by (simp add: node_set_def Let_def split: prod.splits bool.splits)

lemma node_set_spec:
  assumes t: "tree_ok t" and i: "i < MAX_N" and len: "length src + 4095 < 2 ^ 32"
    and sz: "n_synth (nodes t ! i) = SynNone \<or> n_size (nodes t ! i) \<le> of_nat (length src)"
  shows "tree_ok (node_set i src t)" "\<And>j. j \<noteq> i \<Longrightarrow> nodes (node_set i src t) ! j = nodes t ! j"
    "\<And>j. j < MAX_N \<Longrightarrow> j \<noteq> i \<Longrightarrow> n_synth (nodes t ! j) = SynNone \<Longrightarrow> node_bytes j (node_set i src t) = node_bytes j t"
    "node_set i src t = t \<or> node_bytes i (node_set i src t) = src"
    "\<exists>b c z. nodes (node_set i src t) ! i = (nodes t ! i)\<lparr>n_buf := b, n_cap := c, n_size := z\<rparr>"
proof -
  obtain ok t1 where r: "node_reserve i (of_nat (length src)) t = (ok, t1)" by fastforce
  have ul: "unat (of_nat (length src) :: u32) = length src" using len by (simp add: unat_of_nat)
  have need: "unat (of_nat (length src) :: u32) + 4095 < 2 ^ 32" using len ul by simp
  note R = node_reserve_spec [OF t i need sz r]
  obtain b c where n1: "nodes t1 ! i = (nodes t ! i)\<lparr>n_buf := b, n_cap := c\<rparr>" using R(6) by blast
  have "tree_ok (node_set i src t) \<and> (\<forall>j. j \<noteq> i \<longrightarrow> nodes (node_set i src t) ! j = nodes t ! j) \<and>
      (\<forall>j < MAX_N. j \<noteq> i \<longrightarrow> n_synth (nodes t ! j) = SynNone \<longrightarrow> node_bytes j (node_set i src t) = node_bytes j t) \<and>
      (node_set i src t = t \<or> node_bytes i (node_set i src t) = src) \<and>
      (\<exists>b c z. nodes (node_set i src t) ! i = (nodes t ! i)\<lparr>n_buf := b, n_cap := c, n_size := z\<rparr>)"
  proof (cases ok)
    case False
    have "\<exists>b c z. nodes t ! i = (nodes t ! i)\<lparr>n_buf := b, n_cap := c, n_size := z\<rparr>"
      by (rule exI [of _ "n_buf (nodes t ! i)"], rule exI [of _ "n_cap (nodes t ! i)"], rule exI [of _ "n_size (nodes t ! i)"]) simp
    with False r R(5) t show ?thesis by (simp add: node_set_eq)
  next
    case True
    let ?z = "of_nat (length src) :: u32"
    let ?m = "put_ram (n_buf (nodes t1 ! i) + 0) src (ram (pool t1))"
    let ?t2 = "set_node i ((nodes t1 ! i)\<lparr>n_size := ?z\<rparr>) (t1\<lparr>pool := (pool t1)\<lparr>ram := ?m\<rparr>\<rparr>)"
    have e: "node_set i src t = ?t2" using True r by (simp add: node_set_eq)
    have fit: "unat 0 + length src \<le> unat (n_cap (nodes t1 ! i))" using R(4) [OF True] ul by (simp add: word_le_nat_alt)
    have ok2: "tree_ok ?t2" by (rule node_resize_ok [OF R(1) i]) (use R(4) [OF True] in simp)
    have L: "length (nodes t1) = MAX_N" by (rule tree_okD(1) [OF R(1)])
    note sb = store_bytes [OF R(1) i fit]
    have bytes: "node_bytes j ?t2 = node_bytes j t" if j: "j < MAX_N" "j \<noteq> i" "n_synth (nodes t ! j) = SynNone" for j
    proof -
      have sj: "nodes t1 ! j = nodes t ! j" using R(3) j(2) by simp
      have "node_bytes j ?t2 = node_bytes j t1"
      proof (rule node_bytes_cong)
        fix k assume "k < unat (n_size (nodes t1 ! j))"
        then have "k < unat (n_cap (nodes t1 ! j))"
          using node_okD(1,2) [OF tree_okD(3) [OF R(1) j(1)]] j(3) sj by simp
        from sb [OF j(1) this] j(2) show "ram (pool ?t2) (n_buf (nodes t1 ! j) + of_nat k) = ram (pool t1) (n_buf (nodes t1 ! j) + of_nat k)"
          by (simp add: set_node_def)
      qed (use j in \<open>simp_all add: set_node_def\<close>)
      with R(2) [OF j(1,3)] show ?thesis by simp
    qed
    have "node_bytes i ?t2 = src"
    proof (rule nth_equalityI)
      show "length (node_bytes i ?t2) = length src" using L i ul by (simp add: node_bytes_def get_ram_def set_node_def)
      fix k assume "k < length (node_bytes i ?t2)"
      then have k: "k < length src" using L i ul by (simp add: node_bytes_def get_ram_def set_node_def)
      then have "k < unat (n_cap (nodes t1 ! i))" using fit by simp
      from sb [OF i this] k L i ul show "node_bytes i ?t2 ! k = src ! k"
        by (simp add: node_bytes_def get_ram_def set_node_def)
    qed
    moreover have "\<exists>b c z. nodes ?t2 ! i = (nodes t ! i)\<lparr>n_buf := b, n_cap := c, n_size := z\<rparr>"
      using n1 L i by (auto simp: set_node_def)
    ultimately show ?thesis unfolding e using ok2 bytes R(3) by (auto simp: set_node_def)
  qed
  then show "tree_ok (node_set i src t)" "\<And>j. j \<noteq> i \<Longrightarrow> nodes (node_set i src t) ! j = nodes t ! j"
    "\<And>j. j < MAX_N \<Longrightarrow> j \<noteq> i \<Longrightarrow> n_synth (nodes t ! j) = SynNone \<Longrightarrow> node_bytes j (node_set i src t) = node_bytes j t"
    "node_set i src t = t \<or> node_bytes i (node_set i src t) = src"
    "\<exists>b c z. nodes (node_set i src t) ! i = (nodes t ! i)\<lparr>n_buf := b, n_cap := c, n_size := z\<rparr>" by blast+
qed

section \<open>Quota accounting\<close>

definition uses :: "u32 \<Rightarrow> node list \<Rightarrow> nat" where
  "uses uid ns = sum_list (map (\<lambda>n. if counts_for uid n then unat (n_size n) else 0) ns)"

lemma quota_sum_uses: "unat (quota_sum uid ns acc) = min (2 ^ 32 - 1) (unat acc + uses uid ns)"
proof (induction ns arbitrary: acc)
  case Nil
  then show ?case using unsigned_less [where 'a = nat and w = acc] by (simp add: uses_def)
next
  case (Cons n ns)
  have "acc \<le> 0xFFFFFFFF" using unsigned_less [where 'a = nat and w = acc] by (simp add: word_le_nat_alt)
  then have m: "unat (0xFFFFFFFF - acc) = 2 ^ 32 - 1 - unat acc" by (simp add: unat_sub)
  show ?case
  proof (cases "counts_for uid n")
    case True
    show ?thesis
    proof (cases "n_size n > 0xFFFFFFFF - acc")
      case big: True
      then have "2 ^ 32 - 1 < unat acc + unat (n_size n)" using m by (simp add: word_less_nat_alt)
      with True big show ?thesis by (simp add: uses_def)
    next
      case False
      then have "unat (n_size n) \<le> 2 ^ 32 - 1 - unat acc" using m by (simp add: word_less_nat_alt not_less)
      then have "unat (n_size n) + unat acc < 2 ^ 32" using unsigned_less [where 'a = nat and w = acc] by simp
      then have "unat (acc + n_size n) = unat acc + unat (n_size n)" by (simp add: unat_word_ariths)
      with True False Cons show ?thesis by (simp add: uses_def)
    qed
  next
    case False
    with Cons show ?thesis by (simp add: uses_def)
  qed
qed

lemma quota_used_uses: "length (nodes t) = MAX_N \<Longrightarrow> unat (quota_used uid t) = min (2 ^ 32 - 1) (uses uid (nodes t))"
  by (simp add: quota_used_def quota_sum_uses)

lemma uses_update:
  assumes "i < length ns"
  shows "uses uid (ns[i := n]) + (if counts_for uid (ns ! i) then unat (n_size (ns ! i)) else 0) =
    uses uid ns + (if counts_for uid n then unat (n_size n) else 0)"
proof -
  let ?w = "\<lambda>n. if counts_for uid n then unat (n_size n) else 0"
  have "uses uid ns = uses uid (take i ns) + ?w (ns ! i) + uses uid (drop (Suc i) ns)"
    using assms by (subst id_take_nth_drop [OF assms]) (simp add: uses_def)
  moreover have "uses uid (ns[i := n]) = uses uid (take i ns) + ?w n + uses uid (drop (Suc i) ns)"
    using assms by (subst upd_conv_take_nth_drop [OF assms]) (simp add: uses_def)
  ultimately show ?thesis by simp
qed

text \<open>
  \<^verbatim>\<open>quota_used\<close> is the sum of the sizes of the stored regular files the user owns, cut off at the largest
  32-bit value: directories, devices and generated files do not count, and nothing wraps.
\<close>

theorem quota_used_exact:
  assumes "tree_ok t"
  shows "unat (quota_used uid t) = min (2 ^ 32 - 1)
     (\<Sum>i | i < MAX_N \<and> n_used (nodes t ! i) \<and> \<not> n_dir (nodes t ! i) \<and> n_dev (nodes t ! i) = DevNone \<and>
            n_synth (nodes t ! i) = SynNone \<and> n_uid (nodes t ! i) = uid. length (node_bytes i t))"
proof -
  have len: "length (nodes t) = MAX_N" by (rule tree_okD(1) [OF assms])
  let ?w = "\<lambda>i. if counts_for uid (nodes t ! i) then unat (n_size (nodes t ! i)) else 0"
  have "uses uid (nodes t) = (\<Sum>i < MAX_N. ?w i)"
    using len by (simp add: uses_def sum_list_sum_nth atLeast0LessThan)
  also have "\<dots> = (\<Sum>i \<in> {i \<in> {..<MAX_N}. counts_for uid (nodes t ! i)}. unat (n_size (nodes t ! i)))"
    by (rule sum.inter_filter [symmetric]) simp
  also have "\<dots> = (\<Sum>i | i < MAX_N \<and> counts_for uid (nodes t ! i). length (node_bytes i t))"
    by (intro sum.cong) (auto simp: node_bytes_def get_ram_def)
  finally show ?thesis unfolding quota_used_uses [OF len] counts_for_def by (simp add: conj_ac)
qed

section \<open>A small tree\<close>

text \<open>
  The concrete state of the witnesses: a pool of five frames whose first one holds the three bytes of
  \<^verbatim>\<open>/etc/motd\<close>, a root-owned file everybody may read, and a directory everybody may write.
\<close>

definition demo_pool :: pmm where
  "demo_pool = \<lparr>g_bitmap = (replicate 172 0)[0 := 1], g_pool_base = 0x01F6B000, g_pool_frames = 5,
     ram = put_ram 0x01F6B000 [0x56, 0x4E, 0x55] (\<lambda>_. 0)\<rparr>"

definition demo_motd :: node where
  "demo_motd = no_node\<lparr>n_used := True, n_path := ''/etc/motd'', n_buf := 0x01F6B000, n_cap := 4096, n_size := 3, n_perm := 0x1A4\<rparr>"

definition demo_dir :: "string \<Rightarrow> u16 \<Rightarrow> node" where
  "demo_dir p perm = no_node\<lparr>n_used := True, n_dir := True, n_path := p, n_perm := perm\<rparr>"

definition demo_tree :: tree where
  "demo_tree = \<lparr>nodes = [demo_dir ''/'' 0x1ED, demo_dir ''/etc'' 0x1ED, demo_motd, demo_dir ''/tmp'' 0x1FF] @ replicate 1020 no_node,
     pool = demo_pool, quota_entries = replicate 32 \<lparr>q_used = False, q_uid = 0, q_limit = 0\<rparr>, quota_default_bytes = 4096\<rparr>"

lemma demo_nodes:
  "nodes demo_tree ! 0 = demo_dir ''/'' 0x1ED" "nodes demo_tree ! Suc 0 = demo_dir ''/etc'' 0x1ED"
  "nodes demo_tree ! 2 = demo_motd" "nodes demo_tree ! 3 = demo_dir ''/tmp'' 0x1FF"
  "4 \<le> i \<Longrightarrow> i < MAX_N \<Longrightarrow> nodes demo_tree ! i = no_node"
  by (simp_all add: demo_tree_def nth_append MAX_N_def)

lemma demo_pool_fields: "g_pool_frames demo_pool = 5" "g_pool_base demo_pool = 0x01F6B000"
  by (simp_all add: demo_pool_def)

lemma demo_pool_ok: "pmm_ok demo_pool"
  by (simp add: pmm_ok_def demo_pool_def pmm_consts BITMAP_WORDS_eq)

lemma demo_used: "used demo_pool = {0}"
proof -
  have "frame_bit (g_bitmap demo_pool) i = (i = 0)" if "i < 5" for i
  proof -
    from that have "i \<in> {0, 1, 2, 3, 4}" by auto
    then show ?thesis by (elim insertE) (simp_all add: demo_pool_def frame_bit_def test_mask_def)
  qed
  then show ?thesis by (auto simp: used_def demo_pool_def)
qed

lemma demo_held: "held demo_pool = {0x01F6B000}"
  by (simp add: held_def demo_used frame_addr_def) (simp add: demo_pool_def)

lemma demo_cases: "i < MAX_N \<Longrightarrow> i = 0 \<or> i = Suc 0 \<or> i = 2 \<or> i = 3 \<or> 4 \<le> i"
  by arith

lemma demo_run:
  assumes "i < MAX_N"
  shows "run_addrs (n_buf (nodes demo_tree ! i)) (pages_of (nodes demo_tree ! i)) = (if i = 2 then {0x01F6B000} else {})"
proof -
  have "run_addrs 0x01F6B000 1 = {0x01F6B000}" by (simp add: run_addrs_def lessThan_Suc)
  moreover have "pages_of demo_motd = 1" by (simp add: demo_motd_def no_node_def drop_bit_eq_div)
  ultimately show ?thesis
    using demo_cases [OF assms] assms by (elim disjE) (auto simp: demo_nodes demo_dir_def demo_motd_def no_node_def)
qed

lemma demo_tree_ok: "tree_ok demo_tree"
proof -
  have len: "length (nodes demo_tree) = MAX_N" by (simp add: demo_tree_def MAX_N_def)
  have pool: "pool demo_tree = demo_pool" by (simp add: demo_tree_def)
  have "node_ok demo_pool (nodes demo_tree ! i)" if i: "i < MAX_N" for i
  proof -
    have r: "run_addrs (n_buf (nodes demo_tree ! i)) (pages_of (nodes demo_tree ! i)) \<subseteq> held demo_pool"
      using demo_run [OF i] by (simp add: demo_held)
    from demo_cases [OF i] show ?thesis
      using r i by (elim disjE) (auto simp: node_ok_def demo_nodes demo_dir_def demo_motd_def no_node_def drop_bit_eq_div)
  qed
  moreover have "bufs_apart (nodes demo_tree)" unfolding bufs_apart_def len using demo_run by auto
  moreover have "paths_unique (nodes demo_tree)"
    unfolding paths_unique_def len
  proof (intro allI impI)
    fix i j assume ij: "i < MAX_N" "j < MAX_N" and
      u: "n_used (nodes demo_tree ! i) \<and> n_used (nodes demo_tree ! j) \<and> n_path (nodes demo_tree ! i) = n_path (nodes demo_tree ! j)"
    from demo_cases [OF ij(1)] demo_cases [OF ij(2)] show "i = j"
      using u ij by (elim disjE) (simp_all add: demo_nodes demo_dir_def demo_motd_def no_node_def)
  qed
  ultimately show ?thesis using len demo_pool_ok pool by (simp add: tree_ok_def)
qed

lemma demo_free2: "alloc_contig 2 demo_pool = (0x01F6C000, snd (alloc_contig 2 demo_pool))"
proof -
  have "free_run demo_pool 1 2" "\<not> free_run demo_pool 0 2"
    by (simp_all add: free_run_used demo_used demo_pool_fields)
  then show ?thesis
    using for_first_eqI [of 0 1 4 "\<lambda>i. if free_run demo_pool i 2 then Some i else None"]
    by (simp add: alloc_contig_def demo_pool_fields FRAME_SIZE_def)
qed

theorem quota_used_exact_witness: "unat (quota_used 0 demo_tree) = 3"
proof -
  have s: "{i. i < MAX_N \<and> n_used (nodes demo_tree ! i) \<and> \<not> n_dir (nodes demo_tree ! i) \<and> n_dev (nodes demo_tree ! i) = DevNone \<and>
      n_synth (nodes demo_tree ! i) = SynNone \<and> n_uid (nodes demo_tree ! i) = 0} = {2}"
  proof (intro set_eqI iffI)
    fix i assume i: "i \<in> {i. i < MAX_N \<and> n_used (nodes demo_tree ! i) \<and> \<not> n_dir (nodes demo_tree ! i) \<and> n_dev (nodes demo_tree ! i) = DevNone \<and>
      n_synth (nodes demo_tree ! i) = SynNone \<and> n_uid (nodes demo_tree ! i) = 0}"
    then have "i < MAX_N" by simp
    from demo_cases [OF this] show "i \<in> {2}"
      using i by (elim disjE) (auto simp: demo_nodes demo_dir_def no_node_def)
  qed (simp add: demo_nodes demo_motd_def no_node_def MAX_N_def)
  have "length (node_bytes 2 demo_tree) = 3" by (simp add: node_bytes_def get_ram_def demo_nodes demo_motd_def)
  then show ?thesis using quota_used_exact [OF demo_tree_ok, of 0] unfolding s by simp
qed

section \<open>The size computation of \<open>node_reserve\<close>\<close>

text \<open>
  C30. The page count of \<^verbatim>\<open>node_reserve\<close> wraps. For a request within 4095 bytes of the 32-bit limit on a
  node that already has a buffer, \<^verbatim>\<open>need + 4095\<close> overflows, the buffer is only doubled, and the routine
  still answers that it holds the requested number of bytes.
\<close>

theorem node_reserve_wraps:
  assumes "tree_ok t" "i < MAX_N" "n_cap (nodes t ! i) \<noteq> 0" "2 ^ 32 \<le> unat need + 4095"
    and "alloc_contig (drop_bit 12 (n_cap (nodes t ! i)) * 2) (pool t) = (p, s)" "p \<noteq> 0"
  shows "fst (node_reserve i need t) \<and>
     unat (n_cap (nodes (snd (node_reserve i need t)) ! i)) = 2 * unat (n_cap (nodes t ! i)) \<and>
     n_cap (nodes (snd (node_reserve i need t)) ! i) < need"
proof -
  note T = tree_okD [OF assms(1)] and N = node_okD [OF tree_okD(3) [OF assms(1,2)]]
  let ?c = "n_cap (nodes t ! i)"
  have pb: "unat (drop_bit 12 ?c) \<le> 5488" using pages_bound [OF T(2) N(4)] .
  have p1: "1 \<le> unat (drop_bit 12 ?c)" using N(1) assms(3) unat_eq_zero [of ?c] by (cases "pages_of (nodes t ! i)") auto
  have dbl: "unat (drop_bit 12 ?c * 2) = 2 * unat (drop_bit 12 ?c)" using pb by (simp add: unat_word_ariths)
  have "unat (need + 4095) = unat need + 4095 - 2 ^ 32"
    using assms(4) unsigned_less [where 'a = nat and w = need] by (simp add: unat_word_ariths mod_if)
  then have "unat (need + 4095) < 4096" using unsigned_less [where 'a = nat and w = need] by simp
  moreover have "unat (drop_bit 12 (need + 4095)) = drop_bit 12 (unat (need + 4095))" by (rule unat_drop_bit_eq)
  ultimately have "unat (drop_bit 12 (need + 4095)) = 0" by (simp only:) (simp add: drop_bit_eq_div)
  then have "drop_bit 12 (need + 4096 - 1) < drop_bit 12 ?c * 2" using p1 dbl by (simp add: word_less_nat_alt add.commute)
  then have g: "grow_pages need ?c = drop_bit 12 ?c * 2" by (simp add: grow_pages_def Let_def)
  have "unat (drop_bit 12 ?c * 2) \<le> 10976" using dbl pb by simp
  then have cap: "unat (push_bit 12 (drop_bit 12 ?c * 2)) = 2 * unat ?c"
    using dbl N(1) by (simp add: push_bit_eq_mult unat_word_ariths)
  have big: "\<not> need \<le> ?c" using N(1) pb assms(4) by (simp add: word_le_nat_alt)
  have "push_bit 12 (drop_bit 12 ?c * 2) < need" using cap N(1) pb assms(4) by (simp add: word_less_nat_alt)
  with big g assms(5,6) cap T(1) assms(2) show ?thesis
    by (simp add: node_reserve_def Let_def set_node_def)
qed

theorem node_reserve_wraps_witness:
  "fst (node_reserve 2 0xFFFFFFFF demo_tree) \<and> unat (n_cap (nodes (snd (node_reserve 2 0xFFFFFFFF demo_tree)) ! 2)) = 8192"
proof -
  have c: "n_cap (nodes demo_tree ! 2) = 4096" by (simp add: demo_nodes demo_motd_def)
  have "alloc_contig (drop_bit 12 (n_cap (nodes demo_tree ! 2)) * 2) (pool demo_tree) = (0x01F6C000, snd (alloc_contig 2 demo_pool))"
    using demo_free2 unfolding c by (simp add: demo_tree_def drop_bit_eq_div)
  from node_reserve_wraps [OF demo_tree_ok _ _ _ this, where need = "0xFFFFFFFF"] show ?thesis by (simp add: c MAX_N_def)
qed

end
