(* ===== verification/Blockdev.thy ===== *)
theory Blockdev
  imports Sector_Device
begin

text \<open>
  Block devices (\<^verbatim>\<open>vnu/kernel/fs/blockdev.cpp\<close>): the table of drives and partitions and byte-granular
  transfers on them. The ATA driver below is the record \<open>ata\<close> of its calls over a state of the disks: a
  failed transfer is \<open>None\<close> for a read and \<open>False\<close> for a write. A read of this module that returns
  \<^verbatim>\<open>-1\<close> is \<open>None\<close>, otherwise the bytes it stored.
\<close>

section \<open>The table\<close>

definition MAX_DEVICES :: nat where "MAX_DEVICES = 12"
definition NAME_CAP :: nat where "NAME_CAP = 16"

record blkdev =
  b_whole :: bool
  b_drive :: u8
  b_lba :: u32
  b_sectors :: u32
  b_name :: string

record 'h ata =
  a_drive_count :: nat
  a_sectors :: "nat \<Rightarrow> u32"
  a_read :: "nat \<Rightarrow> u32 \<Rightarrow> u32 \<Rightarrow> 'h \<Rightarrow> u8 list option"
  a_write :: "nat \<Rightarrow> u32 \<Rightarrow> u8 list \<Rightarrow> 'h \<Rightarrow> bool \<times> 'h"

definition blk_copy_name :: "string \<Rightarrow> string" where
  "blk_copy_name s = take (NAME_CAP - 1) s"

definition le32 :: "u8 list \<Rightarrow> u32" where
  "le32 p = ucast (p ! 0) OR push_bit 8 (ucast (p ! 1)) OR push_bit 16 (ucast (p ! 2)) OR push_bit 24 (ucast (p ! 3))"

definition blk_add :: "bool \<Rightarrow> nat \<Rightarrow> u32 \<Rightarrow> u32 \<Rightarrow> string \<Rightarrow> blkdev list \<Rightarrow> blkdev list" where
  "blk_add whole drive lba sectors name devs =
     (if length devs \<ge> MAX_DEVICES then devs
      else devs @ [\<lparr>b_whole = whole, b_drive = of_nat drive, b_lba = lba, b_sectors = sectors, b_name = blk_copy_name name\<rparr>])"

function digits_rev :: "nat \<Rightarrow> string" where
  "digits_rev v = char_of (48 + v mod 10) # (if v div 10 = 0 then [] else digits_rev (v div 10))"
  by pat_completeness auto
termination
  by (relation "measure id") auto

definition part_name :: "string \<Rightarrow> nat \<Rightarrow> string" where
  "part_name name slot = take (NAME_CAP - 4) name @ rev (digits_rev (slot + 1))"

definition add_slot :: "nat \<Rightarrow> u32 \<Rightarrow> string \<Rightarrow> u8 list \<Rightarrow> nat \<Rightarrow> blkdev list \<Rightarrow> blkdev list" where
  "add_slot dr tot name mbr slot devs =
     (let e = drop (0x1BE + slot * 16) mbr; lba = le32 (drop 8 e); sectors = le32 (drop 12 e)
      in if e ! 4 = 0 \<or> sectors = 0 \<or> lba \<ge> tot then devs
         else blk_add False dr lba (if unat lba + unat sectors > unat tot then tot - lba else sectors) (part_name name slot) devs)"

definition add_drive :: "'h ata \<Rightarrow> 'h \<Rightarrow> nat \<Rightarrow> blkdev list \<Rightarrow> blkdev list" where
  "add_drive a h dr devs =
     (let tot = a_sectors a dr
      in if tot = 0 then devs
         else let name = [CHR ''h'', CHR ''d'', ''abcd'' ! (if dr < 4 then dr else 0)];
                  devs1 = blk_add True dr 0 tot name devs
              in case a_read a dr 0 1 h of
                   None \<Rightarrow> devs1
                 | Some mbr \<Rightarrow>
                     if mbr ! 510 \<noteq> 0x55 \<or> mbr ! 511 \<noteq> 0xAA then devs1
                     else fold (add_slot dr tot name mbr) [0..<4] devs1)"

definition blk_init :: "'h ata \<Rightarrow> 'h \<Rightarrow> blkdev list" where
  "blk_init a h = fold (add_drive a h) [0..<a_drive_count a] []"

definition blk_at :: "blkdev list \<Rightarrow> int \<Rightarrow> blkdev" where
  "blk_at devs idx =
     (if idx < 0 \<or> idx \<ge> int (length devs) then \<lparr>b_whole = False, b_drive = 0, b_lba = 0, b_sectors = 0, b_name = []\<rparr>
      else devs ! nat idx)"

definition blk_find :: "blkdev list \<Rightarrow> string \<Rightarrow> int" where
  "blk_find devs name =
     (case for_first 0 (length devs) (\<lambda>i. if b_name (devs ! i) = name then Some i else None) of None \<Rightarrow> -1 | Some i \<Rightarrow> int i)"

definition sector_count :: "blkdev list \<Rightarrow> int \<Rightarrow> u32" where
  "sector_count devs idx = (if idx < 0 \<or> idx \<ge> int (length devs) then 0 else b_sectors (devs ! nat idx))"

definition sector_size :: "blkdev list \<Rightarrow> int \<Rightarrow> u32" where
  "sector_size devs idx = (if sector_count devs idx \<noteq> 0 then sector_count devs idx * 512 else 0)"

section \<open>Transfers\<close>

text \<open>The request clipped to the device, as its byte count.\<close>

definition blk_clip :: "blkdev \<Rightarrow> u64 \<Rightarrow> u32 \<Rightarrow> u32" where
  "blk_clip d off len =
     (let tot = ucast (b_sectors d) * 512 :: u64 in if ucast len > tot - off then ucast (tot - off) else len)"

definition read_head :: "'h ata \<Rightarrow> nat \<Rightarrow> u32 \<Rightarrow> u32 \<Rightarrow> u32 \<Rightarrow> 'h \<Rightarrow> (u8 list \<times> u32 \<times> u32) option" where
  "read_head a drive lba bo len h =
     (if bo \<noteq> 0
      then case a_read a drive lba 1 h of
             None \<Rightarrow> None
           | Some s \<Rightarrow> let n = min (512 - bo) len in Some (take (unat n) (drop (unat bo) s), len - n, lba + 1)
      else Some ([], len, lba))"

definition read_body :: "'h ata \<Rightarrow> nat \<Rightarrow> u32 \<Rightarrow> u32 \<Rightarrow> 'h \<Rightarrow> (u8 list \<times> u32 \<times> u32) option" where
  "read_body a drive lba len h =
     (if len \<ge> 512
      then let ns = len div 512
           in case a_read a drive lba ns h of None \<Rightarrow> None | Some s \<Rightarrow> Some (s, len - ns * 512, lba + ns)
      else Some ([], len, lba))"

definition read_tail :: "'h ata \<Rightarrow> nat \<Rightarrow> u32 \<Rightarrow> u32 \<Rightarrow> 'h \<Rightarrow> u8 list option" where
  "read_tail a drive lba len h =
     (if len \<noteq> 0 then case a_read a drive lba 1 h of None \<Rightarrow> None | Some s \<Rightarrow> Some (take (unat len) s) else Some [])"

text \<open>
  \<^verbatim>\<open>read\<close> gives its return value and the bytes it has stored in the caller's buffer, which on an error
  are those of the parts that went through. The count \<^verbatim>\<open>done\<close> is a \<^verbatim>\<open>uint32_t\<close> returned as an \<^verbatim>\<open>int\<close>:
  from 2 GiB on the result is negative.
\<close>

definition blk_read :: "'h ata \<Rightarrow> blkdev list \<Rightarrow> int \<Rightarrow> u64 \<Rightarrow> u32 \<Rightarrow> 'h \<Rightarrow> int \<times> u8 list" where
  "blk_read a devs idx off len h =
     (if idx < 0 \<or> idx \<ge> int (length devs) then (-1, [])
      else let d = devs ! nat idx; c = blk_clip d off len
           in if off \<ge> ucast (b_sectors d) * 512 then (0, [])
              else case read_head a (unat (b_drive d)) (b_lba d + ucast (off div 512)) (ucast (off mod 512)) c h of
                None \<Rightarrow> (-1, [])
              | Some (o1, len1, lba1) \<Rightarrow>
                  (case read_body a (unat (b_drive d)) lba1 len1 h of
                     None \<Rightarrow> (-1, o1)
                   | Some (o2, len2, lba2) \<Rightarrow>
                       (case read_tail a (unat (b_drive d)) lba2 len2 h of
                          None \<Rightarrow> (-1, o1 @ o2)
                        | Some o3 \<Rightarrow> (sint ((c - len1) + (len1 - len2) + len2), o1 @ o2 @ o3))))"

definition patch_sector :: "nat \<Rightarrow> u8 list \<Rightarrow> u8 list \<Rightarrow> u8 list" where
  "patch_sector at bs s = take at s @ bs @ drop (at + length bs) s"

text \<open>A write goes through the same three parts; \<open>bs\<close> is what is left of the caller's buffer.\<close>

definition write_part :: "'h ata \<Rightarrow> nat \<Rightarrow> u32 \<Rightarrow> nat \<Rightarrow> u8 list \<Rightarrow> 'h \<Rightarrow> bool \<times> 'h" where
  "write_part a drive lba bo bs h =
     (case a_read a drive lba 1 h of None \<Rightarrow> (False, h) | Some s \<Rightarrow> a_write a drive lba (patch_sector bo bs s) h)"

definition write_head :: "'h ata \<Rightarrow> nat \<Rightarrow> u32 \<Rightarrow> u32 \<Rightarrow> u8 list \<Rightarrow> 'h \<Rightarrow> (u8 list \<times> u32) option \<times> 'h" where
  "write_head a drive lba bo bs h =
     (if bo \<noteq> 0
      then let n = min (512 - unat bo) (length bs); (ok, h1) = write_part a drive lba (unat bo) (take n bs) h
           in (if ok then Some (drop n bs, lba + 1) else None, h1)
      else (Some (bs, lba), h))"

definition write_body :: "'h ata \<Rightarrow> nat \<Rightarrow> u32 \<Rightarrow> u8 list \<Rightarrow> 'h \<Rightarrow> (u8 list \<times> u32) option \<times> 'h" where
  "write_body a drive lba bs h =
     (if length bs \<ge> 512
      then let ns = length bs div 512; (ok, h1) = a_write a drive lba (take (ns * 512) bs) h
           in (if ok then Some (drop (ns * 512) bs, lba + of_nat ns) else None, h1)
      else (Some (bs, lba), h))"

definition write_tail :: "'h ata \<Rightarrow> nat \<Rightarrow> u32 \<Rightarrow> u8 list \<Rightarrow> 'h \<Rightarrow> bool \<times> 'h" where
  "write_tail a drive lba bs h = (if bs \<noteq> [] then write_part a drive lba 0 bs h else (True, h))"

definition blk_write :: "'h ata \<Rightarrow> blkdev list \<Rightarrow> int \<Rightarrow> u64 \<Rightarrow> u8 list \<Rightarrow> 'h \<Rightarrow> int \<times> 'h" where
  "blk_write a devs idx off buf h =
     (if idx < 0 \<or> idx \<ge> int (length devs) then (-1, h)
      else let d = devs ! nat idx
           in if off \<ge> ucast (b_sectors d) * 512 then (0, h)
              else let bs = take (unat (blk_clip d off (of_nat (length buf)))) buf
                   in case write_head a (unat (b_drive d)) (b_lba d + ucast (off div 512)) (ucast (off mod 512)) bs h of
                     (None, h1) \<Rightarrow> (-1, h1)
                   | (Some (bs1, lba1), h1) \<Rightarrow>
                       (case write_body a (unat (b_drive d)) lba1 bs1 h1 of
                          (None, h2) \<Rightarrow> (-1, h2)
                        | (Some (bs2, lba2), h2) \<Rightarrow>
                            (case write_tail a (unat (b_drive d)) lba2 bs2 h2 of
                               (False, h3) \<Rightarrow> (-1, h3)
                             | (True, h3) \<Rightarrow> (sint (of_nat (length bs) :: u32), h3))))"

text \<open>
  The sector callbacks for the FAT16 library. Both succeed on a transfer clipped at the end of the
  device: a read then stores fewer bytes than a sector.
\<close>

definition fat16_device :: "'h ata \<Rightarrow> blkdev list \<Rightarrow> int \<Rightarrow> 'h device" where
  "fat16_device a devs idx =
     \<lparr>d_read = (\<lambda>lba h. let (r, bs) = blk_read a devs idx (of_nat lba * 512) 512 h in if r < 0 then None else Some bs),
      d_write = (\<lambda>lba bs h. let (r, h1) = blk_write a devs idx (of_nat lba * 512) bs h in (\<not> r < 0, h1)),
      d_flush = (\<lambda>h. h)\<rparr>"

end
