(* ===== verification/Clipboard.thy ===== *)
theory Clipboard
  imports Prelude
begin

text \<open>The system clipboard behind \<^verbatim>\<open>/dev/clipboard\<close> (\<^verbatim>\<open>vnu/kernel/kernel/clipboard.cpp\<close>): one buffer of
  \<open>CLIP_CAP\<close> bytes and its length.\<close>

definition CLIP_CAP :: u32 where "CLIP_CAP = 64 * 1024"

record clip =
  g_buf :: "u8 list"
  g_len :: u32

definition clip_clear :: "clip \<Rightarrow> clip" where
  "clip_clear c = c\<lparr>g_len := 0\<rparr>"

definition clip_read_at :: "u32 \<Rightarrow> u32 \<Rightarrow> clip \<Rightarrow> u8 list" where
  "clip_read_at pos count c =
     (if pos \<ge> g_len c then []
      else let avail = g_len c - pos; n = (if count < avail then count else avail)
           in map (\<lambda>i. g_buf c ! unat (pos + of_nat i)) [0..<unat n])"

definition clip_append :: "u8 list \<Rightarrow> clip \<Rightarrow> nat \<times> clip" where
  "clip_append bs c =
     (if bs = [] \<or> g_len c \<ge> CLIP_CAP then (0, c)
      else let room = CLIP_CAP - g_len c;
               n = (if length bs > unat room then unat room else length bs)
           in (n, c\<lparr>g_buf := fold (\<lambda>i b. b[unat (g_len c) + i := bs ! i]) [0..<n] (g_buf c), g_len := g_len c + of_nat n\<rparr>))"

end
