(* ===== verification/Vfs.thy ===== *)
theory Vfs
  imports Vfs_Nodes Fat_Volume Blockdev Clipboard
begin

text \<open>
  The file system calls of \<^verbatim>\<open>vnu/kernel/fs/vfs.cpp\<close> (\<^verbatim>\<open>vnu::vfs\<close>): the descriptor table, mounted volumes and
  the path calls. The state has the in-memory tree, the descriptors, the working directory, the mount
  table, the block device table and the clipboard. All disks share one state, \<open>v_disk\<close>: a call on a mount
  runs the FAT16 library over it through the mount's block device. The record \<open>env_ops\<close> holds what this
  module calls outside these: the ATA driver, the display (over an environment state) and the texts of
  \<^verbatim>\<open>/proc\<close>.
\<close>

section \<open>State\<close>

definition VFS_MAX_FD :: nat where "VFS_MAX_FD = 64"
definition MAX_MOUNTS :: nat where "MAX_MOUNTS = 8"

definition O_WRONLY :: u32 where "O_WRONLY = 1"
definition O_RDWR :: u32 where "O_RDWR = 2"
definition O_CREAT :: u32 where "O_CREAT = 0x40"
definition O_TRUNC :: u32 where "O_TRUNC = 0x200"
definition O_APPEND :: u32 where "O_APPEND = 0x400"

definition VNU_EFAULT :: int where "VNU_EFAULT = 14"
definition VNU_ENODEV :: int where "VNU_ENODEV = 19"

record vfile =
  vf_used :: bool
  vf_position :: u32
  vf_flags :: u32
  vf_node :: int
  vf_owner :: u32
  vf_mount :: nat
  vf_dir_clu :: nat
  vf_fsize :: u32
  vf_fname :: string

definition no_file :: vfile where
  "no_file = \<lparr>vf_used = False, vf_position = 0, vf_flags = 0, vf_node = -1, vf_owner = 0, vf_mount = 0,
     vf_dir_clu = 0, vf_fsize = 0, vf_fname = []\<rparr>"

record 'd vmount =
  m_used :: bool
  m_path :: string
  m_subdir :: string
  m_blk :: int
  m_fs :: "'d fs"

record ('d, 'e) vfs =
  v_tree :: tree
  v_files :: "vfile list"
  v_cwd :: string
  v_mounts :: "'d vmount list"
  v_devs :: "blkdev list"
  v_disk :: 'd
  v_clip :: clip
  v_env :: 'e
  g_rand_state :: u32

datatype fb_prep = PrepRefused | PrepShared | PrepTookMode

record ('d, 'e) env_ops =
  eo_ata :: "'d ata"
  eo_synth :: "synth_kind \<Rightarrow> caller \<Rightarrow> ('d, 'e) vfs \<Rightarrow> u8 list"
  eo_fb_ensure_frame :: "'e \<Rightarrow> fb_prep \<times> 'e"
  eo_fb_map_for :: "caller \<Rightarrow> 'e \<Rightarrow> bool \<times> 'e"
  eo_fb_undo_open :: "fb_prep \<Rightarrow> 'e \<Rightarrow> 'e"
  eo_fb_release :: "'e \<Rightarrow> 'e"
  eo_fb_info :: "caller \<Rightarrow> 'e \<Rightarrow> u8 list option \<times> 'e"
  eo_fb_available :: "'e \<Rightarrow> bool"
  eo_fb_present :: "'e \<Rightarrow> 'e"
  eo_fb_write_pixels :: "u32 \<Rightarrow> u8 list \<Rightarrow> 'e \<Rightarrow> int \<times> 'e"
  eo_fb_frame_bytes :: "'e \<Rightarrow> u32"

definition set_file :: "nat \<Rightarrow> vfile \<Rightarrow> ('d, 'e) vfs \<Rightarrow> ('d, 'e) vfs" where
  "set_file i f v = v\<lparr>v_files := (v_files v)[i := f]\<rparr>"

definition file_of :: "int \<Rightarrow> ('d, 'e) vfs \<Rightarrow> vfile option" where
  "file_of fd v =
     (if fd < 0 \<or> fd \<ge> int VFS_MAX_FD \<or> \<not> vf_used (v_files v ! nat fd) then None else Some (v_files v ! nat fd))"

definition node_at :: "vfile \<Rightarrow> ('d, 'e) vfs \<Rightarrow> node" where
  "node_at f v = nodes (v_tree v) ! nat (vf_node f)"

definition cur_pid :: "caller \<Rightarrow> u32" where
  "cur_pid cur = (case cur of None \<Rightarrow> 0 | Some p \<Rightarrow> p_pid p)"

definition bytes_of :: "string \<Rightarrow> u8 list" where
  "bytes_of s = map (\<lambda>c. of_nat (of_char c)) s"

section \<open>Mounted volumes\<close>

text \<open>The mount that covers a path: the one with the longest mount point, the last of equals.\<close>

definition mount_for :: "string \<Rightarrow> ('d, 'e) vfs \<Rightarrow> (nat \<times> string) option" where
  "mount_for p v =
     (case fold (\<lambda>i best.
             if m_used (v_mounts v ! i) \<and> prefix_at p (m_path (v_mounts v ! i)) \<and>
                (case best of None \<Rightarrow> True | Some j \<Rightarrow> length (m_path (v_mounts v ! j)) \<le> length (m_path (v_mounts v ! i)))
             then Some i else best) [0..<MAX_MOUNTS] None of
        None \<Rightarrow> None
      | Some k \<Rightarrow>
          let r = drop (length (m_path (v_mounts v ! k))) p
          in Some (k, if r \<noteq> [] \<and> hd r = CHR ''/'' then tl r else r))"

definition on_mount :: "nat \<Rightarrow> ('d fs \<Rightarrow> 'a \<times> 'd fs) \<Rightarrow> ('d, 'e) vfs \<Rightarrow> 'a \<times> ('d, 'e) vfs" where
  "on_mount k f v =
     (let m = v_mounts v ! k; (r, fs') = f ((m_fs m)\<lparr>f_ctx := v_disk v\<rparr>)
      in (r, v\<lparr>v_disk := f_ctx fs', v_mounts := (v_mounts v)[k := m\<lparr>m_fs := fs'\<rparr>]\<rparr>))"

definition mount_resolve :: "string \<Rightarrow> string \<Rightarrow> ('d, nat \<times> nat \<times> u8) fsm" where
  "mount_resolve subdir rel = fat_resolve (bytes_of (mount_vol_path subdir rel 128))"

definition mount_dir_cluster :: "string \<Rightarrow> string \<Rightarrow> ('d, nat) fsm" where
  "mount_dir_cluster subdir rel =
     (if mount_vol_path subdir rel 128 = [] then fs_ret 0
      else fs_bind (mount_resolve subdir rel) (\<lambda>(c, sz, attr). if attr AND ATTR_DIR = 0 then fs_fail else fs_ret c))"

text \<open>
  The path calls on a mount: look the path up, then its directory, then act there. The answer is the
  code the call returns, or \<open>Inr\<close> with what it goes on with.
\<close>

definition is_dir_attr :: "u8 \<Rightarrow> bool" where
  "is_dir_attr attr \<longleftrightarrow> attr AND ATTR_DIR \<noteq> 0"

definition open_look :: "string \<Rightarrow> string \<Rightarrow> bool \<Rightarrow> 'd fs \<Rightarrow> (int + bool \<times> nat \<times> nat \<times> string) \<times> 'd fs" where
  "open_look subdir rel creat fs =
     (if rel = []
      then (case mount_dir_cluster subdir [] fs of
              (None, fs1) \<Rightarrow> (Inl (- VNU_ENOENT), fs1)
            | (Some c, fs1) \<Rightarrow> (Inr (True, c, 0, []), fs1))
      else let (parent, leaf) = split_parent rel PATH_CAP
           in case mount_resolve subdir rel fs of
             (Some (clu, sz, attr), fs1) \<Rightarrow>
               if is_dir_attr attr then (Inr (True, clu, sz, []), fs1)
               else (case mount_dir_cluster subdir parent fs1 of
                       (None, fs2) \<Rightarrow> (Inl (- VNU_ENOENT), fs2)
                     | (Some dc, fs2) \<Rightarrow> (Inr (False, dc, sz, copy_str leaf 64), fs2))
           | (None, fs1) \<Rightarrow>
               if \<not> creat then (Inl (- VNU_ENOENT), fs1)
               else if leaf = [] then (Inl (- VNU_EINVAL), fs1)
               else (case mount_dir_cluster subdir parent fs1 of
                       (None, fs2) \<Rightarrow> (Inl (- VNU_ENOENT), fs2)
                     | (Some dc, fs2) \<Rightarrow>
                         (case fat_create dc (bytes_of leaf) fs2 of
                            (None, fs3) \<Rightarrow> (Inl (- VNU_EIO), fs3)
                          | (Some _, fs3) \<Rightarrow> (Inr (False, dc, 0, copy_str leaf 64), fs3))))"

definition free_fd :: "('d, 'e) vfs \<Rightarrow> nat option" where
  "free_fd v = for_first 3 VFS_MAX_FD (\<lambda>i. if \<not> vf_used (v_files v ! i) then Some i else None)"

definition open_mount :: "caller \<Rightarrow> nat \<Rightarrow> string \<Rightarrow> u32 \<Rightarrow> ('d, 'e) vfs \<Rightarrow> int \<times> ('d, 'e) vfs" where
  "open_mount cur k rel flags v =
     (case on_mount k (open_look (m_subdir (v_mounts v ! k)) rel (flags AND O_CREAT \<noteq> 0)) v of
        (Inl e, v1) \<Rightarrow> (e, v1)
      | (Inr (is_dir, dir_clu, sz, name), v1) \<Rightarrow>
          if is_dir \<and> flags AND 3 = O_WRONLY then (- VNU_EISDIR, v1)
          else case free_fd v1 of
            None \<Rightarrow> (- VNU_ENOSPC, v1)
          | Some i \<Rightarrow>
              let f = no_file\<lparr>vf_used := True, vf_flags := flags, vf_owner := cur_pid cur, vf_mount := k + 1,
                        vf_dir_clu := dir_clu, vf_fsize := (if is_dir then 0 else of_nat sz), vf_fname := name\<rparr>;
                  v2 = set_file i f v1
              in if \<not> is_dir \<and> flags AND O_TRUNC \<noteq> 0 \<and> sz \<noteq> 0
                 then (case on_mount k (fat_truncate dir_clu (bytes_of name) 0) v2 of
                         (None, v3) \<Rightarrow> (- VNU_EIO, v3)
                       | (Some _, v3) \<Rightarrow> (int i, set_file i (f\<lparr>vf_fsize := 0\<rparr>) v3))
                 else (int i, v2))"

section \<open>Opening and closing\<close>

definition upd_tree :: "(tree \<Rightarrow> tree) \<Rightarrow> ('d, 'e) vfs \<Rightarrow> ('d, 'e) vfs" where
  "upd_tree f v = v\<lparr>v_tree := f (v_tree v)\<rparr>"

definition regen_synth :: "('d, 'e) env_ops \<Rightarrow> caller \<Rightarrow> nat \<Rightarrow> ('d, 'e) vfs \<Rightarrow> ('d, 'e) vfs" where
  "regen_synth eo cur i v =
     (let txt = eo_synth eo (n_synth (nodes (v_tree v) ! i)) cur v
      in upd_tree (\<lambda>t. node_set i txt (set_node i ((nodes t ! i)\<lparr>n_size := of_nat (length txt)\<rparr>) t)) v)"

definition refresh :: "('d, 'e) env_ops \<Rightarrow> caller \<Rightarrow> nat \<Rightarrow> ('d, 'e) vfs \<Rightarrow> ('d, 'e) vfs" where
  "refresh eo cur i v = (if n_synth (nodes (v_tree v) ! i) \<noteq> SynNone then regen_synth eo cur i v else v)"

definition fb_open :: "('d, 'e) env_ops \<Rightarrow> caller \<Rightarrow> ('d, 'e) vfs \<Rightarrow> bool \<times> ('d, 'e) vfs" where
  "fb_open eo cur v =
     (let (prep, e1) = eo_fb_ensure_frame eo (v_env v)
      in if prep = PrepRefused then (False, v\<lparr>v_env := e1\<rparr>)
         else let (mapped, e2) = eo_fb_map_for eo cur e1
              in if mapped then (True, v\<lparr>v_env := e2\<rparr>) else (False, v\<lparr>v_env := eo_fb_undo_open eo prep e2\<rparr>))"

definition open_access :: "u32 \<Rightarrow> u16" where
  "open_access flags = (if flags AND 3 = 1 then A_W else if flags AND 3 = 2 then A_R OR A_W else A_R)"

definition install_fd :: "caller \<Rightarrow> nat \<Rightarrow> u32 \<Rightarrow> ('d, 'e) vfs \<Rightarrow> int \<times> ('d, 'e) vfs" where
  "install_fd cur ni flags v =
     (case free_fd v of
        None \<Rightarrow> (- VNU_ENOSPC, v)
      | Some i \<Rightarrow>
          let n = nodes (v_tree v) ! ni;
              v1 = set_file i (no_file\<lparr>vf_used := True, vf_flags := flags, vf_node := int ni, vf_owner := cur_pid cur\<rparr>) v
          in (int i,
              if flags AND O_TRUNC \<noteq> 0 \<and> \<not> n_dir n \<and> n_dev n = DevNone \<and> n_synth n = SynNone
              then upd_tree (set_node ni (n\<lparr>n_size := 0\<rparr>)) v1 else v1))"

definition open_node :: "('d, 'e) env_ops \<Rightarrow> caller \<Rightarrow> nat \<Rightarrow> u32 \<Rightarrow> ('d, 'e) vfs \<Rightarrow> int \<times> ('d, 'e) vfs" where
  "open_node eo cur ni flags v =
     (let n = nodes (v_tree v) ! ni
      in if n_dir n \<and> flags AND O_WRONLY \<noteq> 0 then (- VNU_EACCES, v)
         else if \<not> have_access cur n (open_access flags) then (- VNU_EACCES, v)
         else let v1 = refresh eo cur ni v;
                  (ok, v2) = (if n_dev n = DevFramebuffer then fb_open eo cur v1 else (True, v1))
              in if \<not> ok then (- VNU_ENODEV, v2)
                 else install_fd cur ni flags
                        (if n_dev n = DevClipboard \<and> flags AND 3 \<noteq> 0 then v2\<lparr>v_clip := clip_clear (v_clip v2)\<rparr> else v2))"

definition vfs_open :: "('d, 'e) env_ops \<Rightarrow> caller \<Rightarrow> string \<Rightarrow> u32 \<Rightarrow> ('d, 'e) vfs \<Rightarrow> int \<times> ('d, 'e) vfs" where
  "vfs_open eo cur path flags v =
     (let p = normalize (v_cwd v) path PATH_CAP
      in case mount_for p v of
           Some (k, rel) \<Rightarrow> open_mount cur k rel flags v
         | None \<Rightarrow>
             (case find_index p (v_tree v) of
                Some ni \<Rightarrow> open_node eo cur ni flags v
              | None \<Rightarrow>
                  if flags AND O_CREAT = 0 then (- VNU_ENOENT, v)
                  else case parent_dir p (v_tree v) of
                    None \<Rightarrow> (- VNU_ENOENT, v)
                  | Some par \<Rightarrow>
                      if \<not> have_access cur (nodes (v_tree v) ! par) A_W then (- VNU_EACCES, v)
                      else case add_node p False cur (v_tree v) of
                        (None, t1) \<Rightarrow> (- VNU_ENOSPC, v\<lparr>v_tree := t1\<rparr>)
                      | (Some ni, t1) \<Rightarrow> open_node eo cur ni flags (v\<lparr>v_tree := t1\<rparr>)))"

definition is_fb_file :: "('d, 'e) vfs \<Rightarrow> vfile \<Rightarrow> bool" where
  "is_fb_file v f \<longleftrightarrow> vf_node f \<ge> 0 \<and> n_dev (node_at f v) = DevFramebuffer"

definition vfs_close :: "('d, 'e) env_ops \<Rightarrow> int \<Rightarrow> ('d, 'e) vfs \<Rightarrow> int \<times> ('d, 'e) vfs" where
  "vfs_close eo fd v =
     (if fd < 3 \<or> fd \<ge> int VFS_MAX_FD \<or> \<not> vf_used (v_files v ! nat fd) then (- VNU_EBADF, v)
      else let was_fb = is_fb_file v (v_files v ! nat fd);
               v1 = set_file (nat fd) no_file v;
               held_fb = (\<exists>i \<in> set [3..<VFS_MAX_FD]. vf_used (v_files v1 ! i) \<and> is_fb_file v1 (v_files v1 ! i))
           in (0, if was_fb \<and> \<not> held_fb then v1\<lparr>v_env := eo_fb_release eo (v_env v1)\<rparr> else v1))"

definition reset_stdio :: "('d, 'e) vfs \<Rightarrow> ('d, 'e) vfs" where
  "reset_stdio v = fold (\<lambda>i. set_file i (no_file\<lparr>vf_used := True\<rparr>)) [0..<3] v"

definition vfs_close_all_of :: "('d, 'e) env_ops \<Rightarrow> u32 \<Rightarrow> ('d, 'e) vfs \<Rightarrow> ('d, 'e) vfs" where
  "vfs_close_all_of eo pid v =
     (let v1 = fold (\<lambda>i v. if vf_used (v_files v ! i) \<and> vf_owner (v_files v ! i) = pid then snd (vfs_close eo (int i) v) else v)
                 [3..<VFS_MAX_FD] v;
          redirected = (\<exists>i \<in> set [0..<3]. vf_used (v_files v1 ! i) \<and> vf_owner (v_files v1 ! i) = pid \<and>
             (vf_node (v_files v1 ! i) \<ge> 0 \<or> vf_mount (v_files v1 ! i) \<noteq> 0))
      in if redirected then reset_stdio v1 else v1)"

definition fd_is_redirected :: "int \<Rightarrow> ('d, 'e) vfs \<Rightarrow> bool" where
  "fd_is_redirected fd v \<longleftrightarrow> \<not> (fd < 0 \<or> fd > 2 \<or> \<not> vf_used (v_files v ! nat fd)) \<and>
     (vf_node (v_files v ! nat fd) \<ge> 0 \<or> vf_mount (v_files v ! nat fd) \<noteq> 0)"

definition fd_dev_kind :: "int \<Rightarrow> ('d, 'e) vfs \<Rightarrow> dev_kind" where
  "fd_dev_kind fd v =
     (if fd < 3 \<or> fd \<ge> int VFS_MAX_FD \<or> \<not> vf_used (v_files v ! nat fd) then DevNone
      else if vf_node (v_files v ! nat fd) < 0 then DevNone
      else n_dev (node_at (v_files v ! nat fd) v))"

definition vfs_dup_fd :: "caller \<Rightarrow> int \<Rightarrow> ('d, 'e) vfs \<Rightarrow> int \<times> ('d, 'e) vfs" where
  "vfs_dup_fd cur fd v =
     (case file_of fd v of
        None \<Rightarrow> (- VNU_EBADF, v)
      | Some f \<Rightarrow>
          (case free_fd v of
             None \<Rightarrow> (- VNU_ENOSPC, v)
           | Some i \<Rightarrow> (int i, set_file i (f\<lparr>vf_owner := cur_pid cur\<rparr>) v)))"

definition vfs_dup2_fd :: "caller \<Rightarrow> int \<Rightarrow> int \<Rightarrow> ('d, 'e) vfs \<Rightarrow> int \<times> ('d, 'e) vfs" where
  "vfs_dup2_fd cur oldfd newfd v =
     (case file_of oldfd v of
        None \<Rightarrow> (- VNU_EBADF, v)
      | Some f \<Rightarrow>
          if newfd < 0 \<or> newfd \<ge> int VFS_MAX_FD then (- VNU_EBADF, v)
          else if oldfd = newfd then (newfd, v)
          else (newfd, set_file (nat newfd) (f\<lparr>vf_owner := cur_pid cur\<rparr>) v))"

end
