(* ===== verification/Vfs_Calls.thy ===== *)
theory Vfs_Calls
  imports Vfs
begin

text \<open>
  The calls of \<^verbatim>\<open>vnu/kernel/fs/vfs.cpp\<close> on descriptors and paths, with the host name (\<^verbatim>\<open>vnu/kernel/host/host.cpp\<close>)
  that \<^verbatim>\<open>/proc/sys/kernel\<close> writes through. A call answers what the C function returns; one that fills a
  caller's buffer answers the bytes it stored as well. A C \<^verbatim>\<open>int\<close> made from a 32-bit count is \<open>sint\<close> of it.
\<close>

definition S_IFMT :: u32 where "S_IFMT = 0xF000"
definition S_IFCHR :: u32 where "S_IFCHR = 0x2000"
definition S_IFDIR :: u32 where "S_IFDIR = 0x4000"
definition S_IFBLK :: u32 where "S_IFBLK = 0x6000"
definition S_IFREG :: u32 where "S_IFREG = 0x8000"

definition FB_INFO_SIZE :: u32 where "FB_INFO_SIZE = 24"
definition HOST_MAX :: nat where "HOST_MAX = 64"

section \<open>Reading\<close>

definition next_random_byte :: "u32 \<Rightarrow> u8 \<times> u32" where
  "next_random_byte s0 =
     (let s1 = s0 XOR push_bit 13 s0; s2 = s1 XOR drop_bit 17 s1; s3 = s2 XOR push_bit 5 s2 in (ucast s3, s3))"

primrec random_bytes :: "nat \<Rightarrow> u32 \<Rightarrow> u8 list \<times> u32" where
  "random_bytes 0 s = ([], s)"
| "random_bytes (Suc n) s = (let (b, s1) = next_random_byte s; (bs, s2) = random_bytes n s1 in (b # bs, s2))"

definition advance :: "nat \<Rightarrow> u32 \<Rightarrow> ('d, 'e) vfs \<Rightarrow> ('d, 'e) vfs" where
  "advance fd n v = set_file fd ((v_files v ! fd)\<lparr>vf_position := vf_position (v_files v ! fd) + n\<rparr>) v"

definition read_dev :: "('d, 'e) env_ops \<Rightarrow> caller \<Rightarrow> node \<Rightarrow> nat \<Rightarrow> u32 \<Rightarrow> ('d, 'e) vfs \<Rightarrow> int \<times> u8 list \<times> ('d, 'e) vfs" where
  "read_dev eo cur n fd count v =
     (let pos = vf_position (v_files v ! fd)
      in case n_dev n of
        DevNull \<Rightarrow> (0, [], v)
      | DevZero \<Rightarrow> (sint count, replicate (unat count) 0, v)
      | DevFull \<Rightarrow> (sint count, replicate (unat count) 0, v)
      | DevRandom \<Rightarrow> let (bs, s) = random_bytes (unat count) (g_rand_state v) in (sint count, bs, v\<lparr>g_rand_state := s\<rparr>)
      | DevFramebuffer \<Rightarrow>
          if count < FB_INFO_SIZE then (- VNU_EINVAL, [], v)
          else let (r, e1) = eo_fb_info eo cur (v_env v)
               in (case r of None \<Rightarrow> (- VNU_ENODEV, [], v\<lparr>v_env := e1\<rparr>) | Some bs \<Rightarrow> (sint FB_INFO_SIZE, bs, v\<lparr>v_env := e1\<rparr>))
      | DevClipboard \<Rightarrow> let bs = clip_read_at pos count (v_clip v) in (int (length bs), bs, advance fd (of_nat (length bs)) v)
      | DevBlock \<Rightarrow>
          let (r, bs) = blk_read (eo_ata eo) (v_devs v) (n_blk n) (ucast pos) count (v_disk v)
          in if r < 0 then (- VNU_EIO, bs, v) else (r, bs, advance fd (of_int r) v)
      | _ \<Rightarrow> (- VNU_EIO, [], v))"

definition read_node :: "node \<Rightarrow> nat \<Rightarrow> u32 \<Rightarrow> ('d, 'e) vfs \<Rightarrow> int \<times> u8 list \<times> ('d, 'e) vfs" where
  "read_node n fd count v =
     (let pos = vf_position (v_files v ! fd);
          avail = (if n_size n > pos then n_size n - pos else 0);
          tk = (if avail < count then avail else count)
      in (sint tk, if n_buf n \<noteq> 0 then get_ram (n_buf n + pos) (unat tk) (ram (pool (v_tree v))) else [], advance fd tk v))"

definition vfs_read :: "('d, 'e) env_ops \<Rightarrow> caller \<Rightarrow> int \<Rightarrow> u32 \<Rightarrow> ('d, 'e) vfs \<Rightarrow> int \<times> u8 list \<times> ('d, 'e) vfs" where
  "vfs_read eo cur fd count v =
     (case file_of fd v of
        None \<Rightarrow> (- VNU_EBADF, [], v)
      | Some f \<Rightarrow>
          if vf_mount f \<noteq> 0
          then if vf_fname f = [] then (- VNU_EISDIR, [], v)
               else (case on_mount (vf_mount f - 1) (fat_read (vf_dir_clu f) (bytes_of (vf_fname f)) (unat (vf_position f)) (unat count)) v of
                       (None, v1) \<Rightarrow> (- VNU_EIO, [], v1)
                     | (Some bs, v1) \<Rightarrow> (sint (of_nat (length bs) :: u32), bs, advance (nat fd) (of_nat (length bs)) v1))
          else if vf_node f < 0 then (- VNU_EBADF, [], v)
          else let n = node_at f v
               in if \<not> n_used n then (- VNU_EBADF, [], v)
                  else if n_dir n then (- VNU_EISDIR, [], v)
                  else if \<not> have_access cur n A_R then (- VNU_EACCES, [], v)
                  else if n_dev n \<noteq> DevNone then read_dev eo cur n (nat fd) count v
                  else read_node n (nat fd) count v)"

section \<open>Content by path\<close>

text \<open>\<^verbatim>\<open>read_path\<close> and \<^verbatim>\<open>set_path\<close>: whole-file access by path, without a descriptor.\<close>

definition vfs_read_path :: "string \<Rightarrow> u32 \<Rightarrow> ('d, 'e) vfs \<Rightarrow> int \<times> u8 list \<times> ('d, 'e) vfs" where
  "vfs_read_path path count v =
     (let p = normalize (v_cwd v) path PATH_CAP
      in case mount_for p v of
           Some (k, rel) \<Rightarrow>
             let (parent, leaf) = split_parent rel PATH_CAP; subdir = m_subdir (v_mounts v ! k)
             in if leaf = [] then (- VNU_ENOENT, [], v)
                else (case on_mount k (fs_bind (mount_dir_cluster subdir parent) (\<lambda>dc. fat_read dc (bytes_of leaf) 0 (unat count))) v of
                        (None, v1) \<Rightarrow> (- VNU_ENOENT, [], v1)
                      | (Some bs, v1) \<Rightarrow> (sint (of_nat (length bs) :: u32), bs, v1))
         | None \<Rightarrow>
             (case find_index p (v_tree v) of
                None \<Rightarrow> (- VNU_ENOENT, [], v)
              | Some i \<Rightarrow>
                  let n = nodes (v_tree v) ! i; z = (if n_size n < count then n_size n else count)
                  in if n_dir n then (- VNU_ENOENT, [], v)
                     else (sint z, if n_buf n \<noteq> 0 then get_ram (n_buf n) (unat z) (ram (pool (v_tree v))) else [], v)))"

definition set_mounted :: "string \<Rightarrow> string \<Rightarrow> nat \<Rightarrow> string \<Rightarrow> u8 list \<Rightarrow> ('d, unit) fsm" where
  "set_mounted subdir rel dc leaf data =
     fs_then (\<lambda>fs. case mount_resolve subdir rel fs of
                (Some _, fs1) \<Rightarrow> (Some (), fs1) | (None, fs1) \<Rightarrow> fat_create dc (bytes_of leaf) fs1)
       (fs_then (fat_truncate dc (bytes_of leaf) 0)
         (if data = [] then fs_ret ()
          else fs_bind (fat_write dc (bytes_of leaf) 0 data) (\<lambda>got. if got = length data then fs_ret () else fs_fail)))"

definition vfs_set_path :: "caller \<Rightarrow> string \<Rightarrow> u8 list \<Rightarrow> ('d, 'e) vfs \<Rightarrow> int \<times> ('d, 'e) vfs" where
  "vfs_set_path cur path data v =
     (let p = normalize (v_cwd v) path PATH_CAP
      in case mount_for p v of
           Some (k, rel) \<Rightarrow>
             let (parent, leaf) = split_parent rel PATH_CAP; subdir = m_subdir (v_mounts v ! k)
             in if leaf = [] then (- VNU_ENOENT, v)
                else (case on_mount k (mount_dir_cluster subdir parent) v of
                        (None, v1) \<Rightarrow> (- VNU_ENOENT, v1)
                      | (Some dc, v1) \<Rightarrow>
                          (case on_mount k (set_mounted subdir rel dc leaf data) v1 of
                             (None, v2) \<Rightarrow> (- VNU_EIO, v2) | (Some _, v2) \<Rightarrow> (0, v2)))
         | None \<Rightarrow>
             (case find_index p (v_tree v) of
                None \<Rightarrow> (- VNU_ENOENT, v)
              | Some i \<Rightarrow>
                  let n = nodes (v_tree v) ! i
                  in if n_dir n then (- VNU_ENOENT, v)
                     else if n_synth n \<noteq> SynNone then (- VNU_EACCES, v)
                     else if \<not> have_access cur n A_W then (- VNU_EACCES, v)
                     else (0, upd_tree (node_set i data) v)))"

section \<open>The host name\<close>

definition is_alnum :: "char \<Rightarrow> bool" where
  "is_alnum c \<longleftrightarrow> (let n = of_char c :: nat in 97 \<le> n \<and> n \<le> 122 \<or> 65 \<le> n \<and> n \<le> 90 \<or> 48 \<le> n \<and> n \<le> 57)"

definition is_mid :: "char \<Rightarrow> bool" where
  "is_mid c \<longleftrightarrow> is_alnum c \<or> c = CHR ''-'' \<or> c = CHR ''_'' \<or> c = CHR ''.''"

definition host_valid :: "string \<Rightarrow> bool" where
  "host_valid s \<longleftrightarrow> list_all (\<lambda>n. n < HOST_MAX - 1 \<and> is_mid (s ! n) \<and> (n = 0 \<longrightarrow> is_alnum (s ! n))) [0..<length s] \<and>
     s \<noteq> [] \<and> is_alnum (s ! (length s - 1))"

text \<open>\<^verbatim>\<open>host::set\<close> and \<^verbatim>\<open>host::set_domain\<close> differ in the file they write.\<close>

definition host_file :: "bool \<Rightarrow> string" where
  "host_file as_host = (if as_host then ''/etc/hostname'' else ''/etc/domainname'')"

definition host_set :: "bool \<Rightarrow> caller \<Rightarrow> string \<Rightarrow> ('d, 'e) vfs \<Rightarrow> bool \<times> ('d, 'e) vfs" where
  "host_set as_host cur s v =
     (if \<not> host_valid s then (False, v)
      else let (r, v1) = vfs_set_path cur (host_file as_host) (bytes_of (take (HOST_MAX - 2) s) @ [10]) v in (r = 0, v1))"

text \<open>
  \<^verbatim>\<open>trim\<close>. Its loop that is to move the name over leading blanks, \<^verbatim>\<open>while (p[i]) ++s[i] = p[i];\<close>, never
  changes \<^verbatim>\<open>i\<close>: \<open>trim_shift\<close> is one buffer \<^verbatim>\<open>s\<close> with \<^verbatim>\<open>p = s + k\<close>, and runs for ever unless \<^verbatim>\<open>p[0]\<close> is the terminator.
\<close>

partial_function (option) trim_shift :: "nat \<Rightarrow> u8 list \<Rightarrow> u8 list option" where
  "trim_shift k s = (if s ! k = 0 then Some s else trim_shift k (s[0 := s ! k]))"

definition u8_mid :: "u8 \<Rightarrow> bool" where
  "u8_mid b \<longleftrightarrow> is_mid (char_of (unat b))"

definition host_trim :: "u8 list \<Rightarrow> u8 list option" where
  "host_trim s =
     (let k = length (takeWhile (\<lambda>b. b = 32 \<or> b = 9) s)
      in case (if k \<noteq> 0 then trim_shift k s else Some s) of None \<Rightarrow> None | Some s1 \<Rightarrow> Some (takeWhile u8_mid s1))"

text \<open>\<^verbatim>\<open>name\<close> and \<^verbatim>\<open>domain\<close>: the file's first word, or the default; \<open>None\<close> is a call that does not return.\<close>

definition host_name :: "bool \<Rightarrow> ('d, 'e) vfs \<Rightarrow> u8 list option \<times> ('d, 'e) vfs" where
  "host_name as_host v =
     (let (got, bs, v1) = vfs_read_path (host_file as_host) (of_nat (HOST_MAX - 1)) v
      in (map_option (\<lambda>s. let g = take (HOST_MAX - 1) s
                          in if g = [] then bytes_of (if as_host then ''vnu'' else ''(none)'') else g)
            (host_trim (bs @ [0])), v1))"

section \<open>Writing\<close>

definition blank_end :: "u8 \<Rightarrow> bool" where
  "blank_end b \<longleftrightarrow> b = 10 \<or> b = 13 \<or> b = 32 \<or> b = 9"

definition set_sysctl_name :: "caller \<Rightarrow> u8 list \<Rightarrow> bool \<Rightarrow> ('d, 'e) vfs \<Rightarrow> int \<times> ('d, 'e) vfs" where
  "set_sysctl_name cur bs as_host v =
     (if bs = [] \<or> length bs \<ge> HOST_MAX then (- VNU_EINVAL, v)
      else let val = rev (dropWhile blank_end (rev bs))
           in if val = [] then (- VNU_EINVAL, v)
              else let (ok, v1) = host_set as_host cur (map (\<lambda>b. char_of (unat b)) (takeWhile (\<lambda>b. b \<noteq> 0) val)) v
                   in (if ok then int (length bs) else - VNU_EINVAL, v1))"

definition write_dev :: "('d, 'e) env_ops \<Rightarrow> node \<Rightarrow> nat \<Rightarrow> u8 list \<Rightarrow> ('d, 'e) vfs \<Rightarrow> int \<times> ('d, 'e) vfs" where
  "write_dev eo n fd bs v =
     (let pos = vf_position (v_files v ! fd); count = of_nat (length bs) :: u32
      in case n_dev n of
        DevNull \<Rightarrow> (sint count, v)
      | DevZero \<Rightarrow> (sint count, v)
      | DevRandom \<Rightarrow> (sint count, v)
      | DevFull \<Rightarrow> (- VNU_ENOSPC, v)
      | DevFramebuffer \<Rightarrow>
          if bs = []
          then if \<not> eo_fb_available eo (v_env v) then (- VNU_ENODEV, v) else (0, v\<lparr>v_env := eo_fb_present eo (v_env v)\<rparr>)
          else let (put, e1) = eo_fb_write_pixels eo pos bs (v_env v); v1 = v\<lparr>v_env := e1\<rparr>
               in (put, if put < 0 then v1 else advance fd (of_int put) v1)
      | DevClipboard \<Rightarrow> let (put, c1) = clip_append bs (v_clip v) in (int put, advance fd (of_nat put) (v\<lparr>v_clip := c1\<rparr>))
      | DevBlock \<Rightarrow>
          let (r, d1) = blk_write (eo_ata eo) (v_devs v) (n_blk n) (ucast pos) bs (v_disk v); v1 = v\<lparr>v_disk := d1\<rparr>
          in if r < 0 then (- VNU_EIO, v1) else (r, advance fd (of_int r) v1)
      | _ \<Rightarrow> (- VNU_EIO, v))"

text \<open>
  A write to a regular file of the tree: \<open>over_quota\<close> is the refusal, \<open>store\<close> the copy into the buffer.
\<close>

definition over_quota :: "node \<Rightarrow> u32 \<Rightarrow> tree \<Rightarrow> bool" where
  "over_quota n new_end t \<longleftrightarrow> new_end > n_size n \<and> quota_limit (n_uid n) t \<noteq> 0 \<and>
     (quota_used (n_uid n) t \<ge> quota_limit (n_uid n) t \<or>
      new_end - n_size n > quota_limit (n_uid n) t - quota_used (n_uid n) t)"

definition store :: "nat \<Rightarrow> u32 \<Rightarrow> u32 \<Rightarrow> u8 list \<Rightarrow> tree \<Rightarrow> u32 \<times> tree" where
  "store ni pos count bs t =
     (let (ok, t1) = node_reserve ni (pos + count) t;
          cap = n_cap (nodes t1 ! ni);
          room = (if pos < cap then cap - pos else 0);
          c = (if \<not> ok \<and> count > room then room else count)
      in (c, node_store ni pos (take (unat c) bs) t1))"

definition write_pos :: "vfile \<Rightarrow> node \<Rightarrow> u32" where
  "write_pos f n = (if vf_flags f AND O_APPEND \<noteq> 0 then n_size n else vf_position f)"

definition write_node :: "nat \<Rightarrow> nat \<Rightarrow> u8 list \<Rightarrow> ('d, 'e) vfs \<Rightarrow> int \<times> ('d, 'e) vfs" where
  "write_node ni fd bs v =
     (let n = nodes (v_tree v) ! ni;
          f = v_files v ! fd;
          pos = write_pos f n;
          v1 = set_file fd (f\<lparr>vf_position := pos\<rparr>) v;
          count = min (of_nat (length bs)) (0xFFFFFFFF - pos)
      in if over_quota n (pos + count) (v_tree v) then (- VNU_EDQUOT, v1)
         else let (c, t1) = store ni pos count bs (v_tree v)
              in (sint c, (set_file fd (f\<lparr>vf_position := pos + c\<rparr>) v1)\<lparr>v_tree := t1\<rparr>))"

definition write_mounted :: "nat \<Rightarrow> u8 list \<Rightarrow> ('d, 'e) vfs \<Rightarrow> int \<times> ('d, 'e) vfs" where
  "write_mounted fd bs v =
     (let f0 = v_files v ! fd;
          f = f0\<lparr>vf_position := (if vf_flags f0 AND O_APPEND \<noteq> 0 then vf_fsize f0 else vf_position f0)\<rparr>;
          v1 = set_file fd f v
      in case on_mount (vf_mount f - 1) (fat_write (vf_dir_clu f) (bytes_of (vf_fname f)) (unat (vf_position f)) bs) v1 of
           (None, v2) \<Rightarrow> (- VNU_EIO, v2)
         | (Some got, v2) \<Rightarrow>
             let p = vf_position f + of_nat got
             in (sint (of_nat got :: u32), set_file fd (f\<lparr>vf_position := p, vf_fsize := max p (vf_fsize f)\<rparr>) v2))"

definition vfs_write :: "('d, 'e) env_ops \<Rightarrow> caller \<Rightarrow> int \<Rightarrow> u8 list \<Rightarrow> ('d, 'e) vfs \<Rightarrow> int \<times> ('d, 'e) vfs" where
  "vfs_write eo cur fd bs v =
     (case file_of fd v of
        None \<Rightarrow> (- VNU_EBADF, v)
      | Some f \<Rightarrow>
          if vf_mount f \<noteq> 0 then if vf_fname f = [] then (- VNU_EISDIR, v) else write_mounted (nat fd) bs v
          else if vf_node f < 0 then (- VNU_EBADF, v)
          else let n = node_at f v
               in if \<not> n_used n then (- VNU_EBADF, v)
                  else if n_dir n then (- VNU_EISDIR, v)
                  else if \<not> have_access cur n A_W then (- VNU_EACCES, v)
                  else if n_dev n \<noteq> DevNone then write_dev eo n (nat fd) bs v
                  else if n_synth n \<noteq> SynNone
                  then if n_synth n = SynSysHostname then set_sysctl_name cur bs True v
                       else if n_synth n = SynSysDomainname then set_sysctl_name cur bs False v
                       else (- VNU_EACCES, v)
                  else write_node (nat (vf_node f)) (nat fd) bs v)"

section \<open>Seeking and status\<close>

definition seek_end_of :: "('d, 'e) env_ops \<Rightarrow> dev_kind \<Rightarrow> 'e \<Rightarrow> u32" where
  "seek_end_of eo d e = (if d = DevFramebuffer then eo_fb_frame_bytes eo e else 0)"

definition seek_to :: "nat \<Rightarrow> u32 \<Rightarrow> u32 \<Rightarrow> int \<Rightarrow> ('d, 'e) vfs \<Rightarrow> int \<times> ('d, 'e) vfs" where
  "seek_to fd en offset whence v =
     (let f = v_files v ! fd;
          base = (if whence = 1 then vf_position f else if whence = 2 then en else 0);
          np = base + offset; np' = (if sint np < 0 then 0 else np)
      in (sint np', set_file fd (f\<lparr>vf_position := np'\<rparr>) v))"

definition vfs_lseek :: "('d, 'e) env_ops \<Rightarrow> int \<Rightarrow> u32 \<Rightarrow> int \<Rightarrow> ('d, 'e) vfs \<Rightarrow> int \<times> ('d, 'e) vfs" where
  "vfs_lseek eo fd offset whence v =
     (case file_of fd v of
        None \<Rightarrow> (- VNU_EBADF, v)
      | Some f \<Rightarrow>
          if vf_mount f \<noteq> 0 then seek_to (nat fd) (if vf_fname f \<noteq> [] then vf_fsize f else 0) offset whence v
          else if vf_node f < 0 then (0, v)
          else let n = node_at f v
               in if \<not> n_used n then (- VNU_EBADF, v)
                  else seek_to (nat fd)
                         (if n_dev n = DevBlock then sector_size (v_devs v) (n_blk n)
                          else if n_dev n \<noteq> DevNone then seek_end_of eo (n_dev n) (v_env v) else n_size n) offset whence v)"

record stat =
  st_mode :: u32
  st_size :: u32
  st_type :: u32
  st_uid :: u32
  st_gid :: u32

definition stat_mounted :: "bool \<Rightarrow> u32 \<Rightarrow> stat" where
  "stat_mounted is_dir sz =
     \<lparr>st_mode = (if is_dir then S_IFDIR OR 0x1ED else S_IFREG OR 0x1A4), st_size = (if is_dir then 0 else sz),
      st_type = (if is_dir then 4 else 8), st_uid = 0, st_gid = 0\<rparr>"

definition stat_chr :: stat where
  "stat_chr = \<lparr>st_mode = S_IFCHR OR 0x1B6, st_size = 0, st_type = 2, st_uid = 0, st_gid = 0\<rparr>"

definition stat_node :: "blkdev list \<Rightarrow> node \<Rightarrow> stat" where
  "stat_node devs n =
     (if n_dev n = DevBlock
      then \<lparr>st_mode = S_IFBLK OR 0x1B0, st_size = sector_size devs (n_blk n), st_type = 6, st_uid = 0, st_gid = 0\<rparr>
      else if n_dev n \<noteq> DevNone then stat_chr
      else \<lparr>st_mode = (if n_dir n then S_IFDIR else S_IFREG) OR ucast (n_perm n), st_size = n_size n,
            st_type = (if n_dir n then 4 else 8), st_uid = n_uid n, st_gid = n_gid n\<rparr>)"

definition vfs_stat :: "('d, 'e) env_ops \<Rightarrow> caller \<Rightarrow> string \<Rightarrow> ('d, 'e) vfs \<Rightarrow> (int + stat) \<times> ('d, 'e) vfs" where
  "vfs_stat eo cur path v =
     (let p = normalize (v_cwd v) path PATH_CAP
      in case mount_for p v of
           Some (k, rel) \<Rightarrow>
             if rel = [] then (Inr (stat_mounted True 0), v)
             else (case on_mount k (mount_resolve (m_subdir (v_mounts v ! k)) rel) v of
                     (None, v1) \<Rightarrow> (Inl (- VNU_ENOENT), v1)
                   | (Some (c, sz, attr), v1) \<Rightarrow> (Inr (stat_mounted (is_dir_attr attr) (of_nat sz)), v1))
         | None \<Rightarrow>
             (case find_index p (v_tree v) of
                None \<Rightarrow> (Inl (- VNU_ENOENT), v)
              | Some i \<Rightarrow> let v1 = refresh eo cur i v in (Inr (stat_node (v_devs v1) (nodes (v_tree v1) ! i)), v1)))"

definition vfs_fstat :: "int \<Rightarrow> ('d, 'e) vfs \<Rightarrow> int + stat" where
  "vfs_fstat fd v =
     (case file_of fd v of
        None \<Rightarrow> Inl (- VNU_EBADF)
      | Some f \<Rightarrow>
          if vf_mount f \<noteq> 0 then Inr (stat_mounted (vf_fname f = []) (vf_fsize f))
          else if vf_node f < 0 then Inr stat_chr
          else if \<not> n_used (node_at f v) then Inl (- VNU_EBADF)
          else Inr (stat_node (v_devs v) (node_at f v)))"

section \<open>Creating and removing\<close>

text \<open>The directory of a path on a mount, then \<open>op\<close> in it: \<open>e\<close> is the error when \<open>op\<close> fails.\<close>

definition in_parent :: "string \<Rightarrow> string \<Rightarrow> (nat \<Rightarrow> u8 list \<Rightarrow> ('d, unit) fsm) \<Rightarrow> int \<Rightarrow> 'd fs \<Rightarrow> int \<times> 'd fs" where
  "in_parent subdir rel op e fs =
     (let (parent, leaf) = split_parent rel PATH_CAP
      in case mount_dir_cluster subdir parent fs of
           (None, fs1) \<Rightarrow> (- VNU_ENOENT, fs1)
         | (Some dc, fs1) \<Rightarrow> (case op dc (bytes_of leaf) fs1 of (None, fs2) \<Rightarrow> (e, fs2) | (Some _, fs2) \<Rightarrow> (0, fs2)))"

definition touch_mounted :: "string \<Rightarrow> string \<Rightarrow> 'd fs \<Rightarrow> int \<times> 'd fs" where
  "touch_mounted subdir rel fs =
     (case mount_resolve subdir rel fs of
        (Some _, fs1) \<Rightarrow> (0, fs1) | (None, fs1) \<Rightarrow> in_parent subdir rel fat_create (- VNU_EIO) fs1)"

definition mkdir_mounted :: "string \<Rightarrow> string \<Rightarrow> 'd fs \<Rightarrow> int \<times> 'd fs" where
  "mkdir_mounted subdir rel fs =
     (case mount_resolve subdir rel fs of
        (Some _, fs1) \<Rightarrow> (- VNU_EEXIST, fs1) | (None, fs1) \<Rightarrow> in_parent subdir rel fat_mkdir (- VNU_EIO) fs1)"

definition rmdir_mounted :: "string \<Rightarrow> string \<Rightarrow> 'd fs \<Rightarrow> int \<times> 'd fs" where
  "rmdir_mounted subdir rel fs =
     (case mount_resolve subdir rel fs of
        (None, fs1) \<Rightarrow> (- VNU_ENOENT, fs1)
      | (Some (c, sz, attr), fs1) \<Rightarrow>
          if \<not> is_dir_attr attr then (- VNU_ENOTDIR, fs1) else in_parent subdir rel fat_rmdir (- VNU_ENOTEMPTY) fs1)"

definition unlink_mounted :: "string \<Rightarrow> string \<Rightarrow> 'd fs \<Rightarrow> int \<times> 'd fs" where
  "unlink_mounted subdir rel fs =
     (case mount_resolve subdir rel fs of
        (None, fs1) \<Rightarrow> (- VNU_ENOENT, fs1)
      | (Some (c, sz, attr), fs1) \<Rightarrow>
          if is_dir_attr attr then (- VNU_EISDIR, fs1) else in_parent subdir rel fat_unlink (- VNU_EIO) fs1)"

definition on_path :: "nat \<Rightarrow> string \<Rightarrow> (string \<Rightarrow> string \<Rightarrow> 'd fs \<Rightarrow> int \<times> 'd fs) \<Rightarrow> ('d, 'e) vfs \<Rightarrow> int \<times> ('d, 'e) vfs" where
  "on_path k rel op v = on_mount k (op (m_subdir (v_mounts v ! k)) rel) v"

text \<open>\<open>add_child\<close> is the common end of \<^verbatim>\<open>touch\<close> and \<^verbatim>\<open>mkdir\<close>, \<open>drop_child\<close> of \<^verbatim>\<open>rmdir\<close> and \<^verbatim>\<open>unlink\<close>.\<close>

definition add_child :: "caller \<Rightarrow> string \<Rightarrow> bool \<Rightarrow> ('d, 'e) vfs \<Rightarrow> int \<times> ('d, 'e) vfs" where
  "add_child cur p d v =
     (case parent_dir p (v_tree v) of
        None \<Rightarrow> (- VNU_ENOENT, v)
      | Some par \<Rightarrow>
          if \<not> have_access cur (nodes (v_tree v) ! par) A_W then (- VNU_EACCES, v)
          else let (r, t1) = add_node p d cur (v_tree v) in (if r \<noteq> None then 0 else - VNU_ENOSPC, v\<lparr>v_tree := t1\<rparr>))"

definition drop_node :: "nat \<Rightarrow> tree \<Rightarrow> tree" where
  "drop_node i t = (let t1 = node_release i t in set_node i ((nodes t1 ! i)\<lparr>n_used := False\<rparr>) t1)"

definition vfs_touch :: "caller \<Rightarrow> string \<Rightarrow> ('d, 'e) vfs \<Rightarrow> int \<times> ('d, 'e) vfs" where
  "vfs_touch cur path v =
     (let p = normalize (v_cwd v) path PATH_CAP
      in case mount_for p v of
           Some (k, rel) \<Rightarrow> if rel = [] then (0, v) else on_path k rel touch_mounted v
         | None \<Rightarrow>
             (case find_index p (v_tree v) of
                Some i \<Rightarrow> (if have_access cur (nodes (v_tree v) ! i) A_W then 0 else - VNU_EACCES, v)
              | None \<Rightarrow> add_child cur p False v))"

definition vfs_mkdir :: "caller \<Rightarrow> string \<Rightarrow> ('d, 'e) vfs \<Rightarrow> int \<times> ('d, 'e) vfs" where
  "vfs_mkdir cur path v =
     (let p = normalize (v_cwd v) path PATH_CAP
      in case mount_for p v of
           Some (k, rel) \<Rightarrow> if rel = [] then (- VNU_EEXIST, v) else on_path k rel mkdir_mounted v
         | None \<Rightarrow> if find_index p (v_tree v) \<noteq> None then (- VNU_EEXIST, v) else add_child cur p True v)"

definition vfs_rmdir :: "caller \<Rightarrow> string \<Rightarrow> ('d, 'e) vfs \<Rightarrow> int \<times> ('d, 'e) vfs" where
  "vfs_rmdir cur path v =
     (let p = normalize (v_cwd v) path PATH_CAP; t = v_tree v
      in case mount_for p v of
           Some (k, rel) \<Rightarrow> if rel = [] then (- VNU_EPERM, v) else on_path k rel rmdir_mounted v
         | None \<Rightarrow>
             (case find_index p t of
                None \<Rightarrow> (- VNU_ENOENT, v)
              | Some i \<Rightarrow>
                  if \<not> n_dir (nodes t ! i) then (- VNU_ENOTDIR, v)
                  else if same p ''/'' then (- VNU_EPERM, v)
                  else case parent_dir p t of
                    None \<Rightarrow> (- VNU_ENOENT, v)
                  | Some par \<Rightarrow>
                      if \<not> have_access cur (nodes t ! par) A_W then (- VNU_EACCES, v)
                      else if list_ex (\<lambda>j. n_used (nodes t ! j) \<and> is_prefix_child p (n_path (nodes t ! j))) [0..<MAX_N]
                      then (- VNU_ENOTEMPTY, v)
                      else (0, upd_tree (drop_node i) v)))"

definition vfs_unlink :: "caller \<Rightarrow> string \<Rightarrow> ('d, 'e) vfs \<Rightarrow> int \<times> ('d, 'e) vfs" where
  "vfs_unlink cur path v =
     (let p = normalize (v_cwd v) path PATH_CAP; t = v_tree v
      in case mount_for p v of
           Some (k, rel) \<Rightarrow> if rel = [] then (- VNU_EISDIR, v) else on_path k rel unlink_mounted v
         | None \<Rightarrow>
             (case find_index p t of
                None \<Rightarrow> (- VNU_ENOENT, v)
              | Some i \<Rightarrow>
                  if n_dir (nodes t ! i) then (- VNU_EISDIR, v)
                  else case parent_dir p t of
                    None \<Rightarrow> (- VNU_ENOENT, v)
                  | Some par \<Rightarrow>
                      if \<not> have_access cur (nodes t ! par) A_W then (- VNU_EACCES, v)
                      else (0, upd_tree (drop_node i) v)))"

definition vfs_remove :: "('d, 'e) env_ops \<Rightarrow> caller \<Rightarrow> string \<Rightarrow> ('d, 'e) vfs \<Rightarrow> int \<times> ('d, 'e) vfs" where
  "vfs_remove eo cur path v =
     (let p = normalize (v_cwd v) path PATH_CAP
      in case mount_for p v of
           Some _ \<Rightarrow>
             (case vfs_stat eo cur p v of
                (Inl _, v1) \<Rightarrow> (- VNU_ENOENT, v1)
              | (Inr st, v1) \<Rightarrow> if st_mode st AND S_IFMT = S_IFDIR then vfs_rmdir cur p v1 else vfs_unlink cur p v1)
         | None \<Rightarrow>
             (case find_index p (v_tree v) of
                None \<Rightarrow> (- VNU_ENOENT, v)
              | Some i \<Rightarrow> if n_dir (nodes (v_tree v) ! i) then vfs_rmdir cur p v else vfs_unlink cur p v))"

section \<open>Moving\<close>

text \<open>
  \<^verbatim>\<open>move_stream\<close>: its two loops, \<open>None\<close> when one of them never ends.
\<close>

partial_function (option) write_all ::
  "('d, 'e) env_ops \<Rightarrow> caller \<Rightarrow> int \<Rightarrow> u8 list \<Rightarrow> ('d, 'e) vfs \<Rightarrow> (int \<times> ('d, 'e) vfs) option" where
  "write_all eo cur out bs v =
     (if bs = [] then Some (0, v)
      else let r = vfs_write eo cur out bs v
           in if fst r < 0 then Some r else write_all eo cur out (drop (nat (fst r)) bs) (snd r))"

partial_function (option) copy_all ::
  "('d, 'e) env_ops \<Rightarrow> caller \<Rightarrow> int \<Rightarrow> int \<Rightarrow> ('d, 'e) vfs \<Rightarrow> (int \<times> ('d, 'e) vfs) option" where
  "copy_all eo cur fin out v =
     (let r = vfs_read eo cur fin 4096 v
      in if fst r \<le> 0 then Some (fst r, snd (snd r))
         else case write_all eo cur out (take (nat (fst r)) (fst (snd r))) (snd (snd r)) of
                None \<Rightarrow> None
              | Some w \<Rightarrow> if fst w < 0 then Some w else copy_all eo cur fin out (snd w))"

definition move_stream :: "('d, 'e) env_ops \<Rightarrow> caller \<Rightarrow> string \<Rightarrow> string \<Rightarrow> ('d, 'e) vfs \<Rightarrow> (int \<times> ('d, 'e) vfs) option" where
  "move_stream eo cur af at v =
     (case vfs_stat eo cur at v of
        (Inr _, v1) \<Rightarrow> Some (- VNU_EEXIST, v1)
      | (Inl _, v1) \<Rightarrow>
          let (fin, v2) = vfs_open eo cur af 0 v1
          in if fin < 0 then Some (fin, v2)
             else let (out, v3) = vfs_open eo cur at (O_WRONLY OR O_CREAT OR O_TRUNC) v2
                  in if out < 0 then Some (out, snd (vfs_close eo fin v3))
                     else case copy_all eo cur fin out v3 of
                       None \<Rightarrow> None
                     | Some (r, v4) \<Rightarrow>
                         let v5 = snd (vfs_close eo out (snd (vfs_close eo fin v4)))
                         in Some (if r < 0 then (r, v5) else vfs_unlink cur af v5))"

definition move_node :: "caller \<Rightarrow> string \<Rightarrow> string \<Rightarrow> ('d, 'e) vfs \<Rightarrow> int \<times> ('d, 'e) vfs" where
  "move_node cur af at v =
     (case find_index af (v_tree v) of
        None \<Rightarrow> (- VNU_ENOENT, v)
      | Some i \<Rightarrow>
          if n_dir (nodes (v_tree v) ! i) then (- VNU_EISDIR, v)
          else if find_index at (v_tree v) \<noteq> None then (- VNU_EEXIST, v)
          else if parent_dir at (v_tree v) = None then (- VNU_ENOENT, v)
          else case add_node at False cur (v_tree v) of
            (None, t1) \<Rightarrow> (- VNU_ENOSPC, v\<lparr>v_tree := t1\<rparr>)
          | (Some j, t1) \<Rightarrow>
              let n = nodes t1 ! i;
                  t2 = set_node j ((nodes t1 ! j)\<lparr>n_perm := n_perm n, n_uid := n_uid n, n_gid := n_gid n\<rparr>) t1
              in (case node_reserve j (n_size n) t2 of
                    (False, t3) \<Rightarrow> (- VNU_ENOSPC, v\<lparr>v_tree := set_node j ((nodes t3 ! j)\<lparr>n_used := False\<rparr>) t3\<rparr>)
                  | (True, t3) \<Rightarrow>
                      let d = nodes t3 ! j;
                          t4 = t3\<lparr>pool := (pool t3)\<lparr>ram := copy_ram (n_buf d) (n_buf n) (unat (n_size n)) (ram (pool t3))\<rparr>\<rparr>
                      in (0, v\<lparr>v_tree := node_release i (set_node j (d\<lparr>n_size := n_size n\<rparr>) t4)\<rparr>)))"

definition move_file :: "('d, 'e) env_ops \<Rightarrow> caller \<Rightarrow> string \<Rightarrow> string \<Rightarrow> ('d, 'e) vfs \<Rightarrow> (int \<times> ('d, 'e) vfs) option" where
  "move_file eo cur from to v =
     (let af = normalize (v_cwd v) from PATH_CAP; at = normalize (v_cwd v) to PATH_CAP
      in if mount_for af v \<noteq> None \<or> mount_for at v \<noteq> None then move_stream eo cur af at v
         else Some (move_node cur af at v))"

section \<open>Listing\<close>

text \<open>\<^verbatim>\<open>list\<close>: the paths, a line each, as far as the buffer goes; the terminator when there is room for it.\<close>

definition vfs_list :: "u32 \<Rightarrow> ('d, 'e) vfs \<Rightarrow> string" where
  "vfs_list count v =
     (let buf = fold (\<lambda>i b. if \<not> n_used (nodes (v_tree v) ! i) \<or> length b + 2 \<ge> unat count then b
                             else b @ take (unat count - 2 - length b) (n_path (nodes (v_tree v) ! i)) @ [CHR 0x0A])
                  [0..<MAX_N] []
      in if length buf < unat count then buf @ [CHR 0x00] else buf)"

definition DIRENT_SIZE :: nat where "DIRENT_SIZE = 63"

definition dirent_bytes :: "u32 \<times> u8 \<times> u8 list \<Rightarrow> u8 list" where
  "dirent_bytes = (\<lambda>(ino, ty, name).
     [ucast ino, ucast (drop_bit 8 ino), ucast (drop_bit 16 ino), ucast (drop_bit 24 ino), of_nat DIRENT_SIZE, 0, ty] @
     take 55 name @ replicate (56 - length (take 55 name)) 0)"

text \<open>The common loop: \<open>seen\<close> entries passed, \<open>out\<close> written so far, \<open>pos\<close> the descriptor's position.\<close>

fun dents_loop :: "(u32 \<times> u8 \<times> u8 list) list \<Rightarrow> u32 \<Rightarrow> u32 \<Rightarrow> u32 \<Rightarrow> u8 list \<Rightarrow> u32 \<Rightarrow> u8 list \<times> u32" where
  "dents_loop [] skip count seen out pos = (out, pos)"
| "dents_loop (e # es) skip count seen out pos =
     (if seen < skip then dents_loop es skip count (seen + 1) out pos
      else if length out + DIRENT_SIZE > unat count then (out, pos)
      else dents_loop es skip count (seen + 1) (out @ dirent_bytes e) (seen + 1))"

definition node_dirent :: "tree \<Rightarrow> nat \<Rightarrow> u32 \<times> u8 \<times> u8 list" where
  "node_dirent t i =
     (of_nat (i + 1), if n_dir (nodes t ! i) then 4 else if n_dev (nodes t ! i) \<noteq> DevNone then 2 else 8,
      bytes_of (basename (n_path (nodes t ! i))))"

definition children :: "tree \<Rightarrow> string \<Rightarrow> nat list" where
  "children t p = filter (\<lambda>i. n_used (nodes t ! i) \<and> is_prefix_child p (n_path (nodes t ! i))) [0..<MAX_N]"

text \<open>On a mount the entries come from \<^verbatim>\<open>readdir\<close>, which advances in the directory with each one.\<close>

function fat_dents :: "dir_iter \<Rightarrow> u32 \<Rightarrow> u32 \<Rightarrow> u32 \<Rightarrow> u8 list \<Rightarrow> u32 \<Rightarrow> 'd fs \<Rightarrow> (u8 list \<times> u32) \<times> 'd fs" where
  "fat_dents it skip count seen out pos fs =
     (case fat_readdir 256 it fs of
        ((None, it1), fs1) \<Rightarrow> ((out, pos), fs1)
      | ((Some (name, c, sz, attr), it1), fs1) \<Rightarrow>
          if seen < skip then fat_dents it1 skip count (seen + 1) out pos fs1
          else if length out + DIRENT_SIZE > unat count then ((out, pos), fs1)
          else fat_dents it1 skip count (seen + 1) (out @ dirent_bytes (1, if is_dir_attr attr then 4 else 8, name)) (seen + 1) fs1)"
  by pat_completeness auto
termination
  by (relation "measure (\<lambda>(it, _). i_total it - i_pos it)")
     (auto simp: fat_readdir_def split: prod.splits option.splits dest!: scan_until_pos)

declare fat_dents.simps [simp del]

definition vfs_getdents :: "caller \<Rightarrow> int \<Rightarrow> u32 \<Rightarrow> ('d, 'e) vfs \<Rightarrow> int \<times> u8 list \<times> ('d, 'e) vfs" where
  "vfs_getdents cur fd count v =
     (case file_of fd v of
        None \<Rightarrow> (- VNU_EBADF, [], v)
      | Some f \<Rightarrow>
          if vf_mount f \<noteq> 0
          then if vf_fname f \<noteq> [] then (- VNU_ENOTDIR, [], v)
               else let ((out, pos), v1) = on_mount (vf_mount f - 1)
                          (\<lambda>fs. fat_dents (fat_opendir (vf_dir_clu f) fs) (vf_position f) count 0 [] (vf_position f) fs) v
                    in (sint (of_nat (length out) :: u32), out, set_file (nat fd) (f\<lparr>vf_position := pos\<rparr>) v1)
          else if vf_node f < 0 then (- VNU_EBADF, [], v)
          else let n = node_at f v
               in if \<not> n_used n then (- VNU_EBADF, [], v)
                  else if \<not> n_dir n then (- VNU_ENOTDIR, [], v)
                  else if \<not> have_access cur n A_R then (- VNU_EACCES, [], v)
                  else let (out, pos) = dents_loop (map (node_dirent (v_tree v)) (children (v_tree v) (n_path n)))
                                          (vf_position f) count 0 [] (vf_position f)
                       in (sint (of_nat (length out) :: u32), out, set_file (nat fd) (f\<lparr>vf_position := pos\<rparr>) v))"

section \<open>Working directory and ownership\<close>

text \<open>
  \<^verbatim>\<open>chdir\<close>, \<^verbatim>\<open>chmod\<close> and \<^verbatim>\<open>chown\<close> on a mount only look the path up.
\<close>

definition look_mounted :: "string \<Rightarrow> string \<Rightarrow> 'd fs \<Rightarrow> int \<times> 'd fs" where
  "look_mounted subdir rel fs =
     (case mount_resolve subdir rel fs of (Some _, fs1) \<Rightarrow> (0, fs1) | (None, fs1) \<Rightarrow> (- VNU_ENOENT, fs1))"

definition chdir_mounted :: "string \<Rightarrow> string \<Rightarrow> 'd fs \<Rightarrow> int \<times> 'd fs" where
  "chdir_mounted subdir rel fs =
     (case mount_resolve subdir rel fs of
        (None, fs1) \<Rightarrow> (- VNU_ENOENT, fs1)
      | (Some (c, sz, attr), fs1) \<Rightarrow> (if is_dir_attr attr then 0 else - VNU_ENOTDIR, fs1))"

definition vfs_chdir :: "caller \<Rightarrow> string \<Rightarrow> ('d, 'e) vfs \<Rightarrow> int \<times> ('d, 'e) vfs" where
  "vfs_chdir cur path v =
     (let p = normalize (v_cwd v) path PATH_CAP
      in case mount_for p v of
           Some (k, rel) \<Rightarrow>
             let (r, v1) = (if rel = [] then (0, v) else on_path k rel chdir_mounted v)
             in (r, if r = 0 then v1\<lparr>v_cwd := copy_str p PATH_CAP\<rparr> else v1)
         | None \<Rightarrow>
             (case find_index p (v_tree v) of
                None \<Rightarrow> (- VNU_ENOENT, v)
              | Some i \<Rightarrow>
                  if \<not> n_dir (nodes (v_tree v) ! i) then (- VNU_ENOTDIR, v)
                  else if \<not> have_access cur (nodes (v_tree v) ! i) A_X then (- VNU_EACCES, v)
                  else (0, v\<lparr>v_cwd := copy_str p PATH_CAP\<rparr>)))"

text \<open>\<^verbatim>\<open>getcwd\<close>: the path and its terminator, or an error when they do not fit in \<open>sz\<close> bytes.\<close>

definition vfs_getcwd :: "u32 \<Rightarrow> ('d, 'e) vfs \<Rightarrow> int \<times> string" where
  "vfs_getcwd sz v =
     (if sz = 0 then (- VNU_EINVAL, [])
      else let n = min (length (v_cwd v)) (unat sz - 1)
           in if n < length (v_cwd v) then (- VNU_ERANGE, take n (v_cwd v)) else (int n, v_cwd v @ [CHR 0x00]))"

definition vfs_chmod :: "caller \<Rightarrow> string \<Rightarrow> u32 \<Rightarrow> ('d, 'e) vfs \<Rightarrow> int \<times> ('d, 'e) vfs" where
  "vfs_chmod cur path mode v =
     (let p = normalize (v_cwd v) path PATH_CAP
      in case mount_for p v of
           Some (k, rel) \<Rightarrow> if rel = [] then (0, v) else on_path k rel look_mounted v
         | None \<Rightarrow>
             (case find_index p (v_tree v) of
                None \<Rightarrow> (- VNU_ENOENT, v)
              | Some i \<Rightarrow>
                  let n = nodes (v_tree v) ! i
                  in if cur_uid cur \<noteq> 0 \<and> cur_uid cur \<noteq> n_uid n then (- VNU_EPERM, v)
                     else (0, upd_tree (set_node i (n\<lparr>n_perm := ucast (mode AND 0x1FF)\<rparr>)) v)))"

definition vfs_chown :: "caller \<Rightarrow> string \<Rightarrow> u32 \<Rightarrow> u32 \<Rightarrow> ('d, 'e) vfs \<Rightarrow> int \<times> ('d, 'e) vfs" where
  "vfs_chown cur path uid gid v =
     (let p = normalize (v_cwd v) path PATH_CAP
      in case mount_for p v of
           Some (k, rel) \<Rightarrow> if rel = [] then (0, v) else on_path k rel look_mounted v
         | None \<Rightarrow>
             (case find_index p (v_tree v) of
                None \<Rightarrow> (- VNU_ENOENT, v)
              | Some i \<Rightarrow>
                  if cur_uid cur \<noteq> 0 then (- VNU_EPERM, v)
                  else let n = nodes (v_tree v) ! i
                       in (0, upd_tree (set_node i (n\<lparr>n_uid := (if uid \<noteq> 0xFFFFFFFF then uid else n_uid n),
                                                     n_gid := (if gid \<noteq> 0xFFFFFFFF then gid else n_gid n)\<rparr>)) v)))"

section \<open>Bringing up the disks\<close>

lemma split_parent_shorter: "dir \<noteq> [] \<Longrightarrow> length (fst (split_parent dir cap)) < length dir"
proof -
  assume d: "dir \<noteq> []"
  have "fold (\<lambda>i r. if dir ! i = slash then Some i else r) [0..<n] None = Some k \<Longrightarrow> k < n" for n k
    by (induction n arbitrary: k) (auto split: if_splits intro: less_SucI)
  from this [of "length dir"] show ?thesis
    using d by (auto simp: split_parent_def last_slash_def split: option.split)
qed

text \<open>\<^verbatim>\<open>vol_mkdir_p\<close>: every directory on the way to \<open>dir\<close> exists afterwards.\<close>

function vol_mkdir_p :: "string \<Rightarrow> string \<Rightarrow> ('d, unit) fsm" where
  "vol_mkdir_p subdir dir fs =
     (if dir = [] then (Some (), fs)
      else case fat_resolve (bytes_of dir) fs of
        (Some (c, sz, attr), fs1) \<Rightarrow> (if is_dir_attr attr then Some () else None, fs1)
      | (None, fs1) \<Rightarrow>
          let (parent, leaf) = split_parent dir 128
          in if leaf = [] then (None, fs1)
             else (case vol_mkdir_p subdir parent fs1 of
                     (None, fs2) \<Rightarrow> (None, fs2)
                   | (Some _, fs2) \<Rightarrow>
                       (case mount_dir_cluster subdir parent fs2 of
                          (None, fs3) \<Rightarrow> (None, fs3)
                        | (Some pclu, fs3) \<Rightarrow>
                            (case fat_mkdir pclu (bytes_of leaf) fs3 of
                               (Some _, fs4) \<Rightarrow> (Some (), fs4)
                             | (None, fs4) \<Rightarrow>
                                 (case mount_dir_cluster subdir dir fs4 of (None, fs5) \<Rightarrow> (None, fs5) | (Some _, fs5) \<Rightarrow> (Some (), fs5))))))"
  by pat_completeness auto
termination
proof (relation "measure (\<lambda>(_, dir, _). length dir)", goal_cases)
  case (2 subdir dir fs r fs1 x parent leaf)
  then show ?case using split_parent_shorter [of dir 128] by (metis fst_conv in_measure old.prod.case)
qed simp

declare vol_mkdir_p.simps [simp del]

definition migrate_name :: "string \<Rightarrow> string \<Rightarrow> string \<Rightarrow> string" where
  "migrate_name subdir prefix p =
     (let f1 = take 127 subdir; f2 = (if length f1 < 127 then f1 @ [slash] else f1)
      in f2 @ take (127 - length f2) (drop (length prefix + 1) p))"

definition migrate_file :: "string \<Rightarrow> string \<Rightarrow> u8 list \<Rightarrow> ('d, unit) fsm" where
  "migrate_file subdir full data =
     (let (parent, leaf) = split_parent full 128
      in fs_then (vol_mkdir_p subdir parent)
           (fs_bind (mount_dir_cluster subdir parent) (\<lambda>pclu.
              fs_then (fat_create pclu (bytes_of leaf))
                (if data = [] then fs_ret ()
                 else fs_bind (fat_write pclu (bytes_of leaf) 0 data) (\<lambda>got. if got = length data then fs_ret () else fs_fail)))))"

definition migrate_node :: "string \<Rightarrow> string \<Rightarrow> string \<Rightarrow> tree \<Rightarrow> nat \<Rightarrow> ('d, unit) fsm" where
  "migrate_node vsub subdir prefix t i =
     (let n = nodes t ! i; full = migrate_name subdir prefix (n_path n)
      in if \<not> n_used n \<or> \<not> is_under prefix (n_path n) \<or> n_dev n \<noteq> DevNone \<or> n_synth n \<noteq> SynNone then fs_ret ()
         else if n_dir n then vol_mkdir_p vsub full
         else migrate_file vsub full (if n_size n \<noteq> 0 \<and> n_buf n \<noteq> 0 then node_bytes i t else []))"

definition migrate_tree :: "string \<Rightarrow> string \<Rightarrow> string \<Rightarrow> tree \<Rightarrow> ('d, unit) fsm" where
  "migrate_tree vsub subdir prefix t fs =
     (case fat_resolve (bytes_of subdir) fs of
        (Some (c, sz, attr), fs1) \<Rightarrow> (if is_dir_attr attr then Some () else None, fs1)
      | (None, fs1) \<Rightarrow> fs_then (fat_mkdir 0 (bytes_of subdir)) (fs_each [0..<MAX_N] (migrate_node vsub subdir prefix t)) fs1)"

text \<open>
  \<^verbatim>\<open>init_disks\<close>: a node for each block device, then the first data partition on \<^verbatim>\<open>/mnt\<close> and its three
  subtrees. \<open>free_mount\<close> is the search for a free slot of the mount table.
\<close>

definition free_mount :: "('d, 'e) vfs \<Rightarrow> nat option" where
  "free_mount v = for_first 0 MAX_MOUNTS (\<lambda>k. if \<not> m_used (v_mounts v ! k) then Some k else None)"

definition add_blk_node :: "nat \<Rightarrow> ('d, 'e) vfs \<Rightarrow> ('d, 'e) vfs" where
  "add_blk_node i v =
     (let p = ''/dev/'' @ take (PATH_CAP - 1 - 5) (b_name (v_devs v ! i))
      in case add_node p False None (v_tree v) of
           (None, t1) \<Rightarrow> v\<lparr>v_tree := t1\<rparr>
         | (Some j, t1) \<Rightarrow> v\<lparr>v_tree := set_node j ((nodes t1 ! j)\<lparr>n_dev := DevBlock, n_blk := int i, n_perm := 0x1B0\<rparr>) t1\<rparr>)"

definition data_volume :: "('d, 'e) env_ops \<Rightarrow> nat \<Rightarrow> ('d, 'e) vfs \<Rightarrow> bool" where
  "data_volume eo i v \<longleftrightarrow> \<not> b_whole (v_devs v ! i) \<and>
     (let (r, bs) = blk_read (eo_ata eo) (v_devs v) (int i) 0 512 (v_disk v)
      in r = 512 \<and> take 8 (drop 3 bs) = bytes_of ''VNUFS   '' \<and> take 7 (drop 43 bs) = bytes_of ''VNUDATA'')"

definition mount_at :: "('d, 'e) env_ops \<Rightarrow> nat \<Rightarrow> nat \<Rightarrow> string \<Rightarrow> string \<Rightarrow> ('d, 'e) vfs \<Rightarrow> bool \<times> ('d, 'e) vfs" where
  "mount_at eo i k path subdir v =
     (let (ok, fs) = fat_mount (fat16_device (eo_ata eo) (v_devs v) (int i)) 0 (v_disk v) (sec (m_fs (v_mounts v ! k)))
      in (ok, v\<lparr>v_mounts := (v_mounts v)[k := \<lparr>m_used = ok, m_path = path, m_subdir = subdir, m_blk = int i, m_fs = fs\<rparr>],
                v_disk := f_ctx fs\<rparr>))"

fun seed :: "('d, 'e) env_ops \<Rightarrow> nat \<Rightarrow> nat \<Rightarrow> string list \<Rightarrow> ('d, 'e) vfs \<Rightarrow> ('d, 'e) vfs" where
  "seed eo i k [] v = v"
| "seed eo i k (name # names) v =
     (case on_mount k (migrate_tree (m_subdir (v_mounts v ! k)) name (CHR ''/'' # name) (v_tree v)) v of
        (None, v1) \<Rightarrow> seed eo i k names v1
      | (Some _, v1) \<Rightarrow>
          (case free_mount v1 of
             None \<Rightarrow> v1
           | Some s \<Rightarrow> seed eo i k names (snd (mount_at eo i s (CHR ''/'' # name) name v1))))"

fun mount_data :: "('d, 'e) env_ops \<Rightarrow> nat list \<Rightarrow> ('d, 'e) vfs \<Rightarrow> ('d, 'e) vfs" where
  "mount_data eo [] v = v"
| "mount_data eo (i # is) v =
     (if \<not> data_volume eo i v then mount_data eo is v
      else case free_mount v of
        None \<Rightarrow> v
      | Some k \<Rightarrow>
          (case mount_at eo i k ''/mnt'' [] v of
             (False, v1) \<Rightarrow> mount_data eo is v1
           | (True, v1) \<Rightarrow> seed eo i k [''home'', ''root'', ''etc''] v1))"

definition init_disks :: "('d, 'e) env_ops \<Rightarrow> ('d, 'e) vfs \<Rightarrow> ('d, 'e) vfs" where
  "init_disks eo v =
     (let v1 = v\<lparr>v_devs := blk_init (eo_ata eo) (v_disk v)\<rparr>;
          v2 = fold add_blk_node [0..<length (v_devs v1)] v1
      in mount_data eo [0..<length (v_devs v2)] v2)"

end
