(* ===== verification/Vfs_Props.thy ===== *)
theory Vfs_Props
  imports Vfs_Calls
begin

text \<open>
  Properties of the file system calls. \<open>vfs_ok\<close> is the state invariant: the node table and its buffers are
  in order, descriptors name nodes of the table, and generated files are short. Every call keeps it.
\<close>

section \<open>The tree\<close>

definition synth_small :: "tree \<Rightarrow> bool" where
  "synth_small t \<longleftrightarrow> (\<forall>i < MAX_N. n_synth (nodes t ! i) \<noteq> SynNone \<longrightarrow> unat (n_size (nodes t ! i)) < 4096)"

definition tree_good :: "tree \<Rightarrow> bool" where
  "tree_good t \<longleftrightarrow> tree_ok t \<and> synth_small t"

lemma tree_goodD: "tree_good t \<Longrightarrow> tree_ok t" "tree_good t \<Longrightarrow> synth_small t"
  by (simp_all add: tree_good_def)

lemma synth_small_change:
  assumes "synth_small t" "\<And>j. j < MAX_N \<Longrightarrow> j \<noteq> i \<Longrightarrow> nodes t' ! j = nodes t ! j"
    "i < MAX_N \<Longrightarrow> n_synth (nodes t' ! i) \<noteq> SynNone \<Longrightarrow> unat (n_size (nodes t' ! i)) < 4096"
  shows "synth_small t'"
  using assms unfolding synth_small_def by metis

lemma tree_ok_update:
  assumes t: "tree_ok t" and i: "i < MAX_N" and n: "n_buf n = n_buf (nodes t ! i)" "n_cap n = n_cap (nodes t ! i)"
    "n_synth n = SynNone \<Longrightarrow> n_size n \<le> n_cap n" "n_used n \<Longrightarrow> n_used (nodes t ! i) \<and> n_path n = n_path (nodes t ! i)"
  shows "tree_ok (set_node i n t)"
proof -
  have "node_ok (pool t) n" using tree_okD(3) [OF t i] n(1-3) by (simp add: node_ok_def)
  moreover have "t\<lparr>pool := pool t\<rparr> = t" by simp
  ultimately show ?thesis
    using tree_ok_replace [OF t i tree_okD(2) [OF t], of n] tree_okD(3,4) [OF t] n i by (metis node_okD(4))
qed

lemma tree_good_update:
  assumes t: "tree_good t" and i: "i < MAX_N" and n: "n_buf n = n_buf (nodes t ! i)" "n_cap n = n_cap (nodes t ! i)"
    "n_synth n = n_synth (nodes t ! i)" "n_size n \<le> n_size (nodes t ! i)" "n_used n \<Longrightarrow> n_used (nodes t ! i) \<and> n_path n = n_path (nodes t ! i)"
  shows "tree_good (set_node i n t)"
proof -
  have "n_synth n = SynNone \<Longrightarrow> n_size n \<le> n_cap n" using tree_okD(3) [OF tree_goodD(1) [OF t] i] n(2-4) by (auto simp: node_ok_def)
  then have "tree_ok (set_node i n t)" using tree_ok_update [OF tree_goodD(1) [OF t] i n(1,2)] n(5) by simp
  moreover have "synth_small (set_node i n t)"
  proof (rule synth_small_change [OF tree_goodD(2) [OF t], of i])
    assume "i < MAX_N" "n_synth (nodes (set_node i n t) ! i) \<noteq> SynNone"
    then show "unat (n_size (nodes (set_node i n t) ! i)) < 4096"
      using n tree_goodD(2) [OF t] tree_okD(1) [OF tree_goodD(1) [OF t]]
      by (auto simp: synth_small_def set_node_def word_le_nat_alt intro: le_less_trans)
  qed (simp add: set_node_def)
  ultimately show ?thesis by (simp add: tree_good_def)
qed

lemma size_bound: "tree_good t \<Longrightarrow> i < MAX_N \<Longrightarrow> unat (n_size (nodes t ! i)) + 4095 < 2 ^ 32"
proof (cases "n_synth (nodes t ! i) = SynNone")
  case True
  assume "tree_good t" "i < MAX_N"
  then have n: "node_ok (pool t) (nodes t ! i)" and p: "pmm_ok (pool t)" using tree_okD [OF tree_goodD(1)] by blast+
  from node_okD(2) [OF n True] pages_bound [OF p node_okD(4) [OF n]] show ?thesis by simp
qed (use tree_goodD(2) in \<open>fastforce simp: synth_small_def\<close>)

lemma node_set_good:
  assumes t: "tree_good t" and i: "i < MAX_N" and s: "n_synth (nodes t ! i) = SynNone" "length src + 4095 < 2 ^ 32"
  shows "tree_good (node_set i src t)"
proof -
  note T = tree_goodD [OF t]
  note N = node_set_spec [OF T(1) i s(2) disjI1 [OF s(1)]]
  from N(5) s(1) have "n_synth (nodes (node_set i src t) ! i) = SynNone" by auto
  then have "synth_small (node_set i src t)" by (intro synth_small_change [OF T(2), of i]) (use N(2) in simp_all)
  with N(1) show ?thesis by (simp add: tree_good_def)
qed

lemma regen_good:
  assumes t: "tree_good t" and i: "i < MAX_N" and s: "n_synth (nodes t ! i) \<noteq> SynNone" "length txt < 4096"
  shows "tree_good (node_set i txt (set_node i ((nodes t ! i)\<lparr>n_size := of_nat (length txt)\<rparr>) t))"
proof -
  note T = tree_goodD [OF t]
  let ?t = "set_node i ((nodes t ! i)\<lparr>n_size := of_nat (length txt)\<rparr>) t"
  have n: "nodes ?t ! i = (nodes t ! i)\<lparr>n_size := of_nat (length txt)\<rparr>" using tree_okD(1) [OF T(1)] i by (simp add: set_node_def)
  have ok: "tree_ok ?t" by (rule tree_ok_update [OF T(1) i]) (use s in simp_all)
  have z: "unat (of_nat (length txt) :: u32) = length txt" using s(2) by (simp add: unat_of_nat)
  have sm: "synth_small ?t" by (rule synth_small_change [OF T(2), of i]) (use n s(2) z in \<open>simp_all add: set_node_def\<close>)
  have l: "length txt + 4095 < 2 ^ 32" using s(2) by simp
  note N = node_set_spec [OF ok i l]
  have sz: "n_synth (nodes ?t ! i) = SynNone \<or> n_size (nodes ?t ! i) \<le> of_nat (length txt)" using n by simp
  have "synth_small (node_set i txt ?t)"
  proof (rule synth_small_change [OF sm, of i])
    assume "i < MAX_N"
    show "unat (n_size (nodes (node_set i txt ?t) ! i)) < 4096"
      using N(4) [OF sz]
    proof
      assume "node_bytes i (node_set i txt ?t) = txt"
      then have "length (node_bytes i (node_set i txt ?t)) < 4096" using s(2) by simp
      then show ?thesis by (simp add: node_bytes_def get_ram_def)
    qed (use s z n in simp)
  qed (use N(2) [OF sz] in simp)
  with N(1) [OF sz] show ?thesis by (simp add: tree_good_def)
qed

lemma add_good:
  assumes t: "tree_good t" and p: "length p < PATH_CAP" "find_index p t = None" and a: "add_node p d cur t = (r, t')"
  shows "tree_good t'" "r = Some i \<Longrightarrow> i < MAX_N"
proof -
  note A = add_node_spec [OF tree_goodD(1) [OF t] p a]
  show "r = Some i \<Longrightarrow> i < MAX_N" using A(3) by blast
  have "synth_small t'"
  proof (cases r)
    case (Some i)
    show ?thesis
      by (rule synth_small_change [OF tree_goodD(2) [OF t], of i])
         (use A(3) [OF Some] tree_okD(1) [OF tree_goodD(1) [OF t]] in \<open>simp_all add: no_node_def\<close>)
  qed (use A(2) tree_goodD(2) [OF t] in simp)
  with A(1) show "tree_good t'" by (simp add: tree_good_def)
qed

lemma release_good:
  assumes t: "tree_good t" and i: "i < MAX_N"
  shows "tree_good (node_release i t)"
proof -
  note R = node_release_spec [OF tree_goodD(1) [OF t] i]
  have "synth_small (node_release i t)"
    by (rule synth_small_change [OF tree_goodD(2) [OF t], of i]) (use R in simp_all)
  with R(1) show ?thesis by (simp add: tree_good_def)
qed

lemma drop_good:
  assumes t: "tree_good t" and i: "i < MAX_N"
  shows "tree_good (drop_node i t)"
  unfolding drop_node_def Let_def by (rule tree_good_update [OF release_good [OF t i] i]) simp_all

section \<open>The state invariant\<close>

definition vfs_ok :: "('d, 'e) vfs \<Rightarrow> bool" where
  "vfs_ok v \<longleftrightarrow> tree_good (v_tree v) \<and> length (v_files v) = VFS_MAX_FD \<and> (\<forall>f \<in> set (v_files v). vf_node f < int MAX_N) \<and> canonical (v_cwd v)"

lemma vfs_okD:
  assumes "vfs_ok v"
  shows "tree_good (v_tree v)" "length (v_files v) = VFS_MAX_FD" "canonical (v_cwd v)"
    "i < VFS_MAX_FD \<Longrightarrow> vf_node (v_files v ! i) < int MAX_N"
  using assms by (auto simp: vfs_ok_def)

lemma vfs_ok_same:
  "vfs_ok v \<Longrightarrow> v_tree v' = v_tree v \<Longrightarrow> v_files v' = v_files v \<Longrightarrow> v_cwd v' = v_cwd v \<Longrightarrow> vfs_ok v'"
  by (simp add: vfs_ok_def)

lemma vfs_ok_fields [simp]:
  "vfs_ok (v\<lparr>v_clip := c\<rparr>) = vfs_ok v" "vfs_ok (v\<lparr>v_env := e\<rparr>) = vfs_ok v" "vfs_ok (v\<lparr>v_disk := d\<rparr>) = vfs_ok v"
  "vfs_ok (v\<lparr>g_rand_state := s\<rparr>) = vfs_ok v"
  by (simp_all add: vfs_ok_def)

lemma vfs_ok_tree: "vfs_ok v \<Longrightarrow> tree_good t \<Longrightarrow> vfs_ok (v\<lparr>v_tree := t\<rparr>)"
  by (simp add: vfs_ok_def)

lemma upd_tree_ok: "vfs_ok v \<Longrightarrow> tree_good (f (v_tree v)) \<Longrightarrow> vfs_ok (upd_tree f v)"
  by (simp add: upd_tree_def vfs_ok_tree)

lemma set_file_ok: "vfs_ok v \<Longrightarrow> vf_node f < int MAX_N \<Longrightarrow> vfs_ok (set_file i f v)"
  using set_update_subset_insert [of "v_files v" i f] by (auto simp: vfs_ok_def set_file_def)

lemma set_file_simps [simp]:
  "v_tree (set_file i f v) = v_tree v" "v_cwd (set_file i f v) = v_cwd v" "v_mounts (set_file i f v) = v_mounts v"
  "v_files (set_file i f v) = (v_files v)[i := f]" "v_disk (set_file i f v) = v_disk v" "v_devs (set_file i f v) = v_devs v"
  "v_clip (set_file i f v) = v_clip v" "v_env (set_file i f v) = v_env v"
  by (simp_all add: set_file_def)

lemma upd_tree_simps [simp]:
  "v_tree (upd_tree g v) = g (v_tree v)" "v_cwd (upd_tree g v) = v_cwd v" "v_files (upd_tree g v) = v_files v" "v_mounts (upd_tree g v) = v_mounts v"
  by (simp_all add: upd_tree_def)

lemma no_file_node [simp]: "vf_node no_file = -1" "vf_mount no_file = 0" "\<not> vf_used no_file"
  by (simp_all add: no_file_def)

lemma on_mount_same [simp]:
  "v_tree (snd (on_mount k f v)) = v_tree v" "v_files (snd (on_mount k f v)) = v_files v" "v_cwd (snd (on_mount k f v)) = v_cwd v"
  by (simp_all add: on_mount_def Let_def split_def)

lemma on_mount_ok: "vfs_ok v \<Longrightarrow> vfs_ok (snd (on_mount k f v))"
  by (erule vfs_ok_same) simp_all

lemma on_mount_okD: "on_mount k f v = (r, v') \<Longrightarrow> vfs_ok v \<Longrightarrow> vfs_ok v'"
  using on_mount_ok [of v k f] by simp

lemma on_path_ok: "vfs_ok v \<Longrightarrow> vfs_ok (snd (on_path k rel f v))"
  by (simp add: on_path_def on_mount_ok)

lemma file_of_SomeD:
  "file_of fd v = Some f \<Longrightarrow> 0 \<le> fd \<and> nat fd < VFS_MAX_FD \<and> f = v_files v ! nat fd \<and> vf_used f"
  by (auto simp: file_of_def VFS_MAX_FD_def split: if_splits)

lemma file_of_node: "vfs_ok v \<Longrightarrow> file_of fd v = Some f \<Longrightarrow> vf_node f < int MAX_N"
  using file_of_SomeD [of fd v f] vfs_okD(4) [of v "nat fd"] by simp

lemma node_at_bound: "vfs_ok v \<Longrightarrow> file_of fd v = Some f \<Longrightarrow> \<not> vf_node f < 0 \<Longrightarrow> nat (vf_node f) < MAX_N"
  using file_of_node [of v fd f] by (simp add: nat_less_iff)

lemma free_fd_bound: "free_fd v = Some i \<Longrightarrow> 3 \<le> i \<and> i < VFS_MAX_FD \<and> \<not> vf_used (v_files v ! i)"
  unfolding free_fd_def by (drule for_first_SomeD) (auto split: if_splits)

lemma normalize_short: "length (normalize cwd p PATH_CAP) < PATH_CAP"
  by (auto simp: normalize_def rebuild_def Let_def PATH_CAP_def)

lemma normalize_cwd_canonical: "vfs_ok v \<Longrightarrow> canonical (normalize (v_cwd v) p PATH_CAP)"
  using vfs_okD(3) [of v] by (intro normalize_canonical) (simp add: canonical_def)

lemma copy_str_short: "length p < PATH_CAP \<Longrightarrow> copy_str p PATH_CAP = p"
  by (simp add: copy_str_def PATH_CAP_def)

lemma advance_ok: "vfs_ok v \<Longrightarrow> fd < VFS_MAX_FD \<Longrightarrow> vfs_ok (advance fd n v)"
  unfolding advance_def by (rule set_file_ok) (simp_all add: vfs_okD(4))

section \<open>Each call keeps the invariant\<close>

text \<open>The generated texts fit the buffer of \<^verbatim>\<open>regen_synth\<close>, 4096 bytes with the terminator.\<close>

definition texts_fit :: "('d, 'e) env_ops \<Rightarrow> bool" where
  "texts_fit eo \<longleftrightarrow> (\<forall>k cur v. length (eo_synth eo k cur v) < 4096)"

lemma refresh_ok: "texts_fit eo \<Longrightarrow> vfs_ok v \<Longrightarrow> i < MAX_N \<Longrightarrow> vfs_ok (refresh eo cur i v)"
  unfolding refresh_def regen_synth_def Let_def texts_fit_def by (auto intro!: upd_tree_ok regen_good simp: vfs_okD(1))

lemma fb_open_ok: "vfs_ok v \<Longrightarrow> vfs_ok (snd (fb_open eo cur v))"
  by (erule vfs_ok_same) (simp_all add: fb_open_def Let_def split_def)

lemma install_fd_ok:
  assumes "vfs_ok v" "ni < MAX_N"
  shows "vfs_ok (snd (install_fd cur ni flags v))"
  using assms unfolding install_fd_def Let_def
  by (auto split: option.split intro!: upd_tree_ok set_file_ok tree_good_update simp: vfs_okD(1))

lemma open_node_ok:
  assumes "texts_fit eo" "vfs_ok v" "ni < MAX_N"
  shows "vfs_ok (snd (open_node eo cur ni flags v))"
proof -
  have r: "vfs_ok (refresh eo cur ni v)" by (rule refresh_ok [OF assms])
  show ?thesis
    using r fb_open_ok [OF r, of eo cur] assms(2) unfolding open_node_def Let_def split_def
    by (auto intro!: install_fd_ok [OF _ assms(3)])
qed

lemma open_mount_ok: "vfs_ok v \<Longrightarrow> vfs_ok (snd (open_mount cur k rel flags v))"
  unfolding open_mount_def Let_def
  by (auto split: prod.split sum.split option.split dest!: on_mount_okD intro!: set_file_ok)

lemma vfs_open_ok:
  assumes "texts_fit eo" "vfs_ok v"
  shows "vfs_ok (snd (vfs_open eo cur path flags v))"
proof -
  let ?p = "normalize (v_cwd v) path PATH_CAP"
  have f: "find_index ?p (v_tree v) = Some ni \<Longrightarrow> ni < MAX_N" for ni using find_index_Some by blast
  have a: "vfs_ok (v\<lparr>v_tree := t1\<rparr>)" "r = Some ni \<Longrightarrow> ni < MAX_N"
    if "add_node ?p False cur (v_tree v) = (r, t1)" "find_index ?p (v_tree v) = None" for r t1 ni
    using add_good [OF vfs_okD(1) [OF assms(2)] normalize_short that(2,1)] assms(2) vfs_ok_tree by blast+
  show ?thesis unfolding vfs_open_def Let_def
    using assms f a by (auto split: option.split prod.split intro!: open_mount_ok open_node_ok)
qed

lemma vfs_close_ok: "vfs_ok v \<Longrightarrow> vfs_ok (snd (vfs_close eo fd v))"
  unfolding vfs_close_def Let_def by (auto intro: set_file_ok intro!: vfs_ok_same [OF set_file_ok, of v no_file])

lemma reset_stdio_ok: "vfs_ok v \<Longrightarrow> vfs_ok (reset_stdio v)"
  by (simp add: reset_stdio_def set_file_ok upt_rec)

lemma vfs_close_all_of_ok: "vfs_ok v \<Longrightarrow> vfs_ok (vfs_close_all_of eo pid v)"
proof -
  have "vfs_ok v \<Longrightarrow> vfs_ok (fold (\<lambda>i v. if vf_used (v_files v ! i) \<and> vf_owner (v_files v ! i) = pid then snd (vfs_close eo (int i) v) else v) is v)" for "is"
    by (induction "is" arbitrary: v) (simp_all add: vfs_close_ok)
  then show "vfs_ok v \<Longrightarrow> ?thesis" by (simp add: vfs_close_all_of_def Let_def reset_stdio_ok)
qed

lemma vfs_dup_fd_ok: "vfs_ok v \<Longrightarrow> vfs_ok (snd (vfs_dup_fd cur fd v))"
  unfolding vfs_dup_fd_def by (auto split: option.split intro!: set_file_ok simp: file_of_node)

lemma vfs_dup2_fd_ok: "vfs_ok v \<Longrightarrow> vfs_ok (snd (vfs_dup2_fd cur fd fd' v))"
  unfolding vfs_dup2_fd_def by (auto split: option.split intro!: set_file_ok simp: file_of_node)

lemma read_dev_ok: "vfs_ok v \<Longrightarrow> fd < VFS_MAX_FD \<Longrightarrow> vfs_ok (snd (snd (read_dev eo cur n fd count v)))"
  unfolding read_dev_def Let_def by (auto split: dev_kind.split option.split prod.split intro!: advance_ok)

lemma vfs_read_ok: "vfs_ok v \<Longrightarrow> vfs_ok (snd (snd (vfs_read eo cur fd count v)))"
  unfolding vfs_read_def Let_def
  by (auto split: option.split prod.split dest!: file_of_SomeD on_mount_okD intro!: advance_ok read_dev_ok simp: read_node_def Let_def)

lemma vfs_read_path_ok: "vfs_ok v \<Longrightarrow> vfs_ok (snd (snd (vfs_read_path path count v)))"
  unfolding vfs_read_path_def Let_def by (auto split: option.split prod.split dest!: on_mount_okD)

lemma vfs_set_path_ok:
  assumes "vfs_ok v" "length data + 4095 < 2 ^ 32"
  shows "vfs_ok (snd (vfs_set_path cur path data v))"
proof -
  have "vfs_ok (upd_tree (node_set i data) v)" if "find_index p (v_tree v) = Some i" "n_synth (nodes (v_tree v) ! i) = SynNone" for p i
    by (rule upd_tree_ok [OF assms(1)], rule node_set_good [OF vfs_okD(1) [OF assms(1)] _ that(2) assms(2)])
       (use find_index_Some [OF that(1)] in simp)
  then show ?thesis unfolding vfs_set_path_def Let_def
    using assms(1) by (auto split: option.split prod.split dest: on_mount_okD)
qed

lemma host_set_ok: "vfs_ok v \<Longrightarrow> vfs_ok (snd (host_set as_host cur s v))"
  unfolding host_set_def Let_def split_def using vfs_set_path_ok [of v "bytes_of (take (HOST_MAX - 2) s) @ [10]"]
  by (simp add: bytes_of_def HOST_MAX_def)

lemma set_sysctl_name_ok: "vfs_ok v \<Longrightarrow> vfs_ok (snd (set_sysctl_name cur bs as_host v))"
  unfolding set_sysctl_name_def Let_def split_def by (simp add: host_set_ok)

lemma write_dev_ok: "vfs_ok v \<Longrightarrow> fd < VFS_MAX_FD \<Longrightarrow> vfs_ok (snd (write_dev eo n fd bs v))"
  unfolding write_dev_def Let_def by (auto split: dev_kind.split option.split prod.split intro!: advance_ok)

lemma write_mounted_ok: "vfs_ok v \<Longrightarrow> fd < VFS_MAX_FD \<Longrightarrow> vfs_ok (snd (write_mounted fd bs v))"
  unfolding write_mounted_def Let_def
  by (auto split: option.split prod.split dest!: on_mount_okD intro!: set_file_ok simp: vfs_okD(4))

lemma seek_to_ok: "vfs_ok v \<Longrightarrow> fd < VFS_MAX_FD \<Longrightarrow> vfs_ok (snd (seek_to fd en offset whence v))"
  unfolding seek_to_def Let_def by (simp add: set_file_ok vfs_okD(4))

lemma vfs_lseek_ok: "vfs_ok v \<Longrightarrow> vfs_ok (snd (vfs_lseek eo fd offset whence v))"
  unfolding vfs_lseek_def Let_def by (auto split: option.split dest!: file_of_SomeD intro: seek_to_ok)

lemma vfs_stat_ok: "texts_fit eo \<Longrightarrow> vfs_ok v \<Longrightarrow> vfs_ok (snd (vfs_stat eo cur path v))"
  unfolding vfs_stat_def Let_def
  by (auto split: option.split prod.split dest!: on_mount_okD find_index_Some intro!: refresh_ok)

lemma add_child_ok:
  assumes "vfs_ok v" "find_index p (v_tree v) = None" "length p < PATH_CAP"
  shows "vfs_ok (snd (add_child cur p d v))"
proof -
  have "tree_good (snd (add_node p d cur (v_tree v)))"
    using add_good(1) [OF vfs_okD(1) [OF assms(1)] assms(3,2), of d cur] by (metis prod.collapse)
  then show ?thesis unfolding add_child_def Let_def split_def using assms(1) by (auto split: option.split intro: vfs_ok_tree)
qed

lemma vfs_touch_ok: "vfs_ok v \<Longrightarrow> vfs_ok (snd (vfs_touch cur path v))"
  unfolding vfs_touch_def Let_def by (auto split: option.split intro!: on_path_ok add_child_ok normalize_short)

lemma vfs_mkdir_ok: "vfs_ok v \<Longrightarrow> vfs_ok (snd (vfs_mkdir cur path v))"
  unfolding vfs_mkdir_def Let_def by (auto split: option.split intro!: on_path_ok add_child_ok normalize_short)

lemma drop_node_ok: "vfs_ok v \<Longrightarrow> find_index p (v_tree v) = Some i \<Longrightarrow> vfs_ok (upd_tree (drop_node i) v)"
  by (rule upd_tree_ok) (auto dest: find_index_Some intro: drop_good simp: vfs_okD(1))

lemma vfs_rmdir_ok: "vfs_ok v \<Longrightarrow> vfs_ok (snd (vfs_rmdir cur path v))"
  unfolding vfs_rmdir_def Let_def by (auto split: option.split intro!: on_path_ok intro: drop_node_ok)

lemma vfs_unlink_ok: "vfs_ok v \<Longrightarrow> vfs_ok (snd (vfs_unlink cur path v))"
  unfolding vfs_unlink_def Let_def by (auto split: option.split intro!: on_path_ok intro: drop_node_ok)

lemma vfs_remove_ok: "texts_fit eo \<Longrightarrow> vfs_ok v \<Longrightarrow> vfs_ok (snd (vfs_remove eo cur path v))"
proof -
  assume a: "texts_fit eo" "vfs_ok v"
  have "vfs_stat eo cur p v = (r, v1) \<Longrightarrow> vfs_ok v1" for p r v1 using vfs_stat_ok [OF a, of cur p] by simp
  with a show ?thesis unfolding vfs_remove_def Let_def by (auto split: option.split prod.split sum.split intro!: vfs_rmdir_ok vfs_unlink_ok)
qed

lemma vfs_getdents_ok: "vfs_ok v \<Longrightarrow> vfs_ok (snd (snd (vfs_getdents cur fd count v)))"
  unfolding vfs_getdents_def Let_def
  by (auto split: option.split prod.split dest!: on_mount_okD intro!: set_file_ok simp: file_of_node)

lemma vfs_chdir_ok:
  assumes "vfs_ok v"
  shows "vfs_ok (snd (vfs_chdir cur path v))"
proof -
  let ?p = "normalize (v_cwd v) path PATH_CAP"
  have c: "vfs_ok (w\<lparr>v_cwd := copy_str ?p PATH_CAP\<rparr>)" if "vfs_ok w" for w :: "('a, 'b) vfs"
    using that normalize_cwd_canonical [OF assms, of path] by (simp add: copy_str_short normalize_short vfs_ok_def)
  show ?thesis unfolding vfs_chdir_def Let_def split_def
    using assms on_path_ok [OF assms] c by (auto split: option.split)
qed

lemma vfs_chmod_ok: "vfs_ok v \<Longrightarrow> vfs_ok (snd (vfs_chmod cur path mode v))"
  unfolding vfs_chmod_def Let_def
  by (auto split: option.split intro!: on_path_ok upd_tree_ok tree_good_update dest: find_index_Some simp: vfs_okD(1))

lemma vfs_chown_ok: "vfs_ok v \<Longrightarrow> vfs_ok (snd (vfs_chown cur path uid gid v))"
  unfolding vfs_chown_def Let_def
  by (auto split: option.split intro!: on_path_ok upd_tree_ok tree_good_update dest: find_index_Some simp: vfs_okD(1))

section \<open>Writing and moving\<close>

text \<open>
  A write keeps the node in order when it ends 4095 bytes or more below the 32-bit limit and either starts
  inside the file or finds the memory it asks for.
\<close>

definition store_safe :: "nat \<Rightarrow> u32 \<Rightarrow> nat \<Rightarrow> tree \<Rightarrow> bool" where
  "store_safe i pos n t \<longleftrightarrow> unat pos + n + 4095 < 2 ^ 32 \<and>
     (pos \<le> n_size (nodes t ! i) \<or> fst (node_reserve i (pos + of_nat n) t))"

lemma store_spec:
  assumes t: "tree_ok t" and i: "i < MAX_N" "n_synth (nodes t ! i) = SynNone" and safe: "store_safe i pos (length bs) t"
  obtains t1 c where "store i pos (of_nat (length bs)) bs t = (of_nat c, node_store i pos (take c bs) t1)" "tree_ok t1"
    "c \<le> length bs" "fst (node_reserve i (pos + of_nat (length bs)) t) \<Longrightarrow> c = length bs"
    "unat pos + c \<le> unat (n_cap (nodes t1 ! i))" "\<And>j. j \<noteq> i \<Longrightarrow> nodes t1 ! j = nodes t ! j"
    "\<exists>b c. nodes t1 ! i = (nodes t ! i)\<lparr>n_buf := b, n_cap := c\<rparr>"
    "\<And>j. j < MAX_N \<Longrightarrow> n_synth (nodes t ! j) = SynNone \<Longrightarrow> node_bytes j t1 = node_bytes j t"
    "quota_entries t1 = quota_entries t" "quota_default_bytes t1 = quota_default_bytes t"
proof -
  obtain ok t1 where r: "node_reserve i (pos + of_nat (length bs)) t = (ok, t1)" by fastforce
  have l: "unat pos + length bs + 4095 < 2 ^ 32" using safe by (simp add: store_safe_def)
  then have lb: "unat (of_nat (length bs) :: u32) = length bs" by (simp add: unat_of_nat)
  have u: "unat (pos + of_nat (length bs)) = unat pos + length bs" using l lb by (simp add: unat_word_ariths)
  have need: "unat (pos + of_nat (length bs)) + 4095 < 2 ^ 32" using l u by simp
  note R = node_reserve_spec [OF t i(1) need disjI1 [OF i(2)] r]
  define cap where "cap = n_cap (nodes t1 ! i)"
  define c where "c = (if ok then length bs else min (length bs) (unat cap - unat pos))"
  have room: "unat (if pos < cap then cap - pos else 0) = unat cap - unat pos"
    by (simp add: unat_sub word_le_nat_alt word_less_nat_alt)
  have st: "store i pos (of_nat (length bs)) bs t = (of_nat c, node_store i pos (take c bs) t1)"
  proof -
    have e: "unat (of_nat c :: u32) = c" using lb l by (simp add: unat_of_nat c_def)
    have cc: "(if \<not> ok \<and> of_nat (length bs) > (if pos < cap then cap - pos else 0) then (if pos < cap then cap - pos else 0) else of_nat (length bs)) = (of_nat c :: u32)"
      by (rule word_unat_eq_iff [THEN iffD2]) (use room lb e in \<open>auto simp: c_def word_less_nat_alt\<close>)
    show ?thesis unfolding store_def r Let_def split_conv cap_def [symmetric] cc e by (rule refl)
  qed
  have fit: "unat pos + c \<le> unat cap"
  proof (cases ok)
    case True
    then show ?thesis using R(4) u by (simp add: c_def cap_def word_le_nat_alt)
  next
    case False
    have "pos \<le> n_size (nodes t ! i)" using safe False r by (simp add: store_safe_def)
    then have "pos \<le> cap" using R(5) [OF False] tree_okD(3) [OF t i(1)] i(2) by (auto simp: node_ok_def cap_def)
    with False show ?thesis by (auto simp: c_def word_le_nat_alt)
  qed
  show ?thesis
    by (rule that [OF st R(1) _ _ fit [unfolded cap_def] R(3,6,2,7,8)]) (use r in \<open>simp_all add: c_def\<close>)
qed

lemma store_good:
  assumes t: "tree_good t" and i: "i < MAX_N" "n_synth (nodes t ! i) = SynNone" and safe: "store_safe i pos (length bs) t"
  shows "tree_good (snd (store i pos (of_nat (length bs)) bs t))"
proof -
  obtain t1 c where s: "store i pos (of_nat (length bs)) bs t = (of_nat c, node_store i pos (take c bs) t1)" "tree_ok t1"
    "c \<le> length bs" "unat pos + c \<le> unat (n_cap (nodes t1 ! i))" "\<And>j. j \<noteq> i \<Longrightarrow> nodes t1 ! j = nodes t ! j"
    "\<exists>b c. nodes t1 ! i = (nodes t ! i)\<lparr>n_buf := b, n_cap := c\<rparr>"
    by (rule store_spec [OF tree_goodD(1) [OF t] i safe]) blast
  have sy: "n_synth (nodes t1 ! i) = SynNone" using s(6) i(2) by auto
  have fit: "unat pos + length (take c bs) \<le> unat (n_cap (nodes t1 ! i))" using s(3,4) by simp
  note N = node_store_spec [OF s(2) i(1) sy fit]
  have "n_synth (nodes (node_store i pos (take c bs) t1) ! i) = SynNone"
    using sy tree_okD(1) [OF s(2)] i(1) by (simp add: node_store_def Let_def set_node_def)
  then have "synth_small (node_store i pos (take c bs) t1)"
    by (intro synth_small_change [OF tree_goodD(2) [OF t], of i]) (use N(2) s(5) in simp_all)
  with N(1) s(1) show ?thesis by (simp add: tree_good_def)
qed

definition write_safe :: "int \<Rightarrow> u8 list \<Rightarrow> ('d, 'e) vfs \<Rightarrow> bool" where
  "write_safe fd bs v \<longleftrightarrow>
     (case file_of fd v of
        None \<Rightarrow> True
      | Some f \<Rightarrow> vf_mount f \<noteq> 0 \<or> vf_node f < 0 \<or> n_dev (node_at f v) \<noteq> DevNone \<or> n_synth (node_at f v) \<noteq> SynNone \<or>
          store_safe (nat (vf_node f)) (write_pos f (node_at f v)) (length bs) (v_tree v))"

lemma count_whole:
  assumes "unat pos + length bs + 4095 < 2 ^ 32"
  shows "min (of_nat (length bs)) (0xFFFFFFFF - pos) = (of_nat (length bs) :: u32)"
proof -
  have "unat (0xFFFFFFFF - pos :: u32) = 0xFFFFFFFF - unat pos"
    using unat_sub [of pos "0xFFFFFFFF"] unsigned_less [where 'a = nat and w = pos] by (simp add: word_le_nat_alt)
  moreover have "unat (of_nat (length bs) :: u32) = length bs" using assms by (simp add: unat_of_nat)
  moreover from assms have "unat pos + length bs \<le> 0xFFFFFFFF" by simp
  then have "length bs \<le> 0xFFFFFFFF - unat pos" by linarith
  ultimately show ?thesis by (simp only: min_def word_le_nat_alt if_True)
qed

lemma write_node_ok:
  assumes v: "vfs_ok v" and i: "ni < MAX_N" "n_synth (nodes (v_tree v) ! ni) = SynNone" and fd: "fd < VFS_MAX_FD"
    and safe: "store_safe ni (write_pos (v_files v ! fd) (nodes (v_tree v) ! ni)) (length bs) (v_tree v)"
  shows "vfs_ok (snd (write_node ni fd bs v))"
proof -
  let ?pos = "write_pos (v_files v ! fd) (nodes (v_tree v) ! ni)"
  have "min (of_nat (length bs)) (0xFFFFFFFF - ?pos) = (of_nat (length bs) :: u32)"
    using safe count_whole [of ?pos bs] by (simp add: store_safe_def)
  with store_good [OF vfs_okD(1) [OF v] i safe] show ?thesis
    using v fd by (auto simp: write_node_def Let_def split_def vfs_okD(4) intro!: set_file_ok vfs_ok_tree)
qed

lemma vfs_write_ok:
  assumes v: "vfs_ok v" and safe: "write_safe fd bs v"
  shows "vfs_ok (snd (vfs_write eo cur fd bs v))"
proof (cases "file_of fd v")
  case (Some f)
  note F = file_of_SomeD [OF Some]
  show ?thesis
    using v safe Some F node_at_bound [OF v Some]
    by (auto simp: vfs_write_def Let_def write_safe_def node_at_def
        intro!: write_mounted_ok write_dev_ok set_sysctl_name_ok write_node_ok)
qed (simp add: vfs_write_def v)

lemma reserve_good:
  assumes t: "tree_good t" and i: "i < MAX_N" "n_synth (nodes t ! i) = SynNone" and need: "unat need + 4095 < 2 ^ 32"
    and r: "node_reserve i need t = (ok, t')"
  shows "tree_good t'"
proof -
  note R = node_reserve_spec [OF tree_goodD(1) [OF t] i(1) need disjI1 [OF i(2)] r]
  have "n_synth (nodes t' ! i) = SynNone" using R(6) i(2) by auto
  then have "synth_small t'" by (intro synth_small_change [OF tree_goodD(2) [OF t], of i]) (use R(3) in simp_all)
  with R(1) show ?thesis by (simp add: tree_good_def)
qed

lemma move_node_ok:
  assumes v: "vfs_ok v" and at: "length at < PATH_CAP"
  shows "vfs_ok (snd (move_node cur af at v))"
proof (cases "find_index af (v_tree v)")
  case (Some i)
  note I = find_index_Some [OF Some]
  show ?thesis
  proof (cases "n_dir (nodes (v_tree v) ! i) \<or> find_index at (v_tree v) \<noteq> None \<or> parent_dir at (v_tree v) = None")
    case False
    then have at': "find_index at (v_tree v) = None" by simp
    obtain r t1 where a: "add_node at False cur (v_tree v) = (r, t1)" by fastforce
    note A = add_node_spec [OF tree_goodD(1) [OF vfs_okD(1) [OF v]] at at' a]
    note G = add_good [OF vfs_okD(1) [OF v] at at' a]
    show ?thesis
    proof (cases r)
      case None
      then show ?thesis using False Some a v G(1) by (auto simp: move_node_def intro: vfs_ok_tree)
    next
      case (Some j)
      from A(3) [OF Some] I have ji: "j \<noteq> i" by metis
      with A(3) [OF Some] I have j: "j < MAX_N" "j \<noteq> i" "n_synth (nodes t1 ! j) = SynNone" "nodes t1 ! i = nodes (v_tree v) ! i"
        using tree_okD(1) [OF tree_goodD(1) [OF vfs_okD(1) [OF v]]] by (auto simp: no_node_def)
      let ?n = "nodes t1 ! i"
      let ?t2 = "set_node j ((nodes t1 ! j)\<lparr>n_perm := n_perm ?n, n_uid := n_uid ?n, n_gid := n_gid ?n\<rparr>) t1"
      have l: "length (nodes t1) = MAX_N" using tree_okD(1) [OF tree_goodD(1) [OF G(1)]] .
      have g2: "tree_good ?t2" by (rule tree_good_update [OF G(1) j(1)]) simp_all
      have s2: "n_synth (nodes ?t2 ! j) = SynNone" using j l by (simp add: set_node_def)
      obtain ok t3 where r3: "node_reserve j (n_size ?n) ?t2 = (ok, t3)" by fastforce
      have sb: "unat (n_size ?n) + 4095 < 2 ^ 32" using size_bound [OF G(1)] I by blast
      have g3: "tree_good t3" by (rule reserve_good [OF g2 j(1) s2 sb r3])
      note R = node_reserve_spec [OF tree_goodD(1) [OF g2] j(1) sb disjI1 [OF s2] r3]
      have sj: "n_synth (nodes t3 ! j) = SynNone" using R(6) s2 by auto
      have "tree_good (set_node j ((nodes t3 ! j)\<lparr>n_used := False\<rparr>) t3)" by (rule tree_good_update [OF g3 j(1)]) simp_all
      moreover have "tree_good (set_node j ((nodes t3 ! j)\<lparr>n_size := n_size ?n\<rparr>) (t3\<lparr>pool := (pool t3)\<lparr>ram := m\<rparr>\<rparr>))" if ok for m
      proof -
        have "tree_ok (set_node j ((nodes t3 ! j)\<lparr>n_size := n_size ?n\<rparr>) (t3\<lparr>pool := (pool t3)\<lparr>ram := m\<rparr>\<rparr>))"
          by (rule node_resize_ok [OF tree_goodD(1) [OF g3] j(1)]) (use R(4) that in simp)
        moreover have "synth_small (set_node j ((nodes t3 ! j)\<lparr>n_size := n_size ?n\<rparr>) (t3\<lparr>pool := (pool t3)\<lparr>ram := m\<rparr>\<rparr>))"
          by (rule synth_small_change [OF tree_goodD(2) [OF g3], of j])
             (use sj tree_okD(1) [OF tree_goodD(1) [OF g3]] in \<open>simp_all add: set_node_def\<close>)
        ultimately show ?thesis by (simp add: tree_good_def)
      qed
      ultimately show ?thesis
        using False a Some I r3 v \<open>find_index af (v_tree v) = Some i\<close>
        by (cases ok) (auto simp: move_node_def Let_def intro!: vfs_ok_tree release_good)
    qed
  qed (use Some v in \<open>auto simp: move_node_def\<close>)
qed (simp add: move_node_def v)

section \<open>Moving to and from a mount\<close>

text \<open>
  \<^verbatim>\<open>move_stream\<close> only makes writes that are safe: it opens the target at position 0 and writes it from
  there on, so every write starts inside the file. \<open>out_ok\<close> says so of the target's descriptor.
\<close>

lemma nodes_reserve:
  "\<exists>b d. nodes (snd (node_reserve i need t)) = (nodes t)[i := (nodes t ! i)\<lparr>n_buf := b, n_cap := d\<rparr>]"
proof -
  have "\<exists>b d. nodes t = (nodes t)[i := (nodes t ! i)\<lparr>n_buf := b, n_cap := d\<rparr>]"
    by (rule exI [of _ "n_buf (nodes t ! i)"], rule exI [of _ "n_cap (nodes t ! i)"]) simp
  then show ?thesis
    by (cases "need \<le> n_cap (nodes t ! i)"; cases "fst (alloc_contig (grow_pages need (n_cap (nodes t ! i))) (pool t)) = 0")
      (auto simp: node_reserve_def Let_def set_node_def split_def)
qed

lemma kind_set:
  "n_dev (nodes (node_set i d t) ! j) = n_dev (nodes t ! j)" "n_synth (nodes (node_set i d t) ! j) = n_synth (nodes t ! j)"
proof -
  obtain ok t1 where r: "node_reserve i (of_nat (length d)) t = (ok, t1)" by fastforce
  obtain b c where n: "nodes t1 = (nodes t)[i := (nodes t ! i)\<lparr>n_buf := b, n_cap := c\<rparr>]"
    using nodes_reserve [of i "of_nat (length d)" t] r by auto
  show "n_dev (nodes (node_set i d t) ! j) = n_dev (nodes t ! j)" "n_synth (nodes (node_set i d t) ! j) = n_synth (nodes t ! j)"
    by (cases "i < length (nodes t)"; cases "j = i"; simp add: node_set_def r set_node_def Let_def n list_update_beyond split: bool.split)+
qed

definition out_ok :: "int \<Rightarrow> ('d, 'e) vfs \<Rightarrow> bool" where
  "out_ok out v \<longleftrightarrow>
     (case file_of out v of
        None \<Rightarrow> True
      | Some f \<Rightarrow> vf_mount f \<noteq> 0 \<or> vf_node f < 0 \<or> n_dev (node_at f v) \<noteq> DevNone \<or> n_synth (node_at f v) \<noteq> SynNone \<or>
          write_pos f (node_at f v) \<le> n_size (node_at f v))"

lemma out_ok_same:
  "out_ok out v \<Longrightarrow> v_tree v' = v_tree v \<Longrightarrow> (0 \<le> out \<Longrightarrow> v_files v' ! nat out = v_files v ! nat out) \<Longrightarrow> out_ok out v'"
  by (auto simp: out_ok_def file_of_def node_at_def split: option.splits if_splits)

lemma out_safe:
  assumes "vfs_ok v" "out_ok out v" "length bs < 2 ^ 31"
  shows "write_safe out bs v"
proof -
  have ok: "tree_ok (v_tree v)" by (rule tree_goodD(1) [OF vfs_okD(1) [OF assms(1)]])
  have "store_safe (nat (vf_node f)) (write_pos f (node_at f v)) (length bs) (v_tree v)"
    if f: "file_of out v = Some f" "\<not> vf_node f < 0" "n_synth (node_at f v) = SynNone" "write_pos f (node_at f v) \<le> n_size (node_at f v)" for f
  proof -
    let ?i = "nat (vf_node f)"
    have i: "?i < MAX_N" by (rule node_at_bound [OF assms(1) f(1,2)])
    note N = node_okD [OF tree_okD(3) [OF ok i]]
    have "unat (write_pos f (node_at f v)) \<le> unat (n_size (nodes (v_tree v) ! ?i))"
      using f(4) by (simp add: word_le_nat_alt node_at_def)
    also have "\<dots> \<le> 5488 * 4096" using N(2) pages_bound [OF tree_okD(2) [OF ok] N(4)] f(3) by (simp add: node_at_def)
    finally show ?thesis using assms(3) f(4) by (simp add: store_safe_def node_at_def)
  qed
  with assms(2) show ?thesis by (auto simp: out_ok_def write_safe_def split: option.splits)
qed

lemma kind_set_path:
  "n_dev (nodes (v_tree (snd (vfs_set_path cur path d v))) ! j) = n_dev (nodes (v_tree v) ! j)"
  "n_synth (nodes (v_tree (snd (vfs_set_path cur path d v))) ! j) = n_synth (nodes (v_tree v) ! j)"
  "v_files (snd (vfs_set_path cur path d v)) = v_files v"
  by (simp_all add: vfs_set_path_def Let_def split_def kind_set split: option.split)

lemma write_node_out:
  assumes "nat fd < VFS_MAX_FD" "length (v_files v) = VFS_MAX_FD" and f: "f = v_files v ! nat fd" "vf_used f" "0 \<le> fd"
    and i: "vf_node f = int i" "i < length (nodes (v_tree v))" and p: "write_pos f (nodes (v_tree v) ! i) \<le> n_size (nodes (v_tree v) ! i)"
  shows "out_ok fd (snd (write_node i (nat fd) bs v))"
proof -
  let ?n = "nodes (v_tree v) ! i"
  define pos where "pos = write_pos f ?n"
  define count where "count = min (of_nat (length bs)) (0xFFFFFFFF - pos)"
  define t' where "t' = snd (store i pos count bs (v_tree v))"
  define c where "c = fst (store i pos count bs (v_tree v))"
  obtain ok t1 where r: "node_reserve i (pos + count) (v_tree v) = (ok, t1)" by fastforce
  obtain b d where n: "nodes t1 = (nodes (v_tree v))[i := ?n\<lparr>n_buf := b, n_cap := d\<rparr>]"
    using nodes_reserve [of i "pos + count" "v_tree v"] r by auto
  have "c \<le> count" by (auto simp: c_def store_def r Let_def)
  also have "count \<le> of_nat (length bs)" by (simp add: count_def)
  finally have cb: "c \<le> of_nat (length bs)" .
  have t': "t' = node_store i pos (take (unat c) bs) t1" by (simp add: t'_def c_def store_def r Let_def)
  have "unat (of_nat (length bs) :: u32) \<le> length bs" by (simp add: unat_of_nat)
  then have "unat c \<le> length bs" using cb by (simp add: word_le_nat_alt)
  then have l: "of_nat (length (take (unat c) bs)) = c" by (simp add: min_def)
  have "n_size (nodes t' ! i) = (if pos + c > n_size ?n then pos + c else n_size ?n)"
    using i(2) unfolding t' node_store_def Let_def l by (simp add: set_node_def n)
  then have sz: "pos + c \<le> n_size (nodes t' ! i)" by auto
  have w: "snd (write_node i (nat fd) bs v) =
      (if over_quota ?n (pos + count) (v_tree v) then set_file (nat fd) (f\<lparr>vf_position := pos\<rparr>) v
       else (set_file (nat fd) (f\<lparr>vf_position := pos + c\<rparr>) (set_file (nat fd) (f\<lparr>vf_position := pos\<rparr>) v))\<lparr>v_tree := t'\<rparr>)"
    unfolding write_node_def Let_def c_def t'_def pos_def count_def f(1) by (simp add: split_def)
  show ?thesis
    using assms(1,2) f i p sz unfolding w
    by (auto simp: out_ok_def file_of_def node_at_def write_pos_def pos_def)
qed

lemma write_mounted_out:
  assumes "file_of out v = Some f" "vf_mount f \<noteq> 0" "length (v_files v) = VFS_MAX_FD"
  shows "out_ok out (snd (write_mounted (nat out) bs v))"
  using assms file_of_SomeD [OF assms(1)]
  by (auto simp: out_ok_def file_of_def write_mounted_def Let_def split_def split: option.split)

lemma advance_files:
  "fd < length (v_files v) \<Longrightarrow> v_files (advance fd k v) ! fd = (v_files v ! fd)\<lparr>vf_position := vf_position (v_files v ! fd) + k\<rparr>"
  "v_tree (advance fd k v) = v_tree v"
  by (simp_all add: advance_def)

lemma write_dev_same:
  assumes "fd < length (v_files v)"
  shows "v_tree (snd (write_dev eo n fd bs v)) = v_tree v \<and>
    (\<exists>p. v_files (snd (write_dev eo n fd bs v)) ! fd = (v_files v ! fd)\<lparr>vf_position := p\<rparr>)"
proof -
  have "\<exists>p. v_files v ! fd = (v_files v ! fd)\<lparr>vf_position := p\<rparr>" by (rule exI [of _ "vf_position (v_files v ! fd)"]) simp
  then show ?thesis
    using assms by (cases "n_dev n") (auto simp: write_dev_def Let_def split_def advance_files)
qed

lemma write_dev_out:
  assumes "file_of out v = Some f" "n_dev (node_at f v) \<noteq> DevNone" "length (v_files v) = VFS_MAX_FD"
  shows "out_ok out (snd (write_dev eo (node_at f v) (nat out) bs v))"
proof -
  note F = file_of_SomeD [OF assms(1)]
  with write_dev_same [of "nat out" v eo "node_at f v" bs] assms show ?thesis
    by (auto simp: out_ok_def file_of_def node_at_def)
qed

lemma set_sysctl_out:
  assumes "file_of out v = Some f" "n_synth (node_at f v) \<noteq> SynNone"
  shows "out_ok out (snd (set_sysctl_name cur bs h v))"
  using assms file_of_SomeD [OF assms(1)]
  by (auto simp: out_ok_def file_of_def set_sysctl_name_def host_set_def kind_set_path node_at_def Let_def split_def)

lemma write_out:
  assumes v: "vfs_ok v" and out: "out_ok out v"
  shows "out_ok out (snd (vfs_write eo cur out bs v))"
proof (cases "file_of out v")
  case (Some f)
  note F = file_of_SomeD [OF Some] and L = vfs_okD(2) [OF v]
  have "out_ok out (snd (write_node (nat (vf_node f)) (nat out) bs v))"
    if "\<not> vf_node f < 0" "n_dev (node_at f v) = DevNone" "n_synth (node_at f v) = SynNone" "vf_mount f = 0"
    using that out Some F L node_at_bound [OF v Some that(1)] tree_okD(1) [OF tree_goodD(1) [OF vfs_okD(1) [OF v]]]
    by (intro write_node_out [of _ _ f]) (auto simp: out_ok_def node_at_def)
  then show ?thesis
    using out write_mounted_out [OF Some _ L] write_dev_out [OF Some _ L] set_sysctl_out [OF Some] Some
    by (simp add: vfs_write_def Let_def)
qed (simp add: vfs_write_def out)

lemma advance_other: "fd \<noteq> k \<Longrightarrow> v_files (advance fd n v) ! k = v_files v ! k"
  by (simp add: advance_def)

lemma read_dev_same:
  "v_tree (snd (snd (read_dev eo cur n fd count v))) = v_tree v"
  "fd \<noteq> k \<Longrightarrow> v_files (snd (snd (read_dev eo cur n fd count v))) ! k = v_files v ! k"
  by (cases "n_dev n"; simp add: read_dev_def Let_def split_def advance_files advance_other split: option.split)+

lemma read_out:
  assumes "out_ok out v" "fin \<noteq> out"
  shows "out_ok out (snd (snd (vfs_read eo cur fin count v)))"
proof (rule out_ok_same [OF assms(1)])
  show "v_tree (snd (snd (vfs_read eo cur fin count v))) = v_tree v"
    by (simp add: vfs_read_def read_dev_same read_node_def Let_def split_def advance_files split: option.split)
  assume "0 \<le> out"
  then have "file_of fin v = Some f \<Longrightarrow> nat fin \<noteq> nat out" for f using assms(2) file_of_SomeD [of fin v f] by auto
  then show "v_files (snd (snd (vfs_read eo cur fin count v))) ! nat out = v_files v ! nat out"
    by (simp add: vfs_read_def read_dev_same read_node_def Let_def split_def advance_other split: option.split)
qed

lemma read_result:
  assumes "unat count < 2 ^ 31"
  shows "fst (vfs_read eo cur fin count v) < 2 ^ 31"
proof -
  have s: "sint (w :: u32) < 2147483648" for w using sint_lt [of w] by simp
  have n: "- VNU_EBADF < 2 ^ 31" "- VNU_EISDIR < 2 ^ 31" "- VNU_EIO < 2 ^ 31" "- VNU_EACCES < 2 ^ 31" "- VNU_EINVAL < 2 ^ 31" "- VNU_ENODEV < 2 ^ 31"
    by (simp_all add: VNU_EBADF_def VNU_EISDIR_def VNU_EIO_def VNU_EACCES_def VNU_EINVAL_def VNU_ENODEV_def)
  have b: "fst (blk_read a devs idx off len h) < 2 ^ 31" for a devs idx off len and h :: 'a
    by (auto simp: blk_read_def Let_def split_def s split: option.split)
  have "length (clip_read_at pos count c) \<le> unat count" for pos c
    by (auto simp: clip_read_at_def Let_def word_less_nat_alt)
  then have c: "int (length (clip_read_at pos count c)) < 2 ^ 31" for pos c
    using assms by (meson le_less_trans numeral_power_less_of_nat_cancel_iff of_nat_less_numeral_power_cancel_iff)
  show ?thesis
    using s n b c by (auto simp: vfs_read_def read_dev_def read_node_def Let_def split_def split: option.split dev_kind.split)
qed

text \<open>The two loops keep the invariant, whenever they end.\<close>

lemma write_all_ok:
  assumes "write_all eo cur out bs v = Some w" "vfs_ok v" "out_ok out v" "length bs < 2 ^ 31"
  shows "vfs_ok (snd w) \<and> out_ok out (snd w)"
proof -
  have "vfs_ok v \<and> out_ok out v \<and> length bs < 2 ^ 31 \<longrightarrow> vfs_ok (snd w) \<and> out_ok out (snd w)"
  proof (rule write_all.raw_induct [OF _ assms(1),
        where P = "\<lambda>eo cur out bs v w. vfs_ok v \<and> out_ok out v \<and> length bs < 2 ^ 31 \<longrightarrow> vfs_ok (snd w) \<and> out_ok out (snd w)"])
    fix loop eo cur out bs and v :: "('a, 'b) vfs" and w
    assume IH: "\<And>eo cur out bs v w. loop eo cur out bs v = Some w \<Longrightarrow>
        vfs_ok v \<and> out_ok out v \<and> length bs < 2 ^ 31 \<longrightarrow> vfs_ok (snd w) \<and> out_ok out (snd w)"
      and e: "(if bs = [] then Some (0, v) else let r = vfs_write eo cur out bs v
        in if fst r < 0 then Some r else loop eo cur out (drop (nat (fst r)) bs) (snd r)) = Some w"
    show "vfs_ok v \<and> out_ok out v \<and> length bs < 2 ^ 31 \<longrightarrow> vfs_ok (snd w) \<and> out_ok out (snd w)"
    proof (intro impI, elim conjE)
      assume v: "vfs_ok v" "out_ok out v" "length bs < 2 ^ 31"
      note s = vfs_write_ok [OF v(1) out_safe [OF v], of eo cur] write_out [OF v(1,2), of eo cur bs]
      show "vfs_ok (snd w) \<and> out_ok out (snd w)"
        using e v s IH [of eo cur out _ "snd (vfs_write eo cur out bs v)" w] by (auto simp: Let_def split: if_splits)
    qed
  qed
  with assms show ?thesis by blast
qed

lemma copy_all_ok:
  assumes "copy_all eo cur fin out v = Some w" "vfs_ok v" "out_ok out v" "fin \<noteq> out"
  shows "vfs_ok (snd w)"
proof -
  have "vfs_ok v \<and> out_ok out v \<and> fin \<noteq> out \<longrightarrow> vfs_ok (snd w)"
  proof (rule copy_all.raw_induct [OF _ assms(1),
        where P = "\<lambda>eo cur fin out v w. vfs_ok v \<and> out_ok out v \<and> fin \<noteq> out \<longrightarrow> vfs_ok (snd w)"])
    fix loop eo cur fin out and v :: "('a, 'b) vfs" and w
    let ?r = "vfs_read eo cur fin 4096 v"
    let ?w = "write_all eo cur out (take (nat (fst ?r)) (fst (snd ?r))) (snd (snd ?r))"
    assume IH: "\<And>eo cur fin out v w. loop eo cur fin out v = Some w \<Longrightarrow> vfs_ok v \<and> out_ok out v \<and> fin \<noteq> out \<longrightarrow> vfs_ok (snd w)"
      and e: "(let r = vfs_read eo cur fin 4096 v
        in if fst r \<le> 0 then Some (fst r, snd (snd r))
           else case write_all eo cur out (take (nat (fst r)) (fst (snd r))) (snd (snd r)) of
                  None \<Rightarrow> None | Some w \<Rightarrow> if fst w < 0 then Some w else loop eo cur fin out (snd w)) = Some w"
    show "vfs_ok v \<and> out_ok out v \<and> fin \<noteq> out \<longrightarrow> vfs_ok (snd w)"
    proof (intro impI, elim conjE)
      assume v: "vfs_ok v" "out_ok out v" "fin \<noteq> out"
      have "nat (fst ?r) < 2 ^ 31" using read_result [of 4096 eo cur fin v] by (simp add: nat_less_iff)
      then have l: "length (take (nat (fst ?r)) (fst (snd ?r))) < 2 ^ 31" by simp
      note r = vfs_read_ok [OF v(1), of eo cur fin 4096] read_out [OF v(2,3), of eo cur 4096] l
      show "vfs_ok (snd w)"
        using e v(3) r(1) write_all_ok [OF _ r, of eo cur] IH [of eo cur fin out _ w]
        by (auto simp: Let_def split: if_splits option.splits)
    qed
  qed
  with assms show ?thesis by blast
qed

text \<open>A successful open takes a descriptor that was free and leaves it at position 0.\<close>

definition opened :: "('d, 'e) vfs \<Rightarrow> int \<times> ('d, 'e) vfs \<Rightarrow> bool" where
  "opened v r \<longleftrightarrow> fst r < 0 \<or>
     (\<exists>i f. fst r = int i \<and> i < VFS_MAX_FD \<and> \<not> vf_used (v_files v ! i) \<and> vf_used f \<and> vf_position f = 0 \<and>
        v_files (snd r) = (v_files v)[i := f])"

lemmas open_errno_defs = VNU_EIO_def VNU_ENOENT_def VNU_EINVAL_def VNU_EISDIR_def VNU_ENOSPC_def VNU_EACCES_def VNU_ENODEV_def

lemma open_look_error: "open_look subdir rel creat fs = (Inl e, fs') \<Longrightarrow> e < 0"
  by (auto simp: open_look_def Let_def split_def open_errno_defs split: if_splits option.splits prod.splits)

lemma openedI:
  "free_fd v' = Some i \<Longrightarrow> v_files v' = v_files v \<Longrightarrow> vf_used f \<Longrightarrow> vf_position f = 0 \<Longrightarrow>
     v_files (snd r) = (v_files v)[i := f] \<Longrightarrow> fst r = int i \<Longrightarrow> opened v r"
  by (auto simp: opened_def dest!: free_fd_bound)

lemma opened_error: "fst r < 0 \<Longrightarrow> opened v r"
  by (simp add: opened_def)

lemma open_mount_fd: "opened v (open_mount cur k rel flags v)"
proof -
  let ?o = "on_mount k (open_look (m_subdir (v_mounts v ! k)) rel (flags AND O_CREAT \<noteq> 0)) v"
  have neg: "fst ?o = Inl e \<Longrightarrow> e < 0" for e
    by (auto simp: on_mount_def Let_def split_def intro: open_look_error [OF prod_eqI])
  show ?thesis
  proof (cases "fst ?o")
    case (Inl e)
    then show ?thesis using neg [OF Inl] by (auto simp: open_mount_def split_def intro!: opened_error)
  next
    case (Inr x)
    obtain d c z name where x: "x = (d, c, z, name)" by (metis prod_cases4)
    show ?thesis
    proof (cases "free_fd (snd ?o)")
      case None
      then show ?thesis using Inr x by (auto simp: open_mount_def split_def open_errno_defs intro!: opened_error)
    next
      case (Some i)
      define f where "f = no_file\<lparr>vf_used := True, vf_flags := flags, vf_owner := cur_pid cur, vf_mount := k + 1,
          vf_dir_clu := c, vf_fsize := (if d then 0 else of_nat z), vf_fname := name\<rparr>"
      let ?t = "on_mount k (fat_truncate c (bytes_of name) 0) (set_file i f (snd ?o))"
      consider (bad) "d \<and> flags AND 3 = O_WRONLY"
        | (cut) "\<not> (d \<and> flags AND 3 = O_WRONLY)" "\<not> d \<and> flags AND O_TRUNC \<noteq> 0 \<and> z \<noteq> 0"
        | (plain) "\<not> (d \<and> flags AND 3 = O_WRONLY)" "\<not> (\<not> d \<and> flags AND O_TRUNC \<noteq> 0 \<and> z \<noteq> 0)" by blast
      then show ?thesis
      proof cases
        case bad
        then show ?thesis using Inr x Some by (auto simp: open_mount_def split_def open_errno_defs intro!: opened_error)
      next
        case cut
        then have e: "open_mount cur k rel flags v =
            (case fst ?t of None \<Rightarrow> (- VNU_EIO, snd ?t) | Some _ \<Rightarrow> (int i, set_file i (f\<lparr>vf_fsize := 0\<rparr>) (snd ?t)))"
          using Inr x Some by (simp add: open_mount_def split_def f_def Let_def split: option.split)
        show ?thesis
        proof (cases "fst ?t")
          case None
          with e show ?thesis by (auto simp: open_errno_defs intro!: opened_error)
        next
          case (Some y)
          have f: "vf_used (f\<lparr>vf_fsize := 0\<rparr>)" "vf_position (f\<lparr>vf_fsize := 0\<rparr>) = 0" by (simp_all add: f_def no_file_def)
          show ?thesis unfolding e Some option.case
            by (rule openedI [OF \<open>free_fd (snd ?o) = Some i\<close> _ f]) simp_all
        qed
      next
        case plain
        show ?thesis
          by (rule openedI [OF Some, of v f]) (use plain Inr x Some in \<open>auto simp: open_mount_def split_def f_def Let_def no_file_def\<close>)
      qed
    qed
  qed
qed

lemma install_fd_fd:
  assumes "v_files v' = v_files v"
  shows "opened v (install_fd cur ni flags v')"
proof (cases "free_fd v'")
  case (Some i)
  show ?thesis
    by (rule openedI [OF Some assms, where f = "no_file\<lparr>vf_used := True, vf_flags := flags, vf_node := int ni, vf_owner := cur_pid cur\<rparr>"])
      (simp_all add: install_fd_def Some Let_def assms, simp add: no_file_def)
qed (simp add: install_fd_def open_errno_defs opened_error)

lemma open_node_fd: "v_files v' = v_files v \<Longrightarrow> opened v (open_node eo cur ni flags v')"
proof -
  assume a: "v_files v' = v_files v"
  have "v_files (refresh eo cur ni v') = v_files v" by (simp add: a refresh_def regen_synth_def Let_def)
  then show ?thesis
    by (auto simp: open_node_def Let_def split_def fb_open_def intro!: install_fd_fd) (auto simp: opened_def open_errno_defs)
qed

lemma vfs_open_fd: "opened v (vfs_open eo cur path flags v)"
  unfolding vfs_open_def Let_def
  by (auto split: option.split prod.split intro!: open_mount_fd open_node_fd) (auto simp: opened_def open_errno_defs)

lemma move_stream_ok:
  assumes e: "texts_fit eo" and v: "vfs_ok v" and m: "move_stream eo cur af at v = Some r"
  shows "vfs_ok (snd r)"
proof -
  obtain s v1 where st: "vfs_stat eo cur at v = (s, v1)" by fastforce
  obtain fin v2 where o1: "vfs_open eo cur af 0 v1 = (fin, v2)" by fastforce
  obtain out v3 where o2: "vfs_open eo cur at (O_WRONLY OR O_CREAT OR O_TRUNC) v2 = (out, v3)" by fastforce
  have v1: "vfs_ok v1" using vfs_stat_ok [OF e v, of cur at] st by simp
  have v2: "vfs_ok v2" using vfs_open_ok [OF e v1, of cur af 0] o1 by simp
  have v3: "vfs_ok v3" using vfs_open_ok [OF e v2, of cur at "O_WRONLY OR O_CREAT OR O_TRUNC"] o2 by simp
  have "vfs_ok v4" if a: "0 \<le> fin" "0 \<le> out" "copy_all eo cur fin out v3 = Some (x, v4)" for x v4
  proof -
    note L = vfs_okD(2) [OF v1] vfs_okD(2) [OF v2]
    from vfs_open_fd [of v1 eo cur af 0] a(1) L(1) have "vf_used (v_files v2 ! nat fin)" by (auto simp: o1 opened_def)
    moreover obtain i f where i: "out = int i" "i < VFS_MAX_FD" "\<not> vf_used (v_files v2 ! i)" "vf_position f = 0" "v_files v3 = (v_files v2)[i := f]"
      using vfs_open_fd [of v2 eo cur at "O_WRONLY OR O_CREAT OR O_TRUNC"] a(2) by (auto simp: o2 opened_def)
    ultimately have "fin \<noteq> out" by auto
    moreover have "out_ok out v3" using i L(2) by (auto simp: out_ok_def file_of_def write_pos_def)
    ultimately show ?thesis using copy_all_ok [OF a(3) v3] by simp
  qed
  with m v1 v2 v3 show ?thesis
    by (auto simp: move_stream_def st o1 o2 Let_def vfs_close_ok vfs_unlink_ok split: sum.splits option.splits if_splits)
qed

lemma move_file_ok:
  assumes "texts_fit eo" "vfs_ok v" "move_file eo cur from to v = Some r"
  shows "vfs_ok (snd r)"
  using assms move_stream_ok [OF assms(1,2)] move_node_ok [OF assms(2) normalize_short]
  by (auto simp: move_file_def Let_def split: if_splits)

section \<open>Reachable states\<close>

text \<open>
  One call of the file system by any process, with any arguments but two. A write to a regular file of the
  tree is \<open>write_safe\<close>: it starts inside the file or finds the memory it asks for, and it ends 4095 bytes or
  more below the 32-bit limit; a \<^verbatim>\<open>set_path\<close> stores a text that ends there too. Outside these conditions the
  code breaks the invariant: that is proved below for a write past the end with no memory left, and in
  \<^verbatim>\<open>Vfs_Nodes\<close> for a request at the 32-bit limit. A move that does not end has no step.
\<close>

inductive vfs_call :: "('d, 'e) env_ops \<Rightarrow> ('d, 'e) vfs \<Rightarrow> ('d, 'e) vfs \<Rightarrow> bool" for eo where
  open_call: "vfs_call eo v (snd (vfs_open eo cur path flags v))"
| close_call: "vfs_call eo v (snd (vfs_close eo fd v))"
| exit_call: "vfs_call eo v (vfs_close_all_of eo pid v)"
| dup_call: "vfs_call eo v (snd (vfs_dup_fd cur fd v))"
| dup2_call: "vfs_call eo v (snd (vfs_dup2_fd cur fd fd' v))"
| read_call: "vfs_call eo v (snd (snd (vfs_read eo cur fd count v)))"
| write_call: "write_safe fd bs v \<Longrightarrow> vfs_call eo v (snd (vfs_write eo cur fd bs v))"
| lseek_call: "vfs_call eo v (snd (vfs_lseek eo fd offset whence v))"
| stat_call: "vfs_call eo v (snd (vfs_stat eo cur path v))"
| touch_call: "vfs_call eo v (snd (vfs_touch cur path v))"
| mkdir_call: "vfs_call eo v (snd (vfs_mkdir cur path v))"
| rmdir_call: "vfs_call eo v (snd (vfs_rmdir cur path v))"
| unlink_call: "vfs_call eo v (snd (vfs_unlink cur path v))"
| remove_call: "vfs_call eo v (snd (vfs_remove eo cur path v))"
| move_call: "move_file eo cur from to v = Some (r, v') \<Longrightarrow> vfs_call eo v v'"
| set_path_call: "length data + 4095 < 2 ^ 32 \<Longrightarrow> vfs_call eo v (snd (vfs_set_path cur path data v))"
| read_path_call: "vfs_call eo v (snd (snd (vfs_read_path path count v)))"
| getdents_call: "vfs_call eo v (snd (snd (vfs_getdents cur fd count v)))"
| chdir_call: "vfs_call eo v (snd (vfs_chdir cur path v))"
| chmod_call: "vfs_call eo v (snd (vfs_chmod cur path mode v))"
| chown_call: "vfs_call eo v (snd (vfs_chown cur path uid gid v))"

inductive_cases vfs_callE: "vfs_call eo v v'"

lemma vfs_call_ok:
  assumes "texts_fit eo" "vfs_call eo v v'" "vfs_ok v"
  shows "vfs_ok v'"
  using assms(2,3)
proof (cases rule: vfs_call.cases)
  case (move_call cur src dst r)
  with move_file_ok [OF assms(1,3), of cur src dst] show ?thesis by simp
qed (use assms in \<open>simp_all add: vfs_open_ok vfs_close_ok vfs_close_all_of_ok vfs_dup_fd_ok vfs_dup2_fd_ok vfs_read_ok vfs_write_ok vfs_lseek_ok
     vfs_stat_ok vfs_touch_ok vfs_mkdir_ok vfs_rmdir_ok vfs_unlink_ok vfs_remove_ok vfs_set_path_ok vfs_read_path_ok vfs_getdents_ok
     vfs_chdir_ok vfs_chmod_ok vfs_chown_ok\<close>)

lemma vfs_calls_ok: "(vfs_call eo)\<^sup>*\<^sup>* v v' \<Longrightarrow> texts_fit eo \<Longrightarrow> vfs_ok v \<Longrightarrow> vfs_ok v'"
  by (induction rule: rtranclp_induct) (simp_all add: vfs_call_ok)

section \<open>Regular files\<close>

text \<open>\<open>fd\<close> is a descriptor on the regular file at node \<open>i\<close>, and the caller may use it for \<open>want\<close>.\<close>

definition file_on :: "int \<Rightarrow> nat \<Rightarrow> caller \<Rightarrow> u16 \<Rightarrow> ('d, 'e) vfs \<Rightarrow> bool" where
  "file_on fd i cur want v \<longleftrightarrow>
     (case file_of fd v of
        None \<Rightarrow> False
      | Some f \<Rightarrow> vf_mount f = 0 \<and> vf_node f = int i \<and> n_used (nodes (v_tree v) ! i) \<and> \<not> n_dir (nodes (v_tree v) ! i) \<and>
          n_dev (nodes (v_tree v) ! i) = DevNone \<and> n_synth (nodes (v_tree v) ! i) = SynNone \<and> have_access cur (nodes (v_tree v) ! i) want)"

lemma file_onD:
  assumes "file_on fd i cur want v"
  shows "0 \<le> fd" "nat fd < VFS_MAX_FD" "file_of fd v = Some (v_files v ! nat fd)" "vf_mount (v_files v ! nat fd) = 0"
    "vf_node (v_files v ! nat fd) = int i" "n_used (nodes (v_tree v) ! i)" "\<not> n_dir (nodes (v_tree v) ! i)"
    "n_dev (nodes (v_tree v) ! i) = DevNone" "n_synth (nodes (v_tree v) ! i) = SynNone" "have_access cur (nodes (v_tree v) ! i) want"
    "vf_used (v_files v ! nat fd)"
  using assms file_of_SomeD by (auto simp: file_on_def split: option.splits)

lemma file_on_bound: "vfs_ok v \<Longrightarrow> file_on fd i cur want v \<Longrightarrow> i < MAX_N"
  using node_at_bound [of v fd] file_onD(3,5) [of fd i cur want v] by force

lemma write_file_on: "file_on fd i cur A_W v \<Longrightarrow> vfs_write eo cur fd bs v = write_node i (nat fd) bs v"
  using file_onD [of fd i cur A_W v] by (simp add: vfs_write_def node_at_def)

lemma read_file_on: "file_on fd i cur A_R v \<Longrightarrow> vfs_read eo cur fd count v = read_node (nodes (v_tree v) ! i) (nat fd) count v"
  using file_onD [of fd i cur A_R v] by (simp add: vfs_read_def node_at_def)

lemma length_node_bytes [simp]: "length (node_bytes i t) = unat (n_size (nodes t ! i))"
  by (simp add: node_bytes_def get_ram_def)

lemma node_bytes_nth: "k < unat (n_size (nodes t ! i)) \<Longrightarrow> node_bytes i t ! k = ram (pool t) (n_buf (nodes t ! i) + of_nat k)"
  by (simp add: node_bytes_def get_ram_def)

lemma store_content:
  assumes t: "tree_ok t" and i: "i < MAX_N" "n_synth (nodes t ! i) = SynNone" and pos: "pos \<le> n_size (nodes t ! i)" "unat pos + length bs + 4095 < 2 ^ 32"
  obtains c t' where "store i pos (of_nat (length bs)) bs t = (of_nat c, t')" "c \<le> length bs"
    "fst (node_reserve i (pos + of_nat (length bs)) t) \<Longrightarrow> c = length bs" "tree_ok t'"
    "node_bytes i t' = overwrite (unat pos) (take c bs) (node_bytes i t)"
    "\<And>j. j < MAX_N \<Longrightarrow> j \<noteq> i \<Longrightarrow> nodes t' ! j = nodes t ! j"
    "\<And>j. j < MAX_N \<Longrightarrow> j \<noteq> i \<Longrightarrow> n_synth (nodes t ! j) = SynNone \<Longrightarrow> node_bytes j t' = node_bytes j t"
    "\<exists>b c z. nodes t' ! i = (nodes t ! i)\<lparr>n_buf := b, n_cap := c, n_size := z\<rparr>"
    "quota_entries t' = quota_entries t" "quota_default_bytes t' = quota_default_bytes t"
proof -
  have safe: "store_safe i pos (length bs) t" using pos by (simp add: store_safe_def)
  obtain t1 c where s: "store i pos (of_nat (length bs)) bs t = (of_nat c, node_store i pos (take c bs) t1)" "tree_ok t1"
    "c \<le> length bs" "fst (node_reserve i (pos + of_nat (length bs)) t) \<Longrightarrow> c = length bs"
    "unat pos + c \<le> unat (n_cap (nodes t1 ! i))" "\<And>j. j \<noteq> i \<Longrightarrow> nodes t1 ! j = nodes t ! j"
    "\<exists>b c. nodes t1 ! i = (nodes t ! i)\<lparr>n_buf := b, n_cap := c\<rparr>"
    "\<And>j. j < MAX_N \<Longrightarrow> n_synth (nodes t ! j) = SynNone \<Longrightarrow> node_bytes j t1 = node_bytes j t"
    "quota_entries t1 = quota_entries t" "quota_default_bytes t1 = quota_default_bytes t" using store_spec [OF t i safe, of thesis] by simp
  have sy: "n_synth (nodes t1 ! i) = SynNone" and sz: "n_size (nodes t1 ! i) = n_size (nodes t ! i)" using s(7) i(2) by auto
  have fit: "unat pos + length (take c bs) \<le> unat (n_cap (nodes t1 ! i))" using s(3,5) by simp
  let ?t = "node_store i pos (take c bs) t1"
  note N = node_store_spec [OF s(2) i(1) sy fit]
  have p: "unat pos \<le> length (node_bytes i t)" using pos(1) by (simp add: word_le_nat_alt)
  have len: "length (node_bytes i ?t) = length (overwrite (unat pos) (take c bs) (node_bytes i t))"
    using N(4) by (simp add: length_overwrite [OF p] sz)
  have e1: "node_bytes i ?t = overwrite (unat pos) (take c bs) (node_bytes i t)"
  proof (rule nth_equalityI [OF len])
    fix k assume "k < length (node_bytes i ?t)"
    then have k: "k < unat (n_size (nodes ?t ! i))" "k < max (length (node_bytes i t)) (unat pos + length (take c bs))"
      using N(4) sz by simp_all
    have "ram (pool t1) (n_buf (nodes t1 ! i) + of_nat k) = node_bytes i t ! k" if "k < unat (n_size (nodes t ! i))"
      using node_bytes_nth [of k t1 i] that sz s(8) [OF i] by simp
    moreover have "\<not> (unat pos \<le> k \<and> k < unat pos + length (take c bs)) \<Longrightarrow> k < unat (n_size (nodes t ! i))"
      using k(2) p by (auto simp: max_def split: if_splits)
    ultimately show "node_bytes i ?t ! k = overwrite (unat pos) (take c bs) (node_bytes i t) ! k"
      unfolding N(5) [OF k(1)] overwrite_nth [OF p k(2)] by simp
  qed
  have e2: "\<And>j. j < MAX_N \<Longrightarrow> j \<noteq> i \<Longrightarrow> nodes ?t ! j = nodes t ! j" using N(2) s(6) by simp
  have e3: "\<And>j. j < MAX_N \<Longrightarrow> j \<noteq> i \<Longrightarrow> n_synth (nodes t ! j) = SynNone \<Longrightarrow> node_bytes j ?t = node_bytes j t"
    using N(3) s(6,8) by simp
  obtain b d where bd: "nodes t1 ! i = (nodes t ! i)\<lparr>n_buf := b, n_cap := d\<rparr>" using s(7) by blast
  have e4: "\<exists>b c z. nodes ?t ! i = (nodes t ! i)\<lparr>n_buf := b, n_cap := c, n_size := z\<rparr>"
    by (rule exI [of _ b], rule exI [of _ d], rule exI [of _ "n_size (nodes ?t ! i)"])
       (use tree_okD(1) [OF s(2)] i(1) in \<open>simp add: node_store_def Let_def set_node_def bd\<close>)
  have e5: "quota_entries ?t = quota_entries t" "quota_default_bytes ?t = quota_default_bytes t"
    using s(9,10) by (simp_all add: node_store_def Let_def set_node_def)
  show ?thesis by (rule that [OF s(1,3,4) N(1) e1 e2 e3 e4 e5])
qed

section \<open>A concrete system\<close>

text \<open>
  The tree \<open>demo_tree\<close> with descriptor 3 open for reading and writing on \<^verbatim>\<open>/etc/motd\<close>, no disks and no display.
\<close>

definition demo_ops :: "(unit, unit) env_ops" where
  "demo_ops = \<lparr>eo_ata = \<lparr>a_drive_count = 0, a_sectors = \<lambda>_. 0, a_read = \<lambda>_ _ _ _. None, a_write = \<lambda>_ _ _ h. (False, h)\<rparr>,
     eo_synth = \<lambda>_ _ _. [], eo_fb_ensure_frame = \<lambda>e. (PrepRefused, e), eo_fb_map_for = \<lambda>_ e. (False, e),
     eo_fb_undo_open = \<lambda>_ e. e, eo_fb_release = \<lambda>e. e, eo_fb_info = \<lambda>_ e. (None, e), eo_fb_available = \<lambda>_. False,
     eo_fb_present = \<lambda>e. e, eo_fb_write_pixels = \<lambda>_ _ e. (- VNU_ENODEV, e), eo_fb_frame_bytes = \<lambda>_. 0\<rparr>"

definition no_mount :: "unit vmount" where
  "no_mount = \<lparr>m_used = False, m_path = [], m_subdir = [], m_blk = 0,
     m_fs = new_fs \<lparr>d_read = \<lambda>_ _. None, d_write = \<lambda>_ _ d. (False, d), d_flush = \<lambda>d. d\<rparr> () 0 []\<rparr>"

definition demo_files :: "vfile list" where
  "demo_files = replicate 3 (no_file\<lparr>vf_used := True\<rparr>) @
     [no_file\<lparr>vf_used := True, vf_flags := O_RDWR, vf_node := 2\<rparr>] @ replicate 60 no_file"

definition demo_vfs :: "(unit, unit) vfs" where
  "demo_vfs = \<lparr>v_tree = demo_tree, v_files = demo_files, v_cwd = ''/'', v_mounts = replicate 8 no_mount, v_devs = [], v_disk = (),
     v_clip = \<lparr>g_buf = [], g_len = 0\<rparr>, v_env = (), g_rand_state = 0x12345678\<rparr>"

lemma demo_texts: "texts_fit demo_ops"
  by (simp add: texts_fit_def demo_ops_def)

lemma demo_synth: "i < MAX_N \<Longrightarrow> n_synth (nodes demo_tree ! i) = SynNone"
  by (frule demo_cases, elim disjE) (simp_all add: demo_nodes demo_motd_def demo_dir_def no_node_def)

lemma demo_canonical: "canonical ''/''"
  by (simp add: canonical_def absolute_def path_of_def PATH_CAP_def exI [of _ "[]"])

lemma demo_vfs_ok: "vfs_ok demo_vfs"
  unfolding vfs_ok_def tree_good_def synth_small_def
  using demo_tree_ok demo_synth demo_canonical
  by (auto simp: demo_vfs_def demo_files_def VFS_MAX_FD_def MAX_N_def)

lemma demo_no_mount: "mount_for p (demo_vfs\<lparr>v_tree := t, v_files := fs\<rparr>) = None"
  by (simp add: mount_for_def demo_vfs_def no_mount_def MAX_MOUNTS_def upt_rec nth_Cons')

lemma demo_mounts: "mount_for p demo_vfs = None"
  using demo_no_mount [of p demo_files demo_tree] by (simp add: demo_vfs_def)

lemma demo_cwd [simp]: "v_cwd demo_vfs = ''/''" "v_tree demo_vfs = demo_tree"
  by (simp_all add: demo_vfs_def)

lemma demo_norm:
  "normalize ''/'' ''a'' PATH_CAP = ''/a''" "normalize ''/'' ''/etc/motd'' PATH_CAP = ''/etc/motd''" "normalize ''/'' ''/tmp/a'' PATH_CAP = ''/tmp/a''"
  "parent_path ''/a'' = ''/''" "parent_path ''/etc/motd'' = ''/etc''" "parent_path ''/tmp/a'' = ''/tmp''"
  by code_simp+

lemma demo_find:
  "find_index ''/'' demo_tree = Some 0" "find_index ''/etc'' demo_tree = Some 1" "find_index ''/etc/motd'' demo_tree = Some 2" "find_index ''/tmp'' demo_tree = Some 3"
  using find_index_used [OF demo_tree_ok, of 0] find_index_used [OF demo_tree_ok, of 1] find_index_used [OF demo_tree_ok, of 2]
    find_index_used [OF demo_tree_ok, of 3]
  by (simp_all add: demo_nodes demo_dir_def demo_motd_def no_node_def MAX_N_def)

lemma demo_new: "p \<notin> {''/'', ''/etc'', ''/etc/motd'', ''/tmp''} \<Longrightarrow> find_index p demo_tree = None"
  unfolding find_index_None
  by (intro allI impI, frule demo_cases, elim disjE) (auto simp: demo_nodes demo_dir_def demo_motd_def no_node_def)

lemma demo_add:
  "add_node p d None demo_tree = (Some 4, demo_tree\<lparr>nodes := (nodes demo_tree)[4 := no_node\<lparr>n_used := True, n_dir := d, n_path := copy_str p PATH_CAP,
     n_perm := (if d then 0x1ED else 0x1A4)\<rparr>]\<rparr>)"
proof -
  have "for_first 0 MAX_N (\<lambda>i. if \<not> n_used (nodes demo_tree ! i) then Some i else None) = Some 4"
  proof (rule for_first_eqI)
    fix j :: nat assume "j < 4"
    then have "j = 0 \<or> j = Suc 0 \<or> j = 2 \<or> j = 3" by linarith
    then show "(if \<not> n_used (nodes demo_tree ! j) then Some j else None) = None"
      by (elim disjE) (simp_all add: demo_nodes demo_motd_def demo_dir_def no_node_def)
  qed (simp_all add: demo_nodes MAX_N_def no_node_def)
  then show ?thesis by (simp add: add_node_def cur_uid_def cur_gid_def no_node_def)
qed

lemma demo_fd: "file_on 3 2 cur w demo_vfs \<longleftrightarrow> have_access cur demo_motd w"
  by (simp add: file_on_def file_of_def demo_vfs_def demo_files_def VFS_MAX_FD_def demo_nodes nth_append demo_motd_def no_node_def)

section \<open>Properties\<close>

text \<open>
  C11. After any sequence of file system calls, no two entries of the file tree have the same path, no two
  regular files share a byte of memory, and the working directory is a normalised absolute path. The calls
  are those of \<open>vfs_call\<close>: every call of the interface, with every argument, except that a write to a
  regular file of the tree starts inside the file or finds the memory it asks for, and that the end of what
  a write or a \<^verbatim>\<open>set_path\<close> stores is 4095 bytes or more below \<open>2 ^ 32\<close>.
\<close>

theorem vfs_calls_separate:
  assumes "texts_fit eo" "vfs_ok v" "(vfs_call eo)\<^sup>*\<^sup>* v v'" "i < MAX_N" "j < MAX_N" "i \<noteq> j"
  shows "(n_used (nodes (v_tree v') ! i) \<and> n_used (nodes (v_tree v') ! j) \<longrightarrow> n_path (nodes (v_tree v') ! i) \<noteq> n_path (nodes (v_tree v') ! j)) \<and>
    (n_synth (nodes (v_tree v') ! i) = SynNone \<and> n_synth (nodes (v_tree v') ! j) = SynNone \<longrightarrow>
       (\<forall>k < unat (n_size (nodes (v_tree v') ! i)). \<forall>l < unat (n_size (nodes (v_tree v') ! j)).
          n_buf (nodes (v_tree v') ! i) + of_nat k \<noteq> n_buf (nodes (v_tree v') ! j) + of_nat l)) \<and>
    canonical (v_cwd v')"
proof -
  have ok: "vfs_ok v'" by (rule vfs_calls_ok [OF assms(3,1,2)])
  let ?t = "v_tree v'"
  have t: "tree_ok ?t" by (rule tree_goodD(1) [OF vfs_okD(1) [OF ok]])
  note T = tree_okD [OF t] and I = node_okD [OF tree_okD(3) [OF t assms(4)]] and J = node_okD [OF tree_okD(3) [OF t assms(5)]]
  have "paths_unique (nodes ?t)" using t by (simp add: tree_ok_def)
  then have "n_used (nodes ?t ! i) \<and> n_used (nodes ?t ! j) \<longrightarrow> n_path (nodes ?t ! i) \<noteq> n_path (nodes ?t ! j)"
    using assms(4-6) T(1) by (auto simp: paths_unique_def)
  moreover have "n_buf (nodes ?t ! i) + of_nat k \<noteq> n_buf (nodes ?t ! j) + of_nat l"
    if "n_synth (nodes ?t ! i) = SynNone" "n_synth (nodes ?t ! j) = SynNone" "k < unat (n_size (nodes ?t ! i))" "l < unat (n_size (nodes ?t ! j))" for k l
    using runs_apart [OF T(2) I(4) J(4) T(4) [OF assms(4-6)]] I(2) [OF that(1)] J(2) [OF that(2)] that(3,4) by simp
  ultimately show ?thesis using vfs_okD(3) [OF ok] by blast
qed

theorem vfs_calls_separate_witness:
  "n_buf (nodes (v_tree (snd (vfs_mkdir None ''a'' demo_vfs))) ! 2) = 0x01F6B000 \<and> canonical (v_cwd (snd (vfs_mkdir None ''a'' demo_vfs)))"
proof -
  have "vfs_call demo_ops demo_vfs (snd (vfs_mkdir None ''a'' demo_vfs))" by (rule mkdir_call)
  then have r: "(vfs_call demo_ops)\<^sup>*\<^sup>* demo_vfs (snd (vfs_mkdir None ''a'' demo_vfs))" by (rule r_into_rtranclp)
  have v: "snd (vfs_mkdir None ''a'' demo_vfs) = demo_vfs\<lparr>v_tree := snd (add_node ''/a'' True None demo_tree)\<rparr>"
    by (simp add: vfs_mkdir_def demo_norm demo_mounts demo_new add_child_def parent_dir_def demo_find have_access_def cur_uid_def split_def Let_def)
  from vfs_calls_separate [OF demo_texts demo_vfs_ok r, of 2 4] show ?thesis
    by (simp add: v demo_add MAX_N_def demo_nodes demo_motd_def no_node_def)
qed

lemma write_node_eq:
  assumes v: "vfs_ok v" and f: "file_on fd i cur A_W v" and pos: "pos = write_pos (v_files v ! nat fd) (nodes (v_tree v) ! i)"
    "pos \<le> n_size (nodes (v_tree v) ! i)" "unat pos + length bs + 4095 < 2 ^ 32"
  shows "vfs_write eo cur fd bs v =
    (if over_quota (nodes (v_tree v) ! i) (pos + of_nat (length bs)) (v_tree v)
     then (- VNU_EDQUOT, set_file (nat fd) ((v_files v ! nat fd)\<lparr>vf_position := pos\<rparr>) v)
     else (sint (fst (store i pos (of_nat (length bs)) bs (v_tree v))),
           (set_file (nat fd) ((v_files v ! nat fd)\<lparr>vf_position := pos + fst (store i pos (of_nat (length bs)) bs (v_tree v))\<rparr>) v)
             \<lparr>v_tree := snd (store i pos (of_nat (length bs)) bs (v_tree v))\<rparr>))"
  using count_whole [OF pos(3)] pos(1)
  by (simp add: write_file_on [OF f] write_node_def Let_def split_def set_file_def)


text \<open>
  C23. A read of a regular file delivers the bytes of the file from the descriptor's position on, as many as
  were asked for and are there, changes no file and moves the position behind them.
\<close>

theorem vfs_read_content:
  assumes "vfs_ok v" "file_on fd i cur A_R v"
  shows "let r = take (unat count) (drop (unat (vf_position (v_files v ! nat fd))) (node_bytes i (v_tree v)))
    in vfs_read eo cur fd count v = (int (length r), r, advance (nat fd) (of_nat (length r)) v)"
proof -
  have i: "i < MAX_N" by (rule file_on_bound [OF assms])
  note F = file_onD [OF assms(2)]
  let ?n = "nodes (v_tree v) ! i" and ?p = "vf_position (v_files v ! nat fd)"
  define tk where "tk = (if (if n_size ?n > ?p then n_size ?n - ?p else 0) < count then (if n_size ?n > ?p then n_size ?n - ?p else 0) else count)"
  have ok: "tree_ok (v_tree v)" by (rule tree_goodD(1) [OF vfs_okD(1) [OF assms(1)]])
  note N = node_okD [OF tree_okD(3) [OF ok i]]
  have tk: "unat tk = min (unat count) (unat (n_size ?n) - unat ?p)"
    by (auto simp: tk_def word_less_nat_alt unat_sub word_le_nat_alt)
  define r where "r = take (unat count) (drop (unat ?p) (node_bytes i (v_tree v)))"
  have len: "length r = unat tk" by (simp add: r_def tk)
  have "unat tk < 2 ^ 31" using tk N(2) [OF F(9)] pages_bound [OF tree_okD(2) [OF ok] N(4)] by simp
  then have st: "sint tk = int (length r)" using sint_small len by simp
  have eq: "(if n_buf ?n \<noteq> 0 then get_ram (n_buf ?n + ?p) (unat tk) (ram (pool (v_tree v))) else []) = r"
  proof (cases "n_buf ?n = 0")
    case True
    then have "n_size ?n = 0" using N(1-3) F(9) by (simp add: unat_eq_zero)
    with True len tk show ?thesis by simp
  next
    case False
    have "get_ram (n_buf ?n + ?p) (unat tk) (ram (pool (v_tree v))) = r"
    proof (rule nth_equalityI)
      fix k assume "k < length (get_ram (n_buf ?n + ?p) (unat tk) (ram (pool (v_tree v))))"
      then have k: "k < unat tk" by (simp add: get_ram_def)
      then have "unat ?p + k < unat (n_size ?n)" using tk by (simp add: less_diff_conv add.commute)
      with k tk show "get_ram (n_buf ?n + ?p) (unat tk) (ram (pool (v_tree v))) ! k = r ! k"
        by (simp add: get_ram_def r_def node_bytes_nth add.assoc)
    qed (simp add: get_ram_def len)
    with False show ?thesis by simp
  qed
  have tkr: "of_nat (length r) = tk" using len by simp
  show ?thesis
    unfolding r_def [symmetric] Let_def read_file_on [OF assms(2)] read_node_def tk_def [symmetric] st eq tkr by (rule refl)
qed

text \<open>
  C21. What is written is read back: after a write that found memory, seeking to where it began and reading
  as many bytes delivers them.
\<close>

theorem vfs_write_read:
  assumes "vfs_ok v" "file_on fd i cur A_W v" "have_access cur (nodes (v_tree v) ! i) A_R"
    and pos: "pos = write_pos (v_files v ! nat fd) (nodes (v_tree v) ! i)" "pos \<le> n_size (nodes (v_tree v) ! i)"
    "unat pos + length bs + 4095 < 2 ^ 32" and "length bs < 2 ^ 31"
    and "\<not> over_quota (nodes (v_tree v) ! i) (pos + of_nat (length bs)) (v_tree v)"
    and "fst (node_reserve i (pos + of_nat (length bs)) (v_tree v))"
  shows "let v1 = snd (vfs_write eo cur fd bs v); v2 = snd (vfs_lseek eo fd pos 0 v1)
    in fst (vfs_read eo cur fd (of_nat (length bs)) v2) = int (length bs) \<and> fst (snd (vfs_read eo cur fd (of_nat (length bs)) v2)) = bs"
proof -
  have i: "i < MAX_N" by (rule file_on_bound [OF assms(1,2)])
  note F = file_onD [OF assms(2)]
  have ok: "tree_ok (v_tree v)" by (rule tree_goodD(1) [OF vfs_okD(1) [OF assms(1)]])
  obtain c t' where s: "store i pos (of_nat (length bs)) bs (v_tree v) = (of_nat c, t')"
    "fst (node_reserve i (pos + of_nat (length bs)) (v_tree v)) \<Longrightarrow> c = length bs"
    "node_bytes i t' = overwrite (unat pos) (take c bs) (node_bytes i (v_tree v))"
    "\<exists>b c z. nodes t' ! i = (nodes (v_tree v) ! i)\<lparr>n_buf := b, n_cap := c, n_size := z\<rparr>"
    using store_content [OF ok i F(9) pos(2,3), of thesis] by simp
  have c: "c = length bs" by (rule s(2) [OF assms(9)])
  let ?f = "v_files v ! nat fd"
  define v1 where "v1 = snd (vfs_write eo cur fd bs v)"
  define v2 where "v2 = snd (vfs_lseek eo fd pos 0 v1)"
  have e1: "v1 = (set_file (nat fd) (?f\<lparr>vf_position := pos + of_nat c\<rparr>) v)\<lparr>v_tree := t'\<rparr>"
    using write_node_eq [OF assms(1,2) pos, of eo] assms(8) s(1) by (simp add: v1_def)
  have safe: "write_safe fd bs v" using pos F(3,5) by (simp add: write_safe_def store_safe_def node_at_def)
  have ok1: "vfs_ok v1" unfolding v1_def by (rule vfs_write_ok [OF assms(1) safe])
  have ps: "sint pos \<ge> 0"
  proof -
    have "unat pos \<le> unat (n_size (nodes (v_tree v) ! i))" using pos(2) by (simp add: word_le_nat_alt)
    also have "\<dots> < 2 ^ 31" using node_okD(2) [OF tree_okD(3) [OF ok i] F(9)] pages_bound [OF tree_okD(2) [OF ok] node_okD(4) [OF tree_okD(3) [OF ok i]]] by simp
    finally show ?thesis by (simp add: sint_small)
  qed
  obtain n where n: "nodes t' ! i = (nodes (v_tree v) ! i)\<lparr>n_buf := fst n, n_cap := fst (snd n), n_size := snd (snd n)\<rparr>" using s(4) by auto
  have len: "nat fd < length (v_files v)" using F(2) vfs_okD(2) [OF assms(1)] by simp
  have e2: "v2 = (set_file (nat fd) (?f\<lparr>vf_position := pos\<rparr>) v)\<lparr>v_tree := t'\<rparr>"
    using F ps len by (simp add: v2_def vfs_lseek_def file_of_def e1 seek_to_def Let_def node_at_def n set_file_def VFS_MAX_FD_def)
  have ok2: "vfs_ok v2" unfolding v2_def by (rule vfs_lseek_ok [OF ok1])
  have "file_on fd i cur A_R v2"
    using F assms(3) len by (simp add: file_on_def e2 file_of_def n have_access_def split: if_splits)
  from vfs_read_content [OF ok2 this, of "of_nat (length bs)" eo]
  have "vfs_read eo cur fd (of_nat (length bs)) v2 = (int (length bs), bs, advance (nat fd) (of_nat (length bs)) v2)"
    using pos(2) assms(7) len by (simp add: e2 s(3) c overwrite_def Let_def word_le_nat_alt unat_of_nat)
  then show ?thesis by (simp add: Let_def v2_def v1_def)
qed






lemma demo_files_3: "v_files demo_vfs ! 3 = no_file\<lparr>vf_used := True, vf_flags := O_RDWR, vf_node := 2\<rparr>"
  by (simp add: demo_vfs_def demo_files_def nth_append)

lemma demo_write:
  "file_on 3 2 None w demo_vfs" "write_pos (v_files demo_vfs ! nat 3) (nodes (v_tree demo_vfs) ! 2) = 0"
  "\<not> over_quota (nodes (v_tree demo_vfs) ! 2) 2 (v_tree demo_vfs)" "fst (node_reserve 2 2 demo_tree)"
  by (simp_all add: demo_fd have_access_def cur_uid_def write_pos_def demo_files_3 O_RDWR_def O_APPEND_def no_file_def over_quota_def
      demo_nodes demo_motd_def node_reserve_def)


theorem vfs_read_content_witness:
  "fst (snd (vfs_read demo_ops None 3 2 demo_vfs)) = take 2 (node_bytes 2 demo_tree)"
  using vfs_read_content [OF demo_vfs_ok demo_write(1), of 2 demo_ops] by (simp add: Let_def demo_files_3 no_file_def)

theorem vfs_write_read_witness:
  "fst (snd (vfs_read demo_ops None 3 2 (snd (vfs_lseek demo_ops 3 0 0 (snd (vfs_write demo_ops None 3 [66, 89] demo_vfs)))))) = [66, 89]"
  using vfs_write_read [OF demo_vfs_ok demo_write(1) _ demo_write(2) [symmetric], of "[66, 89]" demo_ops] demo_write(3,4)
  by (simp add: Let_def have_access_def cur_uid_def)

lemma demo_limit: "quota_limit u (demo_tree\<lparr>quota_default_bytes := l\<rparr>) = l"
  by (simp add: quota_limit_def demo_tree_def for_first_None_iff [THEN iffD2] QUOTA_USERS_def)


text \<open>
  C26. Opening with \<^verbatim>\<open>O_RDONLY | O_TRUNC\<close> empties a file the caller may only read: \<^verbatim>\<open>open\<close> checks the access mode
  and truncates without looking at the write permission.
\<close>

theorem open_truncates_read_only:
  assumes "vfs_ok v" "mount_for (normalize (v_cwd v) path PATH_CAP) v = None" "find_index (normalize (v_cwd v) path PATH_CAP) (v_tree v) = Some i"
    and "\<not> n_dir (nodes (v_tree v) ! i)" "n_dev (nodes (v_tree v) ! i) = DevNone" "n_synth (nodes (v_tree v) ! i) = SynNone"
    and "have_access cur (nodes (v_tree v) ! i) A_R" "\<not> have_access cur (nodes (v_tree v) ! i) A_W" "free_fd v = Some fd"
  shows "fst (vfs_open eo cur path O_TRUNC v) = int fd \<and> n_size (nodes (v_tree (snd (vfs_open eo cur path O_TRUNC v))) ! i) = 0"
proof -
  have "i < length (nodes (v_tree v))" using find_index_Some [OF assms(3)] tree_okD(1) [OF tree_goodD(1) [OF vfs_okD(1) [OF assms(1)]]] by simp
  moreover have "O_TRUNC AND 3 = 0" "O_TRUNC AND O_WRONLY = 0" "O_TRUNC AND O_TRUNC = O_TRUNC" "O_TRUNC \<noteq> 0"
    by (simp_all add: O_TRUNC_def O_WRONLY_def)
  ultimately show ?thesis using assms
    by (simp add: vfs_open_def open_node_def open_access_def refresh_def install_fd_def Let_def set_node_def)
qed

theorem open_truncates_read_only_witness:
  "fst (vfs_open demo_ops (Some \<lparr>p_pid = 7, p_uid = 1000, p_gid = 100\<rparr>) ''/etc/motd'' O_TRUNC demo_vfs) = 4"
proof -
  have f: "free_fd demo_vfs = Some 4" unfolding free_fd_def
  proof (rule for_first_eqI)
    fix j :: nat assume "3 \<le> j" "j < 4"
    then have "j = 3" by simp
    then show "(if \<not> vf_used (v_files demo_vfs ! j) then Some j else None) = None" by (simp add: demo_files_3)
  qed (simp_all add: demo_vfs_def demo_files_def VFS_MAX_FD_def nth_append)
  have n: "nodes (v_tree demo_vfs) ! 2 = demo_motd" by (simp add: demo_nodes)
  have "have_access (Some \<lparr>p_pid = 7, p_uid = 1000, p_gid = 100\<rparr>) demo_motd A_R" "\<not> have_access (Some \<lparr>p_pid = 7, p_uid = 1000, p_gid = 100\<rparr>) demo_motd A_W"
    by (simp_all add: have_access_def cur_uid_def cur_gid_def demo_motd_def A_R_def A_W_def no_node_def)
  with open_truncates_read_only [OF demo_vfs_ok, of "''/etc/motd''" 2 "Some \<lparr>p_pid = 7, p_uid = 1000, p_gid = 100\<rparr>" 4 demo_ops] f n
  show ?thesis by (simp add: demo_norm demo_mounts demo_find demo_motd_def no_node_def)
qed

text \<open>
  C27. A write that starts behind a file's buffer when no memory is left stores nothing, answers 0 and still
  sets the file's size to the position: the size is then larger than the buffer, and reads go past it.
\<close>

theorem write_exhausted_overruns:
  assumes "vfs_ok v" "file_on fd i cur A_W v" "vf_flags (v_files v ! nat fd) AND O_APPEND = 0" "pos = vf_position (v_files v ! nat fd)"
    and "n_cap (nodes (v_tree v) ! i) < pos" "unat pos + length bs + 4095 < 2 ^ 32" "bs \<noteq> []"
    and "\<not> over_quota (nodes (v_tree v) ! i) (pos + of_nat (length bs)) (v_tree v)" "\<not> fst (node_reserve i (pos + of_nat (length bs)) (v_tree v))"
  shows "fst (vfs_write eo cur fd bs v) = 0 \<and>
    n_cap (nodes (v_tree (snd (vfs_write eo cur fd bs v))) ! i) < n_size (nodes (v_tree (snd (vfs_write eo cur fd bs v))) ! i)"
proof -
  have i: "i < MAX_N" by (rule file_on_bound [OF assms(1,2)])
  note F = file_onD [OF assms(2)]
  have ok: "tree_ok (v_tree v)" by (rule tree_goodD(1) [OF vfs_okD(1) [OF assms(1)]])
  have u: "unat (pos + of_nat (length bs)) + 4095 < 2 ^ 32" using assms(6) by (simp add: unat_word_ariths unat_of_nat)
  obtain t1 where r: "node_reserve i (pos + of_nat (length bs)) (v_tree v) = (False, t1)" using assms(9) by (metis (full_types) prod.collapse)
  have t1: "t1 = v_tree v" using node_reserve_spec(5) [OF ok i u disjI1 [OF F(9)] r] by simp
  have b: "(of_nat (length bs) :: u32) > 0" using assms(6,7) by (simp add: word_less_nat_alt unat_of_nat)
  have s: "store i pos (of_nat (length bs)) bs (v_tree v) = (0, node_store i pos [] (v_tree v))"
    using b less_not_sym [OF assms(5)] by (simp add: store_def r t1 Let_def)
  have l: "i < length (nodes (v_tree v))" using i tree_okD(1) [OF ok] by simp
  have "n_size (nodes (v_tree v) ! i) < pos" using assms(5) tree_okD(3) [OF ok i] F(9) by (auto simp: node_ok_def)
  moreover have "write_pos (v_files v ! nat fd) (nodes (v_tree v) ! i) = pos" using assms(3,4) by (simp add: write_pos_def)
  ultimately show ?thesis using assms(5,8) l
    by (simp add: write_file_on [OF assms(2)] write_node_def Let_def count_whole [OF assms(6)] s node_store_def set_node_def)
qed

definition demo_full :: "(unit, unit) vfs" where
  "demo_full = demo_vfs\<lparr>v_tree := demo_tree\<lparr>quota_default_bytes := 0\<rparr>,
     v_files := demo_files[3 := no_file\<lparr>vf_used := True, vf_flags := O_RDWR, vf_node := 2, vf_position := 0x8000\<rparr>]\<rparr>"

lemma demo_files_len: "length demo_files = 64"
  by (simp add: demo_files_def)

lemma demo_full_ok: "vfs_ok demo_full"
proof -
  have "tree_good (demo_tree\<lparr>quota_default_bytes := 0\<rparr>)"
    using demo_vfs_ok by (simp add: vfs_ok_def tree_good_def tree_ok_def synth_small_def)
  moreover have "vf_node f < int MAX_N" if "f \<in> set (v_files demo_full)" for f
    using that demo_vfs_ok set_update_subset_insert [of demo_files 3] by (fastforce simp: vfs_ok_def demo_full_def demo_vfs_def MAX_N_def)
  ultimately show ?thesis using demo_vfs_ok by (simp add: vfs_ok_def demo_full_def demo_vfs_def)
qed

theorem write_exhausted_overruns_witness:
  "fst (vfs_write demo_ops None 3 [1] demo_full) = 0"
proof -
  have n: "nodes (v_tree demo_full) ! 2 = demo_motd" by (simp add: demo_full_def demo_nodes)
  have f: "v_files demo_full ! 3 = no_file\<lparr>vf_used := True, vf_flags := O_RDWR, vf_node := 2, vf_position := 0x8000\<rparr>"
    by (simp add: demo_full_def demo_files_len)
  have on: "file_on 3 2 None A_W demo_full"
    by (simp add: file_on_def file_of_def f n VFS_MAX_FD_def demo_motd_def no_node_def have_access_def cur_uid_def)
  have p: "pool (v_tree demo_full) = demo_pool" by (simp add: demo_full_def demo_tree_def)
  have "alloc_contig 9 demo_pool = (0, demo_pool)"
    by (simp add: alloc_contig_def demo_pool_fields)
  moreover have "grow_pages 0x8001 4096 = 9" by (simp add: grow_pages_def drop_bit_eq_div)
  ultimately have r: "\<not> fst (node_reserve 2 (0x8000 + of_nat (length [1 :: u8])) (v_tree demo_full))"
    by (simp add: node_reserve_def n p demo_motd_def)
  have q: "\<not> over_quota (nodes (v_tree demo_full) ! 2) (0x8000 + of_nat (length [1 :: u8])) (v_tree demo_full)"
    by (simp add: over_quota_def demo_full_def demo_limit)
  have a: "vf_flags (v_files demo_full ! nat 3) AND O_APPEND = 0" "0x8000 = vf_position (v_files demo_full ! nat 3)"
    by (simp_all add: f O_RDWR_def O_APPEND_def)
  have c: "n_cap (nodes (v_tree demo_full) ! 2) < 0x8000" by (simp add: n demo_motd_def)
  show ?thesis by (rule write_exhausted_overruns [OF demo_full_ok on a c _ _ q r, THEN conjunct1]) simp_all
qed

lemma trim_shift_done:
  assumes "trim_shift k s = Some r"
  shows "k \<noteq> 0 \<longrightarrow> s ! k = 0"
proof (rule trim_shift.raw_induct [OF _ assms])
  fix rec and k :: nat and s r :: "u8 list"
  assume IH: "\<And>k s r. rec k s = Some r \<Longrightarrow> k \<noteq> 0 \<longrightarrow> s ! k = 0" and r: "(if s ! k = 0 then Some s else rec k (s[0 := s ! k])) = Some r"
  show "k \<noteq> 0 \<longrightarrow> s ! k = 0"
  proof (cases "s ! k = 0")
    case False
    with r have "rec k (s[0 := s ! k]) = Some r" by simp
    from IH [OF this] show ?thesis by auto
  qed simp
qed

lemma trim_shift_None:
  assumes "k \<noteq> 0"
  shows "trim_shift k s = None \<longleftrightarrow> s ! k \<noteq> 0"
proof (cases "s ! k = 0")
  case True
  then show ?thesis by (subst trim_shift.simps) simp
next
  case False
  then have "trim_shift k s \<noteq> Some r" for r using trim_shift_done [of k s r] assms by auto
  with False show ?thesis by (metis not_None_eq)
qed

text \<open>
  C28. Reading the host (or domain) name never returns exactly when the name file starts with a blank and has a
  word after the blanks: the loop of \<^verbatim>\<open>trim\<close> that should move the word to the front does not advance.
\<close>

theorem host_name_hangs:
  "let (r, bs, v1) = vfs_read_path (host_file as_host) 63 v; k = length (takeWhile (\<lambda>b. b = 32 \<or> b = 9) bs)
   in fst (host_name as_host v) = None \<longleftrightarrow> 0 < k \<and> k < length bs \<and> bs ! k \<noteq> 0"
proof -
  obtain r bs v1 where rp: "vfs_read_path (host_file as_host) 63 v = (r, bs, v1)" by (metis prod.exhaust)
  define k where "k = length (takeWhile (\<lambda>b. b = 32 \<or> b = 9) bs)"
  have kb: "length (takeWhile (\<lambda>b. b = 32 \<or> b = 9) (bs @ [0])) = k"
    unfolding k_def by (induction bs) simp_all
  have "k \<le> length bs" unfolding k_def by (rule length_takeWhile_le)
  then have z: "(bs @ [0]) ! k = 0 \<longleftrightarrow> k = length bs \<or> bs ! k = 0" by (auto simp: nth_append)
  have t: "k \<noteq> 0 \<Longrightarrow> trim_shift k (bs @ [0]) = None \<longleftrightarrow> (bs @ [0]) ! k \<noteq> 0" by (rule trim_shift_None)
  have "host_trim (bs @ [0]) = (case (if k \<noteq> 0 then trim_shift k (bs @ [0]) else Some (bs @ [0])) of None \<Rightarrow> None | Some s1 \<Rightarrow> Some (takeWhile u8_mid s1))"
    unfolding host_trim_def Let_def kb by (rule refl)
  then have "fst (host_name as_host v) = None \<longleftrightarrow> k \<noteq> 0 \<and> trim_shift k (bs @ [0]) = None"
    by (simp add: host_name_def HOST_MAX_def rp split: option.split)
  then have "fst (host_name as_host v) = None \<longleftrightarrow> 0 < k \<and> k < length bs \<and> bs ! k \<noteq> 0" using t z \<open>k \<le> length bs\<close> by auto
  then show ?thesis unfolding Let_def rp split_conv k_def [symmetric] .
qed

section \<open>Moving, removing and listing\<close>

lemma add_node_found:
  assumes t: "tree_ok t" and p: "length p < PATH_CAP" "find_index p t = None" and a: "add_node p d cur t = (Some j, t')"
  shows "j < MAX_N" "\<not> n_used (nodes t ! j)" "find_index p t' = Some j" "\<And>k. k \<noteq> j \<Longrightarrow> nodes t' ! k = nodes t ! k" "pool t' = pool t" "tree_ok t'"
proof -
  note A = add_node_spec [OF t p a]
  from A(3) [OF refl] show j: "j < MAX_N" "\<not> n_used (nodes t ! j)" "pool t' = pool t" "\<And>k. k \<noteq> j \<Longrightarrow> nodes t' ! k = nodes t ! k" by auto
  show "tree_ok t'" by (rule A(1))
  have "nodes t' ! j = no_node\<lparr>n_used := True, n_dir := d, n_path := p, n_perm := (if d then 0x1ED else 0x1A4), n_uid := cur_uid cur, n_gid := cur_gid cur\<rparr>"
    using A(3) [OF refl] tree_okD(1) [OF t] by simp
  then show "find_index p t' = Some j" using find_index_used [OF A(1) j(1)] by simp
qed

lemma find_index_cong:
  assumes "\<And>k. k < MAX_N \<Longrightarrow> n_used (nodes t' ! k) = n_used (nodes t ! k) \<and> n_path (nodes t' ! k) = n_path (nodes t ! k)"
  shows "find_index p t' = find_index p t"
  unfolding find_index_def using assms by (intro for_first_cong) simp

lemma move_content:
  assumes t: "tree_ok t" and ij: "i < MAX_N" "j < MAX_N" "i \<noteq> j" and sy: "n_synth (nodes t ! i) = SynNone" and fit: "n_size (nodes t ! i) \<le> n_cap (nodes t ! j)"
  defines "t' \<equiv> set_node j ((nodes t ! j)\<lparr>n_size := n_size (nodes t ! i)\<rparr>)
    (t\<lparr>pool := (pool t)\<lparr>ram := copy_ram (n_buf (nodes t ! j)) (n_buf (nodes t ! i)) (unat (n_size (nodes t ! i))) (ram (pool t))\<rparr>\<rparr>)"
  shows "tree_ok t'" "node_bytes j (node_release i t') = node_bytes i t" "node_bytes i (node_release i t') = []"
proof -
  let ?a = "n_buf (nodes t ! i)" and ?b = "n_buf (nodes t ! j)" and ?z = "unat (n_size (nodes t ! i))"
  note T = tree_okD [OF t] and I = node_okD [OF tree_okD(3) [OF t ij(1)]] and J = node_okD [OF tree_okD(3) [OF t ij(2)]]
  show ok: "tree_ok t'" unfolding t'_def by (rule node_resize_ok [OF t ij(2) fit])
  note R = node_release_spec [OF ok ij(1)]
  have zi: "?z \<le> 4096 * pages_of (nodes t ! i)" and zj: "?z \<le> 4096 * pages_of (nodes t ! j)"
    using I(2) [OF sy] fit J(1) by (simp_all add: word_le_nat_alt)
  have sj: "nodes t' ! j = (nodes t ! j)\<lparr>n_size := n_size (nodes t ! i)\<rparr>" using T(1) ij(2) by (simp add: t'_def set_node_def)
  have "copy_ram ?b ?a ?z (ram (pool t)) (?b + of_nat k) = ram (pool t) (?a + of_nat k)" if "k < ?z" for k
  proof (rule copy_ram_same)
    show "x = y" if "x < ?z" "y < ?z" "?b + of_nat x = ?b + of_nat y" for x y
      using run_inj [OF T(2) J(4) _ _ that(3)] that(1,2) zj by simp
    show "?a + of_nat x \<noteq> ?b + of_nat y" if "x < ?z" "y < ?z" for x y
      using runs_apart [OF T(2) I(4) J(4) T(4) [OF ij]] that zi zj by simp
  qed (use that in simp_all)
  then have "node_bytes j t' = node_bytes i t"
    by (intro nth_equalityI) (simp_all add: sj node_bytes_nth, simp_all add: t'_def set_node_def)
  then show "node_bytes j (node_release i t') = node_bytes i t" using R(3) ij(3) by simp
  show "node_bytes i (node_release i t') = []" using R(4) by (simp add: node_bytes_def get_ram_def)
qed

text \<open>
  C25. A successful move between two paths of the in-memory tree copies the content to the new path, but the
  old path stays, as an empty file, whoever the caller is: \<^verbatim>\<open>move_file\<close> checks no permission and releases the
  old node's buffer without removing the node.
\<close>

theorem move_leaves_source:
  assumes "vfs_ok v" "mount_for (normalize (v_cwd v) from PATH_CAP) v = None" "mount_for (normalize (v_cwd v) to PATH_CAP) v = None"
    and "find_index (normalize (v_cwd v) from PATH_CAP) (v_tree v) = Some i" "n_synth (nodes (v_tree v) ! i) = SynNone"
    and "move_file eo cur from to v = Some (0, v')"
  shows "\<exists>j. find_index (normalize (v_cwd v) to PATH_CAP) (v_tree v') = Some j \<and> node_bytes j (v_tree v') = node_bytes i (v_tree v) \<and>
    find_index (normalize (v_cwd v) from PATH_CAP) (v_tree v') = Some i \<and> node_bytes i (v_tree v') = []"
proof -
  define af at where "af = normalize (v_cwd v) from PATH_CAP" and "at = normalize (v_cwd v) to PATH_CAP"
  let ?t = "v_tree v"
  have ok: "tree_ok ?t" by (rule tree_goodD(1) [OF vfs_okD(1) [OF assms(1)]])
  have af: "find_index af ?t = Some i" using assms(4) by (simp add: af_def)
  note I = find_index_Some [OF af]
  have mv: "move_node cur af at v = (0, v')" using assms(2,3,6) by (simp add: move_file_def Let_def af_def at_def)
  have at: "length at < PATH_CAP" by (simp add: at_def normalize_short)
  from mv af have nat: "find_index at ?t = None" "\<not> n_dir (nodes ?t ! i)" "parent_dir at ?t \<noteq> None"
    by (auto simp: move_node_def errno_defs split: if_splits)
  obtain r t1 where a: "add_node at False cur ?t = (r, t1)" by fastforce
  then obtain j where r: "r = Some j" using mv af nat by (cases r) (auto simp: move_node_def errno_defs)
  note A = add_node_found [OF ok at nat(1) a [unfolded r]]
  have ij: "i < MAX_N" "j \<noteq> i" using I A(2) by auto
  define n where "n = nodes t1 ! i"
  have n: "n = nodes ?t ! i" using A(4) ij by (simp add: n_def)
  define t2 where "t2 = set_node j ((nodes t1 ! j)\<lparr>n_perm := n_perm n, n_uid := n_uid n, n_gid := n_gid n\<rparr>) t1"
  have l1: "length (nodes t1) = MAX_N" by (rule tree_okD(1) [OF A(6)])
  have ok2: "tree_ok t2" unfolding t2_def by (rule tree_ok_update [OF A(6,1)]) (use tree_okD(3) [OF A(6,1)] in \<open>simp_all add: node_ok_def\<close>)
  obtain b t3 where r3: "node_reserve j (n_size n) t2 = (b, t3)" by fastforce
  then have b: "b" using mv af nat a r by (cases b) (simp_all add: move_node_def errno_defs Let_def n_def t2_def)
  have sb: "unat (n_size n) + 4095 < 2 ^ 32" using size_bound [OF vfs_okD(1) [OF assms(1)] ij(1)] n by simp
  have j2: "nodes t2 ! j = (nodes t1 ! j)\<lparr>n_perm := n_perm n, n_uid := n_uid n, n_gid := n_gid n\<rparr>" "nodes t2 ! i = n"
    using l1 A(1) ij by (simp_all add: t2_def set_node_def n_def)
  have sj: "n_synth (nodes t2 ! j) = SynNone" using add_node_spec(3) [OF ok at nat(1) a, of j] r l1 A(1) by (simp add: j2 no_node_def)
  note R = node_reserve_spec [OF ok2 A(1) sb disjI1 [OF sj] r3]
  have i3: "nodes t3 ! i = n" using R(3) [of i] ij j2 by simp
  have b3: "node_bytes i t3 = node_bytes i ?t"
  proof -
    have "node_bytes i t3 = node_bytes i t2" using R(2) [OF ij(1)] j2 n assms(5) by simp
    also have "\<dots> = node_bytes i ?t" using j2 n A(5) by (simp add: node_bytes_def t2_def set_node_def)
    finally show ?thesis .
  qed
  let ?t4 = "set_node j ((nodes t3 ! j)\<lparr>n_size := n_size (nodes t3 ! i)\<rparr>)
    (t3\<lparr>pool := (pool t3)\<lparr>ram := copy_ram (n_buf (nodes t3 ! j)) (n_buf (nodes t3 ! i)) (unat (n_size (nodes t3 ! i))) (ram (pool t3))\<rparr>\<rparr>)"
  have fit: "n_size (nodes t3 ! i) \<le> n_cap (nodes t3 ! j)" using R(4) b by (simp add: i3)
  have si: "n_synth (nodes t3 ! i) = SynNone" using assms(5) n i3 by simp
  note M = move_content [OF R(1) ij(1) A(1) ij(2) [symmetric] si fit]
  have v': "v_tree v' = node_release i ?t4"
    using mv af nat a r r3 b by (auto simp: move_node_def Let_def n_def [symmetric] t2_def [symmetric] i3)
  note Q = node_release_spec [OF M(1) ij(1)]
  obtain d c where jn: "nodes t3 ! j = (nodes t2 ! j)\<lparr>n_buf := d, n_cap := c\<rparr>" using R(6) by blast
  have "nodes (v_tree v') ! j = (nodes t3 ! j)\<lparr>n_size := n_size n\<rparr>" "nodes (v_tree v') ! i = n\<lparr>n_buf := 0, n_cap := 0, n_size := 0\<rparr>"
    using Q(2) [of j] Q(4) ij(2) tree_okD(1) [OF R(1)] A(1) by (simp_all add: v' i3 set_node_def)
  then have "find_index at (v_tree v') = Some j" "find_index af (v_tree v') = Some i"
    using find_index_used [OF Q(1), of j] find_index_used [OF Q(1), of i] find_index_Some [OF A(3)] I n A(1) by (simp_all add: v' jn j2)
  with M(2,3) b3 show ?thesis unfolding af_def at_def v' by auto
qed

lemma demo_free1: "alloc_contig 1 demo_pool = (0x01F6C000, snd (alloc_contig 1 demo_pool))"
proof -
  have "free_run demo_pool 1 1" "\<not> free_run demo_pool 0 1"
    by (simp_all add: free_run_used demo_used demo_pool_fields)
  then show ?thesis
    using for_first_eqI [of 0 1 5 "\<lambda>i. if free_run demo_pool i 1 then Some i else None"]
    by (simp add: alloc_contig_def demo_pool_fields FRAME_SIZE_def)
qed

lemma demo_pool_eq: "pool demo_tree = demo_pool"
  by (simp add: demo_tree_def)

lemma demo_reserve:
  assumes "pool t = demo_pool" "n_cap (nodes t ! j) = 0" "n_buf (nodes t ! j) = 0"
  shows "fst (node_reserve j 3 t)"
  using assms arg_cong [OF demo_free1, of fst] by (simp add: node_reserve_def grow_pages_def drop_bit_eq_div split_def Let_def)

theorem move_leaves_source_witness:
  "\<exists>v'. move_file demo_ops None ''/etc/motd'' ''/tmp/a'' demo_vfs = Some (0, v') \<and> find_index ''/etc/motd'' (v_tree v') = Some 2"
proof -
  obtain t1 where a: "add_node ''/tmp/a'' False None demo_tree = (Some 4, t1)" by (simp add: demo_add)
  then have t1: "nodes t1 ! 2 = demo_motd" "n_cap (nodes t1 ! 4) = 0" "n_buf (nodes t1 ! 4) = 0" "pool t1 = demo_pool" "4 < length (nodes t1)"
    using tree_okD(1) [OF demo_tree_ok] demo_pool_eq by (auto simp: demo_add demo_nodes no_node_def MAX_N_def)
  define t2 where "t2 = set_node 4 ((nodes t1 ! 4)\<lparr>n_perm := n_perm demo_motd, n_uid := n_uid demo_motd, n_gid := n_gid demo_motd\<rparr>) t1"
  have "fst (node_reserve 4 3 t2)" by (rule demo_reserve) (use t1 in \<open>simp_all add: t2_def set_node_def\<close>)
  then obtain t3 where r: "node_reserve 4 (n_size demo_motd) t2 = (True, t3)" by (cases "node_reserve 4 3 t2") (simp add: demo_motd_def)
  have new: "find_index ''/tmp/a'' demo_tree = None" by (rule demo_new) simp
  have par: "parent_dir ''/tmp/a'' demo_tree \<noteq> None" by (simp add: parent_dir_def demo_norm demo_find)
  have nd: "\<not> n_dir (nodes demo_tree ! 2)" by (simp add: demo_nodes demo_motd_def no_node_def)
  obtain v' where "move_node None ''/etc/motd'' ''/tmp/a'' demo_vfs = (0, v')"
    using a r new par nd demo_find(3) by (simp add: move_node_def t1(1) t2_def [symmetric] Let_def)
  then have v': "move_file demo_ops None ''/etc/motd'' ''/tmp/a'' demo_vfs = Some (0, v')"
    by (simp add: move_file_def demo_norm demo_mounts)
  from move_leaves_source [OF demo_vfs_ok _ _ _ _ v', of 2] show ?thesis
    by (auto simp: v' demo_norm demo_mounts demo_find demo_synth MAX_N_def)
qed

text \<open>
  C24. Removing a file takes its path out of the tree, gives back exactly the frames of its buffer, and changes
  no other file.
\<close>

theorem vfs_unlink_frees:
  assumes "vfs_ok v" "mount_for (normalize (v_cwd v) path PATH_CAP) v = None" "find_index (normalize (v_cwd v) path PATH_CAP) (v_tree v) = Some i"
    and "vfs_unlink cur path v = (0, v')"
  shows "find_index (normalize (v_cwd v) path PATH_CAP) (v_tree v') = None \<and>
    held (pool (v_tree v')) = held (pool (v_tree v)) - run_addrs (n_buf (nodes (v_tree v) ! i)) (pages_of (nodes (v_tree v) ! i)) \<and>
    (\<forall>j < MAX_N. j \<noteq> i \<longrightarrow> nodes (v_tree v') ! j = nodes (v_tree v) ! j \<and> node_bytes j (v_tree v') = node_bytes j (v_tree v))"
proof -
  let ?t = "v_tree v" and ?p = "normalize (v_cwd v) path PATH_CAP"
  have ok: "tree_ok ?t" by (rule tree_goodD(1) [OF vfs_okD(1) [OF assms(1)]])
  note I = find_index_Some [OF assms(3)]
  have t': "v_tree v' = drop_node i ?t"
    using assms(2-4) by (auto simp: vfs_unlink_def Let_def errno_defs split: if_splits option.splits)
  note R = node_release_spec [OF ok conjunct1 [OF I]]
  have n: "nodes (v_tree v') ! j = nodes ?t ! j" if "j \<noteq> i" for j using R(2) [OF that] that by (simp add: t' drop_node_def Let_def set_node_def)
  have u: "\<not> n_used (nodes (v_tree v') ! i)" using I R(6) by (simp add: t' drop_node_def Let_def set_node_def)
  have "n_path (nodes (v_tree v') ! j) \<noteq> ?p" if "j < MAX_N" "n_used (nodes (v_tree v') ! j)" for j
  proof
    have "j \<noteq> i" using u that(2) by auto
    moreover assume "n_path (nodes (v_tree v') ! j) = ?p"
    ultimately show False using find_index_used [OF ok that(1)] that(2) n [of j] assms(3) by auto
  qed
  then have "find_index ?p (v_tree v') = None" by (simp add: find_index_None)
  moreover have "held (pool (v_tree v')) = held (pool ?t) - run_addrs (n_buf (nodes ?t ! i)) (pages_of (nodes ?t ! i))"
    using R(5) by (simp add: t' drop_node_def Let_def set_node_def)
  moreover have "node_bytes j (v_tree v') = node_bytes j ?t" if "j \<noteq> i" for j
    using R(3) [OF that] that by (simp add: t' drop_node_def Let_def set_node_def node_bytes_def)
  ultimately show ?thesis using n by blast
qed

theorem vfs_unlink_frees_witness:
  "find_index ''/etc/motd'' (v_tree (snd (vfs_unlink None ''/etc/motd'' demo_vfs))) = None"
proof -
  have "vfs_unlink None ''/etc/motd'' demo_vfs = (0, snd (vfs_unlink None ''/etc/motd'' demo_vfs))"
    by (simp add: vfs_unlink_def demo_norm demo_mounts demo_find demo_nodes demo_motd_def no_node_def parent_dir_def have_access_def cur_uid_def Let_def)
  from vfs_unlink_frees [OF demo_vfs_ok _ _ this, of 2] show ?thesis by (simp add: demo_norm demo_mounts demo_find)
qed

end
