(* ===== verification/Fat_Files.thy ===== *)
theory Fat_Files
  imports Fat_Volume
begin

text \<open>
  The contents of files and directories of a mounted FAT16 volume, over any sector device that keeps its
  contract. The copy loops of \<^verbatim>\<open>read\<close> and \<^verbatim>\<open>range_write\<close> move the bytes of a cluster chain; the directory
  routines search and change the list of 32-byte slots the directory's sectors hold; a file that was
  written reads back as the old contents overwritten.
\<close>

section \<open>Copying bytes of a chain\<close>

context sector_device
begin

lemma range_write_vol:
  assumes v: "vol fs" and ch: "is_chain (fat_entry fs) (max_cluster fs) cs"
    and fit: "off + len \<le> length cs * (spc fs * SECTOR)" "off < length cs * (spc fs * SECTOR)"
    and src: "\<And>bs. src = Some bs \<Longrightarrow> len \<le> length bs"
  obtains fs' where "range_write (hd cs) off src len fs = (Some (), fs')" "step fs fs'"
    "patched fs cs off len (\<lambda>p. src_byte src (p - off)) fs'"
proof -
  let ?cb = "spc fs * SECTOR"
  have k: "off div ?cb < length cs" using fit(2) by (rule less_mult_imp_div_less)
  have "chain_at (hd cs) (off div ?cb) fs = Some (cs ! (off div ?cb))" using chain_at_vol [OF v ch] k by simp
  then have "range_write (hd cs) off src len fs = range_write_loop (cs ! (off div ?cb)) (off mod ?cb) 0 src len fs"
    by (simp add: range_write_def)
  moreover have "\<exists>fs'. range_write_loop (cs ! (off div ?cb)) (off mod ?cb) 0 src len fs = (Some (), fs') \<and> step fs fs' \<and>
      patched fs cs (off + 0) (len - 0) (\<lambda>p. src_byte src (p - off)) fs'"
    by (rule range_write_loop_vol [OF v ch fit(1) src]) simp_all
  ultimately show ?thesis using that by auto
qed

lemma chunk_bytes:
  assumes "p mod SECTOR + n \<le> SECTOR"
  shows "map (\<lambda>i. disk fs (chain_sector fs cs (p div SECTOR)) ! (p mod SECTOR + i)) [0..<n] = map (chain_byte fs cs) [p..<p + n]"
proof (rule nth_equalityI)
  fix i assume "i < length (map (\<lambda>i. disk fs (chain_sector fs cs (p div SECTOR)) ! (p mod SECTOR + i)) [0..<n])"
  then have i: "i < n" by simp
  have "p + i = p div SECTOR * SECTOR + (p mod SECTOR + i)" using div_mult_mod_eq [of p SECTOR] by linarith
  moreover have "p mod SECTOR + i < SECTOR" using i assms by linarith
  ultimately have "(p + i) div SECTOR = p div SECTOR" "(p + i) mod SECTOR = p mod SECTOR + i"
    by (metis add.commute add.right_neutral div_less div_mult_self1 less_nat_zero_code, metis mod_less mod_mult_self3)
  with i show "map (\<lambda>i. disk fs (chain_sector fs cs (p div SECTOR)) ! (p mod SECTOR + i)) [0..<n] ! i =
      map (chain_byte fs cs) [p..<p + n] ! i"
    by (simp add: chain_byte_def)
qed simp

lemma chain_addr:
  assumes v: "vol fs" and ch: "is_chain (fat_entry fs) (max_cluster fs) cs" and p: "p < length cs * (spc fs * SECTOR)"
  shows "cluster_to_sector fs (cs ! (p div (spc fs * SECTOR))) + p mod (spc fs * SECTOR) div SECTOR =
      chain_sector fs cs (p div SECTOR)"
    and "chain_sector fs cs (p div SECTOR) < total_sectors fs"
proof -
  have geo: "geo_ok fs" using v by (simp add: vol_def)
  let ?s = "p div SECTOR"
  have s: "?s < length cs * spc fs" using p by (simp add: less_mult_imp_div_less mult.assoc [symmetric])
  note c = is_chain_range [OF ch chain_sector_in(1) [OF s]]
  show "cluster_to_sector fs (cs ! (p div (spc fs * SECTOR))) + p mod (spc fs * SECTOR) div SECTOR = chain_sector fs cs ?s"
    using cluster_sector(1) [OF geo] c by (simp add: sector_split chain_sector_def)
  show "chain_sector fs cs ?s < total_sectors fs"
    using cluster_sector(2) [OF geo, of "cs ! (?s div spc fs)" "?s mod spc fs"] c geo by (simp add: chain_sector_def geo_ok_def)
qed

lemma read_loop_vol:
  assumes "vol fs" and "is_chain (fat_entry fs) (max_cluster fs) cs"
    and "off + len \<le> length cs * (spc fs * SECTOR)" and "length acc \<le> len"
    and "length acc < len \<Longrightarrow> clu = cs ! ((off + length acc) div (spc fs * SECTOR)) \<and> within = (off + length acc) mod (spc fs * SECTOR)"
  shows "\<exists>fs'. read_loop clu within len acc fs = (Some (acc @ map (chain_byte fs cs) [off + length acc..<off + len]), fs') \<and>
    step fs fs' \<and> disk fs' = disk fs"
  using assms
proof (induction "len - length acc" arbitrary: fs clu within acc rule: less_induct)
  case less
  show ?case
  proof (cases "length acc < len")
    case False
    with less.prems(1,4) show ?thesis by (subst read_loop.simps) simp
  next
    case True
    let ?cb = "spc fs * SECTOR" and ?d = "length acc"
    let ?p = "off + ?d" and ?n = "min (SECTOR - within mod SECTOR) (len - ?d)"
    have cw: "clu = cs ! (?p div ?cb)" "within = ?p mod ?cb" using less.prems(5) True by auto
    have wm: "within mod SECTOR = ?p mod SECTOR" "within mod SECTOR < SECTOR"
      using cw(2) by (simp add: sector_split, simp add: SECTOR_def)
    have n0: "0 < ?n" "?d + ?n \<le> len" using True wm(2) by auto
    have spc: "0 < spc fs" using less.prems(1) by (simp add: vol_def geo_ok_def)
    have p: "?p < length cs * ?cb" using True less.prems(3) by linarith
    have fit: "?p mod SECTOR + ?n \<le> SECTOR" using wm by linarith
    note addr = chain_addr [OF less.prems(1,2) p, folded cw]
    define f1 where "f1 = fs\<lparr>sec := disk fs (chain_sector fs cs (?p div SECTOR))\<rparr>"
    have s1: "step fs f1" and d1: "disk f1 = disk fs"
      unfolding f1_def using read_sec_vol(2) [OF less.prems(1) addr(2)]
        sec_update_vol(2) [OF less.prems(1) dev_read_vol(2) [OF less.prems(1) addr(2)]] by simp_all
    note g = same_geoD [OF conjunct2 [OF s1]]
    have fe: "fat_entry f1 = fat_entry fs" using d1 g by (intro ext) (simp add: fat_entry_def)
    have cb1: "chain_byte f1 cs = chain_byte fs cs"
      using d1 chain_sector_geo [OF conjunct2 [OF s1]] by (intro ext) (simp add: chain_byte_def)
    define acc' where "acc' = acc @ map (chain_byte fs cs) [?p..<?p + ?n]"
    have la: "length acc' = ?d + ?n" by (simp add: acc'_def)
    have "map (\<lambda>i. sec f1 ! (within mod SECTOR + i)) [0..<?n] = map (chain_byte fs cs) [?p..<?p + ?n]"
      using chunk_bytes [OF fit] wm(1) by (simp only: f1_def) simp
    then have acc: "acc @ map (\<lambda>i. sec f1 ! (within mod SECTOR + i)) [0..<?n] = acc'" by (simp only: acc'_def)
    have run: "read_sec (cluster_to_sector fs clu + within div SECTOR) fs = (Some (), f1)"
      unfolding addr(1) f1_def by (rule read_sec_vol(1) [OF less.prems(1) addr(2)])
    have eq: "read_loop clu within len acc fs =
        (if within + ?n \<ge> ?cb \<and> length acc' < len
         then (case fat_next clu f1 of None \<Rightarrow> (Some acc', f1)
               | Some nx \<Rightarrow> if nx = 0 then (Some acc', f1) else read_loop nx (within + ?n - ?cb) len acc' f1)
         else read_loop clu (within + ?n) len acc' f1)"
      by (subst read_loop.simps) (simp only: True if_True Let_def run prod.case option.case acc)
    have out: "acc' @ map (chain_byte f1 cs) [off + length acc'..<off + len] = acc @ map (chain_byte fs cs) [?p..<off + len]"
      unfolding cb1 acc'_def using n0(2) upt_add_eq_append [of ?p "?p + ?n" "len - (?d + ?n)"]
      by (simp add: add.assoc [symmetric])
    have goal: "?thesis" if "read_loop clu within len acc fs = read_loop c w len acc' f1"
      "length acc' < len \<Longrightarrow> c = cs ! ((off + length acc') div ?cb) \<and> w = (off + length acc') mod ?cb" for c w
    proof -
      have "\<exists>fs'. read_loop c w len acc' f1 = (Some (acc' @ map (chain_byte f1 cs) [off + length acc'..<off + len]), fs') \<and>
          step f1 fs' \<and> disk fs' = disk f1"
      proof (rule less.hyps [OF _ conjunct1 [OF s1]])
        show "len - length acc' < len - ?d" "length acc' \<le> len" using n0 la True by linarith+
        show "is_chain (fat_entry f1) (max_cluster f1) cs" "off + len \<le> length cs * (spc f1 * SECTOR)"
          unfolding fe g by (fact less.prems)+
        show "length acc' < len \<Longrightarrow> c = cs ! ((off + length acc') div (spc f1 * SECTOR)) \<and> w = (off + length acc') mod (spc f1 * SECTOR)"
          unfolding g by (fact that(2))
      qed
      then show ?thesis unfolding that(1) out d1 using step_trans [OF s1] by blast
    qed
    note cross = cluster_cross [OF fit spc n0(1)]
    show ?thesis
    proof (cases "within + ?n \<ge> ?cb \<and> length acc' < len")
      case False
      show ?thesis
      proof (rule goal)
        show "read_loop clu within len acc fs = read_loop clu (within + ?n) len acc' f1"
          using eq False by (simp only: if_False)
        show "clu = cs ! ((off + length acc') div ?cb) \<and> within + ?n = (off + length acc') mod ?cb" if "length acc' < len"
          using cross(2) False that cw unfolding la by (simp only: add.assoc [symmetric]) auto
      qed
    next
      case True
      then have full: "?p mod ?cb + ?n = ?cb" using cross(1) cw(2) by linarith
      note nx = cross(3) [OF full]
      have "off + (?d + ?n) < length cs * ?cb" using True less.prems(3) la by linarith
      then have k: "Suc (?p div ?cb) < length cs" using nx by (metis add.assoc less_mult_imp_div_less)
      have clu: "clu \<le> max_cluster f1" using is_chain_range [OF less.prems(2), of clu] cw(1) k g by auto
      have "fat_next clu f1 = Some (cs ! Suc (?p div ?cb))"
        using fat_next_vol [OF conjunct1 [OF s1] clu] is_chain_nth [OF less.prems(2) k] cw(1) fe by simp
      moreover have "cs ! Suc (?p div ?cb) \<noteq> 0" using is_chain_range [OF less.prems(2) nth_mem [OF k]] by simp
      ultimately have "read_loop clu within len acc fs = read_loop (cs ! Suc (?p div ?cb)) (within + ?n - ?cb) len acc' f1"
        using eq True by (simp only: if_True option.case if_False simp_thms)
      then show ?thesis
      proof (rule goal)
        have e: "off + length acc' = ?p + ?n" unfolding la by (simp only: add.assoc)
        have w: "within + ?n - ?cb = 0" using full cw(2) by linarith
        show "cs ! Suc (?p div ?cb) = cs ! ((off + length acc') div ?cb) \<and> within + ?n - ?cb = (off + length acc') mod ?cb"
          unfolding e w using nx by (simp only: simp_thms)
      qed
    qed
  qed
qed

end

section \<open>Directories as lists of slots\<close>

text \<open>
  The sectors of a directory whose chain is \<open>ds\<close> (empty for the root directory), and the slots in them.
\<close>

definition dir_sectors :: "'d fs \<Rightarrow> nat list \<Rightarrow> nat list" where
  "dir_sectors fs ds = (if ds = [] then [first_root fs..<first_data fs] else map (chain_sector fs ds) [0..<length ds * spc fs])"

definition dir_slots :: "'d fs \<Rightarrow> nat list \<Rightarrow> u8 list list" where
  "dir_slots fs ds =
     map (\<lambda>j. slot_at (32 * j mod SECTOR) (disk fs (dir_sectors fs ds ! (32 * j div SECTOR)))) [0..<16 * length (dir_sectors fs ds)]"

definition dir_chain :: "'d fs \<Rightarrow> nat \<Rightarrow> nat list \<Rightarrow> bool" where
  "dir_chain fs dir ds \<longleftrightarrow> file_chain fs dir ds \<and> length ds * (spc fs * SECTOR) < 2 ^ 32"

text \<open>Two states with the same disk hold the same chains, files and directories.\<close>

lemma disk_same:
  assumes "same_geo fs fs'" "disk fs' = disk fs"
  shows "fat_entry fs' = fat_entry fs" "file_chain fs' = file_chain fs" "chain_byte fs' = chain_byte fs"
    "dir_sectors fs' = dir_sectors fs" "dir_slots fs' = dir_slots fs" "dir_chain fs' = dir_chain fs"
    "free_clusters fs' = free_clusters fs"
proof -
  note g = same_geoD [OF assms(1)]
  show f: "fat_entry fs' = fat_entry fs" by (intro ext) (simp add: fat_entry_def assms(2) g)
  show c: "file_chain fs' = file_chain fs" by (intro ext) (simp add: file_chain_def f g)
  show "chain_byte fs' = chain_byte fs" by (intro ext) (simp add: chain_byte_def assms(2) chain_sector_geo [OF assms(1)])
  show d: "dir_sectors fs' = dir_sectors fs"
    by (intro ext) (simp add: dir_sectors_def g chain_sector_geo [OF assms(1)])
  show "dir_slots fs' = dir_slots fs" by (intro ext) (simp add: dir_slots_def d assms(2))
  show "dir_chain fs' = dir_chain fs" by (intro ext) (simp add: dir_chain_def c g)
  show "free_clusters fs' = free_clusters fs" by (simp add: free_clusters_def f g)
qed

lemma dir_chain_root: "dir_chain fs dir ds \<Longrightarrow> dir = 0 \<longleftrightarrow> ds = []"
  using live_chain_nonempty [of "fat_entry fs" "max_cluster fs" ds] by (auto simp: dir_chain_def file_chain_def split: if_splits)

lemma dir_chain_is_chain: "dir_chain fs dir ds \<Longrightarrow> ds \<noteq> [] \<Longrightarrow> is_chain (fat_entry fs) (max_cluster fs) ds \<and> dir = hd ds"
  using live_chainD by (auto simp: dir_chain_def file_chain_def split: if_splits)

lemma dir_sectors_distinct: "dir_chain fs dir ds \<Longrightarrow> distinct (dir_sectors fs ds)"
proof (cases "ds = []")
  case False
  assume "dir_chain fs dir ds"
  then have "is_chain (fat_entry fs) (max_cluster fs) ds" using dir_chain_is_chain False by blast
  then have "inj_on (chain_sector fs ds) {0..<length ds * spc fs}" using chain_sector_inj by (intro inj_onI) auto
  with False show ?thesis by (simp add: dir_sectors_def distinct_map)
qed (simp add: dir_sectors_def)

context sector_device
begin

lemma dir_sectors_vol:
  assumes v: "vol fs" and d: "dir_chain fs dir ds"
  shows "dir_total_bytes dir fs = length (dir_sectors fs ds) * SECTOR"
    and "k < length (dir_sectors fs ds) \<Longrightarrow> dir_sector dir k fs = Some (dir_sectors fs ds ! k)"
    and "k < length (dir_sectors fs ds) \<Longrightarrow> dir_sectors fs ds ! k < total_sectors fs"
proof -
  have geo: "geo_ok fs" using v by (simp add: vol_def)
  note root = dir_chain_root [OF d] and chain = dir_chain_is_chain [OF d]
  show "dir_total_bytes dir fs = length (dir_sectors fs ds) * SECTOR"
  proof (cases "ds = []")
    case True
    then show ?thesis using root geo by (simp add: dir_total_bytes_def dir_sectors_def geo_ok_def)
  next
    case False
    then show ?thesis using root chain chain_len_vol [OF v, of ds] d
      by (simp add: dir_total_bytes_def dir_sectors_def dir_chain_def mult.assoc)
  qed
  show "dir_sector dir k fs = Some (dir_sectors fs ds ! k)" "dir_sectors fs ds ! k < total_sectors fs"
    if k: "k < length (dir_sectors fs ds)"
  proof -
    have "dir_sector dir k fs = Some (dir_sectors fs ds ! k) \<and> dir_sectors fs ds ! k < total_sectors fs"
    proof (cases "ds = []")
      case True
      then show ?thesis using root geo k by (simp add: dir_sector_def dir_sectors_def geo_ok_def)
    next
      case False
      then have ch: "is_chain (fat_entry fs) (max_cluster fs) ds" "dir = hd ds" and k': "k < length ds * spc fs"
        using chain k by (simp_all add: dir_sectors_def)
      have n: "k div spc fs < length ds" using less_mult_imp_div_less [OF k'] .
      note c = is_chain_range [OF ch(1) nth_mem [OF n]]
      have "k mod spc fs < spc fs" using geo by (simp add: geo_ok_def)
      then show ?thesis
        using cluster_sector(1,2) [OF geo, of "ds ! (k div spc fs)"] c chain_at_vol [OF v ch(1)] n False root k' ch(2)
        by (simp add: dir_sector_def dir_sectors_def chain_sector_def)
    qed
    then show "dir_sector dir k fs = Some (dir_sectors fs ds ! k)" "dir_sectors fs ds ! k < total_sectors fs" by auto
  qed
qed

lemma dir_read_vol:
  assumes v: "vol fs" and d: "dir_chain fs dir ds" and k: "k < length (dir_sectors fs ds)"
  obtains fs' where "dir_read_sector dir k fs = (Some (), fs')" "step fs fs'" "disk fs' = disk fs"
    "sec fs' = disk fs (dir_sectors fs ds ! k)"
proof -
  let ?q = "dir_sectors fs ds ! k"
  note q = dir_sectors_vol(2,3) [OF v d k]
  have "dir_read_sector dir k fs = (Some (), fs\<lparr>sec := disk fs ?q\<rparr>)"
    using read_sec_vol(1) [OF v q(2)] q(1) by (simp add: dir_read_sector_def fs_bind_def fs_get_def)
  then show ?thesis
    using read_sec_vol(2) [OF v q(2)] sec_update_vol(2) [OF v dev_read_vol(2) [OF v q(2)]]
    by (intro that [of "fs\<lparr>sec := disk fs ?q\<rparr>"]) simp_all
qed

end

lemma length_dir_slots [simp]: "length (dir_slots fs ds) = 16 * length (dir_sectors fs ds)"
  by (simp add: dir_slots_def)

text \<open>The live entries of a list of slots whose head stands at byte offset \<open>pos\<close>.\<close>

function dir_entries :: "nat \<Rightarrow> u8 list list \<Rightarrow> entry list" where
  "dir_entries pos es =
     (case scan_slots pos es lfn_start of
        None \<Rightarrow> []
      | Some (ev, rest) \<Rightarrow> ev # dir_entries (pos + 32 * (length es - length rest)) rest)"
  by pat_completeness auto

lemma scan_slots_shorter: "scan_slots pos es L = Some (ev, rest) \<Longrightarrow> length rest < length es \<and> (\<exists>n. rest = drop n es)"
proof (induction pos es L rule: scan_slots.induct)
  case (2 pos e es L)
  show ?case
  proof (cases "scan_slot pos e L")
    case (Skip L')
    with 2 have "length rest < length es \<and> (\<exists>n. rest = drop n es)" by simp
    then show ?thesis by (metis drop_Suc_Cons length_Cons less_Suc_eq)
  next
    case (Found e')
    with 2 show ?thesis by (auto intro: exI [of _ 1])
  qed (use 2 in simp)
qed simp

termination dir_entries
  by (relation "measure (\<lambda>(_, es). length es)") (auto dest: scan_slots_shorter)

declare dir_entries.simps [simp del]

lemma dir_entries_None: "scan_slots pos es lfn_start = None \<Longrightarrow> dir_entries pos es = []"
  by (subst dir_entries.simps) simp

lemma dir_entries_Some:
  "scan_slots pos es lfn_start = Some (ev, rest) \<Longrightarrow> dir_entries pos es = ev # dir_entries (pos + 32 * (length es - length rest)) rest"
  by (subst dir_entries.simps) simp

context sector_device
begin

lemma scan_loop_vol:
  assumes "vol fs" and "dir_chain fs dir ds" and "j \<le> length (dir_slots fs ds)"
  shows "\<exists>fs' q. scan_loop dir (32 * j) (length (dir_sectors fs ds) * SECTOR) L fs =
      (case scan_slots (32 * j) (drop j (dir_slots fs ds)) L of
         None \<Rightarrow> ((None, q), fs')
       | Some (ev, rest) \<Rightarrow> ((Some ev, 32 * (length (dir_slots fs ds) - length rest)), fs')) \<and>
    step fs fs' \<and> disk fs' = disk fs"
  using assms
proof (induction "length (dir_slots fs ds) - j" arbitrary: j fs L)
  case 0
  then have "\<not> 32 * j + 32 \<le> length (dir_sectors fs ds) * SECTOR" by (simp add: SECTOR_def)
  with 0 show ?case by (subst scan_loop.simps) simp
next
  case (Suc n)
  let ?S = "dir_slots fs ds" and ?Q = "dir_sectors fs ds"
  have j: "j < 16 * length ?Q" using Suc.hyps(2) by simp
  then have le: "32 * j + 32 \<le> length ?Q * SECTOR" and k: "32 * j div SECTOR < length ?Q" by (simp_all add: SECTOR_def)
  from dir_read_vol [OF Suc.prems(1,2) k] obtain f1 where
    f: "dir_read_sector dir (32 * j div SECTOR) fs = (Some (), f1)" "step fs f1" "disk f1 = disk fs"
      "sec f1 = disk fs (?Q ! (32 * j div SECTOR))" by blast
  note same = disk_same [OF conjunct2 [OF f(2)] f(3)]
  have sl: "slot_at (32 * j mod SECTOR) (sec f1) = ?S ! j" using j f(4) by (simp add: dir_slots_def)
  have dr: "drop j ?S = ?S ! j # drop (Suc j) ?S" using j by (simp add: Cons_nth_drop_Suc)
  have len: "length (drop (Suc j) ?S) = length ?S - Suc j" by simp
  show ?case
  proof (cases "scan_slot (32 * j) (?S ! j) L")
    case Stop
    have "scan_loop dir (32 * j) (length ?Q * SECTOR) L fs = ((None, 32 * j + 32), f1)"
      by (subst scan_loop.simps) (simp add: le f(1) sl Stop)
    then show ?thesis using f(2,3) by (simp add: dr Stop)
  next
    case (Found ev)
    have "scan_loop dir (32 * j) (length ?Q * SECTOR) L fs = ((Some ev, 32 * j + 32), f1)"
      by (subst scan_loop.simps) (simp add: le f(1) sl Found)
    moreover have "32 * (length ?S - length (drop (Suc j) ?S)) = 32 * j + 32" using j by simp
    ultimately show ?thesis using f(2,3) by (simp only: dr scan_slots.simps Found scan.case option.case prod.case) blast
  next
    case (Skip L')
    have sj: "32 * j + 32 = 32 * Suc j" by simp
    have run: "scan_loop dir (32 * j) (length ?Q * SECTOR) L fs = scan_loop dir (32 * Suc j) (length ?Q * SECTOR) L' f1"
      unfolding sj [symmetric] by (subst scan_loop.simps) (simp add: le f(1) sl Skip)
    have ps: "scan_slots (32 * j) (drop j ?S) L = scan_slots (32 * Suc j) (drop (Suc j) ?S) L'" unfolding sj [symmetric] by (simp add: dr Skip)
    have "n = length (dir_slots f1 ds) - Suc j" "dir_chain f1 dir ds" "Suc j \<le> length (dir_slots f1 ds)"
      using Suc.hyps(2) Suc.prems(2) j by (simp_all add: same)
    from Suc.hyps(1) [OF this(1) conjunct1 [OF f(2)] this(2,3), of L'] step_trans [OF f(2)]
    show ?thesis unfolding run ps same f(3) by blast
  qed
qed

lemma scan_until_vol:
  assumes "vol fs" and "dir_chain fs dir ds" and "j \<le> length (dir_slots fs ds)"
  shows "\<exists>fs' q. scan_until P dir (32 * j) (length (dir_sectors fs ds) * SECTOR) fs =
      ((find P (dir_entries (32 * j) (drop j (dir_slots fs ds))), q), fs') \<and> step fs fs' \<and> disk fs' = disk fs"
  using assms
proof (induction "length (dir_slots fs ds) - j" arbitrary: j fs rule: less_induct)
  case less
  let ?S = "dir_slots fs ds" and ?t = "length (dir_sectors fs ds) * SECTOR"
  from scan_loop_vol [OF less.prems, of lfn_start] obtain f1 q where
    f: "scan_next dir (32 * j) ?t fs = (case scan_slots (32 * j) (drop j ?S) lfn_start of
         None \<Rightarrow> ((None, q), f1) | Some (ev, rest) \<Rightarrow> ((Some ev, 32 * (length ?S - length rest)), f1))"
      "step fs f1" "disk f1 = disk fs" by (auto simp: scan_next_def)
  note same = disk_same [OF conjunct2 [OF f(2)] f(3)]
  show ?case
  proof (cases "scan_slots (32 * j) (drop j ?S) lfn_start")
    case None
    with f show ?thesis by (subst scan_until.simps, subst dir_entries.simps) auto
  next
    case (Some r)
    obtain ev rest where r: "r = (ev, rest)" by (cases r)
    note sh = scan_slots_shorter [OF Some [unfolded r]]
    let ?i = "length ?S - length rest"
    have i: "j < ?i" "?i \<le> length ?S" using sh by auto
    have rest: "rest = drop ?i ?S"
    proof -
      obtain n where n: "rest = drop n (drop j ?S)" using sh by blast
      then have "length rest = length ?S - (n + j)" by simp
      moreover have "drop (length ?S - (length ?S - (n + j))) ?S = drop (n + j) ?S"
        by (cases "n + j \<le> length ?S") simp_all
      ultimately show ?thesis using n by (simp only: drop_drop)
    qed
    have pos: "32 * j + 32 * (length (drop j ?S) - length rest) = 32 * ?i" using i(1) sh by simp
    note step1 = scan_until.simps [of P dir "32 * j" ?t fs, unfolded f(1) Some r]
    note pure1 = dir_entries.simps [of "32 * j" "drop j ?S", unfolded Some r, simplified option.case prod.case pos]
    show ?thesis
    proof (cases "P ev")
      case True
      with step1 pure1 f(2,3) show ?thesis by auto
    next
      case False
      have "length (dir_slots f1 ds) - ?i < length ?S - j" "dir_chain f1 dir ds" "?i \<le> length (dir_slots f1 ds)"
        using i less.prems(2) unfolding same by simp_all
      from less.hyps [OF this(1) conjunct1 [OF f(2)] this(2,3)] obtain fs' q' where
        "scan_until P dir (32 * ?i) ?t f1 = ((find P (dir_entries (32 * ?i) (drop ?i ?S)), q'), fs')" "step f1 fs'" "disk fs' = disk fs"
        unfolding same f(3) by blast
      then show ?thesis using step1 pure1 False rest step_trans [OF f(2)] by (simp only: if_False) auto
    qed
  qed
qed

lemma find_entry_vol:
  assumes v: "vol fs" and d: "dir_chain fs dir ds"
  obtains fs' where "find_entry dir name fs =
      (find (\<lambda>ev. e_attr ev AND ATTR_VOLUME = 0 \<and> ci_equal (e_name ev) name) (dir_entries 0 (dir_slots fs ds)), fs')"
    "step fs fs'" "disk fs' = disk fs"
proof -
  let ?P = "\<lambda>ev. e_attr ev AND ATTR_VOLUME = 0 \<and> ci_equal (e_name ev) name"
  show ?thesis
  proof (cases "dir_sectors fs ds = []")
    case True
    then show ?thesis using that [of fs] dir_sectors_vol(1) [OF v d] v
      by (simp add: find_entry_def dir_slots_def dir_entries.simps)
  next
    case False
    from scan_until_vol [OF v d, of 0 ?P] obtain fs' q where
      "scan_until ?P dir 0 (length (dir_sectors fs ds) * SECTOR) fs = ((find ?P (dir_entries 0 (dir_slots fs ds)), q), fs')"
      "step fs fs'" "disk fs' = disk fs" by auto
    then show ?thesis using that [of fs'] dir_sectors_vol(1) [OF v d] False
      by (simp add: find_entry_def SECTOR_def)
  qed
qed

end

section \<open>Changing one slot\<close>

text \<open>
  \<open>same_name\<close>: two slots agree in what a scan looks at besides the first cluster and the size. Replacing the
  slot of a live entry by such a slot changes these two fields of this entry and nothing else.
\<close>

definition same_name :: "u8 list \<Rightarrow> u8 list \<Rightarrow> bool" where
  "same_name e e' \<longleftrightarrow> length e = 32 \<and> length e' = 32 \<and> (\<forall>i < 13. e' ! i = e ! i)"

definition set_extent :: "nat \<Rightarrow> nat \<Rightarrow> entry \<Rightarrow> entry" where
  "set_extent c n ev = ev\<lparr>e_cluster := c, e_size := n\<rparr>"

lemma set_extent_simps [simp]:
  "e_pos (set_extent c n ev) = e_pos ev" "e_cluster (set_extent c n ev) = c" "e_size (set_extent c n ev) = n"
  "e_attr (set_extent c n ev) = e_attr ev" "e_name (set_extent c n ev) = e_name ev" "e_sfn (set_extent c n ev) = e_sfn ev"
  by (simp_all add: set_extent_def)

lemma same_name_scan:
  assumes "same_name e e'"
  shows "scan_slot here e L = Found ev \<Longrightarrow>
    scan_slot here e' L = Found (set_extent (unat (rd16 26 e')) (unat (rd32 28 e')) ev)"
proof -
  have n: "e' ! i = e ! i" if "i < 13" for i using assms that by (simp add: same_name_def)
  have t: "take 11 e' = take 11 e"
    using assms n by (intro nth_equalityI) (simp_all add: same_name_def)
  have c: "sfn_checksum e' = sfn_checksum e"
    unfolding sfn_checksum_def by (rule foldl_cong) (simp_all add: n)
  have "takeWhile (\<lambda>i. e' ! i \<noteq> 0x20) [0..<8] = takeWhile (\<lambda>i. e ! i \<noteq> 0x20) [0..<8]"
    "takeWhile (\<lambda>i. e' ! (8 + i) \<noteq> 0x20) [0..<3] = takeWhile (\<lambda>i. e ! (8 + i) \<noteq> 0x20) [0..<3]"
    by (rule takeWhile_cong; simp add: n)+
  moreover have "e' ! i = e ! i" if "i \<in> set (takeWhile (\<lambda>i. e ! i \<noteq> 0x20) [0..<8])" for i
    using set_takeWhileD [OF that] n by simp
  moreover have "e' ! (8 + i) = e ! (8 + i)" if "i \<in> set (takeWhile (\<lambda>i. e ! (8 + i) \<noteq> 0x20) [0..<3])" for i
    using set_takeWhileD [OF that] n by simp
  ultimately have b: "build_sfn_name e' = build_sfn_name e"
    unfolding build_sfn_name_def by (simp add: n Let_def cong: map_cong)
  assume s: "scan_slot here e L = Found ev"
  then have "ev = scan_short here e L" by (auto simp: scan_slot_def split: if_splits)
  moreover have "scan_slot here e' L = Found (scan_short here e' L)"
    using s by (auto simp: scan_slot_def n split: if_splits)
  ultimately show ?thesis by (simp add: scan_short_def set_extent_def t c b n Let_def)
qed

lemma scan_slots_at:
  assumes "scan_slots pos es L = Some (ev, rest)"
  obtains j where "j < length es" "e_pos ev = pos + 32 * j" "rest = drop (Suc j) es"
    "\<And>e'. same_name (es ! j) e' \<Longrightarrow>
       scan_slots pos (es[j := e']) L = Some (set_extent (unat (rd16 26 e')) (unat (rd32 28 e')) ev, rest)"
    "\<And>k x. j < k \<Longrightarrow> scan_slots pos (es[k := x]) L = Some (ev, rest[k - Suc j := x])"
  using assms
proof (induction pos es L arbitrary: thesis rule: scan_slots.induct)
  case (2 pos e es L)
  show ?case
  proof (cases "scan_slot pos e L")
    case (Skip L')
    with 2(3) have "scan_slots (pos + 32) es L' = Some (ev, rest)" by simp
    from 2(1) [OF Skip _ this] obtain j where j: "j < length es" "e_pos ev = pos + 32 + 32 * j" "rest = drop (Suc j) es"
      "\<And>e'. same_name (es ! j) e' \<Longrightarrow>
         scan_slots (pos + 32) (es[j := e']) L' = Some (set_extent (unat (rd16 26 e')) (unat (rd32 28 e')) ev, rest)"
      "\<And>k x. j < k \<Longrightarrow> scan_slots (pos + 32) (es[k := x]) L' = Some (ev, rest[k - Suc j := x])" by blast
    show ?thesis
    proof (rule 2(2) [of "Suc j"])
      show "scan_slots pos ((e # es)[k := x]) L = Some (ev, rest[k - Suc (Suc j) := x])" if "Suc j < k" for k x
        using that j(5) [of "k - 1"] Skip by (cases k) simp_all
    qed (use j Skip in simp_all)
  next
    case (Found e')
    with 2(3) have ev: "ev = e'" "rest = es" by simp_all
    have pos: "e_pos e' = pos" using Found by (auto simp: scan_slot_def scan_short_def Let_def split: if_splits)
    show ?thesis
    proof (rule 2(2) [of 0])
      show "scan_slots pos ((e # es)[k := x]) L = Some (ev, rest[k - Suc 0 := x])" if "0 < k" for k x
        using that Found ev by (cases k) simp_all
    qed (use Found ev pos same_name_scan [of e] in auto)
  qed (use 2(3) in simp)
qed simp

lemma dir_entries_pos: "ev \<in> set (dir_entries pos es) \<Longrightarrow> \<exists>j < length es. e_pos ev = pos + 32 * j"
proof (induction pos es rule: dir_entries.induct)
  case (1 pos es)
  show ?case
  proof (cases "scan_slots pos es lfn_start")
    case None
    with 1(2) show ?thesis by (simp add: dir_entries_None)
  next
    case (Some r)
    obtain e rest where r: "r = (e, rest)" by (cases r)
    obtain j where j: "j < length es" "e_pos e = pos + 32 * j" "rest = drop (Suc j) es"
      using scan_slots_at [OF Some [unfolded r], of thesis] by simp
    have p: "pos + 32 * (length es - length rest) = pos + 32 * Suc j" using j by simp
    have "ev = e \<or> ev \<in> set (dir_entries (pos + 32 * (length es - length rest)) rest)"
      using 1(2) dir_entries_Some [OF Some [unfolded r]] by simp
    then show ?thesis
    proof
      assume "ev \<in> set (dir_entries (pos + 32 * (length es - length rest)) rest)"
      from 1(1) [OF Some r [symmetric] this] obtain i where "i < length rest" "e_pos ev = pos + 32 * Suc j + 32 * i" unfolding p by blast
      then show ?thesis using j by (intro exI [of _ "Suc j + i"]) auto
    qed (use j in auto)
  qed
qed

lemma dir_entries_update:
  assumes "ev \<in> set (dir_entries pos es)" "e_pos ev = pos + 32 * j" "same_name (es ! j) e'"
  shows "dir_entries pos (es[j := e']) =
    map (\<lambda>x. if e_pos x = pos + 32 * j then set_extent (unat (rd16 26 e')) (unat (rd32 28 e')) x else x) (dir_entries pos es)"
  using assms
proof (induction pos es arbitrary: j rule: dir_entries.induct)
  case (1 pos es)
  let ?u = "set_extent (unat (rd16 26 e')) (unat (rd32 28 e'))"
  obtain e rest where s: "scan_slots pos es lfn_start = Some (e, rest)"
    using 1(2) dir_entries_None by (cases "scan_slots pos es lfn_start") auto
  from scan_slots_at [OF s] obtain i where i: "i < length es" "e_pos e = pos + 32 * i" "rest = drop (Suc i) es"
    "\<And>e'. same_name (es ! i) e' \<Longrightarrow>
       scan_slots pos (es[i := e']) lfn_start = Some (set_extent (unat (rd16 26 e')) (unat (rd32 28 e')) e, rest)"
    "\<And>k x. i < k \<Longrightarrow> scan_slots pos (es[k := x]) lfn_start = Some (e, rest[k - Suc i := x])" by blast
  have p: "pos + 32 * (length es - length rest) = pos + 32 * Suc i" using i(1,3) by simp
  have all: "dir_entries pos es = e # dir_entries (pos + 32 * Suc i) rest"
    using dir_entries_Some [OF s] by (simp only: p)
  have later: "pos + 32 * Suc i \<le> e_pos x" if "x \<in> set (dir_entries (pos + 32 * Suc i) rest)" for x
    using dir_entries_pos [OF that] by auto
  show ?case
  proof (cases "j = i")
    case True
    have "dir_entries pos (es[j := e']) = ?u e # dir_entries (pos + 32 * Suc i) rest"
      using dir_entries_Some [OF i(4) [OF 1(4) [unfolded True]]] by (simp only: True length_list_update p)
    moreover have "map (\<lambda>x. if e_pos x = pos + 32 * j then ?u x else x) (dir_entries (pos + 32 * Suc i) rest) =
        dir_entries (pos + 32 * Suc i) rest"
      by (rule map_idI) (use later True in fastforce)
    ultimately show ?thesis using i(2) True by (simp add: all)
  next
    case False
    have tl: "ev \<in> set (dir_entries (pos + 32 * Suc i) rest)" using 1(2,3) i(2) False by (auto simp: all)
    then have j: "i < j" using later [OF tl] 1(3) by simp
    have lt: "j < length es" using dir_entries_pos [OF tl] 1(3) i(1,3) j by auto
    have rj: "rest ! (j - Suc i) = es ! j" using j lt i(3) by simp
    have pj: "pos + 32 * Suc i + 32 * (j - Suc i) = pos + 32 * j" using j by simp
    have tl': "dir_entries (pos + 32 * Suc i) (rest[j - Suc i := e']) =
        map (\<lambda>x. if e_pos x = pos + 32 * Suc i + 32 * (j - Suc i) then ?u x else x) (dir_entries (pos + 32 * Suc i) rest)"
      by (rule 1(1) [OF s refl, unfolded p]) (use tl 1(3,4) pj rj in simp_all)
    have hd': "dir_entries pos (es[j := e']) = e # dir_entries (pos + 32 * Suc i) (rest[j - Suc i := e'])"
      using dir_entries_Some [OF i(5) [OF j]] by (simp only: length_list_update p)
    have "e_pos e \<noteq> pos + 32 * j" using i(2) False by simp
    then show ?thesis unfolding hd' tl' pj all list.map by (simp only: if_False)
  qed
qed

text \<open>Where the sectors of a directory lie.\<close>

lemma dir_sectors_area:
  assumes "geo_ok fs" "dir_chain fs dir ds" "q \<in> set (dir_sectors fs ds)"
  shows "\<not> in_fat fs q" "is_chain (fat_entry fs) (max_cluster fs) cs \<Longrightarrow> set cs \<inter> set ds = {} \<Longrightarrow> c \<in> set cs \<Longrightarrow> \<not> in_cluster fs c q"
proof -
  have in_ds: "\<exists>d \<in> set ds. in_cluster fs d q" if "ds \<noteq> []"
    using that assms(3) chain_sector_in [of _ ds fs] by (fastforce simp: dir_sectors_def)
  have data: "first_data fs \<le> q" if "in_cluster fs d q" for d
    using that by (simp add: in_cluster_def data_sector_def)
  show "\<not> in_fat fs q"
    using in_ds data assms(1,3) by (cases "ds = []") (auto simp: dir_sectors_def in_fat_def geo_ok_def)
  show "\<not> in_cluster fs c q"
    if cs: "is_chain (fat_entry fs) (max_cluster fs) cs" "set cs \<inter> set ds = {}" "c \<in> set cs"
  proof (cases "ds = []")
    case True
    then show ?thesis using assms(3) data [of c] by (auto simp: dir_sectors_def)
  next
    case False
    obtain d where d: "d \<in> set ds" "in_cluster fs d q" using in_ds [OF False] by blast
    have r: "2 \<le> d" "2 \<le> c"
      using is_chain_range [OF conjunct1 [OF dir_chain_is_chain [OF assms(2) False]] d(1)] is_chain_range [OF cs(1,3)] by auto
    show ?thesis using cluster_sectors_apart [OF _ d(2) r(2,1)] cs(2,3) d(1) by blast
  qed
qed

text \<open>Reading a slot, a change in place of one slot of a sector, and its effect on the slots of the directory.\<close>

lemma slot_at_nth: "o' + 32 \<le> length b \<Longrightarrow> i < 32 \<Longrightarrow> slot_at o' b ! i = b ! (o' + i)"
  by (simp add: slot_at_def)

definition edits_slot :: "(nat \<Rightarrow> u8 list \<Rightarrow> u8 list) \<Rightarrow> (u8 list \<Rightarrow> u8 list) \<Rightarrow> bool" where
  "edits_slot f g \<longleftrightarrow> (\<forall>b k. length b = SECTOR \<longrightarrow> k < 16 \<longrightarrow> length (f (32 * k) b) = SECTOR \<and>
     (\<forall>i < 16. slot_at (32 * i) (f (32 * k) b) = (if i = k then g (slot_at (32 * k) b) else slot_at (32 * i) b)))"

lemma edits_slotD:
  "edits_slot f g \<Longrightarrow> length b = SECTOR \<Longrightarrow> k < 16 \<Longrightarrow> length (f (32 * k) b) = SECTOR"
  "edits_slot f g \<Longrightarrow> length b = SECTOR \<Longrightarrow> k < 16 \<Longrightarrow> i < 16 \<Longrightarrow>
     slot_at (32 * i) (f (32 * k) b) = (if i = k then g (slot_at (32 * k) b) else slot_at (32 * i) b)"
  by (simp_all add: edits_slot_def)

lemma slot_index: "32 * j mod SECTOR = 32 * (j mod 16)" "32 * j div SECTOR = j div 16" "j mod 16 < 16"
proof -
  have "32 * j mod (32 * 16) = 32 * (j mod 16)" by (rule mult_mod_right [symmetric])
  then show "32 * j mod SECTOR = 32 * (j mod 16)" by (simp add: SECTOR_def)
  show "32 * j div SECTOR = j div 16" by (simp add: SECTOR_def)
qed simp

lemma dir_slots_nth:
  "j < 16 * length (dir_sectors fs ds) \<Longrightarrow> dir_slots fs ds ! j = slot_at (32 * (j mod 16)) (disk fs (dir_sectors fs ds ! (j div 16)))"
  by (simp add: dir_slots_def slot_index)

text \<open>
  What a change of one slot does: the slot is replaced, every sector outside the directory keeps its
  contents, and so does the table.
\<close>

definition slot_set :: "'d fs \<Rightarrow> nat list \<Rightarrow> nat \<Rightarrow> u8 list \<Rightarrow> 'd fs \<Rightarrow> bool" where
  "slot_set fs ds j e fs' \<longleftrightarrow> dir_slots fs' ds = (dir_slots fs ds)[j := e] \<and>
     (\<forall>r < total_sectors fs. r \<notin> set (dir_sectors fs ds) \<longrightarrow> disk fs' r = disk fs r)"

context sector_device
begin

lemma edit_dir_vol:
  assumes v: "vol fs" and d: "dir_chain fs dir ds" and j: "j < length (dir_slots fs ds)" and f: "edits_slot f g"
  obtains fs' where "edit_dir dir (32 * j) f fs = (Some (), fs')" "step fs fs'"
    "slot_set fs ds j (g (dir_slots fs ds ! j)) fs'"
proof -
  let ?Q = "dir_sectors fs ds" and ?k = "j div 16" and ?o = "32 * (j mod 16)"
  let ?q = "?Q ! ?k"
  have k: "?k < length ?Q" using j by simp
  note q = dir_sectors_vol(2,3) [OF v d k]
  from dir_read_vol [OF v d k] obtain f1 where f1: "dir_read_sector dir ?k fs = (Some (), f1)" "step fs f1" "disk f1 = disk fs"
    "sec f1 = disk fs ?q" by blast
  note same = disk_same [OF conjunct2 [OF f1(2)] f1(3)] and g1 = same_geoD [OF conjunct2 [OF f1(2)]]
  have l: "length (disk fs ?q) = SECTOR" using dev_read_vol(2) [OF v q(2)] .
  define b where "b = f ?o (disk fs ?q)"
  have lb: "length b = SECTOR" unfolding b_def by (rule edits_slotD(1) [OF f l]) simp
  define f2 where "f2 = f1\<lparr>sec := b\<rparr>"
  have s2: "step f1 f2" "disk f2 = disk f1" unfolding f2_def by (rule sec_update_vol [OF conjunct1 [OF f1(2)] lb])+
  note same2 = disk_same [OF conjunct2 [OF s2(1)] s2(2)] and g2 = same_geoD [OF conjunct2 [OF s2(1)]]
  have d2: "dir_chain f2 dir ds" "?k < length (dir_sectors f2 ds)" "?q < total_sectors f2"
    using d k q(2) by (simp_all add: same same2 g1 g2)
  from dev_write_vol [OF conjunct1 [OF s2(1)] d2(3) lb] obtain fs' where
    f3: "dev_write ?q b f2 = (Some (), fs')" "step f2 fs'" "sec fs' = sec f2"
      "\<And>r. r < total_sectors f2 \<Longrightarrow> disk fs' r = (if r = ?q then b else disk f2 r)" by blast
  have w: "dir_write_sector dir ?k f2 = (Some (), fs')"
    using dir_sectors_vol(2) [OF conjunct1 [OF s2(1)] d2(1,2)] f3(1) same same2
    by (simp add: dir_write_sector_def fs_bind_def fs_get_def write_sec_def f2_def)
  have m: "mod_sec (f ?o) f1 = (Some (), f2)" by (simp add: mod_sec_def f2_def b_def f1(4))
  have run: "edit_dir dir (32 * j) f fs = (Some (), fs')"
    unfolding edit_dir_def slot_index by (simp add: fs_then_def fs_bind_def f1(1) m w)
  have st: "step fs fs'" using step_trans [OF f1(2) step_trans [OF s2(1) f3(2)]] .
  have dk: "disk fs' r = (if r = ?q then b else disk fs r)" if "r < total_sectors fs" for r
    using f3(4) [of r] that by (simp add: g1 g2 s2(2) f1(3))
  have "dir_sectors fs' ds = ?Q"
    using chain_sector_geo [OF conjunct2 [OF st]] same_geoD [OF conjunct2 [OF st]] by (simp add: dir_sectors_def)
  then have "dir_slots fs' ds ! i = (dir_slots fs ds)[j := g (dir_slots fs ds ! j)] ! i" if i: "i < 16 * length ?Q" for i
  proof -
    have ik: "i div 16 < length ?Q" using i by simp
    note qi = dir_sectors_vol(3) [OF v d ik]
    have eq: "?Q ! (i div 16) = ?q \<longleftrightarrow> i div 16 = ?k"
      using nth_eq_iff_index_eq [OF dir_sectors_distinct [OF d] ik k] .
    have ij: "i = j \<longleftrightarrow> i div 16 = ?k \<and> i mod 16 = j mod 16" by (metis div_mult_mod_eq)
    have "slot_at (32 * (i mod 16)) b = (if i mod 16 = j mod 16 then g (slot_at ?o (disk fs ?q)) else slot_at (32 * (i mod 16)) (disk fs ?q))"
      unfolding b_def by (rule edits_slotD(2) [OF f l]) simp_all
    then show ?thesis
      using dk [OF qi] i j eq ij \<open>dir_sectors fs' ds = ?Q\<close> by (auto simp: dir_slots_nth nth_list_update)
  qed
  then have "dir_slots fs' ds = (dir_slots fs ds)[j := g (dir_slots fs ds ! j)]"
    using \<open>dir_sectors fs' ds = ?Q\<close> by (intro nth_equalityI) simp_all
  moreover have "disk fs' r = disk fs r" if "r < total_sectors fs" "r \<notin> set ?Q" for r
    using dk [OF that(1)] that(2) nth_mem [OF k] by auto
  ultimately show ?thesis using that [OF run st] by (simp add: slot_set_def)
qed

end

text \<open>Two states whose tables agree hold the same chains.\<close>

lemma chains_same:
  assumes "same_geo fs fs'" "\<And>c. c \<le> max_cluster fs \<Longrightarrow> fat_entry fs' c = fat_entry fs c"
  shows "is_chain (fat_entry fs') (max_cluster fs') cs = is_chain (fat_entry fs) (max_cluster fs) cs"
    "file_chain fs' first cs = file_chain fs first cs" "free_clusters fs' = free_clusters fs"
    "dir_chain fs' dir ds = dir_chain fs dir ds" "dir_sectors fs' = dir_sectors fs"
proof -
  note g = same_geoD [OF assms(1)]
  have fr: "free_set (fat_entry fs') (max_cluster fs) = free_set (fat_entry fs) (max_cluster fs)"
    using assms(2) by (auto simp: free_set_def)
  have ch: "is_chain (fat_entry fs') (max_cluster fs) xs = is_chain (fat_entry fs) (max_cluster fs) xs" for xs
  proof
    assume "is_chain (fat_entry fs') (max_cluster fs) xs"
    then show "is_chain (fat_entry fs) (max_cluster fs) xs"
      using is_chain_cong [of xs "fat_entry fs'" "fat_entry fs" "max_cluster fs"] is_chain_range assms(2) by metis
  next
    assume "is_chain (fat_entry fs) (max_cluster fs) xs"
    then show "is_chain (fat_entry fs') (max_cluster fs) xs"
      using is_chain_cong [of xs "fat_entry fs'" "fat_entry fs" "max_cluster fs"] is_chain_range assms(2) by metis
  qed
  then show "is_chain (fat_entry fs') (max_cluster fs') cs = is_chain (fat_entry fs) (max_cluster fs) cs" by (simp add: g)
  have fc: "file_chain fs' x xs = file_chain fs x xs" for x xs by (simp add: file_chain_def live_chain_def ch fr g)
  then show "file_chain fs' first cs = file_chain fs first cs" .
  show "free_clusters fs' = free_clusters fs" by (simp add: free_clusters_def fr g)
  show "dir_chain fs' dir ds = dir_chain fs dir ds" by (simp add: dir_chain_def fc g)
  show "dir_sectors fs' = dir_sectors fs" by (intro ext) (simp add: dir_sectors_def g chain_sector_geo [OF assms(1)])
qed

lemma slot_at_update:
  "n < 32 \<Longrightarrow> slot_at (32 * i) (b[32 * k + n := x]) = (if i = k then (slot_at (32 * k) b)[n := x] else slot_at (32 * i) b)"
proof (cases "i = k")
  case True
  then show ?thesis by (simp add: slot_at_def drop_update_swap take_update_swap)
next
  case False
  assume n: "n < 32"
  have "slot_at (32 * i) (b[32 * k + n := x]) = slot_at (32 * i) b"
  proof (rule nth_equalityI)
    fix m assume "m < length (slot_at (32 * i) (b[32 * k + n := x]))"
    then have m: "m < 32" "32 * i + m < length b" by (auto simp: slot_at_def)
    have "32 * k + n \<noteq> 32 * i + m" using False n m(1) by presburger
    with m show "slot_at (32 * i) (b[32 * k + n := x]) ! m = slot_at (32 * i) b ! m" by (simp add: slot_at_def)
  qed (simp add: slot_at_def)
  with False show ?thesis by simp
qed

lemmas slot_at_updates = slot_at_update slot_at_update [unfolded add.commute [of "32 * _"]]

text \<open>\<^verbatim>\<open>update_entry\<close> on a slot.\<close>

definition extent_slot :: "nat \<Rightarrow> nat \<Rightarrow> u8 list \<Rightarrow> u8 list" where
  "extent_slot c n e = wr32 28 (of_nat n) (e[20 := 0, 21 := 0, 26 := of_nat c AND 0xFF, 27 := of_nat (c div 256) AND 0xFF])"

lemma extent_slot:
  assumes "length e = 32"
  shows "same_name e (extent_slot c n e)" "c < 2 ^ 16 \<Longrightarrow> unat (rd16 26 (extent_slot c n e)) = c"
    "n < 2 ^ 32 \<Longrightarrow> unat (rd32 28 (extent_slot c n e)) = n"
proof -
  show "same_name e (extent_slot c n e)" using assms by (simp add: same_name_def extent_slot_def wr32_def)
  show "c < 2 ^ 16 \<Longrightarrow> unat (rd16 26 (extent_slot c n e)) = c"
    by (rule cluster_bytes) (use assms in \<open>simp_all add: extent_slot_def wr32_def\<close>)
  show "n < 2 ^ 32 \<Longrightarrow> unat (rd32 28 (extent_slot c n e)) = n"
    using assms by (simp add: extent_slot_def rd32_wr32 unat_of_nat)
qed

lemma update_edits:
  "edits_slot (\<lambda>off b. wr32 (off + 28) (of_nat n) (b[off + 20 := 0, off + 21 := 0, off + 26 := of_nat c AND 0xFF,
     off + 27 := of_nat (c div 256) AND 0xFF])) (extent_slot c n)"
  by (simp add: edits_slot_def wr32_def extent_slot_def add.assoc slot_at_updates)

context sector_device
begin

lemma slot_set_frame:
  assumes v: "vol fs" and st: "step fs fs'" and d: "dir_chain fs dir ds" and s: "slot_set fs ds j e fs'"
  shows "c \<le> max_cluster fs \<Longrightarrow> fat_entry fs' c = fat_entry fs c"
    and "is_chain (fat_entry fs) (max_cluster fs) cs \<Longrightarrow> set cs \<inter> set ds = {} \<Longrightarrow> p < length cs * (spc fs * SECTOR) \<Longrightarrow>
      chain_byte fs' cs p = chain_byte fs cs p"
proof -
  have geo: "geo_ok fs" using v by (simp add: vol_def)
  have out: "disk fs' r = disk fs r" if "r < total_sectors fs" "r \<notin> set (dir_sectors fs ds)" for r
    using s that by (simp add: slot_set_def)
  show "fat_entry fs' c = fat_entry fs c" if "c \<le> max_cluster fs"
    by (rule fat_entry_frame [OF v conjunct2 [OF st] that]) (use out dir_sectors_area(1) [OF geo d] in blast)
  show "chain_byte fs' cs p = chain_byte fs cs p"
    if cs: "is_chain (fat_entry fs) (max_cluster fs) cs" "set cs \<inter> set ds = {}" and p: "p < length cs * (spc fs * SECTOR)"
  proof -
    have ps: "p div SECTOR < length cs * spc fs" using p by (simp add: less_mult_imp_div_less mult.assoc [symmetric])
    have "chain_sector fs cs (p div SECTOR) \<notin> set (dir_sectors fs ds)"
      using dir_sectors_area(2) [OF geo d _ cs] chain_sector_in [OF ps] by blast
    from out [OF chain_addr(2) [OF v cs(1) p] this] show ?thesis
      by (simp add: chain_byte_def chain_sector_geo [OF conjunct2 [OF st]])
  qed
qed

lemma update_entry_vol:
  assumes v: "vol fs" and d: "dir_chain fs dir ds" and j: "j < length (dir_slots fs ds)"
  shows "step fs (update_entry dir (32 * j) c n fs)"
    "slot_set fs ds j (extent_slot c n (dir_slots fs ds ! j)) (update_entry dir (32 * j) c n fs)"
proof -
  define F where "F = (\<lambda>off b. wr32 (off + 28) (of_nat n :: u32) (b[off + 20 := 0, off + 21 := 0,
    off + 26 := of_nat c AND 0xFF, off + 27 := of_nat (c div 256) AND 0xFF]))"
  obtain fs' where f: "edit_dir dir (32 * j) F fs = (Some (), fs')" "step fs fs'"
    "slot_set fs ds j (extent_slot c n (dir_slots fs ds ! j)) fs'"
    by (rule edit_dir_vol [OF v d j update_edits [of n c, folded F_def]])
  have "update_entry dir (32 * j) c n fs = fs'" by (simp add: update_entry_def F_def [symmetric] f(1))
  with f show "step fs (update_entry dir (32 * j) c n fs)"
    "slot_set fs ds j (extent_slot c n (dir_slots fs ds ! j)) (update_entry dir (32 * j) c n fs)" by simp_all
qed

lemma dir_slots_length:
  assumes v: "vol fs" and d: "dir_chain fs dir ds" and j: "j < length (dir_slots fs ds)"
  shows "length (dir_slots fs ds ! j) = 32"
proof -
  have k: "j div 16 < length (dir_sectors fs ds)" using j by simp
  have "length (disk fs (dir_sectors fs ds ! (j div 16))) = 512"
    using dev_read_vol(2) [OF v dir_sectors_vol(3) [OF v d k]] by (simp add: SECTOR_def)
  moreover have "32 * (j mod 16) + 32 \<le> 512" using slot_index(3) [of j] by linarith
  ultimately show ?thesis using j by (simp add: dir_slots_nth slot_at_def)
qed

end

section \<open>Files\<close>

text \<open>
  A file on a volume: its entry is live in the directory with chain \<open>ds\<close>, its own chain \<open>cs\<close> is long enough for
  its size and shares no cluster with the directory. Its contents are the first bytes of its chain.
\<close>

definition file_at :: "'d fs \<Rightarrow> nat list \<Rightarrow> entry \<Rightarrow> nat list \<Rightarrow> bool" where
  "file_at fs ds ev cs \<longleftrightarrow> ev \<in> set (dir_entries 0 (dir_slots fs ds)) \<and> file_chain fs (e_cluster ev) cs \<and>
     e_size ev \<le> length cs * (spc fs * SECTOR) \<and> set cs \<inter> set ds = {}"

definition file_bytes :: "'d fs \<Rightarrow> entry \<Rightarrow> nat list \<Rightarrow> u8 list" where
  "file_bytes fs ev cs = map (chain_byte fs cs) [0..<e_size ev]"

lemma dir_slots_cong:
  assumes "dir_sectors fs' ds = dir_sectors fs ds" "\<And>q. q \<in> set (dir_sectors fs ds) \<Longrightarrow> disk fs' q = disk fs q"
  shows "dir_slots fs' ds = dir_slots fs ds"
  by (rule nth_equalityI) (use assms nth_mem in \<open>auto simp: dir_slots_nth\<close>)

lemma file_chain_live: "file_chain fs first cs \<Longrightarrow> set cs \<inter> free_clusters fs = {}"
  by (auto simp: file_chain_def live_chain_def free_clusters_def split: if_splits)

lemma file_chain_range: "file_chain fs first cs \<Longrightarrow> c \<in> set cs \<Longrightarrow> 2 \<le> c \<and> c \<le> max_cluster fs"
  using is_chain_range by (auto simp: file_chain_def live_chain_def split: if_splits)

lemma chain_sector_append: "s < length cs * spc fs \<Longrightarrow> chain_sector fs (cs @ new) s = chain_sector fs cs s"
  by (simp add: chain_sector_def nth_append less_mult_imp_div_less)

lemma chain_byte_append: "p < length cs * (spc fs * SECTOR) \<Longrightarrow> chain_byte fs (cs @ new) p = chain_byte fs cs p"
  by (simp add: chain_byte_def chain_sector_append less_mult_imp_div_less mult.assoc [symmetric])

context sector_device
begin

text \<open>Growing the chain of a file leaves its bytes and the directory alone.\<close>

lemma grown_bytes:
  assumes v: "vol fs" and st: "step fs f1" and g: "grown fs cs new f1" and f: "file_chain fs first xs"
    and p: "p < length xs * (spc fs * SECTOR)"
  shows "chain_byte f1 xs p = chain_byte fs xs p"
proof -
  let ?s = "p div SECTOR"
  have s: "?s < length xs * spc fs" using p by (simp add: less_mult_imp_div_less mult.assoc [symmetric])
  note i = chain_sector_in [OF s]
  have ch: "is_chain (fat_entry fs) (max_cluster fs) xs" using f i(1) by (auto simp: file_chain_def live_chain_def split: if_splits)
  have c2: "2 \<le> xs ! (?s div spc fs)" using file_chain_range [OF f i(1)] by simp
  let ?q = "chain_sector fs xs ?s"
  have "\<not> in_cluster fs c ?q" if c: "c \<in> set new" for c
  proof
    assume ic: "in_cluster fs c ?q"
    have fr: "c \<in> free_clusters fs" using g c by (auto simp: grown_def)
    then have "2 \<le> c" by (simp add: free_clusters_def free_set_def)
    then have "c = xs ! (?s div spc fs)" using cluster_sectors_apart [OF ic i(2) _ c2] by simp
    with fr i(1) file_chain_live [OF f] show False by auto
  qed
  moreover have "\<not> in_fat fs ?q" using i(2) v by (auto simp: in_cluster_def in_fat_def data_sector_def vol_def geo_ok_def)
  ultimately have "disk f1 ?q = disk fs ?q"
    using g chain_addr(2) [OF v ch p] by (auto simp: grown_def dest: zeroedD)
  then show ?thesis using chain_sector_geo [OF conjunct2 [OF st]] by (simp add: chain_byte_def)
qed

lemma grown_chain:
  assumes v: "vol fs" and st: "step fs f1" and g: "grown fs cs new f1" and f: "file_chain fs first xs" and dj: "set cs \<inter> set xs = {}"
  shows "file_chain f1 first xs" "set (cs @ new) \<inter> set xs = {}"
proof -
  note geo = same_geoD [OF conjunct2 [OF st]]
  have nd: "set new \<inter> set xs = {}" using g file_chain_live [OF f] by (auto simp: grown_def)
  with dj show "set (cs @ new) \<inter> set xs = {}" by auto
  have fe: "fat_entry f1 x = fat_entry fs x" if "x \<in> set xs" for x
  proof -
    have "x \<notin> set new" "cs = [] \<or> x \<noteq> last cs" using that nd dj last_in_set [of cs] by blast+
    with g file_chain_range [OF f that] show ?thesis by (auto simp: grown_def)
  qed
  have "free_clusters f1 \<subseteq> free_clusters fs" using g by (auto simp: grown_def)
  then show "file_chain f1 first xs"
    using f is_chain_cong [of xs "fat_entry f1" "fat_entry fs" "max_cluster fs"] fe
    by (auto simp: file_chain_def live_chain_def free_clusters_def geo split: if_splits)
qed

lemma grown_dir:
  assumes v: "vol fs" and st: "step fs f1" and g: "grown fs cs new f1" and d: "dir_chain fs dir ds"
    and f: "file_chain fs first cs" and dj: "set cs \<inter> set ds = {}"
  shows "dir_chain f1 dir ds" "dir_slots f1 ds = dir_slots fs ds" "set (cs @ new) \<inter> set ds = {}"
proof -
  note geo = same_geoD [OF conjunct2 [OF st]]
  have gk: "geo_ok fs" using v by (simp add: vol_def)
  have fc: "file_chain fs dir ds" using d by (simp add: dir_chain_def)
  note gc = grown_chain [OF v st g fc dj]
  show "set (cs @ new) \<inter> set ds = {}" by (rule gc(2))
  then have nd: "set new \<inter> set ds = {}" by auto
  show "dir_chain f1 dir ds" using d gc(1) by (simp add: dir_chain_def geo)
  have "disk f1 q = disk fs q" if q: "q \<in> set (dir_sectors fs ds)" for q
  proof -
    have qt: "q < total_sectors fs" using q dir_sectors_vol(3) [OF v d] by (auto simp: in_set_conv_nth)
    have "\<not> in_cluster fs c q" if c: "c \<in> set new" for c
    proof (cases "ds = []")
      case True
      then show ?thesis using q by (auto simp: dir_sectors_def in_cluster_def data_sector_def)
    next
      case False
      have c2: "2 \<le> c" using g c by (auto simp: grown_def free_clusters_def free_set_def)
      obtain s where s: "s < length ds * spc fs" "q = chain_sector fs ds s" using q False by (auto simp: dir_sectors_def)
      note i = chain_sector_in [OF s(1), folded s(2)]
      show ?thesis
        using cluster_sectors_apart [OF _ i(2) c2] file_chain_range [OF fc i(1)] i(1) c nd by auto
    qed
    with g qt dir_sectors_area(1) [OF gk d q] show ?thesis by (auto simp: grown_def dest: zeroedD)
  qed
  then show "dir_slots f1 ds = dir_slots fs ds"
    by (intro dir_slots_cong) (simp_all add: dir_sectors_def geo chain_sector_geo [OF conjunct2 [OF st]])
qed

lemma patched_dir:
  assumes v: "vol fs" and st: "step fs f1" and p: "patched fs cs lo n b f1" and d: "dir_chain fs dir ds"
    and ch: "is_chain (fat_entry fs) (max_cluster fs) cs" and dj: "set cs \<inter> set ds = {}"
  shows "dir_chain f1 dir ds" "dir_slots f1 ds = dir_slots fs ds"
    "file_chain f1 first xs = file_chain fs first xs"
proof -
  have gk: "geo_ok fs" using v by (simp add: vol_def)
  note same = chains_same [OF conjunct2 [OF st] patched_fat [OF v ch conjunct2 [OF st] p]]
  show "dir_chain f1 dir ds" "file_chain f1 first xs = file_chain fs first xs" using d by (simp_all add: same)
  have "disk f1 q = disk fs q" if q: "q \<in> set (dir_sectors fs ds)" for q
  proof -
    have qt: "q < total_sectors fs" using q dir_sectors_vol(3) [OF v d] by (auto simp: in_set_conv_nth)
    with p dir_sectors_area(2) [OF gk d q ch dj] show ?thesis by (simp add: patched_def)
  qed
  then show "dir_slots f1 ds = dir_slots fs ds" by (intro dir_slots_cong) (simp_all add: same)
qed

lemma patched_other:
  assumes v: "vol fs" and st: "step fs f1" and p: "patched fs cs lo n b f1" and ch: "is_chain (fat_entry fs) (max_cluster fs) cs"
    and f: "file_chain fs first xs" and dj: "set cs \<inter> set xs = {}" and k: "k < length xs * (spc fs * SECTOR)"
  shows "chain_byte f1 xs k = chain_byte fs xs k"
proof -
  let ?s = "k div SECTOR"
  have s: "?s < length xs * spc fs" using k by (simp add: less_mult_imp_div_less mult.assoc [symmetric])
  note i = chain_sector_in [OF s]
  have chx: "is_chain (fat_entry fs) (max_cluster fs) xs" using f i(1) by (auto simp: file_chain_def live_chain_def split: if_splits)
  have "\<not> in_cluster fs c (chain_sector fs xs ?s)" if c: "c \<in> set cs" for c
    using cluster_sectors_apart [OF _ i(2)] is_chain_range [OF ch c] is_chain_range [OF chx i(1)] i(1) c dj by blast
  with p chain_addr(2) [OF v chx k] have "disk f1 (chain_sector fs xs ?s) = disk fs (chain_sector fs xs ?s)" by (simp add: patched_def)
  then show ?thesis using chain_sector_geo [OF conjunct2 [OF st]] by (simp add: chain_byte_def)
qed

end

text \<open>
  Filling a file: the clusters it needs are there, the gap behind its old end is zeroed and the bytes are
  written. The result is the old contents, zero-extended up to \<open>off\<close>, with \<open>buf\<close> written over it.
\<close>

definition need_clusters :: "'d fs \<Rightarrow> nat \<Rightarrow> nat" where
  "need_clusters fs n = (n + spc fs * SECTOR - 1) div (spc fs * SECTOR)"

lemma need_clusters:
  assumes "0 < spc fs"
  shows "n \<le> need_clusters fs n * (spc fs * SECTOR)"
proof -
  let ?cb = "spc fs * SECTOR"
  have cb: "0 < ?cb" using assms by (simp add: SECTOR_def)
  have "n + ?cb - 1 < (n + ?cb - 1) div ?cb * ?cb + ?cb" using dividend_less_div_times [OF cb] by (simp add: add.commute)
  then show ?thesis unfolding need_clusters_def using cb by linarith
qed

lemma patched_bytes:
  "patched fs cs lo n b fs' \<Longrightarrow> p < length cs * (spc fs * SECTOR) \<Longrightarrow>
     chain_byte fs' cs p = (if lo \<le> p \<and> p < lo + n then b p else chain_byte fs cs p)"
  by (simp add: patched_def)

definition filled :: "'d fs \<Rightarrow> nat list \<Rightarrow> nat list \<Rightarrow> nat \<Rightarrow> nat \<Rightarrow> u8 list \<Rightarrow> 'd fs \<Rightarrow> bool" where
  "filled fs ds cs sz off buf fs' \<longleftrightarrow> dir_slots fs' ds = dir_slots fs ds \<and> (\<forall>first xs. file_chain fs' first xs = file_chain fs first xs) \<and>
     (\<forall>p < length cs * (spc fs * SECTOR). chain_byte fs' cs p =
       (if off \<le> p \<and> p < off + length buf then buf ! (p - off) else if sz \<le> p \<and> p < off then 0 else chain_byte fs cs p)) \<and>
     (\<forall>first xs. file_chain fs first xs \<longrightarrow> set cs \<inter> set xs = {} \<longrightarrow>
       (\<forall>p < length xs * (spc fs * SECTOR). chain_byte fs' xs p = chain_byte fs xs p))"

text \<open>The chains apart from \<open>cs\<close> and \<open>ds\<close> keep their clusters and their bytes.\<close>

definition others_kept :: "'d fs \<Rightarrow> nat list \<Rightarrow> nat list \<Rightarrow> 'd fs \<Rightarrow> bool" where
  "others_kept fs cs ds fs' \<longleftrightarrow>
     (\<forall>first xs. file_chain fs first xs \<longrightarrow> set cs \<inter> set xs = {} \<longrightarrow> set xs \<inter> set ds = {} \<longrightarrow>
        file_chain fs' first xs \<and> (\<forall>p < length xs * (spc fs * SECTOR). chain_byte fs' xs p = chain_byte fs xs p))"

lemma dir_entries_size: "ev \<in> set (dir_entries pos es) \<Longrightarrow> e_size ev < 2 ^ 32"
proof (induction pos es rule: dir_entries.induct)
  case (1 pos es)
  have s: "scan_slots pos es L = Some (x, rest) \<Longrightarrow> e_size x < 2 ^ 32" for x rest L
  proof (induction pos es L rule: scan_slots.induct)
    case (2 pos e es L)
    then show ?case
      using unsigned_less [where 'a = nat and w = "rd32 28 e"]
      by (auto simp: scan_slot_def scan_short_def Let_def split: if_splits scan.splits)
  qed simp
  show ?case
  proof (cases "scan_slots pos es lfn_start")
    case None
    with 1(2) show ?thesis by (simp add: dir_entries_None)
  next
    case (Some r)
    obtain x rest where r: "r = (x, rest)" by (cases r)
    with 1 Some s [of lfn_start x rest] dir_entries_Some [of pos es x rest] show ?thesis by auto
  qed
qed

lemma fs_then_assoc: "fs_then a (fs_then b c) fs = fs_then (fs_then a b) c fs"
  by (simp add: fs_then_def fs_bind_def split: prod.splits option.splits)

lemma write_found_run:
  assumes "e_attr ev AND ATTR_DIR = 0" "buf \<noteq> []" "off + length buf + spc fs * SECTOR \<le> 2 ^ 32" "0 < spc fs * SECTOR"
    and "ensure_chain (e_cluster ev) (need_clusters fs (off + length buf)) fs = (Some first, f1)"
    and "fs_then (if off > e_size ev then range_write first (e_size ev) None (off - e_size ev) else fs_ret ())
       (range_write first off (Some buf) (length buf)) f1 = (Some (), f2)"
  shows "write_found dir ev off buf fs =
    (Some (length buf), update_entry dir (e_pos ev) first (max (off + length buf) (e_size ev)) f2)"
proof -
  let ?cb = "spc fs * SECTOR" and ?n = "off + length buf"
  have n: "length buf \<noteq> 0" using assms(2) by simp
  have w: "w32 (?n + ?cb - 1) div ?cb = need_clusters fs ?n"
    using assms(3,4) by (simp add: need_clusters_def)
  have o: "\<not> off > 0xFFFFFFFF - length buf"
  proof -
    have "(2 :: nat) ^ 32 = 4294967296" by simp
    then show ?thesis using assms(3,4) by linarith
  qed
  have a: "\<not> e_attr ev AND ATTR_DIR \<noteq> 0" using assms(1) by simp
  show ?thesis
    unfolding write_found_def Let_def if_not_P [OF a] if_not_P [OF n] if_not_P [OF o] w fs_bind_def assms(5) prod.case option.case
      fs_then_assoc
    by (simp only: fs_then_def [of "fs_then _ _"] fs_bind_def assms(6) prod.case option.case)
qed

context sector_device
begin

lemma fill_vol:
  assumes v: "vol fs" and d: "dir_chain fs dir ds" and ch: "is_chain (fat_entry fs) (max_cluster fs) cs" and dj: "set cs \<inter> set ds = {}"
    and buf: "buf \<noteq> []" and fit: "off + length buf \<le> length cs * (spc fs * SECTOR)"
  obtains fs' where
    "fs_then (if off > sz then range_write (hd cs) sz None (off - sz) else fs_ret ())
       (range_write (hd cs) off (Some buf) (length buf)) fs = (Some (), fs')"
    "step fs fs'" "dir_chain fs' dir ds" "filled fs ds cs sz off buf fs'"
proof -
  let ?gap = "if off > sz then range_write (hd cs) sz None (off - sz) else fs_ret ()"
  have len: "off < length cs * (spc fs * SECTOR)" using buf fit by (cases buf) simp_all
  have gap: "\<exists>f1. ?gap fs = (Some (), f1) \<and> step fs f1 \<and> patched fs cs sz (off - sz) (\<lambda>p. 0) f1"
  proof (cases "off > sz")
    case True
    obtain f1 where "range_write (hd cs) sz None (off - sz) fs = (Some (), f1)" "step fs f1"
      "patched fs cs sz (off - sz) (\<lambda>p. src_byte None (p - sz)) f1"
      by (rule range_write_vol [OF v ch, of sz "off - sz" None]) (use True len in simp_all)
    with True show ?thesis by (simp add: src_byte_def)
  next
    case False
    with v show ?thesis by (simp add: fs_ret_def patched_none)
  qed
  then obtain f1 where f1: "?gap fs = (Some (), f1)" "step fs f1" "patched fs cs sz (off - sz) (\<lambda>p. 0) f1" by blast
  note g1 = same_geoD [OF conjunct2 [OF f1(2)]]
  note pd1 = patched_dir [OF v f1(2,3) d ch dj]
  note ch1 = patched_chain [OF v ch conjunct2 [OF f1(2)] f1(3)]
  obtain fs' where f2: "range_write (hd cs) off (Some buf) (length buf) f1 = (Some (), fs')" "step f1 fs'"
      "patched f1 cs off (length buf) (\<lambda>p. src_byte (Some buf) (p - off)) fs'"
    by (rule range_write_vol [OF conjunct1 [OF f1(2)] ch1, of off "length buf" "Some buf"]) (use fit len g1 in simp_all)
  note pd2 = patched_dir [OF conjunct1 [OF f1(2)] f2(2,3) pd1(1) ch1 dj]
  have run: "fs_then ?gap (range_write (hd cs) off (Some buf) (length buf)) fs = (Some (), fs')"
    by (simp only: fs_then_def fs_bind_def f1(1) prod.case option.case f2(1))
  have "filled fs ds cs sz off buf fs'"
    unfolding filled_def
  proof (intro conjI allI impI)
    show "dir_slots fs' ds = dir_slots fs ds" by (simp only: pd1(2) pd2(2))
    show "file_chain fs' first xs = file_chain fs first xs" for first xs by (simp only: pd1(3) pd2(3))
    show "chain_byte fs' cs p = (if off \<le> p \<and> p < off + length buf then buf ! (p - off)
        else if sz \<le> p \<and> p < off then 0 else chain_byte fs cs p)" if "p < length cs * (spc fs * SECTOR)" for p
      using patched_bytes [OF f1(3) that] patched_bytes [OF f2(3), of p] that by (auto simp: g1 src_byte_def)
    show "chain_byte fs' xs p = chain_byte fs xs p"
      if "file_chain fs first xs" "set cs \<inter> set xs = {}" "p < length xs * (spc fs * SECTOR)" for first xs p
      using patched_other [OF v f1(2,3) ch that] patched_other [OF conjunct1 [OF f1(2)] f2(2,3) ch1 pd1(3) [THEN iffD2, OF that(1)] that(2)]
        that(3) g1 by simp
  qed
  with run step_trans [OF f1(2) f2(2)] pd2(1) show ?thesis by (rule that)
qed

text \<open>Recording a new extent of a file: only its entry changes.\<close>

lemma record_extent:
  assumes v: "vol fs" and d: "dir_chain fs dir ds" and ev: "ev \<in> set (dir_entries 0 (dir_slots fs ds))"
    and small: "c < 2 ^ 16" "n < 2 ^ 32"
  shows "step fs (update_entry dir (e_pos ev) c n fs)" "dir_chain (update_entry dir (e_pos ev) c n fs) dir ds"
    "dir_entries 0 (dir_slots (update_entry dir (e_pos ev) c n fs) ds) =
       map (\<lambda>x. if e_pos x = e_pos ev then set_extent c n x else x) (dir_entries 0 (dir_slots fs ds))"
    "file_chain (update_entry dir (e_pos ev) c n fs) first xs = file_chain fs first xs"
    "is_chain (fat_entry fs) (max_cluster fs) cs \<Longrightarrow> set cs \<inter> set ds = {} \<Longrightarrow> p < length cs * (spc fs * SECTOR) \<Longrightarrow>
       chain_byte (update_entry dir (e_pos ev) c n fs) cs p = chain_byte fs cs p"
proof -
  obtain j where j: "j < length (dir_slots fs ds)" "e_pos ev = 32 * j" using dir_entries_pos [OF ev] by auto
  define fs' where "fs' = update_entry dir (e_pos ev) c n fs"
  have u: "step fs fs'" "slot_set fs ds j (extent_slot c n (dir_slots fs ds ! j)) fs'"
    unfolding fs'_def j(2) by (rule update_entry_vol [OF v d j(1)])+
  note fr = slot_set_frame [OF v u(1) d u(2)]
  note same = chains_same [OF conjunct2 [OF u(1)] fr(1)]
  note es = extent_slot [OF dir_slots_length [OF v d j(1)], where c = c and n = n]
  show "step fs (update_entry dir (e_pos ev) c n fs)" using u(1) by (simp add: fs'_def)
  show "dir_chain (update_entry dir (e_pos ev) c n fs) dir ds" "file_chain (update_entry dir (e_pos ev) c n fs) first xs = file_chain fs first xs"
    using d same by (simp_all add: fs'_def)
  show "chain_byte (update_entry dir (e_pos ev) c n fs) cs p = chain_byte fs cs p"
    if "is_chain (fat_entry fs) (max_cluster fs) cs" "set cs \<inter> set ds = {}" "p < length cs * (spc fs * SECTOR)"
    using fr(2) [OF that] by (simp add: fs'_def)
  have "dir_entries 0 ((dir_slots fs ds)[j := extent_slot c n (dir_slots fs ds ! j)]) =
      map (\<lambda>x. if e_pos x = 0 + 32 * j then set_extent c n x else x) (dir_entries 0 (dir_slots fs ds))"
    using dir_entries_update [OF ev _ es(1)] j(2) es(2) [OF small(1)] es(3) [OF small(2)] by simp
  moreover have "dir_slots fs' ds = (dir_slots fs ds)[j := extent_slot c n (dir_slots fs ds ! j)]" using u(2) by (simp add: slot_set_def)
  ultimately show "dir_entries 0 (dir_slots (update_entry dir (e_pos ev) c n fs) ds) =
      map (\<lambda>x. if e_pos x = e_pos ev then set_extent c n x else x) (dir_entries 0 (dir_slots fs ds))"
    using j(2) by (simp add: fs'_def)
qed

lemma chain_first_small: "vol fs \<Longrightarrow> file_chain fs first cs \<Longrightarrow> first < 2 ^ 16"
  using is_chain_range [of "fat_entry fs" "max_cluster fs" cs "hd cs"] is_chain_nonempty [of "fat_entry fs" "max_cluster fs" cs]
  by (auto simp: file_chain_def live_chain_def vol_def geo_ok_def split: if_splits)

lemma write_found_vol:
  assumes v: "vol fs" and d: "dir_chain fs dir ds" and f: "file_at fs ds ev cs" and at: "e_attr ev AND ATTR_DIR = 0"
    and buf: "buf \<noteq> []" and small: "off + length buf + spc fs * SECTOR \<le> 2 ^ 32"
    and room: "need_clusters fs (off + length buf) - length cs \<le> card (free_clusters fs)"
  obtains fs' first cs' where "write_found dir ev off buf fs = (Some (length buf), fs')" "step fs fs'" "dir_chain fs' dir ds"
    "file_at fs' ds (set_extent first (max (off + length buf) (e_size ev)) ev) cs'"
    "file_bytes fs' (set_extent first (max (off + length buf) (e_size ev)) ev) cs' =
       overwrite off buf (file_bytes fs ev cs @ replicate (off - e_size ev) 0)"
    "dir_entries 0 (dir_slots fs' ds) =
       map (\<lambda>x. if e_pos x = e_pos ev then set_extent first (max (off + length buf) (e_size ev)) x else x) (dir_entries 0 (dir_slots fs ds))"
    "others_kept fs cs ds fs'"
proof -
  let ?cb = "spc fs * SECTOR" and ?n = "off + length buf" and ?sz = "max (off + length buf) (e_size ev)"
  have F: "ev \<in> set (dir_entries 0 (dir_slots fs ds))" "file_chain fs (e_cluster ev) cs" "e_size ev \<le> length cs * ?cb" "set cs \<inter> set ds = {}"
    using f by (simp_all add: file_at_def)
  have geo: "geo_ok fs" and spc: "0 < spc fs" using v by (simp_all add: vol_def geo_ok_def)
  have cb: "0 < ?cb" using spc by (simp add: SECTOR_def)
  have len: "0 < length buf" using buf by simp
  obtain first new f1 where f1: "ensure_chain (e_cluster ev) (need_clusters fs ?n) fs = (Some first, f1)" "step fs f1"
      "length new = need_clusters fs ?n - length cs" "file_chain f1 first (cs @ new)" "grown fs cs new f1"
    by (rule ensure_chain_vol [OF v F(2) room])
  let ?cs = "cs @ new"
  note g1 = same_geoD [OF conjunct2 [OF f1(2)]]
  note gd = grown_dir [OF v f1(2,5) d F(2,4)]
  have "?n \<le> need_clusters fs ?n * ?cb" by (rule need_clusters [OF spc])
  also have "\<dots> \<le> length ?cs * ?cb" using f1(3) by (intro mult_le_mono1) simp
  finally have fit: "?n \<le> length ?cs * (spc f1 * SECTOR)" using g1 by simp
  then have "first \<noteq> 0" "is_chain (fat_entry f1) (max_cluster f1) ?cs" "first = hd ?cs"
    using f1(4) len live_chainD by (auto simp: file_chain_def split: if_splits)
  note c1 = this
  obtain f2 where f2: "fs_then (if off > e_size ev then range_write (hd ?cs) (e_size ev) None (off - e_size ev) else fs_ret ())
         (range_write (hd ?cs) off (Some buf) (length buf)) f1 = (Some (), f2)"
      "step f1 f2" "dir_chain f2 dir ds" "filled f1 ds ?cs (e_size ev) off buf f2"
    by (rule fill_vol [OF conjunct1 [OF f1(2)] gd(1) c1(2) gd(3) buf fit, of "e_size ev"])
  have sl: "dir_slots f2 ds = dir_slots fs ds" using f2(4) gd(2) by (simp add: filled_def)
  have fc2: "file_chain f2 first ?cs" using f2(4) f1(4) by (simp add: filled_def)
  note g2 = same_geoD [OF conjunct2 [OF f2(2)]]
  have c2: "is_chain (fat_entry f2) (max_cluster f2) ?cs" using fc2 c1(1) by (simp add: file_chain_def live_chain_def)
  have sz: "?sz < 2 ^ 32" "?sz \<le> length ?cs * ?cb" "e_size ev < 2 ^ 32"
  proof -
    have "?n < 2 ^ 32" using small cb by linarith
    moreover show "e_size ev < 2 ^ 32" by (rule dir_entries_size [OF F(1)])
    ultimately show "?sz < 2 ^ 32" by simp
    have "length cs * ?cb \<le> length ?cs * ?cb" by (intro mult_le_mono1) simp
    with F(3) have "e_size ev \<le> length ?cs * ?cb" by (rule order_trans)
    with fit show "?sz \<le> length ?cs * ?cb" unfolding g1 by (rule max.boundedI)
  qed
  have ev2: "ev \<in> set (dir_entries 0 (dir_slots f2 ds))" using F(1) sl by simp
  note R = record_extent [OF conjunct1 [OF f2(2)] f2(3) ev2 chain_first_small [OF conjunct1 [OF f2(2)] fc2] sz(1)]
  define fs' where "fs' = update_entry dir (e_pos ev) first ?sz f2"
  let ?ev = "set_extent first ?sz ev"
  have st: "step fs fs'" using step_trans [OF f1(2) step_trans [OF f2(2) R(1)]] by (simp add: fs'_def)
  have run: "write_found dir ev off buf fs = (Some (length buf), fs')"
    unfolding fs'_def by (rule write_found_run [OF at buf small cb f1(1) f2(1) [folded c1(3)]])
  have ents: "dir_entries 0 (dir_slots fs' ds) = map (\<lambda>x. if e_pos x = e_pos ev then set_extent first ?sz x else x) (dir_entries 0 (dir_slots fs ds))"
    using R(3) by (simp add: fs'_def sl)
  have "?ev \<in> set (dir_entries 0 (dir_slots fs' ds))" unfolding ents using F(1) by force
  then have at': "file_at fs' ds ?ev ?cs"
    using R(4) fc2 gd(3) sz(2) same_geoD [OF conjunct2 [OF st]] by (simp add: file_at_def fs'_def)
  have bytes: "file_bytes fs' ?ev ?cs = overwrite off buf (file_bytes fs ev cs @ replicate (off - e_size ev) 0)"
    (is "?l = overwrite off buf ?old")
  proof (rule nth_equalityI)
    show "length ?l = length (overwrite off buf ?old)" by (auto simp: file_bytes_def length_overwrite max_def)
    fix p assume "p < length ?l"
    then have p: "p < ?sz" by (simp add: file_bytes_def)
    have p2: "p < length ?cs * (spc f2 * SECTOR)" "p < length ?cs * (spc f1 * SECTOR)"
      unfolding g2 g1 by (rule order.strict_trans2 [OF p sz(2)])+
    have old: "chain_byte f1 ?cs p = chain_byte fs cs p" if "p < e_size ev"
    proof -
      have pc: "p < length cs * ?cb" using that F(3) by simp
      then show ?thesis using chain_byte_append [of p cs f1 new] grown_bytes [OF v f1(2,5) F(2) pc] g1 by simp
    qed
    have "?l ! p = chain_byte f2 ?cs p" using R(5) [OF c2 gd(3) p2(1)] p by (simp add: file_bytes_def fs'_def)
    also have "\<dots> = (if off \<le> p \<and> p < ?n then buf ! (p - off) else if e_size ev \<le> p \<and> p < off then 0 else chain_byte f1 ?cs p)"
      using f2(4) p2(2) by (simp add: filled_def)
    also have "\<dots> = overwrite off buf ?old ! p"
      using p old by (subst overwrite_nth) (auto simp: file_bytes_def nth_append)
    finally show "?l ! p = overwrite off buf ?old ! p" .
  qed
  have oth: "others_kept fs cs ds fs'"
    unfolding others_kept_def
  proof (intro allI impI conjI)
    fix a xs assume x: "file_chain fs a xs" "set cs \<inter> set xs = {}" "set xs \<inter> set ds = {}"
    note gc = grown_chain [OF v f1(2,5) x(1,2)]
    have fx: "file_chain f2 a xs" using f2(4) gc(1) by (simp add: filled_def)
    with R(4) show "file_chain fs' a xs" by (simp add: fs'_def)
    fix p assume p: "p < length xs * ?cb"
    then have "is_chain (fat_entry f2) (max_cluster f2) xs" using fx by (auto simp: file_chain_def live_chain_def split: if_splits)
    then have "chain_byte fs' xs p = chain_byte f2 xs p" using R(5) [OF _ x(3)] p g1 g2 by (simp add: fs'_def)
    also have "\<dots> = chain_byte f1 xs p" using f2(4) gc p g1 unfolding filled_def by metis
    finally show "chain_byte fs' xs p = chain_byte fs xs p" using grown_bytes [OF v f1(2,5) x(1) p] by simp
  qed
  show ?thesis by (rule that [OF run st R(2) [folded fs'_def] at' bytes ents oth])
qed

end

section \<open>Writing and reading back\<close>

definition named :: "u8 list \<Rightarrow> entry \<Rightarrow> bool" where
  "named name ev \<longleftrightarrow> e_attr ev AND ATTR_VOLUME = 0 \<and> ci_equal (e_name ev) name"

lemma find_map: "(\<And>x. P (g x) = P x) \<Longrightarrow> find P (map g xs) = map_option g (find P xs)"
  by (induction xs) auto

lemma find_mem: "find P xs = Some x \<Longrightarrow> x \<in> set xs \<and> P x"
  by (induction xs) (auto split: if_splits)

context sector_device
begin

lemma fat_read_vol:
  assumes v: "vol fs" and d: "dir_chain fs dir ds" and nm: "find (named name) (dir_entries 0 (dir_slots fs ds)) = Some ev"
    and f: "file_at fs ds ev cs" and at: "e_attr ev AND ATTR_DIR = 0"
  obtains fs' where "fat_read dir name off len fs = (Some (take len (drop off (file_bytes fs ev cs))), fs')"
    "step fs fs'" "disk fs' = disk fs"
proof -
  obtain f1 where f1: "find_entry dir name fs = (find (named name) (dir_entries 0 (dir_slots fs ds)), f1)" "step fs f1" "disk f1 = disk fs"
    by (rule find_entry_vol [OF v d, of name, folded named_def])
  note same = disk_same [OF conjunct2 [OF f1(2)] f1(3)] and g1 = same_geoD [OF conjunct2 [OF f1(2)]]
  let ?cb = "spc fs * SECTOR" and ?n = "min len (e_size ev - off)"
  have F: "file_chain fs (e_cluster ev) cs" "e_size ev \<le> length cs * ?cb" using f by (simp_all add: file_at_def)
  have hd: "fs_bind (find_entry dir name) k fs = k ev f1" for k :: "entry \<Rightarrow> ('d, u8 list) fsm"
    by (simp add: fs_bind_def f1(1) nm)
  show ?thesis
  proof (cases "off < e_size ev")
    case False
    then show ?thesis using that [of f1] f1(2,3) at by (simp add: fat_read_def hd file_bytes_def)
  next
    case True
    have ne: "cs \<noteq> []" using True F(2) by auto
    then have ch: "is_chain (fat_entry fs) (max_cluster fs) cs" "e_cluster ev = hd cs"
      using F(1) by (auto simp: file_chain_def live_chain_def split: if_splits)
    have k: "off div ?cb < length cs" using True F(2) less_mult_imp_div_less [of off "length cs" ?cb] by simp
    have ch1: "is_chain (fat_entry f1) (max_cluster f1) cs" using ch(1) by (simp add: same g1)
    have nz: "cs ! (off div ?cb) \<noteq> 0" using is_chain_range [OF ch(1) nth_mem [OF k]] by simp
    have at1: "chain_at (e_cluster ev) (off div (spc f1 * SECTOR)) f1 = Some (cs ! (off div ?cb))"
      using chain_at_vol [OF conjunct1 [OF f1(2)] ch1] k ch(2) by (simp add: g1)
    have fit: "off + ?n \<le> length cs * ?cb" using True F(2) by linarith
    have "\<exists>fs'. read_loop (cs ! (off div ?cb)) (off mod ?cb) ?n [] f1 =
        (Some ([] @ map (chain_byte f1 cs) [off + length ([] :: u8 list)..<off + ?n]), fs') \<and> step f1 fs' \<and> disk fs' = disk f1"
      by (rule read_loop_vol [OF conjunct1 [OF f1(2)] ch1]) (use fit g1 in simp_all)
    then obtain fs' where f2: "read_loop (cs ! (off div ?cb)) (off mod ?cb) ?n [] f1 = (Some (map (chain_byte fs cs) [off..<off + ?n]), fs')"
      "step f1 fs'" "disk fs' = disk fs" by (auto simp: same f1(3))
    have "map (chain_byte fs cs) [off..<off + ?n] = take len (drop off (file_bytes fs ev cs))"
      using True by (simp add: file_bytes_def drop_map take_map drop_upt take_upt min_def)
    moreover have "fat_read dir name off len fs = read_loop (cs ! (off div ?cb)) (off mod ?cb) ?n [] f1"
      using True at at1 nz by (simp add: fat_read_def hd Let_def g1)
    ultimately show ?thesis using that [of fs'] f2 step_trans [OF f1(2) f2(2)] by simp
  qed
qed

lemma fat_write_vol:
  assumes v: "vol fs" and d: "dir_chain fs dir ds" and nm: "find (named name) (dir_entries 0 (dir_slots fs ds)) = Some ev"
    and f: "file_at fs ds ev cs" and at: "e_attr ev AND ATTR_DIR = 0"
    and buf: "buf \<noteq> []" and small: "off + length buf + spc fs * SECTOR \<le> 2 ^ 32"
    and room: "need_clusters fs (off + length buf) - length cs \<le> card (free_clusters fs)"
  obtains fs' ev' cs' where "fat_write dir name off buf fs = (Some (length buf), fs')" "step fs fs'" "dir_chain fs' dir ds"
    "find (named name) (dir_entries 0 (dir_slots fs' ds)) = Some ev'" "file_at fs' ds ev' cs'" "e_attr ev' = e_attr ev"
    "file_bytes fs' ev' cs' = overwrite off buf (file_bytes fs ev cs @ replicate (off - e_size ev) 0)"
    "filter (\<lambda>x. e_pos x \<noteq> e_pos ev) (dir_entries 0 (dir_slots fs' ds)) = filter (\<lambda>x. e_pos x \<noteq> e_pos ev) (dir_entries 0 (dir_slots fs ds))"
    "others_kept fs cs ds fs'"
proof -
  obtain f1 where f1: "find_entry dir name fs = (find (named name) (dir_entries 0 (dir_slots fs ds)), f1)" "step fs f1" "disk f1 = disk fs"
    by (rule find_entry_vol [OF v d, of name, folded named_def])
  note same = disk_same [OF conjunct2 [OF f1(2)] f1(3)] and g1 = same_geoD [OF conjunct2 [OF f1(2)]]
  have d1: "dir_chain f1 dir ds" "file_at f1 ds ev cs" using d f by (simp_all add: same file_at_def g1)
  have s1: "off + length buf + spc f1 * SECTOR \<le> 2 ^ 32" "need_clusters f1 (off + length buf) - length cs \<le> card (free_clusters f1)"
    using small room by (simp_all add: g1 same need_clusters_def)
  let ?sz = "max (off + length buf) (e_size ev)"
  obtain fs' first cs' where w: "write_found dir ev off buf f1 = (Some (length buf), fs')" "step f1 fs'" "dir_chain fs' dir ds"
    "file_at fs' ds (set_extent first ?sz ev) cs'"
    "file_bytes fs' (set_extent first ?sz ev) cs' = overwrite off buf (file_bytes f1 ev cs @ replicate (off - e_size ev) 0)"
    "dir_entries 0 (dir_slots fs' ds) = map (\<lambda>x. if e_pos x = e_pos ev then set_extent first ?sz x else x) (dir_entries 0 (dir_slots f1 ds))"
    "others_kept f1 cs ds fs'"
    by (rule write_found_vol [OF conjunct1 [OF f1(2)] d1 at buf s1])
  have run: "fat_write dir name off buf fs = (Some (length buf), fs')" by (simp add: fat_write_def f1(1) nm w(1))
  have fnd: "find (named name) (dir_entries 0 (dir_slots fs' ds)) = Some (set_extent first ?sz ev)"
    unfolding w(6) by (subst find_map) (simp add: named_def, simp add: same nm)
  have flt: "filter (\<lambda>x. e_pos x \<noteq> e_pos ev) (dir_entries 0 (dir_slots fs' ds)) = filter (\<lambda>x. e_pos x \<noteq> e_pos ev) (dir_entries 0 (dir_slots fs ds))"
  proof -
    have "filter (\<lambda>x. e_pos x \<noteq> q) (map (\<lambda>x. if e_pos x = q then set_extent first ?sz x else x) xs) = filter (\<lambda>x. e_pos x \<noteq> q) xs" for q xs
      by (induction xs) auto
    then show ?thesis unfolding w(6) same .
  qed
  have bts: "file_bytes f1 ev cs = file_bytes fs ev cs" by (simp add: file_bytes_def same)
  have oth: "others_kept fs cs ds fs'" using w(7) by (simp add: others_kept_def same g1)
  show ?thesis
    by (rule that [OF run step_trans [OF f1(2) w(2)] w(3) fnd w(4) _ w(5) [unfolded bts] flt oth]) simp
qed

end

end
