(* ===== verification/Fat_Format.thy ===== *)
theory Fat_Format
  imports Fat_Files
begin

text \<open>
  Formatting and mounting (\<^verbatim>\<open>format\<close> and \<^verbatim>\<open>mount\<close> of \<^verbatim>\<open>vnu/kernel/fs/fat16.cpp\<close>): the geometry \<^verbatim>\<open>format\<close> chooses
  is consistent, the boot sector it writes reads back as that geometry, and the volume that \<^verbatim>\<open>mount\<close> then
  finds has all its clusters free and an empty root directory.
\<close>

section \<open>The geometry\<close>

lemma pick_spc_power: "pick_spc n s \<in> {1, 2, 4, 8, 16, 32, 64, 128}" if "s \<in> {1, 2, 4, 8, 16, 32, 64, 128}"
  using that
proof (induction n s rule: pick_spc.induct)
  case (1 n s)
  show ?case
  proof (cases "s \<noteq> 0 \<and> n div s > 60000 \<and> s < 128")
    case True
    then have "2 * s \<in> {1, 2, 4, 8, 16, 32, 64, 128}" using 1(2) by auto
    from 1(1) [OF True this] show ?thesis by (subst pick_spc.simps) (simp only: if_P [OF True])
  next
    case False
    show ?thesis by (subst pick_spc.simps) (simp only: if_not_P [OF False] 1(2))
  qed
qed

lemma pick_fatsz_ok:
  "pick_fatsz n s rds fsz = Some k \<Longrightarrow> fsz \<le> 0xFFFF \<Longrightarrow>
     fsz \<le> k \<and> k \<le> 0xFFFF \<and> RESERVED + NUM_FATS * k + rds < n \<and> fat_need n s rds k \<le> k"
proof (induction n s rds fsz rule: pick_fatsz.induct)
  case (1 n s rds fsz)
  show ?case
  proof (cases "n \<le> RESERVED + NUM_FATS * fsz + rds \<or> fat_need n s rds fsz \<le> fsz")
    case True
    with 1(2,3) show ?thesis by (subst (asm) pick_fatsz.simps) (auto simp: Let_def split: if_splits)
  next
    case False
    with 1(2) have big: "\<not> fat_need n s rds fsz > 0xFFFF" "pick_fatsz n s rds (fat_need n s rds fsz) = Some k"
      by (subst (asm) pick_fatsz.simps, simp add: Let_def split: if_splits)+
    with 1(1) [OF _ refl] False show ?thesis by (simp add: not_le not_less)
  qed
qed

lemma format_geo:
  assumes "format_fs dev d lba n = Some fs" "lba + n \<le> 2 ^ 32"
  shows "geo_ok fs" "f_dev fs = dev" "f_ctx fs = d" "part_lba fs = lba" "total_sectors fs = n"
    "first_fat fs = 1" "num_fats fs = 2" "root_entries fs = 512" "root_dir_sectors fs = 32" "mounted fs"
    "spc fs \<in> {1, 2, 4, 8, 16, 32, 64, 128}" "fatsz fs \<le> 0xFFFF" "1 \<le> fatsz fs"
    "max_cluster fs = (n - first_data fs) div spc fs + 1" "first_data fs < n"
    "FAT16_MIN_CLUSTERS \<le> (n - first_data fs) div spc fs" "(n - first_data fs) div spc fs + 2 \<le> FAT16_MAX_CLUSTER"
proof -
  define s where "s = pick_spc n 1"
  define rds where "rds = (ROOT_ENTRIES * 32 + SECTOR - 1) div SECTOR"
  have r: "rds = 32" by (simp add: rds_def ROOT_ENTRIES_def SECTOR_def)
  have s: "s \<in> {1, 2, 4, 8, 16, 32, 64, 128}" unfolding s_def by (rule pick_spc_power) simp
  note A = assms(1) [unfolded format_fs_def Let_def, folded s_def rds_def]
  obtain k where k: "pick_fatsz n s rds 1 = Some k" using A by (auto split: option.splits)
  define c where "c = (n - RESERVED - NUM_FATS * k - rds) div s"
  note B = A [unfolded k option.case, folded c_def]
  have c: "\<not> (c < FAT16_MIN_CLUSTERS \<or> c + 2 > FAT16_MAX_CLUSTER)"
    by (rule notI, insert B, subst (asm) if_P, assumption, simp)
  note fs = B [unfolded if_not_P [OF c] option.inject, symmetric]
  note K = pick_fatsz_ok [OF k]
  have F: "f_dev fs = dev" "f_ctx fs = d" "part_lba fs = lba" "total_sectors fs = n" "first_fat fs = RESERVED" "num_fats fs = NUM_FATS"
    "root_entries fs = ROOT_ENTRIES" "root_dir_sectors fs = rds" "mounted fs" "spc fs = s" "fatsz fs = k" "max_cluster fs = c + 1"
    "first_root fs = RESERVED + NUM_FATS * k" "first_data fs = RESERVED + NUM_FATS * k + rds" "sec fs = replicate SECTOR 0"
    by (simp_all add: fs new_fs_def)
  have ce: "c = (n - first_data fs) div spc fs" by (simp add: c_def F diff_diff_add add.assoc)
  have data: "c * s \<le> n - first_data fs" unfolding ce F by simp
  have tab: "c + 1 < k * 256"
  proof -
    have "((c + 2) * 2 + SECTOR - 1) div SECTOR \<le> k" using K by (simp add: fat_need_def c_def Let_def)
    then have "(c + 2) * 2 + 511 < (k + 1) * 512" by (simp add: SECTOR_def)
    then show ?thesis by simp
  qed
  have sp: "1 \<le> s" using s by auto
  show "geo_ok fs"
    unfolding geo_ok_def F using c K sp data tab assms(2) r
    by (simp add: F FAT16_MIN_CLUSTERS_def FAT16_MAX_CLUSTER_def NUM_FATS_def RESERVED_def) linarith
  show "f_dev fs = dev" "f_ctx fs = d" "part_lba fs = lba" "total_sectors fs = n" "first_fat fs = 1" "num_fats fs = 2"
    "root_entries fs = 512" "root_dir_sectors fs = 32" "mounted fs" "spc fs \<in> {1, 2, 4, 8, 16, 32, 64, 128}" "fatsz fs \<le> 0xFFFF"
    "1 \<le> fatsz fs" "first_data fs < n"
    using K s r by (simp_all add: F NUM_FATS_def RESERVED_def ROOT_ENTRIES_def)
  show "max_cluster fs = (n - first_data fs) div spc fs + 1" "FAT16_MIN_CLUSTERS \<le> (n - first_data fs) div spc fs"
    "(n - first_data fs) div spc fs + 2 \<le> FAT16_MAX_CLUSTER"
    using c F(12) unfolding ce [symmetric] by simp_all
qed

section \<open>The boot sector\<close>

lemma put_bytes_length: "off + length bs \<le> length b \<Longrightarrow> length (put_bytes off bs b) = length b"
  by (simp add: put_bytes_def)

lemma put_bytes_nth:
  "off + length bs \<le> length b \<Longrightarrow> i < off \<or> off + length bs \<le> i \<Longrightarrow> i < length b \<Longrightarrow> put_bytes off bs b ! i = b ! i"
  by (auto simp: put_bytes_def nth_append)

lemma copy_padded_length [simp]: "length (copy_padded n bs) = n"
  by (simp add: copy_padded_def pad_field_def)

lemma rd_cong:
  "b ! p = b' ! p \<Longrightarrow> b ! (p + 1) = b' ! (p + 1) \<Longrightarrow> rd16 p b = rd16 p b'"
  "b ! q = b' ! q \<Longrightarrow> b ! (q + 1) = b' ! (q + 1) \<Longrightarrow> b ! (q + 2) = b' ! (q + 2) \<Longrightarrow> b ! (q + 3) = b' ! (q + 3) \<Longrightarrow> rd32 q b = rd32 q b'"
  by (simp_all add: rd16_def rd32_def)

text \<open>The fields \<^verbatim>\<open>mount\<close> looks at, as \<^verbatim>\<open>format\<close> wrote them.\<close>

lemma boot_sector_fields:
  assumes "n < 2 ^ 32" "s \<le> 128" "fsz \<le> 0xFFFF"
    and b_def: "b = boot_sector lba n s fsz oem label vid"
  shows "length b = SECTOR" "b ! 510 = 0x55" "b ! 511 = 0xAA" "unat (rd16 11 b) = SECTOR" "b ! 13 = of_nat s" "unat (rd16 14 b) = 1"
    "b ! 16 = 2" "unat (rd16 17 b) = 512" "unat (rd16 22 b) = fsz"
    "(if unat (rd16 19 b) = 0 then unat (rd32 32 b) else unat (rd16 19 b)) = n"
proof -
  note B = b_def boot_sector_def Let_def wr16_def wr32_def put_bytes_length put_bytes_nth SECTOR_def
    ROOT_ENTRIES_def RESERVED_def NUM_FATS_def
  let ?z = "replicate 512 (0 :: u8)"
  show "length b = SECTOR" by (simp add: B)
  show "b ! 510 = 0x55" "b ! 511 = 0xAA" "b ! 13 = of_nat s" "b ! 16 = 2" by (simp_all add: B)
  have r16: "unat (rd16 p c) = v" if "rd16 p c = rd16 p (wr16 p (of_nat v) ?z)" "p + 1 < 512" "v < 2 ^ 16" for p c v
    using that(2,3) by (simp add: that(1) rd16_wr16 unat_of_nat)
  show "unat (rd16 11 b) = SECTOR" by (rule r16, rule rd_cong) (simp_all add: B)
  show "unat (rd16 17 b) = 512" by (rule r16, rule rd_cong) (simp_all add: B)
  show "unat (rd16 22 b) = fsz" by (rule r16, rule rd_cong) (use assms(3) in \<open>simp_all add: B\<close>)
  show "unat (rd16 14 b) = 1" by (rule r16, rule rd_cong) (simp_all add: B)
  show "(if unat (rd16 19 b) = 0 then unat (rd32 32 b) else unat (rd16 19 b)) = n"
  proof (cases "n < 65536")
    case True
    have "unat (rd16 19 b) = n" by (rule r16, rule rd_cong) (use True in \<open>simp_all add: B\<close>)
    moreover have "rd32 32 b = rd32 32 (wr32 32 0 ?z)" by (rule rd_cong) (use True in \<open>simp_all add: B\<close>)
    ultimately show ?thesis by (simp add: rd32_wr32)
  next
    case False
    have "unat (rd16 19 b) = 0" by (rule r16, rule rd_cong) (use False in \<open>simp_all add: B\<close>)
    moreover have "rd32 32 b = rd32 32 (wr32 32 (of_nat n) ?z)" by (rule rd_cong) (use False in \<open>simp_all add: B\<close>)
    ultimately show ?thesis using assms(1) by (simp add: rd32_wr32 unat_of_nat)
  qed
qed

section \<open>What format leaves on the disk\<close>

definition label_slot :: "u8 list \<Rightarrow> u8 list" where
  "label_slot label = (copy_padded 11 label @ replicate 21 0)[11 := ATTR_VOLUME]"

lemma patch_edits: "length e = 32 \<Longrightarrow> edits_slot (\<lambda>off. patch_slot off e) (\<lambda>_. e)"
proof -
  assume e: "length e = 32"
  have "slot_at (32 * i) (patch_slot (32 * k) e b) = (if i = k then e else slot_at (32 * i) b)"
    if b: "length b = 512" and k: "k < 16" and i: "i < 16" for b :: "u8 list" and i k
  proof (rule nth_equalityI)
    have k2: "32 * k + 32 \<le> 512" and i2: "32 * i + 32 \<le> 512" using k i by linarith+
    have l: "length (patch_slot (32 * k) e b) = 512" using b e k2 by (simp add: patch_slot_def)
    then show "length (slot_at (32 * i) (patch_slot (32 * k) e b)) = length (if i = k then e else slot_at (32 * i) b)"
      using b e i2 by (simp add: slot_at_def)
    fix m assume "m < length (slot_at (32 * i) (patch_slot (32 * k) e b))"
    then have m: "m < 32" by (simp add: slot_at_def)
    have nth: "patch_slot (32 * k) e b ! x = (if 32 * k \<le> x \<and> x < 32 * k + 32 then e ! (x - 32 * k) else b ! x)" if "x < 512" for x
      using that b e k2 by (auto simp: patch_slot_def nth_append)
    have iff: "32 * k \<le> 32 * i + m \<and> 32 * i + m < 32 * k + 32 \<longleftrightarrow> i = k" using m by linarith
    show "slot_at (32 * i) (patch_slot (32 * k) e b) ! m = (if i = k then e else slot_at (32 * i) b) ! m"
      using nth [of "32 * i + m"] m i2 l b iff by (simp add: slot_at_nth)
  qed
  moreover have "length (patch_slot (32 * k) e b) = 512" if "length b = 512" "k < 16" for k and b :: "u8 list"
    using that e by (simp add: patch_slot_def)
  ultimately show ?thesis by (simp add: edits_slot_def SECTOR_def)
qed

lemma fs_thenI: "m fs = (Some x, f1) \<Longrightarrow> k f1 = r \<Longrightarrow> fs_then m k fs = r"
  by (simp add: fs_then_def fs_bind_def)

context sector_device
begin

lemma edit_sector_vol:
  assumes v: "vol fs" and q: "q < total_sectors fs" and g: "\<And>b. length b = SECTOR \<Longrightarrow> length (g b) = SECTOR"
  obtains fs' where "fs_then (read_sec q) (fs_then (mod_sec g) (write_sec q)) fs = (Some (), fs')" "step fs fs'"
    "\<And>r. r < total_sectors fs \<Longrightarrow> disk fs' r = (if r = q then g (disk fs q) else disk fs r)"
proof -
  define f2 where "f2 = fs\<lparr>sec := g (disk fs q)\<rparr>"
  have l: "length (g (disk fs q)) = SECTOR" by (rule g [OF dev_read_vol(2) [OF v q]])
  have s2: "step fs f2" "disk f2 = disk fs" unfolding f2_def by (rule sec_update_vol [OF v l])+
  note g2 = same_geoD [OF conjunct2 [OF s2(1)]]
  have q2: "q < total_sectors f2" using q by (simp add: g2)
  obtain fs' where f: "dev_write q (g (disk fs q)) f2 = (Some (), fs')" "step f2 fs'" "sec fs' = sec f2"
    "\<And>r. r < total_sectors f2 \<Longrightarrow> disk fs' r = (if r = q then g (disk fs q) else disk f2 r)"
    using dev_write_vol [OF conjunct1 [OF s2(1)] q2 l, of thesis] by simp
  have "fs_then (read_sec q) (fs_then (mod_sec g) (write_sec q)) fs = (Some (), fs')"
    using f(1) by (simp add: fs_then_def fs_bind_def read_sec_vol(1) [OF v q] mod_sec_def write_sec_def f2_def)
  then show ?thesis by (rule that [OF _ step_trans [OF s2(1) f(2)]]) (use f(4) s2(2) g2 in simp)
qed

lemma format_writes_vol:
  assumes v: "vol fs" and two: "num_fats fs = 2" "first_fat fs = 1" "0 < root_dir_sectors fs" "1 \<le> fatsz fs"
    and boot: "length (boot_sector lba n (spc fs) (fatsz fs) oem label vid) = SECTOR"
  obtains fs' where "format_writes lba n oem label vid fs = (Some (), fs')" "step fs fs'"
    "disk fs' 0 = boot_sector lba n (spc fs) (fatsz fs) oem label vid"
    "\<And>c. 2 \<le> c \<Longrightarrow> c \<le> max_cluster fs \<Longrightarrow> fat_entry fs' c = 0"
    "dir_slots fs' [] = label_slot label # replicate (16 * root_dir_sectors fs - 1) (replicate 32 0)"
proof -
  let ?b = "boot_sector lba n (spc fs) (fatsz fs) oem label vid" and ?k = "fatsz fs" and ?g = "\<lambda>b. wr16 2 0xFFFF (wr16 0 0xFFF8 b)"
  let ?z = "replicate SECTOR (0 :: u8)" and ?t = "total_sectors fs" and ?r = "first_root fs"
  have geo: "geo_ok fs" using v by (simp add: vol_def)
  have lay: "?r = 1 + 2 * ?k" "?r + root_dir_sectors fs \<le> ?t" "first_data fs = ?r + root_dir_sectors fs"
    using geo two by (simp_all add: geo_ok_def)
  have t0: "0 < ?t" "1 + ?k \<le> ?t" "1 + ?k + ?k \<le> ?t" "1 + 0 * ?k < ?t" "1 + 1 * ?k < ?t" using lay two by simp_all
  define f1 where "f1 = fs\<lparr>sec := ?b\<rparr>"
  have s1: "step fs f1" "disk f1 = disk fs" unfolding f1_def by (rule sec_update_vol [OF v boot])+
  note g1 = same_geoD [OF conjunct2 [OF s1(1)]]
  have b1: "sec f1 = ?b" by (simp add: f1_def)
  obtain f2 where f2: "dev_write 0 ?b f1 = (Some (), f2)" "step f1 f2" "\<And>r. r < ?t \<Longrightarrow> disk f2 r = (if r = 0 then ?b else disk f1 r)"
    using dev_write_vol [OF conjunct1 [OF s1(1)] _ boot, of 0 thesis] t0 g1 by simp
  note g2 = same_geoD [OF conjunct2 [OF f2(2)], unfolded g1]
  obtain f3 where f3: "zero_sectors 1 ?k f2 = (Some (), f3)" "step f2 f3"
      "\<And>r. r < ?t \<Longrightarrow> disk f3 r = (if 1 \<le> r \<and> r < 1 + ?k then ?z else disk f2 r)"
    using zero_sectors_vol [OF conjunct1 [OF f2(2)], of 1 ?k thesis] t0 g2 by simp
  note g3 = same_geoD [OF conjunct2 [OF f3(2)], unfolded g2]
  obtain f4 where f4: "zero_sectors (1 + ?k) ?k f3 = (Some (), f4)" "step f3 f4"
      "\<And>r. r < ?t \<Longrightarrow> disk f4 r = (if 1 + ?k \<le> r \<and> r < 1 + ?k + ?k then ?z else disk f3 r)"
    using zero_sectors_vol [OF conjunct1 [OF f3(2)], of "1 + ?k" ?k thesis] t0 g3 by simp
  note g4 = same_geoD [OF conjunct2 [OF f4(2)], unfolded g3]
  let ?e = "\<lambda>copy. fs_then (read_sec (1 + copy * ?k)) (fs_then (mod_sec ?g) (write_sec (1 + copy * ?k)))"
  obtain f5 where f5: "?e 0 f4 = (Some (), f5)" "step f4 f5" "\<And>r. r < ?t \<Longrightarrow> disk f5 r = (if r = 1 + 0 * ?k then ?g (disk f4 (1 + 0 * ?k)) else disk f4 r)"
    using edit_sector_vol [OF conjunct1 [OF f4(2)], of "1 + 0 * ?k" ?g thesis] t0 g4 by simp
  note g5 = same_geoD [OF conjunct2 [OF f5(2)], unfolded g4]
  obtain f6 where f6: "?e 1 f5 = (Some (), f6)" "step f5 f6" "\<And>r. r < ?t \<Longrightarrow> disk f6 r = (if r = 1 + 1 * ?k then ?g (disk f5 (1 + 1 * ?k)) else disk f5 r)"
    using edit_sector_vol [OF conjunct1 [OF f5(2)], of "1 + 1 * ?k" ?g thesis] t0 g5 by simp
  note g6 = same_geoD [OF conjunct2 [OF f6(2)], unfolded g5]
  obtain f7 where f7: "zero_sectors ?r (root_dir_sectors fs) f6 = (Some (), f7)" "step f6 f7"
      "\<And>r. r < ?t \<Longrightarrow> disk f7 r = (if ?r \<le> r \<and> r < ?r + root_dir_sectors fs then ?z else disk f6 r)"
    using zero_sectors_vol [OF conjunct1 [OF f6(2)], of ?r "root_dir_sectors fs" thesis] lay g6 by simp
  note g7 = same_geoD [OF conjunct2 [OF f7(2)], unfolded g6]
  have q7: "dir_sectors f7 [] = [?r..<first_data fs]" by (simp add: dir_sectors_def g7)
  have d7: "dir_chain f7 0 []" "0 < length (dir_slots f7 [])" using two(3) lay by (simp_all add: dir_chain_def file_chain_def q7)
  have ll: "length (label_slot label) = 32" by (simp add: label_slot_def)
  obtain fs' where f8: "edit_dir 0 (32 * 0) (\<lambda>off. patch_slot off (label_slot label)) f7 = (Some (), fs')" "step f7 fs'"
      "slot_set f7 [] 0 (label_slot label) fs'"
    by (rule edit_dir_vol [OF conjunct1 [OF f7(2)] d7 patch_edits [OF ll]])
  have st: "step fs fs'"
    using step_trans [OF s1(1) step_trans [OF f2(2) step_trans [OF f3(2) step_trans [OF f4(2) step_trans [OF f5(2) step_trans [OF f6(2) step_trans [OF f7(2) f8(2)]]]]]]] .
  have up2: "[0..<NUM_FATS] = [0, 1]" by (simp add: NUM_FATS_def upt_conv_Cons)
  have m1: "mod_sec (\<lambda>_. ?b) fs = (Some (), f1)" by (simp add: mod_sec_def f1_def)
  have m2: "write_sec 0 f1 = (Some (), f2)" by (simp add: write_sec_def b1 f2(1))
  have run: "format_writes lba n oem label vid fs = (Some (), fs')"
    unfolding format_writes_def two(2) up2 fs_each.simps write_entry_at_def label_slot_def [symmetric]
    by (rule fs_thenI [of _ fs], rule m1, rule fs_thenI, rule m2, rule fs_thenI, rule f3(1), rule fs_thenI, rule f4(1),
      rule fs_thenI, rule fs_thenI, rule f5(1), rule fs_thenI, rule f6(1), rule fs_ret_def, rule fs_thenI, rule f7(1), simp add: f8(1) [simplified])
  have k7: "disk f7 r = (if r = 0 then ?b else if r = 1 then ?g ?z else ?z)" if "r \<le> ?k \<or> ?r \<le> r \<and> r < first_data fs" for r
    using that f2(3) [of r] f3(3) [of r] f4(3) [of r] f4(3) [of 1] f3(3) [of 1] f5(3) [of r] f6(3) [of r] f7(3) [of r] lay two(4)
    by auto
  have out: "disk fs' r = disk f7 r" if "r < ?r" for r
    using f8(3) that lay g7 by (simp add: slot_set_def q7)
  show ?thesis
  proof (rule that [OF run st])
    show "disk fs' 0 = ?b" using out [of 0] k7 [of 0] lay by simp
    show "fat_entry fs' c = 0" if c: "2 \<le> c" "c \<le> max_cluster fs" for c
    proof -
      let ?p = "c * 2 mod SECTOR" and ?q = "c * 2 div SECTOR"
      note F = fat_sector(3,4) [OF geo c(2), of 0]
      have p: "?q < ?k" "?p + 1 < SECTOR" using F two by simp_all
      have "disk fs' (1 + ?q) = (if ?q = 0 then ?g ?z else ?z)" using out [of "1 + ?q"] k7 [of "1 + ?q"] p(1) lay by simp
      moreover have "rd16 ?p ?z = 0" using p(2) by (simp add: rd16_zero_iff)
      moreover have "rd16 ?p (?g ?z) = rd16 ?p ?z" if "?q = 0"
      proof -
        have "c * 2 < SECTOR" using that by (simp add: SECTOR_def)
        then have "2 + 1 < ?p" "0 + 1 < ?p" using c(1) by simp_all
        then show ?thesis by (simp only: rd16_wr16_other disj_ac simp_thms)
      qed
      ultimately show ?thesis using same_geoD [OF conjunct2 [OF st]] two(2) by (simp add: fat_entry_def)
    qed
    show "dir_slots fs' [] = label_slot label # replicate (16 * root_dir_sectors fs - 1) (replicate 32 0)"
    proof -
      have "dir_slots f7 [] ! j = replicate 32 0" if j: "j < 16 * root_dir_sectors fs" for j
      proof -
        have jd: "j div 16 < root_dir_sectors fs" using j by simp
        have "dir_sectors f7 [] ! (j div 16) = ?r + j div 16" unfolding q7 by (rule nth_upt) (use jd lay(3) in linarith)
        moreover have "16 * length (dir_sectors f7 []) = 16 * root_dir_sectors fs" unfolding q7 by (simp add: lay(3))
        moreover from jd have "disk f7 (?r + j div 16) = ?z" using k7 [of "?r + j div 16"] lay two(4) by simp
        moreover have "32 * (j mod 16) + 32 \<le> 512" using slot_index(3) [of j] by linarith
        ultimately show ?thesis using j by (simp add: dir_slots_nth slot_at_def SECTOR_def)
      qed
      moreover have "length (dir_slots f7 []) = 16 * root_dir_sectors fs" unfolding length_dir_slots q7 by (simp add: lay(3))
      ultimately have "dir_slots f7 [] = replicate (16 * root_dir_sectors fs) (replicate 32 0)"
        by (intro replicate_eqI) (auto simp: in_set_conv_nth simp del: length_dir_slots)
      moreover obtain m where "16 * root_dir_sectors fs = Suc m" using two(3) by (cases "16 * root_dir_sectors fs") auto
      ultimately show ?thesis using f8(3) by (simp add: slot_set_def)
    qed
  qed
qed

end

lemma label_entries: "find (named name) (dir_entries 0 (label_slot label # replicate m (replicate 32 0))) = None"
proof -
  let ?l = "label_slot label" and ?z = "replicate m (replicate 32 (0 :: u8))"
  have z: "scan_slots pos ?z L = None" for pos L by (cases m) (simp_all add: scan_slot_def)
  have a: "?l ! 11 = 8" by (simp add: label_slot_def ATTR_VOLUME_def)
  show ?thesis
  proof (cases "scan_slot 0 ?l lfn_start")
    case (Found ev)
    then have ev: "e_attr ev = 8" by (auto simp: scan_slot_def scan_short_def Let_def a split: if_splits)
    have "dir_entries 0 (?l # ?z) = [ev]"
      using dir_entries_Some [of 0 "?l # ?z" ev ?z] dir_entries_None [OF z] Found by simp
    then show ?thesis by (simp add: named_def ev ATTR_VOLUME_def)
  qed (use dir_entries_None [of 0 "?l # ?z"] z in simp_all)
qed

text \<open>Mounting a device whose first sector is the boot sector of a geometry.\<close>

lemma mount_boot:
  assumes fs: "format_fs dev d lba n = Some fs" "lba + n \<le> 2 ^ 32" "n < 2 ^ 32"
    and rd: "d_read dev lba d' = Some b" "b = boot_sector lba n (spc fs) (fatsz fs) oem label vid"
  shows "fat_mount dev lba d' buf = (True, fs\<lparr>f_ctx := d', sec := b\<rparr>)"
proof -
  note G = format_geo [OF fs(1,2)]
  have s: "spc fs \<le> 128" "0 < spc fs" using G(11) by auto
  note B = boot_sector_fields [OF fs(3) s(1) G(12) rd(2)]
  have us: "unat (of_nat (spc fs) :: u8) = spc fs" using s by (simp add: unat_of_nat)
  have pow: "(of_nat (spc fs) :: u8) AND (of_nat (spc fs) - 1) = 0" using G(11) by auto
  have nz: "(of_nat (spc fs) :: u8) \<noteq> 0" using s us by auto
  have lay: "first_root fs = 1 + 2 * fatsz fs" "first_data fs = 1 + 2 * fatsz fs + 32"
    using G(1,6,7,9) by (simp_all add: geo_ok_def)
  have rds: "(512 * 32 + SECTOR - 1) div SECTOR = 32" by (simp add: SECTOR_def)
  have lb: "w32 (lba + 0) = lba" using fs(2) G(15) by simp
  have r: "read_sec 0 (new_fs dev d' lba buf) = (Some (), (new_fs dev d' lba buf)\<lparr>sec := b\<rparr>)"
    using rd(1) lb by (simp add: read_sec_def dev_read_def new_fs_def)
  have sec_new: "sec ((new_fs dev d' lba buf)\<lparr>sec := b\<rparr>) = b" by simp
  have ok: "\<not> (b ! 510 \<noteq> 0x55 \<or> b ! 511 \<noteq> 0xAA \<or> unat (rd16 11 b) \<noteq> SECTOR \<or> b ! 13 = 0 \<or> b ! 13 AND (b ! 13 - 1) \<noteq> 0 \<or>
      unat (rd16 14 b) = 0 \<or> unat (b ! 16) = 0 \<or> unat (rd16 22 b) = 0 \<or> n \<le> first_data fs \<or>
      (n - first_data fs) div spc fs < FAT16_MIN_CLUSTERS \<or> (n - first_data fs) div spc fs + 2 > FAT16_MAX_CLUSTER)"
    using B G(13,15,16,17) nz pow by simp
  have geo: "unat (b ! 13) = spc fs" "unat (b ! 16) = 2" "unat (rd16 14 b) = 1" "unat (rd16 22 b) = fatsz fs" "unat (rd16 17 b) = 512"
    using B us by simp_all
  show ?thesis
    unfolding fat_mount_def r prod.case option.case Let_def sec_new B(10) geo rds lay(2) [symmetric]
      if_not_P [OF ok [unfolded geo]]
    by (intro arg_cong [where f = "Pair True"] fs.equality) (use G lay in \<open>simp_all add: new_fs_def\<close>)
qed

context sector_device
begin

lemma format_mount_vol:
  assumes "live d" "lba + n \<le> lim" "lba + n \<le> 2 ^ 32" "n < 2 ^ 32" and fs: "format_fs dev d lba n = Some fs0"
  obtains d' fs where "fat_format dev lba n oem label vid d = (True, d')" "fat_mount dev lba d' buf = (True, fs)"
    "vol fs" "same_geo fs0 fs" "free_clusters fs = {2..max_cluster fs}" "\<And>name. fst (find_entry 0 name fs) = None"
proof -
  note G = format_geo [OF fs assms(3)]
  have v0: "vol fs0" using G assms(1,2) by (simp add: vol_def)
  define b where "b = boot_sector lba n (spc fs0) (fatsz fs0) oem label vid"
  have s: "spc fs0 \<le> 128" using G(11) by auto
  have lb: "length b = SECTOR" by (rule boot_sector_fields(1) [OF assms(4) s G(12) b_def])
  obtain f1 where f1: "format_writes lba n oem label vid fs0 = (Some (), f1)" "step fs0 f1" "disk f1 0 = b"
      "\<And>c. 2 \<le> c \<Longrightarrow> c \<le> max_cluster fs0 \<Longrightarrow> fat_entry f1 c = 0"
      "dir_slots f1 [] = label_slot label # replicate (16 * root_dir_sectors fs0 - 1) (replicate 32 0)"
    using format_writes_vol [OF v0 G(7,6) _ G(13) lb [unfolded b_def], of thesis] G(9) by (simp add: b_def)
  note g1 = same_geoD [OF conjunct2 [OF f1(2)]]
  define fs where "fs = f1\<lparr>sec := b\<rparr>"
  have s2: "step f1 fs" "disk fs = disk f1" unfolding fs_def by (rule sec_update_vol [OF conjunct1 [OF f1(2)] lb])+
  note g2 = same_geoD [OF conjunct2 [OF s2(1)], unfolded g1] and same = disk_same [OF conjunct2 [OF s2(1)] s2(2)]
  have t0: "0 < total_sectors f1" using G(5,15) g1 by simp
  have "d_read dev lba (f_ctx f1) = Some b"
    using dev_read_vol(1) [OF conjunct1 [OF f1(2)] t0] f1(3) g1 G(2,4) vol_addr [OF conjunct1 [OF f1(2)] t0] by (simp add: dev_read_def)
  from mount_boot [OF fs assms(3,4) this b_def] have m: "fat_mount dev lba (f_ctx f1) buf = (True, fs)"
    using f1(2) by (auto simp: fs_def same_geo_def)
  have fmt: "fat_format dev lba n oem label vid d = (True, f_ctx f1)" by (simp add: fat_format_def fs f1(1))
  have fr: "free_clusters fs = {2..max_cluster fs}"
    using f1(4) g1 g2 unfolding same by (auto simp: free_clusters_def free_set_def)
  have "find (named name) (dir_entries 0 (dir_slots fs [])) = None" for name
    unfolding same f1(5) by (rule label_entries)
  moreover have dc: "dir_chain fs 0 []" by (simp add: dir_chain_def file_chain_def)
  ultimately have "fst (find_entry 0 name fs) = None" for name
    using find_entry_vol [OF conjunct1 [OF s2(1)] dc, of name "fst (find_entry 0 name fs) = None", folded named_def] by simp
  moreover have "same_geo fs0 fs" using f1(2) s2(1) by (blast intro: same_geo_trans)
  ultimately show ?thesis using that [OF fmt m conjunct1 [OF s2(1)] _ fr] by blast
qed

end

end
