(* ===== verification/Ram_Disk.thy ===== *)
theory Ram_Disk
  imports Fat_Files
begin

text \<open>
  The memory-backed device the FAT16 library is exercised on (\<^verbatim>\<open>tools/fat16_test.cpp\<close>). It keeps the sector
  contract, so everything shown for a volume holds on it; a small volume on such a device shows that the
  hypotheses of the file properties can be met.
\<close>

section \<open>The device\<close>

definition ram_read :: "nat \<Rightarrow> nat \<Rightarrow> u8 list \<Rightarrow> u8 list option" where
  "ram_read lba count r =
     (if lba * SECTOR + count * SECTOR > length r then None else Some (take (count * SECTOR) (drop (lba * SECTOR) r)))"

definition ram_write :: "nat \<Rightarrow> nat \<Rightarrow> u8 list \<Rightarrow> u8 list \<Rightarrow> bool \<times> u8 list" where
  "ram_write lba count bs r =
     (if lba * SECTOR + count * SECTOR > length r then (False, r)
      else (True, take (lba * SECTOR) r @ take (count * SECTOR) bs @ drop (lba * SECTOR + count * SECTOR) r))"

definition ram_flush :: "u8 list \<Rightarrow> u8 list" where
  "ram_flush r = r"

definition ram_device :: "u8 list device" where
  "ram_device = \<lparr>d_read = (\<lambda>lba. ram_read lba 1), d_write = (\<lambda>lba. ram_write lba 1), d_flush = ram_flush\<rparr>"

definition holds_sectors :: "nat \<Rightarrow> u8 list \<Rightarrow> bool" where
  "holds_sectors n r \<longleftrightarrow> n * SECTOR \<le> length r"

lemma sector_end: "l < n \<Longrightarrow> n * SECTOR \<le> m \<Longrightarrow> l * SECTOR + SECTOR \<le> m"
proof -
  assume "l < n" and m: "n * SECTOR \<le> m"
  then have "Suc l * SECTOR \<le> n * SECTOR" by (intro mult_le_mono1) simp
  with m show ?thesis by simp
qed

lemma ram_read_write:
  assumes r: "holds_sectors n r" and l: "lba < n" "l < n" and bs: "length bs = SECTOR"
  shows "ram_read l 1 (snd (ram_write lba 1 bs r)) = (if l = lba then Some bs else ram_read l 1 r)"
proof -
  note e = sector_end [OF l(1) r [unfolded holds_sectors_def]] sector_end [OF l(2) r [unfolded holds_sectors_def]]
  define w where "w = take (lba * SECTOR) r @ bs @ drop (lba * SECTOR + SECTOR) r"
  have w: "snd (ram_write lba 1 bs r) = w" "length w = length r" using e(1) bs by (simp_all add: ram_write_def w_def)
  have nth: "w ! k = (if lba * SECTOR \<le> k \<and> k < lba * SECTOR + SECTOR then bs ! (k - lba * SECTOR) else r ! k)" if "k < length r" for k
    using that e(1) bs by (auto simp: w_def nth_append)
  have apart: "l * SECTOR + SECTOR \<le> lba * SECTOR \<or> lba * SECTOR + SECTOR \<le> l * SECTOR" if "l \<noteq> lba"
    using sector_end [of l lba "lba * SECTOR"] sector_end [of lba l "l * SECTOR"] that by (cases "l < lba") auto
  have "take SECTOR (drop (l * SECTOR) w) = (if l = lba then bs else take SECTOR (drop (l * SECTOR) r))"
    (is "?x = ?y")
  proof (rule nth_equalityI)
    show "length ?x = length ?y" using e bs w(2) by auto
    fix i assume "i < length ?x"
    then have i: "i < SECTOR" "l * SECTOR + i < length r" using e(2) w(2) by auto
    show "?x ! i = ?y ! i" using nth [OF i(2)] i w(2) e bs apart by auto
  qed
  then show ?thesis using e w by (simp add: ram_read_def)
qed

interpretation ram: sector_device ram_device n "holds_sectors n" for n
proof
  fix d :: "u8 list" and lba l :: nat and bs :: "u8 list"
  assume d: "holds_sectors n d" and lba: "lba < n"
  note e = sector_end [OF lba d [unfolded holds_sectors_def]]
  show "\<exists>bs. d_read ram_device lba d = Some bs \<and> length bs = SECTOR"
    using e by (simp add: ram_device_def ram_read_def)
  assume bs: "length bs = SECTOR"
  show "fst (d_write ram_device lba bs d) \<and> holds_sectors n (snd (d_write ram_device lba bs d))"
    using e d bs by (auto simp: ram_device_def ram_write_def holds_sectors_def)
  assume "l < n"
  with ram_read_write [OF d lba _ bs] show "d_read ram_device l (snd (d_write ram_device lba bs d)) =
      (if l = lba then Some bs else d_read ram_device l d)"
    by (simp add: ram_device_def)
qed

end
