(* ===== verification/Fat_Props.thy ===== *)
theory Fat_Props
  imports Ram_Disk Fat_Format
begin

text \<open>
  What the FAT16 library promises on a volume whose device keeps the sector contract: allocation and
  release of clusters, the search of a directory, and the contents of files across a write.
\<close>

section \<open>A small volume\<close>

text \<open>
  Eight sectors in memory: a table of one sector in two copies, one root directory sector with the files
  \<^verbatim>\<open>A.TXT\<close> and \<^verbatim>\<open>B.TXT\<close>, and four clusters of one sector, the last two of them free.
\<close>

definition tiny_a :: "u8 list" where "tiny_a = [0x41, 0x2E, 0x54, 0x58, 0x54]"
definition tiny_sfn :: "u8 \<Rightarrow> u8 list" where
  "tiny_sfn c = [c, 0x20, 0x20, 0x20, 0x20, 0x20, 0x20, 0x20, 0x54, 0x58, 0x54]"

definition tiny_fat :: "u8 list" where
  "tiny_fat = [0xF8, 0xFF, 0xFF, 0xFF, 0xFF, 0xFF, 0xFF, 0xFF] @ replicate 504 0"

definition tiny_root :: "u8 list" where
  "tiny_root = short_slot (tiny_sfn 0x41) ATTR_ARCH 0 2 3 @ short_slot (tiny_sfn 0x42) ATTR_ARCH 0 3 1 @ replicate 448 0"

definition tiny_sectors :: "u8 list list" where
  "tiny_sectors = [replicate 512 0, tiny_fat, tiny_fat, tiny_root, [0x61, 0x62, 0x63] @ replicate 509 0, 0x78 # replicate 511 0,
     replicate 512 0, replicate 512 0]"

definition tiny_fs :: "u8 list fs" where
  "tiny_fs = \<lparr>f_dev = ram_device, f_ctx = concat tiny_sectors, part_lba = 0, total_sectors = 8, spc = 1, fatsz = 1, num_fats = 2,
     root_entries = 16, root_dir_sectors = 1, first_fat = 1, first_root = 3, first_data = 4, max_cluster = 5, mounted = True,
     sec = replicate 512 0\<rparr>"

definition tiny_entry :: "nat \<Rightarrow> u8 \<Rightarrow> nat \<Rightarrow> nat \<Rightarrow> entry" where
  "tiny_entry pos c clu n = \<lparr>e_pos = pos, e_cluster = clu, e_size = n, e_attr = ATTR_ARCH, e_sfn = tiny_sfn c,
     e_name = [c, 0x2E, 0x54, 0x58, 0x54], e_lfn_pos = []\<rparr>"

lemma concat_sector:
  "(\<And>s. s \<in> set ss \<Longrightarrow> length s = SECTOR) \<Longrightarrow> i < length ss \<Longrightarrow> take SECTOR (drop (i * SECTOR) (concat ss)) = ss ! i"
proof (induction ss arbitrary: i)
  case (Cons s ss)
  then show ?case by (cases i) simp_all
qed simp

lemma tiny_lengths: "s \<in> set tiny_sectors \<Longrightarrow> length s = SECTOR"
  by (auto simp: tiny_sectors_def tiny_fat_def tiny_root_def SECTOR_def tiny_sfn_def)

lemma tiny_disk: "q < 8 \<Longrightarrow> disk tiny_fs q = tiny_sectors ! q"
proof -
  assume q: "q < 8"
  have l: "length tiny_sectors = 8" by (simp add: tiny_sectors_def)
  have "length (concat tiny_sectors) = 8 * SECTOR"
    by (simp add: tiny_sectors_def tiny_fat_def tiny_root_def SECTOR_def tiny_sfn_def)
  moreover have "q * SECTOR + SECTOR \<le> 8 * SECTOR" using sector_end [OF q order_refl] .
  ultimately show ?thesis
    using q concat_sector [OF tiny_lengths, where i = q] l
    by (simp add: disk_def dev_read_def tiny_fs_def ram_device_def ram_read_def)
qed

lemma tiny_volume: "volume ram_device 8 (holds_sectors 8) tiny_fs"
proof -
  have "length (concat tiny_sectors) = 8 * SECTOR"
    by (simp add: tiny_sectors_def tiny_fat_def tiny_root_def SECTOR_def tiny_sfn_def)
  then show ?thesis by (simp add: volume_def geo_ok_def tiny_fs_def holds_sectors_def SECTOR_def)
qed

lemma tiny_geo [simp]:
  "part_lba tiny_fs = 0" "total_sectors tiny_fs = 8" "spc tiny_fs = 1" "fatsz tiny_fs = 1" "num_fats tiny_fs = 2"
  "first_fat tiny_fs = 1" "first_root tiny_fs = 3" "first_data tiny_fs = 4" "max_cluster tiny_fs = 5" "root_dir_sectors tiny_fs = 1"
  by (simp_all add: tiny_fs_def)

lemma tiny_table: "fat_entry tiny_fs 2 = 0xFFFF" "fat_entry tiny_fs 3 = 0xFFFF" "fat_entry tiny_fs 4 = 0" "fat_entry tiny_fs 5 = 0"
proof -
  have d: "disk tiny_fs (Suc 0) = tiny_fat" using tiny_disk [of 1] by (simp add: tiny_sectors_def)
  have "(0xFF :: u16) OR push_bit 8 0xFF = 0xFFFF" by code_simp
  then show "fat_entry tiny_fs 2 = 0xFFFF" "fat_entry tiny_fs 3 = 0xFFFF" "fat_entry tiny_fs 4 = 0" "fat_entry tiny_fs 5 = 0"
    by (simp_all add: fat_entry_def SECTOR_def d tiny_fat_def rd16_def nth_append)
qed

lemma tiny_chains:
  "is_chain (fat_entry tiny_fs) 5 [2]" "file_chain tiny_fs 2 [2]" "file_chain tiny_fs 3 [3]" "dir_chain tiny_fs 0 []"
  "free_clusters tiny_fs = {4, 5}"
proof -
  have n: "next_of 0xFFFF = 0" by (simp add: next_of_def FAT_BAD_def)
  show f: "free_clusters tiny_fs = {4, 5}"
  proof -
    have "c = 4 \<or> c = 5" if "2 \<le> c" "c \<le> 5" "fat_entry tiny_fs c = 0" for c
    proof -
      from that(1,2) have "c = 2 \<or> c = 3 \<or> c = 4 \<or> c = 5" by linarith
      with that(3) tiny_table show ?thesis by (elim disjE) simp_all
    qed
    then show ?thesis using tiny_table by (auto simp: free_clusters_def free_set_def)
  qed
  show "is_chain (fat_entry tiny_fs) 5 [2]" by (simp add: tiny_table n)
  show "file_chain tiny_fs 2 [2]" "file_chain tiny_fs 3 [3]"
    by (auto simp: file_chain_def live_chain_def tiny_table n f [unfolded free_clusters_def tiny_geo])
  show "dir_chain tiny_fs 0 []" by (simp add: dir_chain_def file_chain_def)
qed

lemma tiny_entries:
  "dir_entries 0 (dir_slots tiny_fs []) = [tiny_entry 0 0x41 2 3, tiny_entry 32 0x42 3 1]"
proof -
  let ?a = "short_slot (tiny_sfn 0x41) ATTR_ARCH 0 2 3" and ?b = "short_slot (tiny_sfn 0x42) ATTR_ARCH 0 3 1"
  have d: "disk tiny_fs 3 = tiny_root" using tiny_disk [of 3] by (simp add: tiny_sectors_def)
  have g: "good_short (tiny_sfn 0x41) ATTR_ARCH" "good_short (tiny_sfn 0x42) ATTR_ARCH"
    by (simp_all add: good_short_def tiny_sfn_def ATTR_ARCH_def)
  have l: "length (tiny_sfn c) = 11" for c by (simp add: tiny_sfn_def)
  have ls: "length (short_slot (tiny_sfn c) x y clu n) = 32" for c x y clu n by (simp add: short_slot_def tiny_sfn_def)
  have nm: "build_sfn_name ?a = [0x41, 0x2E, 0x54, 0x58, 0x54]" "build_sfn_name ?b = [0x42, 0x2E, 0x54, 0x58, 0x54]"
    by code_simp+
  have s: "dir_slots tiny_fs [] = ?a # ?b # map (\<lambda>j. slot_at (32 * j mod SECTOR) tiny_root) [2..<16]"
  proof -
    have u: "[0..<16] = 0 # 1 # [2..<16 :: nat]" by (simp add: upt_conv_Cons)
    have q: "dir_sectors tiny_fs [] = [3]" by (simp add: dir_sectors_def)
    have "map (\<lambda>j. slot_at (32 * j mod SECTOR) (disk tiny_fs ([3] ! (32 * j div SECTOR)))) [0..<16] =
        map (\<lambda>j. slot_at (32 * j mod SECTOR) tiny_root) [0..<16]"
      by (rule map_cong) (auto simp: SECTOR_def d)
    moreover have "slot_at 0 tiny_root = ?a" "slot_at 32 tiny_root = ?b"
      by (simp_all add: slot_at_def tiny_root_def ls)
    ultimately show ?thesis by (simp add: dir_slots_def q u SECTOR_def)
  qed
  have z: "map (\<lambda>j. slot_at (32 * j mod SECTOR) tiny_root) [2..<16] = slot_at 64 tiny_root # map (\<lambda>j. slot_at (32 * j mod SECTOR) tiny_root) [3..<16]"
    by (simp add: upt_conv_Cons SECTOR_def)
  have z0: "slot_at 64 tiny_root ! 0 = 0" by (simp add: slot_at_def tiny_root_def ls)
  have ev: "scan_short pos (short_slot (tiny_sfn c) ATTR_ARCH 0 clu n) lfn_start = tiny_entry pos c clu n"
    if "build_sfn_name (short_slot (tiny_sfn c) ATTR_ARCH 0 clu n) = [c, 0x2E, 0x54, 0x58, 0x54]" "clu < 2 ^ 16" "n < 2 ^ 32" for pos c clu n
    using that short_slot_cluster [OF l that(2)] short_slot_size [OF l that(3)] short_slot_sfn [OF l] short_slot_nth(2) [OF l]
    by (simp add: scan_short_def tiny_entry_def lfn_start_def ATTR_ARCH_def)
  have a: "scan_slots 0 (?a # es) lfn_start = Some (tiny_entry 0 0x41 2 3, es)" for es
    using scan_short_slot [OF g(1)] ev [OF nm(1)] by simp
  have b: "scan_slots 32 (?b # es) lfn_start = Some (tiny_entry 32 0x42 3 1, es)" for es
    using scan_short_slot [OF g(2)] ev [OF nm(2)] by simp
  have c: "dir_entries 64 (map (\<lambda>j. slot_at (32 * j mod SECTOR) tiny_root) [2..<16]) = []"
    unfolding z by (rule dir_entries_None) (simp add: scan_slot_def z0)
  show ?thesis unfolding s using dir_entries_Some [OF a] dir_entries_Some [OF b] c by simp
qed

lemma tiny_find: "fst (find_entry 0 tiny_a tiny_fs) = Some (tiny_entry 0 0x41 2 3)"
proof -
  obtain fs' where "find_entry 0 tiny_a tiny_fs = (find (named tiny_a) (dir_entries 0 (dir_slots tiny_fs [])), fs')"
    by (rule ram.find_entry_vol [OF tiny_volume tiny_chains(4), of tiny_a, folded named_def])
  moreover have "named tiny_a (tiny_entry 0 0x41 2 3)" by code_simp
  ultimately show ?thesis by (simp add: tiny_entries)
qed

lemma tiny_files:
  "file_at tiny_fs [] (tiny_entry 0 0x41 2 3) [2]" "file_at tiny_fs [] (tiny_entry 32 0x42 3 1) [3]"
  using tiny_chains(2,3) by (simp_all add: file_at_def tiny_entries tiny_entry_def SECTOR_def)

lemma tiny_bytes: "file_bytes tiny_fs (tiny_entry 0 0x41 2 3) [2] = [0x61, 0x62, 0x63]"
proof -
  have "disk tiny_fs 4 = [0x61, 0x62, 0x63] @ replicate 509 0" using tiny_disk [of 4] by (simp add: tiny_sectors_def)
  then show ?thesis
    by (simp add: file_bytes_def tiny_entry_def chain_byte_def chain_sector_def data_sector_def SECTOR_def upt_conv_Cons)
qed

section \<open>Files\<close>

lemma found_entry:
  assumes "sector_device dev lim live" "volume dev lim live fs" "dir_chain fs dir ds" "fst (find_entry dir name fs) = Some ev"
  shows "find (named name) (dir_entries 0 (dir_slots fs ds)) = Some ev"
proof -
  obtain fs' where "find_entry dir name fs = (find (named name) (dir_entries 0 (dir_slots fs ds)), fs')"
    by (rule sector_device.find_entry_vol [OF assms(1-3), of name, folded named_def])
  with assms(4) show ?thesis by simp
qed

text \<open>
  C9. Writing to a file and reading it back: on a volume whose device keeps the sector contract, if the
  file is found and the clusters it will need are free, \<^verbatim>\<open>write\<close> stores the whole buffer, and any later
  \<^verbatim>\<open>read\<close> of the file returns the bytes of the old contents (zero-extended up to the offset) overwritten by
  the buffer.
\<close>

theorem fat_write_read:
  assumes "sector_device dev lim live" "volume dev lim live fs" "dir_chain fs dir ds"
    and "fst (find_entry dir name fs) = Some ev" "file_at fs ds ev cs" "e_attr ev AND ATTR_DIR = 0"
    and "buf \<noteq> []" "off + length buf + spc fs * SECTOR \<le> 2 ^ 32"
    and "need_clusters fs (off + length buf) - length cs \<le> card (free_clusters fs)"
  shows "\<exists>fs'. fat_write dir name off buf fs = (Some (length buf), fs') \<and> volume dev lim live fs' \<and>
    (\<forall>p n. fst (fat_read dir name p n fs') =
       Some (take n (drop p (overwrite off buf (file_bytes fs ev cs @ replicate (off - e_size ev) 0)))))"
proof -
  obtain fs' ev' cs' where w: "fat_write dir name off buf fs = (Some (length buf), fs')" "volume dev lim live fs' \<and> same_geo fs fs'"
    "dir_chain fs' dir ds" "find (named name) (dir_entries 0 (dir_slots fs' ds)) = Some ev'" "file_at fs' ds ev' cs'" "e_attr ev' = e_attr ev"
    "file_bytes fs' ev' cs' = overwrite off buf (file_bytes fs ev cs @ replicate (off - e_size ev) 0)"
    by (rule sector_device.fat_write_vol [OF assms(1-3) found_entry [OF assms(1-4)] assms(5-9)])
  have "fst (fat_read dir name p n fs') = Some (take n (drop p (file_bytes fs' ev' cs')))" for p n
  proof -
    obtain f where "fat_read dir name p n fs' = (Some (take n (drop p (file_bytes fs' ev' cs'))), f)"
      by (rule sector_device.fat_read_vol [OF assms(1) conjunct1 [OF w(2)] w(3-5), of p n]) (use assms(6) w(6) in simp_all)
    then show ?thesis by simp
  qed
  with w show ?thesis by auto
qed

theorem fat_write_read_witness:
  "\<exists>fs'. fat_write 0 tiny_a 1 [0x7A, 0x7B, 0x7C] tiny_fs = (Some 3, fs') \<and>
     fst (fat_read 0 tiny_a 0 9 fs') = Some [0x61, 0x7A, 0x7B, 0x7C]"
proof -
  have "\<exists>fs'. fat_write 0 tiny_a 1 [0x7A, 0x7B, 0x7C] tiny_fs = (Some (length [0x7A, 0x7B, 0x7C :: u8]), fs') \<and>
      volume ram_device 8 (holds_sectors 8) fs' \<and>
      (\<forall>p n. fst (fat_read 0 tiny_a p n fs') = Some (take n (drop p (overwrite 1 [0x7A, 0x7B, 0x7C]
         (file_bytes tiny_fs (tiny_entry 0 0x41 2 3) [2] @ replicate (1 - e_size (tiny_entry 0 0x41 2 3)) 0)))))"
    by (rule fat_write_read [OF ram.sector_device_axioms tiny_volume tiny_chains(4) tiny_find tiny_files(1)])
      (simp_all add: tiny_entry_def ATTR_ARCH_def ATTR_DIR_def need_clusters_def SECTOR_def)
  moreover have "e_size (tiny_entry 0 0x41 2 3) = 3" by (simp add: tiny_entry_def)
  ultimately show ?thesis by (auto simp: tiny_bytes overwrite_def)
qed

text \<open>
  C10. A write to one file leaves every other file of the directory alone: a file with another entry and
  other clusters is still there under the same entry, with the same clusters and the same contents.
\<close>

theorem fat_write_others:
  assumes "sector_device dev lim live" "volume dev lim live fs" "dir_chain fs dir ds"
    and "fst (find_entry dir name fs) = Some ev" "file_at fs ds ev cs" "e_attr ev AND ATTR_DIR = 0"
    and "buf \<noteq> []" "off + length buf + spc fs * SECTOR \<le> 2 ^ 32"
    and "need_clusters fs (off + length buf) - length cs \<le> card (free_clusters fs)"
    and "file_at fs ds ev2 cs2" "e_pos ev2 \<noteq> e_pos ev" "set cs \<inter> set cs2 = {}"
  shows "file_at (snd (fat_write dir name off buf fs)) ds ev2 cs2 \<and>
    file_bytes (snd (fat_write dir name off buf fs)) ev2 cs2 = file_bytes fs ev2 cs2"
proof -
  obtain fs' ev' cs' where w: "fat_write dir name off buf fs = (Some (length buf), fs')" "volume dev lim live fs' \<and> same_geo fs fs'"
    "filter (\<lambda>x. e_pos x \<noteq> e_pos ev) (dir_entries 0 (dir_slots fs' ds)) = filter (\<lambda>x. e_pos x \<noteq> e_pos ev) (dir_entries 0 (dir_slots fs ds))"
    "others_kept fs cs ds fs'"
    by (rule sector_device.fat_write_vol [OF assms(1-3) found_entry [OF assms(1-4)] assms(5-9)])
  have F: "ev2 \<in> set (dir_entries 0 (dir_slots fs ds))" "file_chain fs (e_cluster ev2) cs2"
    "e_size ev2 \<le> length cs2 * (spc fs * SECTOR)" "set cs2 \<inter> set ds = {}"
    using assms(10) by (simp_all add: file_at_def)
  have K: "file_chain fs' (e_cluster ev2) cs2" "\<And>p. p < length cs2 * (spc fs * SECTOR) \<Longrightarrow> chain_byte fs' cs2 p = chain_byte fs cs2 p"
    using w(4) F(2,4) assms(12) unfolding others_kept_def by blast+
  have "ev2 \<in> set (dir_entries 0 (dir_slots fs' ds))"
    using F(1) assms(11) arg_cong [OF w(3), of set] by auto
  with K(1) F(3,4) same_geoD [OF conjunct2 [OF w(2)]] have "file_at fs' ds ev2 cs2" by (simp add: file_at_def)
  moreover have "file_bytes fs' ev2 cs2 = file_bytes fs ev2 cs2"
    using K(2) F(3) by (simp add: file_bytes_def)
  ultimately show ?thesis by (simp add: w(1))
qed

theorem fat_write_others_witness:
  "file_bytes (snd (fat_write 0 tiny_a 600 [0x7A] tiny_fs)) (tiny_entry 32 0x42 3 1) [3] = file_bytes tiny_fs (tiny_entry 32 0x42 3 1) [3]"
proof -
  have c: "need_clusters tiny_fs 601 = 2" by (simp add: need_clusters_def SECTOR_def)
  show ?thesis
    by (rule conjunct2 [OF fat_write_others [OF ram.sector_device_axioms tiny_volume tiny_chains(4) tiny_find tiny_files(1) _ _ _ _ tiny_files(2)]])
      (simp_all add: tiny_entry_def ATTR_ARCH_def ATTR_DIR_def SECTOR_def tiny_chains(5) c)
qed

section \<open>Clusters\<close>

text \<open>
  C32. \<^verbatim>\<open>cluster_alloc\<close> is first fit: when no cluster is free it fails and the disk is unchanged; otherwise it
  takes the lowest free cluster, ends the chain there, links it behind \<open>prev\<close>, zeroes its sectors, and changes
  no other entry of the table and no other sector behind it.
\<close>

theorem cluster_alloc_first_fit:
  assumes "sector_device dev lim live" "volume dev lim live fs" "prev = 0 \<or> 2 \<le> prev \<and> prev \<le> max_cluster fs"
  shows "case cluster_alloc prev fs of
      (None, fs') \<Rightarrow> free_clusters fs = {} \<and> disk fs' = disk fs
    | (Some c, fs') \<Rightarrow> c \<in> free_clusters fs \<and> (\<forall>x \<in> free_clusters fs. c \<le> x) \<and>
        (\<forall>x \<le> max_cluster fs. fat_entry fs' x =
           (if prev \<noteq> 0 \<and> x = prev then of_nat c else if x = c then FAT_EOC else fat_entry fs x)) \<and>
        (\<forall>r < total_sectors fs. \<not> in_fat fs r \<longrightarrow> disk fs' r = (if in_cluster fs c r then replicate SECTOR 0 else disk fs r))"
proof (rule sector_device.cluster_alloc_vol [OF assms], goal_cases)
  case (1 fs')
  then show ?case by (simp add: first_free_None free_clusters_def)
next
  case (2 c fs')
  have "c \<le> x" if "x \<in> free_clusters fs" for x
    using 2(3) that by (force simp: first_free_def free_clusters_def free_set_def)
  with 2 show ?case using first_free_Some [OF 2(3)] by (auto simp: free_clusters_def in_cluster_def)
qed

theorem cluster_alloc_first_fit_witness: "\<exists>fs'. cluster_alloc 2 tiny_fs = (Some 4, fs') \<and> fat_entry fs' 2 = 4"
  using cluster_alloc_first_fit [OF ram.sector_device_axioms tiny_volume, of 2]
  by (auto simp: tiny_chains(5) split: prod.splits option.splits)

text \<open>
  C33. \<^verbatim>\<open>free_chain\<close> releases exactly the clusters of the chain: it succeeds, every entry of the chain becomes
  free, every other entry of the table and every sector behind the table stays as it was.
\<close>

theorem free_chain_exact:
  assumes "sector_device dev lim live" "volume dev lim live fs" "file_chain fs first cs" "first \<noteq> 0"
  shows "\<exists>fs'. free_chain first fs = (Some (), fs') \<and> free_clusters fs' = free_clusters fs \<union> set cs \<and>
    (\<forall>c \<le> max_cluster fs. c \<notin> set cs \<longrightarrow> fat_entry fs' c = fat_entry fs c) \<and>
    (\<forall>r < total_sectors fs. \<not> in_fat fs r \<longrightarrow> disk fs' r = disk fs r)"
proof -
  have ch: "is_chain (fat_entry fs) (max_cluster fs) cs" "first = hd cs"
    using assms(3,4) by (auto simp: file_chain_def live_chain_def)
  obtain fs' where f: "free_chain (hd cs) fs = (Some (), fs')" "volume dev lim live fs' \<and> same_geo fs fs'"
    "\<And>c. c \<le> max_cluster fs \<Longrightarrow> fat_entry fs' c = (if c \<in> set cs then 0 else fat_entry fs c)"
    "\<And>r. r < total_sectors fs \<Longrightarrow> \<not> in_fat fs r \<Longrightarrow> disk fs' r = disk fs r"
    using sector_device.free_chain_vol [OF assms(1,2) ch(1), of thesis] by simp
  have "free_clusters fs' = free_clusters fs \<union> set cs"
    using f(3) is_chain_range [OF ch(1)] same_geoD(12) [OF conjunct2 [OF f(2)]]
    by (auto simp: free_clusters_def free_set_def split: if_splits)
  then show ?thesis using f ch(2) by auto
qed

theorem free_chain_exact_witness: "\<exists>fs'. free_chain 2 tiny_fs = (Some (), fs') \<and> free_clusters fs' = {4, 5, 2}"
  using free_chain_exact [OF ram.sector_device_axioms tiny_volume tiny_chains(2)] by (auto simp: tiny_chains(5))

section \<open>A fresh volume\<close>

lemma mount_ctx: "fat_mount dev lba d buf = (True, fs) \<Longrightarrow> f_ctx fs = d"
  by (auto simp: fat_mount_def read_sec_def new_fs_def Let_def split: option.splits if_splits)

text \<open>
  C31. Formatting and then mounting: when the partition lies on the device and its size admits a FAT16
  layout, \<^verbatim>\<open>format\<close> succeeds and \<^verbatim>\<open>mount\<close> accepts what it wrote. The mounted volume has the geometry it was
  formatted with in every field: the partition's start and size, the cluster size \<^verbatim>\<open>format\<close> chose, the
  boot sector, two tables, a root directory of 32 sectors, the data area after them, and as highest cluster
  the number of whole clusters of the data area plus one. All its clusters are free, and no name is found in
  its root directory.
\<close>

theorem format_mount:
  assumes "sector_device dev lim live" "live d" "lba + n \<le> lim" "lba + n \<le> 2 ^ 32" "n < 2 ^ 32" "format_fs dev d lba n = Some fs0"
  shows "\<exists>d' b fs. fat_format dev lba n oem label vid d = (True, d') \<and> fat_mount dev lba d' buf = (True, fs) \<and>
    fs = fs0\<lparr>f_ctx := d', sec := b\<rparr> \<and> volume dev lim live fs \<and>
    part_lba fs = lba \<and> total_sectors fs = n \<and> spc fs = pick_spc n 1 \<and> num_fats fs = 2 \<and> first_fat fs = 1 \<and>
    first_root fs = 1 + 2 * fatsz fs \<and> first_data fs = first_root fs + 32 \<and>
    max_cluster fs = (n - first_data fs) div spc fs + 1 \<and> 2 * (max_cluster fs + 1) \<le> fatsz fs * SECTOR \<and>
    free_clusters fs = {2..max_cluster fs} \<and> (\<forall>name. fst (find_entry 0 name fs) = None)"
proof -
  obtain d' fs where f: "fat_format dev lba n oem label vid d = (True, d')" "fat_mount dev lba d' buf = (True, fs)"
      "volume dev lim live fs" "same_geo fs0 fs" "free_clusters fs = {2..max_cluster fs}" "\<And>name. fst (find_entry 0 name fs) = None"
    using sector_device.format_mount_vol [OF assms(1-6), of oem label vid buf] by metis
  note G = format_geo [OF assms(6,4)]
  obtain c b where e: "fs = fs0\<lparr>f_ctx := c, sec := b\<rparr>" using f(4) by (auto simp: same_geo_def)
  have "f_ctx fs = d'" using f(2) by (rule mount_ctx)
  with e have e': "fs = fs0\<lparr>f_ctx := d', sec := b\<rparr>" by simp
  have "spc fs0 = pick_spc n 1" using assms(6) by (auto simp: format_fs_def Let_def split: option.splits if_splits)
  moreover have "first_root fs0 = 1 + 2 * fatsz fs0" "first_data fs0 = first_root fs0 + 32" "2 * (max_cluster fs0 + 1) \<le> fatsz fs0 * SECTOR"
    using G(1,6,7,9) by (simp_all add: geo_ok_def SECTOR_def)
  ultimately show ?thesis
    using f(1,2,3,5,6) G(4,5,6,7,14) e' by (intro exI [of _ d'] exI [of _ b] exI [of _ fs] conjI) simp_all
qed

theorem format_mount_witness:
  "\<exists>d' fs. fat_format ram_device 0 5000 [] [] 7 (replicate (5000 * SECTOR) 0) = (True, d') \<and>
     fat_mount ram_device 0 d' [] = (True, fs) \<and> total_sectors fs = 5000 \<and> fst (find_entry 0 tiny_a fs) = None"
proof -
  have "pick_spc 5000 1 = 1" by (simp add: pick_spc.simps)
  moreover have "(ROOT_ENTRIES * 32 + SECTOR - 1) div SECTOR = 32" by (simp add: ROOT_ENTRIES_def SECTOR_def)
  moreover have "pick_fatsz 5000 1 32 1 = Some 20"
    by (simp add: pick_fatsz.simps fat_need_def RESERVED_def NUM_FATS_def SECTOR_def)
  ultimately have "\<exists>fs0. format_fs ram_device (replicate (5000 * SECTOR) 0) 0 5000 = Some fs0"
    by (simp add: format_fs_def Let_def FAT16_MIN_CLUSTERS_def FAT16_MAX_CLUSTER_def RESERVED_def NUM_FATS_def)
  then show ?thesis
    using format_mount [OF ram.sector_device_axioms [of 5000], of "replicate (5000 * SECTOR) 0" 0 5000 _ "[]" "[]" 7 "[]"]
    by (fastforce simp: holds_sectors_def)
qed

end
