(* ===== verification/Blockdev_Props.thy ===== *)
theory Blockdev_Props
  imports Blockdev
begin

text \<open>
  Byte-granular transfers on block devices (\<^verbatim>\<open>vnu/kernel/fs/blockdev.cpp\<close>) read and write the bytes of the
  partition: on a drive whose sector transfers work, \<^verbatim>\<open>read\<close> returns the requested slice of the partition,
  \<^verbatim>\<open>write\<close> overwrites it, and the sector callbacks keep the contract of the FAT16 library.
\<close>

section \<open>The driver below\<close>

text \<open>
  What is relied on of the ATA driver for drive \<open>dr\<close> of \<open>n\<close> sectors: while it is \<open>live\<close>, transfers inside the drive
  succeed, a read returns the sectors of the drive's contents \<open>img\<close> and a write replaces them.
\<close>

definition ata_ok :: "'h ata \<Rightarrow> nat \<Rightarrow> nat \<Rightarrow> ('h \<Rightarrow> bool) \<Rightarrow> ('h \<Rightarrow> u8 list) \<Rightarrow> bool" where
  "ata_ok a dr n live img \<longleftrightarrow> n < 2 ^ 32 \<and> (\<forall>h. live h \<longrightarrow> length (img h) = n * 512) \<and>
     (\<forall>h lba cnt. live h \<longrightarrow> 0 < unat cnt \<longrightarrow> unat lba + unat cnt \<le> n \<longrightarrow>
        a_read a dr lba cnt h = Some (take (unat cnt * 512) (drop (unat lba * 512) (img h)))) \<and>
     (\<forall>h lba bs. live h \<longrightarrow> bs \<noteq> [] \<longrightarrow> 512 dvd length bs \<longrightarrow> unat lba * 512 + length bs \<le> n * 512 \<longrightarrow>
        (\<exists>h'. a_write a dr lba bs h = (True, h') \<and> live h' \<and> img h' = overwrite (unat lba * 512) bs (img h)))"

lemma ata_okD:
  assumes "ata_ok a dr n live img" "live h"
  shows "n < 2 ^ 32" "length (img h) = n * 512"
    "0 < unat cnt \<Longrightarrow> unat lba + unat cnt \<le> n \<Longrightarrow> a_read a dr lba cnt h = Some (take (unat cnt * 512) (drop (unat lba * 512) (img h)))"
    "bs \<noteq> [] \<Longrightarrow> 512 dvd length bs \<Longrightarrow> unat lba * 512 + length bs \<le> n * 512 \<Longrightarrow>
       \<exists>h'. a_write a dr lba bs h = (True, h') \<and> live h' \<and> img h' = overwrite (unat lba * 512) bs (img h)"
  using assms by (auto simp: ata_ok_def)

text \<open>A device of the table lies on its drive; its bytes are a slice of the drive's.\<close>

definition on_drive :: "nat \<Rightarrow> blkdev \<Rightarrow> bool" where
  "on_drive n d \<longleftrightarrow> unat (b_lba d) + unat (b_sectors d) \<le> n"

definition part_bytes :: "('h \<Rightarrow> u8 list) \<Rightarrow> blkdev \<Rightarrow> 'h \<Rightarrow> u8 list" where
  "part_bytes img d h = take (unat (b_sectors d) * 512) (drop (unat (b_lba d) * 512) (img h))"

section \<open>Addresses\<close>

lemma part_size: "unat (ucast (b_sectors d) * 512 :: u64) = unat (b_sectors d) * 512"
proof -
  have s: "unat (b_sectors d) < 2 ^ 32" using unsigned_less [where 'a = nat and w = "b_sectors d"] by simp
  then have "unat (ucast (b_sectors d) :: u64) * unat (512 :: u64) < 2 ^ LENGTH(64)" by (simp add: unat_ucast_up)
  then show ?thesis by (simp add: unat_mult_lem [THEN iffD1] unat_ucast_up)
qed

lemma clip_size:
  assumes "unat off < unat (b_sectors d) * 512"
  shows "unat (blk_clip d off len) = min (unat len) (unat (b_sectors d) * 512 - unat off)"
proof -
  let ?t = "ucast (b_sectors d) * 512 :: u64"
  have t: "unat (?t - off) = unat (b_sectors d) * 512 - unat off"
    using assms by (subst unat_sub) (simp_all add: word_le_nat_alt part_size)
  show ?thesis
  proof (cases "ucast len > ?t - off")
    case True
    then have lt: "unat (?t - off) < unat len" by (simp add: word_less_nat_alt unat_ucast_up)
    moreover have "unat len < 2 ^ 32" using unsigned_less [where 'a = nat and w = len] by simp
    ultimately have "unat (ucast (?t - off) :: u32) = unat (?t - off)" by (simp add: unsigned_ucast_eq take_bit_nat_eq_self)
    with True lt t show ?thesis by (simp add: blk_clip_def Let_def)
  next
    case False
    then have "unat len \<le> unat (?t - off)" by (simp add: word_less_nat_alt unat_ucast_up)
    with False t show ?thesis by (simp add: blk_clip_def Let_def)
  qed
qed

lemma start_addr:
  assumes "unat (off :: u64) < unat (b_sectors d) * 512" "on_drive n d" "n < 2 ^ 32"
  shows "unat (b_lba d + ucast (off div 512)) = unat (b_lba d) + unat off div 512"
    and "unat (ucast (off mod 512) :: u32) = unat off mod 512"
proof -
  have q: "unat off div 512 < unat (b_sectors d)" using assms(1) by (simp add: less_mult_imp_div_less)
  have "unat (ucast (off div 512) :: u32) = unat off div 512"
    using q assms(2,3) by (simp add: unsigned_ucast_eq unat_div on_drive_def take_bit_nat_eq_self)
  then show "unat (b_lba d + ucast (off div 512)) = unat (b_lba d) + unat off div 512"
    using q assms(2,3) by (subst unat_plus_simple [THEN iffD1]) (simp_all add: on_drive_def word_le_nat_alt unat_word_ariths)
  have "unat off mod 512 < 2 ^ 32" by (rule less_trans [of _ 512]) simp_all
  then show "unat (ucast (off mod 512) :: u32) = unat off mod 512"
    by (simp add: unsigned_ucast_eq take_bit_nat_eq_self unat_mod)
qed

section \<open>Reading\<close>

lemma unat_min: "unat (min x y) = min (unat x) (unat (y :: 'a::len word))"
  by (simp add: min_def word_le_nat_alt)

lemma unat_diff: "y \<le> x \<Longrightarrow> unat (x - y) = unat x - unat (y :: 'a::len word)"
  by (rule unat_sub)

lemma unat_add_small: "unat x + unat y < 2 ^ LENGTH('a) \<Longrightarrow> unat (x + y) = unat x + unat (y :: 'a::len word)"
  by (simp add: unat_word_ariths)

lemma take_split: "take m (drop p xs) @ take k (drop (p + m) xs) = take (m + k) (drop p xs)"
  by (simp add: take_add add.commute [of p])

lemma take_sector: "bo + m \<le> 512 \<Longrightarrow> take m (drop bo (take 512 (drop p xs))) = take m (drop (p + bo) xs)"
  by (simp add: drop_take add.commute min_def)

text \<open>
  The three parts of a transfer. \<open>p\<close> is the byte on the drive where the part starts; what is left after the
  head and the body starts on a sector.
\<close>

lemma read_head_ok:
  assumes ok: "ata_ok a dr n live img" "live h" and bo: "unat bo < 512"
    and fit: "unat lba * 512 + unat bo + unat len \<le> n * 512" "unat lba < n"
  shows "\<exists>m lba1 len1. read_head a dr lba bo len h = Some (take m (drop (unat lba * 512 + unat bo) (img h)), len1, lba1) \<and>
    unat len = m + unat len1 \<and> (0 < unat len1 \<longrightarrow> unat lba1 * 512 = unat lba * 512 + unat bo + m)"
proof (cases "bo = 0")
  case True
  show ?thesis by (rule exI [of _ 0], rule exI [of _ lba], rule exI [of _ len]) (use True in \<open>simp add: read_head_def\<close>)
next
  case False
  note D = ata_okD [OF ok]
  let ?m = "min (512 - bo) len"
  have b: "unat (512 - bo) = 512 - unat bo" using bo by (subst unat_diff) (simp_all add: word_le_nat_alt)
  have m: "unat ?m = min (512 - unat bo) (unat len)" by (simp only: unat_min b)
  have le: "unat bo + unat ?m \<le> 512" using m bo by simp
  have l1: "unat (len - ?m) = unat len - unat ?m" by (rule unat_diff) simp
  have a1: "unat (lba + 1) = unat lba + 1" using fit(2) D(1) by (subst unat_add_small) simp_all
  have "a_read a dr lba 1 h = Some (take 512 (drop (unat lba * 512) (img h)))"
    using D(3) [of 1 lba] fit(2) by simp
  then have run: "read_head a dr lba bo len h = Some (take (unat ?m) (drop (unat lba * 512 + unat bo) (img h)), len - ?m, lba + 1)"
    using False take_sector [OF le] by (simp add: read_head_def Let_def)
  have e: "unat lba * 512 + unat bo + unat ?m = unat (lba + 1) * 512" if "0 < unat (len - ?m)"
    using that bo unfolding l1 m a1 by (simp add: min_def split: if_splits)
  have "unat len = unat ?m + unat (len - ?m)" using l1 m by simp
  with run e show ?thesis by metis
qed

lemma read_body_ok:
  assumes ok: "ata_ok a dr n live img" "live h" and fit: "0 < unat len \<longrightarrow> unat lba * 512 + unat len \<le> n * 512"
  shows "\<exists>k lba1 len1. read_body a dr lba len h = Some (take k (drop (unat lba * 512) (img h)), len1, lba1) \<and>
    unat len = k + unat len1 \<and> unat len1 < 512 \<and> (0 < unat len1 \<longrightarrow> unat lba1 * 512 = unat lba * 512 + k)"
proof (cases "len \<ge> 512")
  case False
  then have l: "unat len < 512" by (simp add: word_le_nat_alt)
  show ?thesis by (rule exI [of _ 0], rule exI [of _ lba], rule exI [of _ len]) (use False l in \<open>simp add: read_body_def\<close>)
next
  case True
  note D = ata_okD [OF ok]
  let ?s = "len div 512"
  have s: "unat ?s = unat len div 512" by (simp add: unat_div)
  have t: "512 \<le> unat len" using True by (simp add: word_le_nat_alt)
  have ms: "unat (?s * 512) = unat len div 512 * 512"
  proof -
    have "unat ?s * 512 < 2 ^ 32" unfolding s
      using unsigned_less [where 'a = nat and w = len] by (intro le_less_trans [OF div_times_less_eq_dividend]) simp
    then show ?thesis using unat_mult_lem [of ?s 512, THEN iffD1] s by simp
  qed
  have l1: "unat (len - ?s * 512) = unat len mod 512"
    using ms by (subst unat_diff) (simp_all add: word_le_nat_alt minus_div_mult_eq_mod)
  have f: "unat lba + unat len div 512 \<le> n" using fit t by linarith
  have a1: "unat (lba + ?s) = unat lba + unat len div 512" using f D(1) s by (subst unat_add_small) simp_all
  have "0 < unat ?s" using t by (simp add: s div_greater_zero_iff)
  then have "a_read a dr lba ?s h = Some (take (unat len div 512 * 512) (drop (unat lba * 512) (img h)))"
    using D(3) [of ?s lba] f s by simp
  then have run: "read_body a dr lba len h = Some (take (unat len div 512 * 512) (drop (unat lba * 512) (img h)), len - ?s * 512, lba + ?s)"
    using True by (simp add: read_body_def Let_def)
  show ?thesis
    by (rule exI [of _ "unat len div 512 * 512"], rule exI [of _ "lba + ?s"], rule exI [of _ "len - ?s * 512"])
      (use run l1 a1 in \<open>simp add: algebra_simps\<close>)
qed

lemma read_tail_ok:
  assumes ok: "ata_ok a dr n live img" "live h" and fit: "0 < unat len \<longrightarrow> unat lba * 512 + unat len \<le> n * 512" "unat len < 512"
  shows "read_tail a dr lba len h = Some (take (unat len) (drop (unat lba * 512) (img h)))"
proof (cases "len = 0")
  case False
  then have l: "0 < unat len" by (simp add: unat_gt_0)
  then have "unat lba < n" using fit(1) by linarith
  then have "a_read a dr lba 1 h = Some (take 512 (drop (unat lba * 512) (img h)))" using ata_okD(3) [OF ok, of 1 lba] by simp
  then show ?thesis using False fit(2) by (simp add: read_tail_def min_def)
qed (simp add: read_tail_def)

text \<open>A 32-bit count returned as an \<^verbatim>\<open>int\<close>.\<close>

definition as_int :: "nat \<Rightarrow> int" where
  "as_int k = (if k < 2 ^ 31 then int k else int k - 2 ^ 32)"

lemma sint_shift: "sint (w :: u32) = (uint w + 2 ^ 31) mod 2 ^ 32 - 2 ^ 31"
proof -
  have l: "LENGTH(32) - Suc 0 = 31" "Suc 31 = 32" by simp_all
  have "sint w = take_bit (Suc 31) (uint w + 2 ^ 31) - 2 ^ 31"
    unfolding sint_uint l(1) by (rule signed_take_bit_eq_take_bit_shift)
  then show ?thesis by (simp only: l(2) take_bit_eq_mod)
qed

lemma shift_mod: "0 \<le> (u :: int) \<Longrightarrow> u < 2 ^ 32 \<Longrightarrow>
    (u + 2 ^ 31) mod 2 ^ 32 - 2 ^ 31 = (if u < 2 ^ 31 then u else u - 2 ^ 32)"
  by (cases "u < 2 ^ 31") (auto simp: mod_pos_geq mod_pos_pos_trivial)

lemma sint_u32: "sint (w :: u32) = as_int (unat w)"
proof -
  have b: "0 \<le> uint w" "uint w < 2 ^ 32" by (rule uint_ge_0) (use uint_bounded [of w] in simp)
  have i: "int (unat w) = uint w" by simp
  have "unat w < 2 ^ 31 \<longleftrightarrow> int (unat w) < int (2 ^ 31)" by (simp only: of_nat_less_iff)
  then have u: "int (unat w) = uint w" "(unat w < 2 ^ 31) = (uint w < 2 ^ 31)" unfolding i by simp_all
  show ?thesis unfolding sint_shift shift_mod [OF b] as_int_def u ..
qed

lemma as_int_0 [simp]: "as_int 0 = 0"
  by (simp add: as_int_def)

lemma blk_read_bytes:
  assumes ok: "ata_ok a (unat (b_drive d)) n live img" "live h" and d: "on_drive n d"
    and idx: "0 \<le> idx" "idx < int (length devs)" "d = devs ! nat idx"
  shows "blk_read a devs idx off len h =
    (as_int (min (unat len) (unat (b_sectors d) * 512 - unat off)), take (unat len) (drop (unat off) (part_bytes img d h)))"
proof (cases "unat off < unat (b_sectors d) * 512")
  case False
  then have "off \<ge> ucast (b_sectors d) * 512" by (simp add: word_le_nat_alt part_size)
  then show ?thesis using False idx by (simp add: blk_read_def Let_def part_bytes_def)
next
  case True
  note D = ata_okD [OF ok]
  let ?dr = "unat (b_drive d)" and ?c = "blk_clip d off len" and ?l = "b_lba d + ucast (off div 512)" and ?bo = "ucast (off mod 512) :: u32"
  let ?p = "unat (b_lba d) * 512 + unat off"
  note c = clip_size [OF True, of len] and A = start_addr [OF True d D(1)]
  have p: "unat ?l * 512 + unat ?bo = ?p" unfolding A by (simp add: algebra_simps)
  have fit: "unat ?l * 512 + unat ?bo + unat ?c \<le> n * 512" "unat ?l < n"
    unfolding p using c True d A(1) by (auto simp: on_drive_def)
  have bo: "unat ?bo < 512" unfolding A by simp
  obtain m l1 c1 where h: "read_head a ?dr ?l ?bo ?c h = Some (take m (drop ?p (img h)), c1, l1)" "unat ?c = m + unat c1"
      "0 < unat c1 \<longrightarrow> unat l1 * 512 = ?p + m"
    using read_head_ok [OF ok bo fit] unfolding p by (elim exE conjE) (rule that)
  have "0 < unat c1 \<longrightarrow> unat l1 * 512 + unat c1 \<le> n * 512" using h(2,3) fit(1) unfolding p by auto
  from read_body_ok [OF ok this] obtain k l2 c2 where b: "read_body a ?dr l1 c1 h = Some (take k (drop (unat l1 * 512) (img h)), c2, l2)"
      "unat c1 = k + unat c2" "unat c2 < 512" "0 < unat c2 \<longrightarrow> unat l2 * 512 = unat l1 * 512 + k"
    by (elim exE conjE) (rule that)
  have t: "read_tail a ?dr l2 c2 h = Some (take (unat c2) (drop (unat l2 * 512) (img h)))"
    by (rule read_tail_ok [OF ok _ b(3)]) (use h(2,3) b(2,4) fit(1) p in auto)
  have bo2: "take k (drop (unat l1 * 512) (img h)) @ take (unat c2) (drop (unat l2 * 512) (img h)) = take (unat c1) (drop (?p + m) (img h))"
    using b(2,4) h(3) take_split [of k "?p + m" "img h" "unat c2"] by (cases "unat c1 = 0"; cases "unat c2 = 0") auto
  have "blk_read a devs idx off len h =
      (as_int (unat ?c), take m (drop ?p (img h)) @ take (unat c1) (drop (?p + m) (img h)))"
    using True idx h(1) b(1) t bo2 by (simp add: blk_read_def Let_def word_le_nat_alt part_size not_le sint_u32)
  also have "\<dots> = (as_int (unat ?c), take (unat len) (drop (unat off) (part_bytes img d h)))"
    unfolding take_split h(2) [symmetric] c by (simp add: part_bytes_def drop_take min.commute add.commute)
  finally show ?thesis unfolding c by simp
qed

section \<open>Writing\<close>

lemma overwrite_append:
  "p + length xs \<le> length old \<Longrightarrow> overwrite (p + length xs) ys (overwrite p xs old) = overwrite p (xs @ ys) old"
  by (simp add: overwrite_def ac_simps)

lemma overwrite_none: "p \<le> length old \<Longrightarrow> overwrite p [] old = old"
  by (simp add: overwrite_def)

lemma overwrite_sector:
  assumes "p + 512 \<le> length old" "bo + length bs \<le> 512"
  shows "overwrite p (patch_sector bo bs (take 512 (drop p old))) old = overwrite (p + bo) bs old"
proof -
  have l: "length (patch_sector bo bs (take 512 (drop p old))) = 512" using assms by (simp add: patch_sector_def)
  have s: "patch_sector bo bs (take 512 (drop p old)) ! i = (if bo \<le> i \<and> i < bo + length bs then bs ! (i - bo) else old ! (p + i))" if "i < 512" for i
    using that assms by (auto simp: patch_sector_def nth_append)
  show ?thesis
  proof (rule nth_equalityI)
    show "length (overwrite p (patch_sector bo bs (take 512 (drop p old))) old) = length (overwrite (p + bo) bs old)"
      using assms l by (simp add: length_overwrite)
    fix i assume "i < length (overwrite p (patch_sector bo bs (take 512 (drop p old))) old)"
    then have i: "i < length old" using assms l by (simp add: length_overwrite)
    show "overwrite p (patch_sector bo bs (take 512 (drop p old))) old ! i = overwrite (p + bo) bs old ! i"
      using i assms l s [of "i - p"] by (subst (1 2) overwrite_nth) auto
  qed
qed

lemma write_part_ok:
  assumes ok: "ata_ok a dr n live img" "live h" and fit: "unat lba < n" "bo + length bs \<le> 512"
  shows "\<exists>h'. write_part a dr lba bo bs h = (True, h') \<and> live h' \<and> img h' = overwrite (unat lba * 512 + bo) bs (img h)"
proof -
  note D = ata_okD [OF ok]
  let ?s = "take 512 (drop (unat lba * 512) (img h))"
  have p: "unat lba * 512 + 512 \<le> length (img h)" using fit(1) unfolding D(2) by simp
  have r: "a_read a dr lba 1 h = Some ?s" using D(3) [of 1 lba] fit(1) by simp
  have l: "length (patch_sector bo bs ?s) = 512" using p fit(2) by (simp add: patch_sector_def)
  then have "patch_sector bo bs ?s \<noteq> []" "512 dvd length (patch_sector bo bs ?s)" "unat lba * 512 + length (patch_sector bo bs ?s) \<le> n * 512"
    using p D(2) by auto
  from D(4) [OF this] show ?thesis
    unfolding overwrite_sector [OF p fit(2)] by (simp add: write_part_def r)
qed

lemma write_head_ok:
  assumes ok: "ata_ok a dr n live img" "live h" and bo: "unat bo < 512"
    and fit: "unat lba * 512 + unat bo + length bs \<le> n * 512" "unat lba < n"
  shows "\<exists>m lba1 h1. write_head a dr lba bo bs h = (Some (drop m bs, lba1), h1) \<and> m \<le> length bs \<and> live h1 \<and>
    img h1 = overwrite (unat lba * 512 + unat bo) (take m bs) (img h) \<and>
    (m < length bs \<longrightarrow> unat lba1 * 512 = unat lba * 512 + unat bo + m)"
proof (cases "bo = 0")
  case True
  note D = ata_okD [OF ok]
  show ?thesis
    by (rule exI [of _ 0], rule exI [of _ lba], rule exI [of _ h])
      (use True ok(2) fit D(2) in \<open>simp add: write_head_def overwrite_none\<close>)
next
  case False
  note D = ata_okD [OF ok]
  let ?m = "min (512 - unat bo) (length bs)"
  have a1: "unat (lba + 1) = unat lba + 1" using fit(2) D(1) by (subst unat_add_small) simp_all
  have le: "unat bo + length (take ?m bs) \<le> 512" using bo by simp
  obtain h1 where h1: "write_part a dr lba (unat bo) (take ?m bs) h = (True, h1)" "live h1"
      "img h1 = overwrite (unat lba * 512 + unat bo) (take ?m bs) (img h)"
    using write_part_ok [OF ok fit(2) le] by (elim exE conjE) (rule that)
  have e: "?m < length bs \<longrightarrow> unat (lba + 1) * 512 = unat lba * 512 + unat bo + ?m" using a1 bo by (simp add: min_def)
  show ?thesis
    by (rule exI [of _ ?m], rule exI [of _ "lba + 1"], rule exI [of _ h1])
      (use False h1 e in \<open>simp add: write_head_def Let_def\<close>)
qed

lemma write_body_ok:
  assumes ok: "ata_ok a dr n live img" "live h" and fit: "bs \<noteq> [] \<longrightarrow> unat lba * 512 + length bs \<le> n * 512"
    and p: "bs \<noteq> [] \<longrightarrow> p = unat lba * 512" "p \<le> length (img h)"
  shows "\<exists>k lba1 h1. write_body a dr lba bs h = (Some (drop k bs, lba1), h1) \<and> k \<le> length bs \<and> live h1 \<and>
    img h1 = overwrite p (take k bs) (img h) \<and> length bs - k < 512 \<and> (k < length bs \<longrightarrow> unat lba1 * 512 = unat lba * 512 + k)"
proof (cases "length bs \<ge> 512")
  case False
  show ?thesis
    by (rule exI [of _ 0], rule exI [of _ lba], rule exI [of _ h])
      (use False ok(2) p(2) in \<open>simp add: write_body_def overwrite_none\<close>)
next
  case True
  note D = ata_okD [OF ok]
  let ?s = "length bs div 512"
  have ne: "bs \<noteq> []" using True by auto
  have s: "?s * 512 \<le> length bs" "0 < ?s" using True by (simp_all add: div_greater_zero_iff)
  have f: "unat lba + ?s \<le> n" "unat lba * 512 + ?s * 512 \<le> n * 512" using fit ne s(1) by linarith+
  have t: "take (?s * 512) bs \<noteq> []" "length (take (?s * 512) bs) = ?s * 512" using s by auto
  obtain h1 where h1: "a_write a dr lba (take (?s * 512) bs) h = (True, h1)" "live h1" "img h1 = overwrite (unat lba * 512) (take (?s * 512) bs) (img h)"
    using D(4) [OF t(1), of lba] f(2) t(2) by auto
  have "unat (of_nat ?s :: u32) = ?s" using f(1) D(1) by (simp add: unat_of_nat)
  then have a1: "unat (lba + of_nat ?s) = unat lba + ?s" using f(1) D(1) by (subst unat_add_small) simp_all
  have run: "write_body a dr lba bs h = (Some (drop (?s * 512) bs, lba + of_nat ?s), h1)"
    using True h1(1) by (simp add: write_body_def Let_def)
  have r: "length bs - ?s * 512 < 512" by (simp add: minus_div_mult_eq_mod)
  show ?thesis
    by (rule exI [of _ "?s * 512"], rule exI [of _ "lba + of_nat ?s"], rule exI [of _ h1])
      (use run s(1) h1(2,3) a1 r p ne in \<open>simp add: algebra_simps\<close>)
qed

lemma write_tail_ok:
  assumes ok: "ata_ok a dr n live img" "live h" and fit: "bs \<noteq> [] \<longrightarrow> unat lba * 512 + length bs \<le> n * 512" "length bs < 512"
    and p: "bs \<noteq> [] \<longrightarrow> p = unat lba * 512" "p \<le> length (img h)"
  shows "\<exists>h1. write_tail a dr lba bs h = (True, h1) \<and> live h1 \<and> img h1 = overwrite p bs (img h)"
proof (cases "bs = []")
  case True
  then show ?thesis using ok(2) p(2) by (simp add: write_tail_def overwrite_none)
next
  case False
  then have "unat lba < n" using fit(1) by (cases bs) auto
  from write_part_ok [OF ok this, of 0 bs] fit(2) False p(1) show ?thesis by (simp add: write_tail_def)
qed

lemma blk_write_bytes:
  assumes ok: "ata_ok a (unat (b_drive d)) n live img" "live h" and d: "on_drive n d"
    and idx: "0 \<le> idx" "idx < int (length devs)" "d = devs ! nat idx" and buf: "length buf < 2 ^ 32"
  shows "\<exists>h'. blk_write a devs idx off buf h = (as_int (min (length buf) (unat (b_sectors d) * 512 - unat off)), h') \<and> live h' \<and>
    img h' = (if unat off < unat (b_sectors d) * 512
      then overwrite (unat (b_lba d) * 512 + unat off) (take (unat (b_sectors d) * 512 - unat off) buf) (img h) else img h)"
proof (cases "unat off < unat (b_sectors d) * 512")
  case False
  then have "off \<ge> ucast (b_sectors d) * 512" by (simp add: word_le_nat_alt part_size)
  then show ?thesis using False idx ok(2) by (simp add: blk_write_def Let_def)
next
  case True
  note D = ata_okD [OF ok]
  let ?dr = "unat (b_drive d)" and ?l = "b_lba d + ucast (off div 512)" and ?bo = "ucast (off mod 512) :: u32"
  let ?p = "unat (b_lba d) * 512 + unat off" and ?r = "unat (b_sectors d) * 512 - unat off"
  define bs where "bs = take ?r buf"
  have c: "unat (blk_clip d off (of_nat (length buf))) = min (length buf) ?r"
    using clip_size [OF True, of "of_nat (length buf)"] buf by (simp add: unat_of_nat)
  then have tb: "take (unat (blk_clip d off (of_nat (length buf)))) buf = bs" by (simp add: bs_def min_def)
  note A = start_addr [OF True d D(1)]
  have p: "unat ?l * 512 + unat ?bo = ?p" unfolding A by (simp add: algebra_simps)
  have fit: "unat ?l * 512 + unat ?bo + length bs \<le> n * 512" "unat ?l < n"
    unfolding p using True d A(1) by (auto simp: on_drive_def bs_def)
  have bo: "unat ?bo < 512" unfolding A by simp
  obtain m l1 h1 where W1: "write_head a ?dr ?l ?bo bs h = (Some (drop m bs, l1), h1)" "m \<le> length bs" "live h1"
      "img h1 = overwrite ?p (take m bs) (img h)" "m < length bs \<longrightarrow> unat l1 * 512 = ?p + m"
    using write_head_ok [OF ok bo fit] unfolding p by (elim exE conjE) (rule that)
  have len1: "length (img h1) = n * 512" "?p + length bs \<le> n * 512" using ata_okD(2) [OF ok(1) W1(3)] fit(1) p by simp_all
  have b2: "drop m bs \<noteq> [] \<longrightarrow> unat l1 * 512 + length (drop m bs) \<le> n * 512" "drop m bs \<noteq> [] \<longrightarrow> ?p + m = unat l1 * 512" "?p + m \<le> length (img h1)"
    using W1(2,5) len1 by auto
  obtain k l2 h2 where W2: "write_body a ?dr l1 (drop m bs) h1 = (Some (drop k (drop m bs), l2), h2)" "k \<le> length (drop m bs)" "live h2"
      "img h2 = overwrite (?p + m) (take k (drop m bs)) (img h1)" "length (drop m bs) - k < 512"
      "k < length (drop m bs) \<longrightarrow> unat l2 * 512 = unat l1 * 512 + k"
    using write_body_ok [OF ok(1) W1(3) b2] by (elim exE conjE) (rule that)
  have len2: "length (img h2) = n * 512" using ata_okD(2) [OF ok(1) W2(3)] .
  let ?t = "drop k (drop m bs)"
  have b3: "?t \<noteq> [] \<longrightarrow> unat l2 * 512 + length ?t \<le> n * 512" "length ?t < 512" "?t \<noteq> [] \<longrightarrow> ?p + m + k = unat l2 * 512" "?p + m + k \<le> length (img h2)"
    using W1(2,5) W2(2,5,6) len1(2) len2 by auto
  obtain h3 where W3: "write_tail a ?dr l2 ?t h2 = (True, h3)" "live h3" "img h3 = overwrite (?p + m + k) ?t (img h2)"
    using write_tail_ok [OF ok(1) W2(3) b3] by (elim exE conjE) (rule that)
  have "img h3 = overwrite ?p bs (img h)"
  proof -
    have l: "?p + length (take m bs) \<le> length (img h)" "length (take m bs) = m" "length (take k (drop m bs)) = k"
      using W1(2) W2(2) len1(2) D(2) by simp_all
    have "img h2 = overwrite ?p (take m bs @ take k (drop m bs)) (img h)"
      unfolding W2(4) W1(4) using overwrite_append [OF l(1)] l(2) by simp
    moreover have "?p + length (take m bs @ take k (drop m bs)) \<le> length (img h)"
      using W1(2) W2(2) len1(2) D(2) l by simp
    ultimately have "img h3 = overwrite ?p ((take m bs @ take k (drop m bs)) @ ?t) (img h)"
      unfolding W3(3) using overwrite_append [of ?p "take m bs @ take k (drop m bs)" "img h" ?t] l by (simp add: add.assoc)
    moreover have "(take m bs @ take k (drop m bs)) @ ?t = bs" by (simp only: append_assoc append_take_drop_id)
    ultimately show ?thesis by (simp only:)
  qed
  moreover have "length bs < 2 ^ 32" using buf by (simp add: bs_def)
  then have "blk_write a devs idx off buf h = (as_int (length bs), h3)"
    using True idx W1(1) W2(1) W3(1) tb
    by (simp add: blk_write_def Let_def word_le_nat_alt part_size not_le sint_u32 unat_of_nat)
  ultimately show ?thesis using W3(2) True by (simp add: bs_def min.commute)
qed

section \<open>Partitions\<close>

lemma part_overwrite:
  assumes "p + length bs \<le> s * 512" "l * 512 + s * 512 \<le> length old"
  shows "take (s * 512) (drop (l * 512) (overwrite (l * 512 + p) bs old)) = overwrite p bs (take (s * 512) (drop (l * 512) old))"
proof (rule nth_equalityI)
  have len: "length (overwrite (l * 512 + p) bs old) = length old" "length (overwrite p bs (take (s * 512) (drop (l * 512) old))) = s * 512"
    using assms by (simp_all add: length_overwrite)
  then show "length (take (s * 512) (drop (l * 512) (overwrite (l * 512 + p) bs old))) =
      length (overwrite p bs (take (s * 512) (drop (l * 512) old)))" using assms by simp
  fix i assume "i < length (take (s * 512) (drop (l * 512) (overwrite (l * 512 + p) bs old)))"
  then have i: "i < s * 512" by simp
  show "take (s * 512) (drop (l * 512) (overwrite (l * 512 + p) bs old)) ! i = overwrite p bs (take (s * 512) (drop (l * 512) old)) ! i"
    using i assms len by (simp add: overwrite_nth)
qed

lemma part_apart:
  assumes "q + length bs \<le> l * 512 \<or> l * 512 + s * 512 \<le> q" "q + length bs \<le> length old" "l * 512 + s * 512 \<le> length old"
  shows "take (s * 512) (drop (l * 512) (overwrite q bs old)) = take (s * 512) (drop (l * 512) old)"
proof (rule nth_equalityI)
  have len: "length (overwrite q bs old) = length old" using assms by (simp add: length_overwrite)
  then show "length (take (s * 512) (drop (l * 512) (overwrite q bs old))) = length (take (s * 512) (drop (l * 512) old))" by simp
  fix i assume "i < length (take (s * 512) (drop (l * 512) (overwrite q bs old)))"
  then have i: "i < s * 512" by simp
  then show "take (s * 512) (drop (l * 512) (overwrite q bs old)) ! i = take (s * 512) (drop (l * 512) old) ! i"
    using assms len by (auto simp: overwrite_nth)
qed

lemma part_length: "ata_ok a dr n live img \<Longrightarrow> live h \<Longrightarrow> on_drive n d \<Longrightarrow> length (part_bytes img d h) = unat (b_sectors d) * 512"
  using ata_okD(2) [of a dr n live img h] by (simp add: part_bytes_def on_drive_def)

lemma sector_offset: "lba < 2 ^ 32 \<Longrightarrow> unat (of_nat lba * 512 :: u64) = lba * 512"
proof -
  assume l: "lba < 2 ^ 32"
  then have "unat (of_nat lba :: u64) * unat (512 :: u64) < 2 ^ LENGTH(64)" by (simp add: unat_of_nat)
  then show ?thesis using l by (simp add: unat_mult_lem [THEN iffD1] unat_of_nat)
qed

text \<open>The sector callbacks of a partition keep the contract of the FAT16 library.\<close>

lemma blk_sector_device:
  assumes ok: "ata_ok a (unat (b_drive d)) n live img" and d: "on_drive n d"
    and idx: "0 \<le> idx" "idx < int (length devs)" "d = devs ! nat idx"
  shows "sector_device (fat16_device a devs idx) (unat (b_sectors d)) live"
proof
  fix h lba l and bs :: "u8 list"
  let ?s = "unat (b_sectors d)"
  have s32: "?s < 2 ^ 32" using unsigned_less [where 'a = nat and w = "b_sectors d"] by simp
  assume h: "live h" and lba: "lba < ?s"
  have rd: "d_read (fat16_device a devs idx) k g = Some (take 512 (drop (k * 512) (part_bytes img d g)))" if "live g" "k < ?s" for k g
    using blk_read_bytes [OF ok that(1) d idx, of "of_nat k * 512" 512] that(2) s32
    by (simp add: fat16_device_def sector_offset as_int_def)
  have end_le: "k * 512 + 512 \<le> ?s * 512" if "k < ?s" for k using that by simp
  show "\<exists>bs. d_read (fat16_device a devs idx) lba h = Some bs \<and> length bs = SECTOR"
    using rd [OF h lba] part_length [OF ok h d] end_le [OF lba] by (simp add: SECTOR_def)
  assume bs: "length bs = SECTOR"
  then have b: "length bs = 512" "length bs < 2 ^ 32" by (simp_all add: SECTOR_def)
  obtain h' where w: "d_write (fat16_device a devs idx) lba bs h = (True, h')" "live h'"
      "img h' = overwrite (unat (b_lba d) * 512 + lba * 512) bs (img h)"
    using blk_write_bytes [OF ok h d idx b(2), of "of_nat lba * 512"] lba s32 b(1) end_le [OF lba]
    by (auto simp: fat16_device_def sector_offset as_int_def)
  then show "fst (d_write (fat16_device a devs idx) lba bs h) \<and> live (snd (d_write (fat16_device a devs idx) lba bs h))" by simp
  assume l: "l < ?s"
  have old: "unat (b_lba d) * 512 + ?s * 512 \<le> length (img h)" using d ata_okD(2) [OF ok h] by (simp add: on_drive_def)
  have part: "part_bytes img d h' = overwrite (lba * 512) bs (part_bytes img d h)"
    unfolding part_bytes_def w(3) by (rule part_overwrite [OF _ old]) (use b(1) end_le [OF lba] in simp)
  have len: "length (part_bytes img d h) = ?s * 512" by (rule part_length [OF ok h d])
  have "take 512 (drop (l * 512) (overwrite (lba * 512) bs (part_bytes img d h))) =
      (if l = lba then bs else take 512 (drop (l * 512) (part_bytes img d h)))"
  proof (cases "l = lba")
    case True
    then show ?thesis using b(1) len end_le [OF lba] by (simp add: overwrite_def)
  next
    case False
    then have "lba * 512 + length bs \<le> l * 512 \<or> l * 512 + 1 * 512 \<le> lba * 512" using b(1) by linarith
    from part_apart [OF this] show ?thesis using False b(1) len end_le [OF lba] end_le [OF l] by simp
  qed
  then show "d_read (fat16_device a devs idx) l (snd (d_write (fat16_device a devs idx) lba bs h)) =
      (if l = lba then Some bs else d_read (fat16_device a devs idx) l h)"
    using rd [OF w(2) l] rd [OF h l] w(1) part by simp
qed

section \<open>The table\<close>

definition blk_entry_ok :: "'h ata \<Rightarrow> blkdev \<Rightarrow> bool" where
  "blk_entry_ok a d \<longleftrightarrow> unat (b_drive d) < a_drive_count a \<and> 0 < unat (b_sectors d) \<and>
     unat (b_lba d) + unat (b_sectors d) \<le> unat (a_sectors a (unat (b_drive d))) \<and> length (b_name d) < NAME_CAP"

definition blk_table_ok :: "'h ata \<Rightarrow> blkdev list \<Rightarrow> bool" where
  "blk_table_ok a devs \<longleftrightarrow> length devs \<le> MAX_DEVICES \<and> list_all (blk_entry_ok a) devs"

lemma blk_add_ok:
  assumes "blk_table_ok a devs" "dr < a_drive_count a" "a_drive_count a \<le> 256" "0 < unat sectors" "unat lba + unat sectors \<le> unat (a_sectors a dr)"
  shows "blk_table_ok a (blk_add whole dr lba sectors name devs)"
proof -
  have "unat (of_nat dr :: u8) = dr" using assms(2,3) by (simp add: unat_of_nat)
  then have "blk_entry_ok a \<lparr>b_whole = whole, b_drive = of_nat dr, b_lba = lba, b_sectors = sectors, b_name = blk_copy_name name\<rparr>"
    using assms by (simp add: blk_entry_ok_def blk_copy_name_def NAME_CAP_def)
  with assms(1) show ?thesis by (simp add: blk_table_ok_def blk_add_def MAX_DEVICES_def)
qed

lemma add_slot_ok:
  assumes "blk_table_ok a devs" "dr < a_drive_count a" "a_drive_count a \<le> 256"
  shows "blk_table_ok a (add_slot dr (a_sectors a dr) name mbr slot devs)"
proof -
  define e where "e = drop (0x1BE + slot * 16) mbr"
  define lba where "lba = le32 (drop 8 e)"
  define n where "n = le32 (drop 12 e)"
  let ?t = "a_sectors a dr"
  let ?n = "if unat lba + unat n > unat ?t then ?t - lba else n"
  show ?thesis
  proof (cases "e ! 4 = 0 \<or> n = 0 \<or> lba \<ge> ?t")
    case True
    then show ?thesis using assms(1) by (simp add: add_slot_def Let_def e_def [symmetric] lba_def [symmetric] n_def [symmetric])
  next
    case False
    then have lt: "unat lba < unat ?t" "0 < unat n" by (simp_all add: word_le_nat_alt unat_gt_0)
    have "unat (?t - lba) = unat ?t - unat lba" using lt by (intro unat_diff) (simp add: word_le_nat_alt)
    then have "0 < unat ?n" "unat lba + unat ?n \<le> unat ?t" using lt by auto
    from blk_add_ok [OF assms this, of False "part_name name slot"] show ?thesis
      using False by (cases "unat ?t < unat lba + unat n") (simp_all add: add_slot_def Let_def e_def [symmetric] lba_def [symmetric] n_def [symmetric])
  qed
qed

lemma fold_keeps: "P s \<Longrightarrow> (\<And>x s. x \<in> set xs \<Longrightarrow> P s \<Longrightarrow> P (f x s)) \<Longrightarrow> P (fold f xs s)"
  by (induction xs arbitrary: s) auto

lemma add_drive_ok:
  assumes "blk_table_ok a devs" "dr < a_drive_count a" "a_drive_count a \<le> 256"
  shows "blk_table_ok a (add_drive a h dr devs)"
proof (cases "a_sectors a dr = 0")
  case False
  define name where "name = [CHR ''h'', CHR ''d'', ''abcd'' ! (if dr < 4 then dr else 0)]"
  define devs1 where "devs1 = blk_add True dr 0 (a_sectors a dr) name devs"
  have ok1: "blk_table_ok a devs1" unfolding devs1_def by (rule blk_add_ok [OF assms]) (use False in \<open>simp_all add: unat_gt_0\<close>)
  have "blk_table_ok a (fold (add_slot dr (a_sectors a dr) name mbr) [0..<4] devs1)" for mbr
    by (rule fold_keeps [of "blk_table_ok a", OF ok1]) (rule add_slot_ok [OF _ assms(2,3)])
  with ok1 False show ?thesis
    by (auto simp: add_drive_def Let_def name_def [symmetric] devs1_def [symmetric] split: option.splits)
qed (simp add: add_drive_def assms)

lemma blk_init_ok: "a_drive_count a \<le> 256 \<Longrightarrow> blk_table_ok a (blk_init a h)"
  unfolding blk_init_def by (rule fold_keeps [of "blk_table_ok a"]) (simp add: blk_table_ok_def, simp add: add_drive_ok)

section \<open>Properties\<close>

text \<open>A drive that is its contents: the transfers inside it succeed.\<close>

definition mem_ata :: "nat \<Rightarrow> u8 list ata" where
  "mem_ata n = \<lparr>a_drive_count = 1, a_sectors = (\<lambda>_. of_nat n),
     a_read = (\<lambda>_ lba cnt r. if unat lba + unat cnt \<le> n then Some (take (unat cnt * 512) (drop (unat lba * 512) r)) else None),
     a_write = (\<lambda>_ lba bs r. if unat lba * 512 + length bs \<le> n * 512 then (True, overwrite (unat lba * 512) bs r) else (False, r))\<rparr>"

lemma mem_ata_ok: "n < 2 ^ 32 \<Longrightarrow> ata_ok (mem_ata n) dr n (\<lambda>r. length r = n * 512) id"
  by (simp add: ata_ok_def mem_ata_def length_overwrite)

definition demo_parts :: "blkdev list" where
  "demo_parts = [\<lparr>b_whole = True, b_drive = 0, b_lba = 0, b_sectors = 8, b_name = ''hda''\<rparr>,
     \<lparr>b_whole = False, b_drive = 0, b_lba = 1, b_sectors = 3, b_name = ''hda1''\<rparr>,
     \<lparr>b_whole = False, b_drive = 0, b_lba = 4, b_sectors = 4, b_name = ''hda2''\<rparr>]"

text \<open>
  C34. A read from a block device whose drive answers stores the slice of the partition's bytes that the
  request names, clipped at the end of the partition, for every byte offset and length: the split of the
  request into a partial first sector, whole sectors and a partial last sector is not visible.  It returns
  the number of bytes stored as an \<^verbatim>\<open>int\<close>, so that number itself below 2 GiB and the number less
  \<open>2 ^ 32\<close>, which is negative, from 2 GiB on (\<open>as_int\<close>).
\<close>

theorem blk_read_slice:
  assumes "ata_ok a (unat (b_drive d)) n live img" "live h" "on_drive n d"
    and "0 \<le> idx" "idx < int (length devs)" "d = devs ! nat idx"
  shows "\<exists>bs. bs = take (unat len) (drop (unat off) (part_bytes img d h)) \<and>
    blk_read a devs idx off len h = (if length bs < 2 ^ 31 then int (length bs) else int (length bs) - 2 ^ 32, bs)"
  using blk_read_bytes [OF assms, of off len] part_length [OF assms(1-3)] by (simp add: as_int_def min.commute)

theorem blk_read_slice_witness:
  "blk_read (mem_ata 8) demo_parts 1 700 600 (replicate 4096 7) = (600, replicate 600 7)"
  using blk_read_slice [OF mem_ata_ok, of 8 "replicate 4096 7" "demo_parts ! 1" 1 demo_parts 600 700]
  by (simp add: demo_parts_def on_drive_def part_bytes_def)

text \<open>
  C35. A write inside a block device whose drive answers stores the buffer, clipped at the end of the
  partition, at the offset in the partition and returns how much it stored as an \<^verbatim>\<open>int\<close>: the number itself
  below 2 GiB, the number less \<open>2 ^ 32\<close>, which is negative, from 2 GiB on; every device on the same drive that does not overlap the
  partition keeps its bytes.
\<close>

theorem blk_write_slice:
  assumes "ata_ok a (unat (b_drive d)) n live img" "live h" "on_drive n d"
    and "0 \<le> idx" "idx < int (length devs)" "d = devs ! nat idx" "length buf < 2 ^ 32" "unat off < unat (b_sectors d) * 512"
  shows "\<exists>h' bs. bs = take (unat (b_sectors d) * 512 - unat off) buf \<and>
    blk_write a devs idx off buf h = (if length bs < 2 ^ 31 then int (length bs) else int (length bs) - 2 ^ 32, h') \<and> live h' \<and>
    part_bytes img d h' = overwrite (unat off) bs (part_bytes img d h) \<and>
    (\<forall>e. on_drive n e \<and> (unat (b_lba e) + unat (b_sectors e) \<le> unat (b_lba d) \<or> unat (b_lba d) + unat (b_sectors d) \<le> unat (b_lba e)) \<longrightarrow>
       part_bytes img e h' = part_bytes img e h)"
proof -
  let ?s = "unat (b_sectors d)" and ?l = "unat (b_lba d)" and ?bs = "take (unat (b_sectors d) * 512 - unat off) buf"
  obtain h' where w: "blk_write a devs idx off buf h = (as_int (min (length buf) (?s * 512 - unat off)), h')" "live h'"
      "img h' = overwrite (?l * 512 + unat off) ?bs (img h)"
    using blk_write_bytes [OF assms(1-7), of off] assms(8) by auto
  have len: "length (img h) = n * 512" by (rule ata_okD(2) [OF assms(1,2)])
  have fit: "unat off + length ?bs \<le> ?s * 512" "?l * 512 + ?s * 512 \<le> length (img h)" using assms(3,8) len by (auto simp: on_drive_def)
  have "part_bytes img d h' = overwrite (unat off) ?bs (part_bytes img d h)"
    unfolding part_bytes_def w(3) by (rule part_overwrite [OF fit])
  moreover have "part_bytes img e h' = part_bytes img e h"
    if "on_drive n e" "unat (b_lba e) + unat (b_sectors e) \<le> ?l \<or> ?l + ?s \<le> unat (b_lba e)" for e
    unfolding part_bytes_def w(3) by (rule part_apart) (use that fit len in \<open>auto simp: on_drive_def\<close>)
  moreover have "as_int (min (length buf) (?s * 512 - unat off)) =
      (if length ?bs < 2 ^ 31 then int (length ?bs) else int (length ?bs) - 2 ^ 32)" by (simp add: as_int_def)
  ultimately show ?thesis using w(1,2) by (intro exI [of _ h'] exI [of _ ?bs] conjI) auto
qed

theorem blk_write_slice_witness:
  "\<exists>h'. blk_write (mem_ata 8) demo_parts 1 1530 [1, 2, 3, 4, 5, 6, 7, 8] (replicate 4096 0) = (6, h') \<and>
     part_bytes id (demo_parts ! 2) h' = part_bytes id (demo_parts ! 2) (replicate 4096 0)"
  using blk_write_slice [OF mem_ata_ok, of 8 "replicate 4096 0" "demo_parts ! 1" 1 demo_parts "[1, 2, 3, 4, 5, 6, 7, 8]" 1530]
  by (auto simp: demo_parts_def on_drive_def)

text \<open>
  C36. Every device the partition scan registers lies on an existing drive and inside it, holds at least one
  sector and has a terminated name, whatever the partition tables say; at most 12 devices are registered.
\<close>

theorem blk_init_bounds:
  "a_drive_count a \<le> 256 \<Longrightarrow>
     length (blk_init a h) \<le> MAX_DEVICES \<and> (\<forall>d \<in> set (blk_init a h). unat (b_drive d) < a_drive_count a \<and> 0 < unat (b_sectors d) \<and>
       on_drive (unat (a_sectors a (unat (b_drive d)))) d \<and> length (b_name d) < NAME_CAP)"
  using blk_init_ok [of a h] by (auto simp: blk_table_ok_def blk_entry_ok_def list_all_iff on_drive_def)

theorem blk_init_bounds_witness:
  "length (blk_init (mem_ata 8) (replicate 4096 0)) \<le> 12"
  using blk_init_bounds [of "mem_ata 8" "replicate 4096 0"] by (simp add: mem_ata_def MAX_DEVICES_def)

text \<open>
  C37. The sector callbacks that a partition hands to the FAT16 library keep the contract the library
  relies on: every sector of the partition can be read and written, and reads return what was last
  written to that sector.
\<close>

theorem fat16_device_contract:
  assumes "ata_ok a (unat (b_drive d)) n live img" "on_drive n d"
    and "0 \<le> idx" "idx < int (length devs)" "d = devs ! nat idx"
  shows "sector_device (fat16_device a devs idx) (unat (b_sectors d)) live"
  using assms by (rule blk_sector_device)

theorem fat16_device_contract_witness:
  "sector_device (fat16_device (mem_ata 8) demo_parts 2) 4 (\<lambda>r. length r = 8 * 512)"
  using fat16_device_contract [OF mem_ata_ok, of 8 "demo_parts ! 2" 2 demo_parts] by (simp add: demo_parts_def on_drive_def)

end
