(* ===== verification/Tls_Bn.thy ===== *)
theory Tls_Bn
  imports Prelude
begin

text \<open>
  The big integers of the TLS library, \<^verbatim>\<open>vlibc/src/tls/tls_bn.c\<close>: limb arrays in little-endian
  order, the conversions from and to big-endian byte strings, schoolbook multiplication,
  binary reduction, Montgomery multiplication and modular exponentiation.

  A \<^verbatim>\<open>uint32_t*\<close> array is the list of its limbs.  A loop over the limbs of an array is a
  recursion over the list, whose head is the limb at the loop's index; a limb that the source
  finishes with stays in front of the recursive call.  Limb products are formed in 64 bits as
  in the source.  Two loops of the source have no bound of their own: the carry loop of
  \<^verbatim>\<open>bn_mul\<close> stops here at the end of the array, and the value lemma below shows that no carry is
  left there; the shift loop of \<^verbatim>\<open>bn_bitlen\<close> stops here on zero, which \<^verbatim>\<open>bn_used\<close> rules out.
\<close>

section \<open>Arrays of limbs\<close>

definition TLS_RSA_MAX_MODULUS :: nat where "TLS_RSA_MAX_MODULUS = 512"

definition BN_LIMBS :: nat where "BN_LIMBS = (TLS_RSA_MAX_MODULUS + 3) div 4"

definition bn_zero :: "nat \<Rightarrow> u32 list" where "bn_zero n = replicate n 0"

text \<open>The bit offset of byte \<open>i\<close> of \<open>len\<close> big-endian bytes, in unsigned 32-bit arithmetic.\<close>

definition byte_pos :: "nat \<Rightarrow> nat \<Rightarrow> u32" where
  "byte_pos len i = (of_nat len - 1 - of_nat i) * 8"

definition from_byte :: "nat \<Rightarrow> u8 list \<Rightarrow> nat \<Rightarrow> u32 list \<Rightarrow> u32 list" where
  "from_byte n b i a =
     (let pos = byte_pos (length b) i;
          limb = unat (drop_bit 5 pos);
          shift = unat (pos AND 31)
      in if limb < n then a[limb := a ! limb OR push_bit shift (ucast (b ! i))] else a)"

definition bn_from_bytes :: "nat \<Rightarrow> u8 list \<Rightarrow> u32 list" where
  "bn_from_bytes n b = fold (from_byte n b) [0..<length b] (bn_zero n)"

definition bn_to_bytes :: "u32 list \<Rightarrow> nat \<Rightarrow> nat \<Rightarrow> u8 list" where
  "bn_to_bytes a na n =
     map (\<lambda>i. let pos = byte_pos n i;
                  limb = unat (drop_bit 5 pos);
                  shift = unat (pos AND 31)
              in if limb < na then ucast (drop_bit shift (a ! limb)) else 0) [0..<n]"

fun bn_used :: "u32 list \<Rightarrow> nat \<Rightarrow> nat" where
  "bn_used a 0 = 0"
| "bn_used a (Suc n) = (if a ! n = 0 then bn_used a n else Suc n)"

fun bn_cmp :: "u32 list \<Rightarrow> u32 list \<Rightarrow> nat \<Rightarrow> int" where
  "bn_cmp a b 0 = 0"
| "bn_cmp a b (Suc i) =
     (if a ! i \<noteq> b ! i then (if a ! i > b ! i then 1 else -1) else bn_cmp a b i)"

fun sub_loop :: "u32 list \<Rightarrow> u32 list \<Rightarrow> u32 \<Rightarrow> u32 list" where
  "sub_loop (x # a) (y # b) borrow =
     (let ai = ucast x :: u64; sub = ucast y + ucast borrow
      in ucast (ai - sub) # sub_loop a b (if ai < sub then 1 else 0))"
| "sub_loop a b borrow = a"

definition bn_sub :: "u32 list \<Rightarrow> u32 list \<Rightarrow> nat \<Rightarrow> u32 list" where
  "bn_sub a b n = sub_loop (take n a) (take n b) 0 @ drop n a"

lemma top_bit_clear:
  assumes "(v :: u32) AND 0x80000000 = 0"
  shows "unat v < 2 ^ 31"
proof -
  have eq: "(0x80000000 :: u32) = push_bit 31 1" by simp
  have "\<not> bit v 31"
  proof
    assume b: "bit v 31"
    have "bit (v AND 0x80000000) 31"
      unfolding eq bit_and_iff bit_push_bit_iff using b by simp
    with assms show False by simp
  qed
  moreover have "n < 32" if "bit v n" for n
    using bit_imp_le_length [OF that] by simp
  ultimately have "n < 31" if "bit v n" for n
    using that by (cases "n = 31") fastforce+
  then have "take_bit 31 v = v"
    by (intro bit_eqI) (auto simp: bit_take_bit_iff)
  then have "take_bit 31 (unat v) = unat v"
    by (metis unsigned_take_bit_eq)
  then show ?thesis
    by (metis take_bit_nat_less_exp)
qed

lemma unat_shl1:
  assumes "unat (v :: u32) < 2 ^ 31"
  shows "unat (push_bit 1 v) = 2 * unat v"
proof -
  have "(2::nat) ^ 31 = 2147483648" by simp
  with assms show ?thesis
    by (simp add: push_bit_eq_mult unat_word_ariths)
qed

function bitlen_loop :: "u32 \<Rightarrow> nat \<Rightarrow> nat" where
  "bitlen_loop v bits =
     (if v AND 0x80000000 \<noteq> 0 \<or> v = 0 then bits else bitlen_loop (push_bit 1 v) (bits - 1))"
  by pat_completeness auto
termination
proof (relation "measure (\<lambda>(v, bits). 2 ^ 32 - unat v)", simp)
  fix v :: u32 and bits :: nat
  assume v: "\<not> (v AND 0x80000000 \<noteq> 0 \<or> v = 0)"
  then have lt: "unat v < 2 ^ 31" and pos: "0 < unat v"
    using top_bit_clear [of v] by (simp_all add: unat_gt_0)
  show "((push_bit 1 v, bits - 1), v, bits) \<in> measure (\<lambda>(v, bits). 2 ^ 32 - unat v)"
    using lt pos unat_shl1 [OF lt] by simp
qed

declare bitlen_loop.simps [simp del]

definition bn_getbit :: "u32 list \<Rightarrow> nat \<Rightarrow> u32" where
  "bn_getbit a i = drop_bit (i mod 32) (a ! (i div 32)) AND 1"

section \<open>Multiplication\<close>

fun carry_loop :: "u32 list \<Rightarrow> u64 \<Rightarrow> u32 list" where
  "carry_loop [] carry = []"
| "carry_loop (p # ps) carry =
     (if carry = 0 then p # ps
      else let cur = ucast p + carry in ucast cur # carry_loop ps (drop_bit 32 cur))"

fun mul_row :: "u32 \<Rightarrow> u32 list \<Rightarrow> u32 list \<Rightarrow> u64 \<Rightarrow> u32 list" where
  "mul_row ai [] p carry = carry_loop p carry"
| "mul_row ai (b # bs) (p # ps) carry =
     (let cur = ucast ai * ucast b + ucast p + carry
      in ucast cur # mul_row ai bs ps (drop_bit 32 cur))"
| "mul_row ai (b # bs) [] carry = []"

fun mul_rows :: "u32 list \<Rightarrow> u32 list \<Rightarrow> u32 list \<Rightarrow> u32 list" where
  "mul_rows [] b p = p"
| "mul_rows (ai # as) b p =
     (let p = (if ai = 0 then p else mul_row ai b p 0) in hd p # mul_rows as b (tl p))"

definition bn_mul :: "u32 list \<Rightarrow> nat \<Rightarrow> u32 list \<Rightarrow> nat \<Rightarrow> u32 list" where
  "bn_mul a alim b blim = mul_rows (take alim a) (take blim b) (bn_zero (alim + blim + 1))"

section \<open>Reduction\<close>

fun shl_loop :: "u32 list \<Rightarrow> u32 \<Rightarrow> u32 list" where
  "shl_loop [] carry = []"
| "shl_loop (r # rs) carry = (push_bit 1 r OR carry) # shl_loop rs (drop_bit 31 r)"

fun mod_loop :: "nat \<Rightarrow> u32 list \<Rightarrow> u32 list \<Rightarrow> nat \<Rightarrow> u32 list \<Rightarrow> u32 list" where
  "mod_loop 0 x m mlimbs rem = rem"
| "mod_loop (Suc i) x m mlimbs rem =
     (let rem = shl_loop (take (mlimbs + 1) rem) (bn_getbit x i) @ drop (mlimbs + 1) rem;
          rem = (if bn_cmp rem m (mlimbs + 1) \<ge> 0 then bn_sub rem m (mlimbs + 1) else rem)
      in mod_loop i x m mlimbs rem)"

definition bn_bitlen :: "u32 list \<Rightarrow> nat \<Rightarrow> nat" where
  "bn_bitlen a n =
     (let used = bn_used a n
      in if used = 0 then 0 else bitlen_loop (a ! (used - 1)) (used * 32))"

definition bn_mod :: "u32 list \<Rightarrow> nat \<Rightarrow> u32 list \<Rightarrow> nat \<Rightarrow> u32 list" where
  "bn_mod x xlimbs m mlimbs =
     (let bits = bn_bitlen x xlimbs; rem = bn_zero (BN_LIMBS + 1); used = bn_used x xlimbs
      in if used \<le> mlimbs \<and> bn_cmp x m mlimbs < 0
         then take (min used mlimbs) x @ drop (min used mlimbs) rem
         else mod_loop bits x m mlimbs rem)"

section \<open>Montgomery multiplication\<close>

fun mprime_loop :: "nat \<Rightarrow> u32 \<Rightarrow> u32 \<Rightarrow> u32" where
  "mprime_loop 0 m0 x = x"
| "mprime_loop (Suc i) m0 x = mprime_loop i m0 (x * (2 - m0 * x))"

definition bn_mprime :: "u32 \<Rightarrow> u32" where "bn_mprime m0 = 0 - mprime_loop 5 m0 1"

text \<open>One row of the reduction adds \<open>ui * m\<close> to the limbs of \<open>t\<close> from its index on.\<close>

fun red_row :: "u32 \<Rightarrow> u32 list \<Rightarrow> u32 list \<Rightarrow> u64 \<Rightarrow> u32 list" where
  "red_row ui [] t carry = carry_loop t carry"
| "red_row ui (m # ms) (t # ts) carry =
     (let cur = ucast t + ucast ui * ucast m + carry
      in ucast cur # red_row ui ms ts (drop_bit 32 cur))"
| "red_row ui (m # ms) [] carry = []"

fun red_rows :: "nat \<Rightarrow> u32 list \<Rightarrow> u32 \<Rightarrow> u32 list \<Rightarrow> u32 list" where
  "red_rows 0 m nprime t = t"
| "red_rows (Suc k) m nprime t =
     (let t = red_row (hd t * nprime) m t 0 in hd t # red_rows k m nprime (tl t))"

definition bn_mont_mul :: "u32 list \<Rightarrow> u32 list \<Rightarrow> u32 list \<Rightarrow> nat \<Rightarrow> u32 \<Rightarrow> u32 list" where
  "bn_mont_mul a b m n nprime =
     (let t = red_rows n (take n m) nprime (bn_mul a n b n);
          ql = t ! (2 * n);
          t = take n (drop n t)
      in if ql = 1 \<or> bn_cmp t m n \<ge> 0 then bn_sub t m n else t)"

section \<open>Modular exponentiation\<close>

fun pow_loop :: "nat \<Rightarrow> u32 list \<Rightarrow> u32 list \<Rightarrow> u32 list \<Rightarrow> nat \<Rightarrow> u32 \<Rightarrow> u32 list \<Rightarrow> u32 list" where
  "pow_loop 0 e ar m n nprime r = r"
| "pow_loop (Suc bi) e ar m n nprime r =
     (let r = bn_mont_mul r r m n nprime;
          r = (if bn_getbit e bi \<noteq> 0 then bn_mont_mul r ar m n nprime else r)
      in pow_loop bi e ar m n nprime r)"

text \<open>
  The array \<^verbatim>\<open>m\<close> has one limb more than \<^verbatim>\<open>bn_from_bytes\<close> fills; \<open>junk\<close> is what the stack holds
  there.  The result is the list of the bytes written to \<^verbatim>\<open>out\<close>.
\<close>

definition tls_modpow :: "u32 \<Rightarrow> u8 list \<Rightarrow> u8 list \<Rightarrow> u8 list \<Rightarrow> u8 list" where
  "tls_modpow junk base exp modulus =
     (let mod_len = min (length modulus) TLS_RSA_MAX_MODULUS;
          m = bn_from_bytes BN_LIMBS (take mod_len modulus) @ [junk];
          mlimbs = bn_used m BN_LIMBS
      in if mlimbs = 0 \<or> m ! 0 AND 1 = 0 then replicate mod_len 0
         else
           let n = mlimbs;
               nprime = bn_mprime (m ! 0);
               e = bn_from_bytes BN_LIMBS exp;
               elen = bn_bitlen e BN_LIMBS;
               b = bn_from_bytes BN_LIMBS base;
               b = (if bn_cmp b m mlimbs \<ge> 0 then take BN_LIMBS (bn_mod b BN_LIMBS m mlimbs) else b);
               xr = (bn_zero (2 * BN_LIMBS + 2))[2 * n := 1];
               r2 = bn_mod xr (2 * n + 1) m mlimbs;
               ar = bn_mont_mul b r2 m n nprime;
               one = (bn_zero BN_LIMBS)[0 := 1];
               r = bn_mont_mul one r2 m n nprime;
               r = pow_loop elen e ar m n nprime r;
               r = bn_mont_mul r one m n nprime
           in bn_to_bytes r n mod_len)"

section \<open>The value of a limb array\<close>

fun bn_val :: "u32 list \<Rightarrow> nat" where
  "bn_val [] = 0"
| "bn_val (x # xs) = unat x + 2 ^ 32 * bn_val xs"

lemma bn_val_append: "bn_val (a @ b) = bn_val a + 2 ^ (32 * length a) * bn_val b"
  by (induction a) (simp_all add: algebra_simps power_add)

lemma bn_val_less: "bn_val a < 2 ^ (32 * length a)"
proof (induction a)
  case (Cons x a)
  have "unat x < 2 ^ 32" using unsigned_less [of x] by simp
  moreover have "bn_val a + 1 \<le> 2 ^ (32 * length a)" using Cons by simp
  then have "2 ^ 32 * (bn_val a + 1) \<le> 2 ^ 32 * 2 ^ (32 * length a)" by (rule mult_le_mono2)
  ultimately show ?case by (simp add: power_add)
qed simp

lemma bn_val_zeros [simp]: "bn_val (replicate n 0) = 0"
  by (induction n) simp_all

lemma bn_val_split:
  "n \<le> length a \<Longrightarrow> bn_val a = bn_val (take n a) + 2 ^ (32 * n) * bn_val (drop n a)"
  using bn_val_append [of "take n a" "drop n a"] by (simp add: min_absorb2)

lemma bn_val_take_Suc:
  "n < length a \<Longrightarrow> bn_val (take (Suc n) a) = bn_val (take n a) + 2 ^ (32 * n) * unat (a ! n)"
  by (simp add: take_Suc_conv_app_nth bn_val_append min_absorb2)

lemma bn_val_take_less: "n \<le> length a \<Longrightarrow> bn_val (take n a) < 2 ^ (32 * n)"
  using bn_val_less [of "take n a"] by (simp add: min_absorb2)

lemma high_limb_less:
  "x < p \<Longrightarrow> u < v \<Longrightarrow> x + p * u < y + p * (v :: nat)"
proof -
  assume x: "x < p" and "u < v"
  then have "u + 1 \<le> v" by simp
  then have "p * (u + 1) \<le> p * v" by (rule mult_le_mono2)
  with x show ?thesis by simp
qed

lemma bn_cmp_sgn:
  assumes "n \<le> length a" "n \<le> length b"
  shows "bn_cmp a b n = sgn (int (bn_val (take n a)) - int (bn_val (take n b)))"
  using assms
proof (induction n)
  case (Suc n)
  then have IH: "bn_cmp a b n = sgn (int (bn_val (take n a)) - int (bn_val (take n b)))" by simp
  let ?p = "2 ^ (32 * n) :: nat"
  note less = bn_val_take_less [of n a] bn_val_take_less [of n b]
  note val = bn_val_take_Suc [of n a] bn_val_take_Suc [of n b]
  consider "a ! n = b ! n" | "unat (a ! n) < unat (b ! n)" | "unat (b ! n) < unat (a ! n)"
    using nat_neq_iff [of "unat (a ! n)" "unat (b ! n)"] by (auto simp: word_unat_eq_iff)
  then show ?case
  proof cases
    case 1
    then show ?thesis using IH val Suc.prems by simp
  next
    case 2
    have "bn_val (take n a) + ?p * unat (a ! n) < bn_val (take n b) + ?p * unat (b ! n)"
      using less Suc.prems 2 by (intro high_limb_less) simp_all
    then have lt: "bn_val (take (Suc n) a) < bn_val (take (Suc n) b)"
      using val Suc.prems by simp
    have "sgn (int (bn_val (take (Suc n) a)) - int (bn_val (take (Suc n) b))) = -1"
      using lt by (simp add: sgn_if)
    then show ?thesis using 2 by (auto simp: word_less_nat_alt)
  next
    case 3
    have "bn_val (take n b) + ?p * unat (b ! n) < bn_val (take n a) + ?p * unat (a ! n)"
      using less Suc.prems 3 by (intro high_limb_less) simp_all
    then have lt: "bn_val (take (Suc n) b) < bn_val (take (Suc n) a)"
      using val Suc.prems by simp
    have "sgn (int (bn_val (take (Suc n) a)) - int (bn_val (take (Suc n) b))) = 1"
      using lt by (simp add: sgn_if)
    then show ?thesis using 3 by (auto simp: word_less_nat_alt)
  qed
qed simp

lemma bn_cmp_ge_iff:
  "n \<le> length a \<Longrightarrow> n \<le> length b \<Longrightarrow>
     0 \<le> bn_cmp a b n \<longleftrightarrow> bn_val (take n b) \<le> bn_val (take n a)"
  by (auto simp: bn_cmp_sgn sgn_if)

lemma bn_used_le: "bn_used a n \<le> n"
  by (induction n) (auto simp: le_Suc_eq)

lemma bn_used_top: "0 < bn_used a n \<Longrightarrow> a ! (bn_used a n - 1) \<noteq> 0"
  by (induction n) (auto split: if_splits)

lemma bn_used_val: "n \<le> length a \<Longrightarrow> bn_val (take (bn_used a n) a) = bn_val (take n a)"
  by (induction n) (simp_all add: bn_val_take_Suc)

lemma bn_used_high: "bn_used a n \<le> k \<Longrightarrow> k < n \<Longrightarrow> a ! k = 0"
  by (induction n) (auto simp: less_Suc_eq split: if_splits)

lemma bn_used_lower:
  assumes "n \<le> length a" "0 < bn_used a n"
  shows "2 ^ (32 * (bn_used a n - 1)) \<le> bn_val (take n a)"
proof -
  obtain k where k: "bn_used a n = Suc k" using assms(2) gr0_implies_Suc by blast
  have "0 < unat (a ! k)" using bn_used_top [OF assms(2)] k by (simp add: unat_gt_0)
  then have "(2::nat) ^ (32 * k) \<le> 2 ^ (32 * k) * unat (a ! k)" by simp
  moreover have "k < length a" using bn_used_le [of a n] assms(1) k by simp
  ultimately have "2 ^ (32 * k) \<le> bn_val (take (Suc k) a)"
    using bn_val_take_Suc [of k a] by linarith
  then show ?thesis using bn_used_val [OF assms(1)] k by simp
qed

section \<open>Subtraction and multiplication\<close>

lemma length_sub_loop [simp]: "length (sub_loop a b c) = length a"
  by (induction a b c rule: sub_loop.induct) (simp_all add: Let_def)

lemma limb_sub:
  fixes x y :: u32
  assumes "unat c \<le> (1 :: nat)"
  shows "unat (ucast (ucast x - (ucast y + ucast (c :: u32)) :: u64) :: u32) + unat y + unat c =
    unat x + (if (ucast x :: u64) < ucast y + ucast c then 2 ^ 32 else 0)"
proof -
  have b: "unat x < 4294967296" "unat y < 4294967296"
    using unsigned_less [of x] unsigned_less [of y] by simp_all
  have s: "unat (ucast y + ucast c :: u64) = unat y + unat c"
    using b assms by (simp add: unat_word_ariths unat_ucast_up)
  have lt: "(ucast x :: u64) < ucast y + ucast c \<longleftrightarrow> unat x < unat y + unat c"
    by (simp add: word_less_nat_alt s unat_ucast_up)
  have d: "unat (ucast x - (ucast y + ucast c) :: u64) =
      (if unat y + unat c \<le> unat x then unat x - (unat y + unat c)
       else unat x + 2 ^ 64 - (unat y + unat c))"
    using b assms
    by (simp add: unat_sub_if' s unat_ucast_up)
  show ?thesis
  proof (cases "unat y + unat c \<le> unat x")
    case True
    then have "unat (ucast (ucast x - (ucast y + ucast c) :: u64) :: u32) = unat x - (unat y + unat c)"
      using b by (simp add: unsigned_ucast_eq take_bit_eq_mod d)
    with True show ?thesis unfolding lt by simp
  next
    case False
    then have "unat x + 2 ^ 64 - (unat y + unat c) =
        (unat x + 2 ^ 32 - (unat y + unat c)) + 4294967295 * 2 ^ 32"
      using b assms by simp
    then have "(unat x + 2 ^ 64 - (unat y + unat c)) mod 2 ^ 32 = unat x + 2 ^ 32 - (unat y + unat c)"
      using False by (simp only: mod_mult_self1) simp
    with False have "unat (ucast (ucast x - (ucast y + ucast c) :: u64) :: u32) =
        unat x + 2 ^ 32 - (unat y + unat c)"
      by (simp add: unsigned_ucast_eq take_bit_eq_mod d)
    with False b assms show ?thesis unfolding lt by simp
  qed
qed

lemma sub_loop_val:
  assumes "length a = length b" "unat c \<le> 1"
  shows "\<exists>k \<le> 1. bn_val (sub_loop a b c) + bn_val b + unat c =
    bn_val a + k * 2 ^ (32 * length a)"
  using assms
proof (induction a b arbitrary: c rule: list_induct2)
  case (Cons x a y b)
  define c' :: u32 where "c' = (if (ucast x :: u64) < ucast y + ucast c then 1 else 0)"
  have c': "unat c' \<le> 1" by (simp add: c'_def)
  obtain k where k: "k \<le> 1" "bn_val (sub_loop a b c') + bn_val b + unat c' =
      bn_val a + k * 2 ^ (32 * length a)"
    using Cons.IH [OF c'] by blast
  have l: "unat (ucast (ucast x - (ucast y + ucast c) :: u64) :: u32) + unat y + unat c =
    unat x + 2 ^ 32 * unat c'"
    using limb_sub [OF Cons.prems, of x y] by (simp add: c'_def)
  have "sub_loop (x # a) (y # b) c =
      ucast (ucast x - (ucast y + ucast c) :: u64) # sub_loop a b c'"
    by (simp add: Let_def c'_def)
  then have "bn_val (sub_loop (x # a) (y # b) c) + bn_val (y # b) + unat c =
      unat x + 2 ^ 32 * (bn_val (sub_loop a b c') + bn_val b + unat c')"
    using l by simp
  also have "\<dots> = bn_val (x # a) + k * (2 ^ 32 * 2 ^ (32 * length a))"
    unfolding k(2) by simp
  finally show ?case using k(1) by (intro exI [of _ k]) (simp add: power_add)
qed simp

lemma unat_shr: "unat (drop_bit k (w :: 'a::len word)) = unat w div 2 ^ k"
  unfolding unat_drop_bit_eq by (rule drop_bit_eq_div)

lemma limb_less: "unat (x :: u32) < 4294967296"
proof -
  have "unat x < 2 ^ LENGTH(32)" by (rule unsigned_less)
  then show ?thesis by simp
qed

lemma low_high_limb: "unat (ucast (cur :: u64) :: u32) + 2 ^ 32 * unat (drop_bit 32 cur) = unat cur"
proof -
  have "unat (ucast cur :: u32) = unat cur mod 2 ^ 32"
    by (simp add: unsigned_ucast_eq take_bit_eq_mod)
  moreover have "unat (drop_bit 32 cur) = unat cur div 2 ^ 32"
    by (rule unat_shr)
  ultimately show ?thesis by simp
qed

lemma mod_high: "x < p \<Longrightarrow> x + p * (y mod q) = (x + p * y) mod (p * (q :: nat))"
  by (simp add: mod_mult2_eq)

text \<open>
  One limb of a carrying loop: the low half of the sum stays, the high half is the carry into
  the rest, whose value the loop keeps modulo its own size.
\<close>

lemma carry_step:
  assumes "bn_val rest = (r + unat (drop_bit 32 cur)) mod 2 ^ (32 * k)"
    and "unat (cur :: u64) = s"
  shows "bn_val (ucast cur # rest) = (s + 2 ^ 32 * r) mod 2 ^ (32 * Suc k)"
proof -
  let ?lo = "unat (ucast cur :: u32)" and ?hi = "unat (drop_bit 32 cur)"
  have lt: "?lo < 2 ^ 32" using unsigned_less [of "ucast cur :: u32"] by simp
  have "bn_val (ucast cur # rest) = ?lo + 2 ^ 32 * ((r + ?hi) mod 2 ^ (32 * k))"
    by (simp add: assms(1))
  also have "\<dots> = (?lo + 2 ^ 32 * (r + ?hi)) mod (2 ^ 32 * 2 ^ (32 * k))"
    by (rule mod_high [OF lt])
  also have "?lo + 2 ^ 32 * (r + ?hi) = s + 2 ^ 32 * r"
    using low_high_limb [of cur] assms(2) by simp
  finally show ?thesis by (simp add: power_add)
qed

lemma high_half_less: "unat (drop_bit 32 (cur :: u64)) < 2 ^ 32"
proof -
  have "unat cur < 2 ^ LENGTH(64)" by (rule unsigned_less)
  then have "unat cur < 2 ^ 32 * 2 ^ 32" by simp
  then show ?thesis unfolding unat_shr by (rule less_mult_imp_div_less)
qed

lemma length_carry_loop [simp]: "length (carry_loop p c) = length p"
  by (induction p c rule: carry_loop.induct) (simp_all add: Let_def)

lemma carry_loop_val:
  "unat c < 2 ^ 32 \<Longrightarrow> bn_val (carry_loop p c) = (bn_val p + unat c) mod 2 ^ (32 * length p)"
proof (induction p arbitrary: c)
  case (Cons p ps)
  show ?case
  proof (cases "c = 0")
    case True
    then show ?thesis using bn_val_less [of "p # ps"] by simp
  next
    case False
    define cur :: u64 where "cur = ucast p + c"
    have cur: "unat cur = unat p + unat c"
      using Cons.prems limb_less [of p]
      by (simp add: cur_def unat_word_ariths unat_ucast_up)
    have "bn_val (carry_loop ps (drop_bit 32 cur)) =
        (bn_val ps + unat (drop_bit 32 cur)) mod 2 ^ (32 * length ps)"
      by (rule Cons.IH [OF high_half_less])
    from carry_step [OF this cur] show ?thesis
      using False by (simp add: cur_def Let_def add.assoc add.commute add.left_commute)
  qed
qed simp

lemma limb_product:
  assumes "unat c < 2 ^ 32"
  shows "unat (ucast (a :: u32) * ucast (b :: u32) + ucast (p :: u32) + c :: u64) =
    unat a * unat b + unat p + unat c"
proof -
  have a: "unat a \<le> 4294967295" and b: "unat b \<le> 4294967295" and p: "unat p \<le> 4294967295"
    using limb_less [of a] limb_less [of b] limb_less [of p] by simp_all
  have "unat a * unat b \<le> 4294967295 * 4294967295" by (rule mult_le_mono [OF a b])
  with a b p assms show ?thesis by (simp add: unat_word_ariths unat_ucast_up)
qed

lemma length_mul_row [simp]: "length (mul_row a b p c) = length p"
  by (induction a b p c rule: mul_row.induct) (simp_all add: Let_def)

lemma mul_row_val:
  assumes "length b \<le> length p" "unat c < 2 ^ 32"
  shows "bn_val (mul_row a b p c) = (bn_val p + unat a * bn_val b + unat c) mod 2 ^ (32 * length p)"
  using assms
proof (induction b arbitrary: p c)
  case (Cons b bs)
  then obtain q ps where p: "p = q # ps" by (cases p) auto
  define cur :: u64 where "cur = ucast a * ucast b + ucast q + c"
  have "bn_val (mul_row a bs ps (drop_bit 32 cur)) =
      (bn_val ps + unat a * bn_val bs + unat (drop_bit 32 cur)) mod 2 ^ (32 * length ps)"
    using Cons.prems(1) p by (intro Cons.IH high_half_less) simp
  from carry_step [OF this cur_def [THEN arg_cong [of _ _ unat], unfolded limb_product [OF Cons.prems(2)]]]
  show ?case by (simp add: p cur_def Let_def algebra_simps)
qed (simp add: carry_loop_val)

lemma mod_add_high:
  "(t mod (p * q) + p * s) mod (p * q) = (t + p * s) mod (p * (q :: nat))"
  by (rule mod_add_left_eq)

lemma length_mul_rows [simp]:
  "length a \<le> length p \<Longrightarrow> length (mul_rows a b p) = length p"
proof (induction a arbitrary: p)
  case (Cons x a)
  then show ?case by (auto simp: Let_def)
qed simp

lemma mul_rows_val:
  "length a + length b \<le> length p \<Longrightarrow>
     bn_val (mul_rows a b p) = (bn_val p + bn_val a * bn_val b) mod 2 ^ (32 * length p)"
proof (induction a arbitrary: p)
  case Nil
  then show ?case using bn_val_less [of p] by simp
next
  case (Cons x a)
  define q where "q = (if x = 0 then p else mul_row x b p 0)"
  have len: "length q = length p" by (simp add: q_def)
  have qv: "bn_val q = (bn_val p + unat x * bn_val b) mod 2 ^ (32 * length p)"
    using Cons.prems bn_val_less [of p] by (simp add: q_def mul_row_val)
  obtain h t where q: "q = h # t" using len Cons.prems by (cases q) auto
  then have lp: "length p = Suc (length t)" using len by simp
  let ?P = "2 ^ 32 * 2 ^ (32 * length t) :: nat"
  have P: "2 ^ (32 * length p) = ?P" by (simp add: lp power_add)
  have h: "unat h < 2 ^ 32" using unsigned_less [of h] by simp
  have IH: "bn_val (mul_rows a b t) = (bn_val t + bn_val a * bn_val b) mod 2 ^ (32 * length t)"
    using Cons.prems lp by (intro Cons.IH) simp
  have "bn_val (mul_rows (x # a) b p) = unat h + 2 ^ 32 * bn_val (mul_rows a b t)"
    by (simp add: q_def [symmetric] q)
  also have "\<dots> = (unat h + 2 ^ 32 * (bn_val t + bn_val a * bn_val b)) mod ?P"
    unfolding IH by (rule mod_high [OF h])
  also have "unat h + 2 ^ 32 * (bn_val t + bn_val a * bn_val b) =
      bn_val q + 2 ^ 32 * (bn_val a * bn_val b)"
    by (simp add: q)
  also have "\<dots> mod ?P = (bn_val p + unat x * bn_val b + 2 ^ 32 * (bn_val a * bn_val b)) mod ?P"
    unfolding qv P by (rule mod_add_high)
  finally show ?case unfolding P by (simp add: algebra_simps)
qed

lemma bn_mul_val:
  assumes "n \<le> length a" "k \<le> length b"
  shows "bn_val (bn_mul a n b k) = bn_val (take n a) * bn_val (take k b)"
    and "length (bn_mul a n b k) = n + k + 1"
proof -
  have "bn_val (take n a) * bn_val (take k b) < 2 ^ (32 * n) * 2 ^ (32 * k)"
    using bn_val_take_less [OF assms(1)] bn_val_take_less [OF assms(2)]
    by (intro mult_strict_mono) simp_all
  also have "\<dots> \<le> 2 ^ (32 * (n + k + 1))"
    unfolding power_add [symmetric] by (intro power_increasing) simp_all
  finally show "bn_val (bn_mul a n b k) = bn_val (take n a) * bn_val (take k b)"
    using assms by (simp add: bn_mul_def bn_zero_def mul_rows_val)
  show "length (bn_mul a n b k) = n + k + 1"
    using assms by (simp add: bn_mul_def bn_zero_def)
qed

lemma length_bn_sub [simp]: "length (bn_sub a b n) = length a"
  by (simp add: bn_sub_def)

lemma bn_sub_val:
  assumes "n \<le> length a" "n \<le> length b" "bn_val (take n b) \<le> bn_val (take n a) + h * 2 ^ (32 * n)"
    and "bn_val (take n a) + h * 2 ^ (32 * n) < bn_val (take n b) + 2 ^ (32 * n)"
  shows "bn_val (take n (bn_sub a b n)) = bn_val (take n a) + h * 2 ^ (32 * n) - bn_val (take n b)"
proof -
  obtain k where k: "k \<le> 1" "bn_val (sub_loop (take n a) (take n b) 0) + bn_val (take n b) =
      bn_val (take n a) + k * 2 ^ (32 * n)"
    using sub_loop_val [of "take n a" "take n b" 0] assms(1,2) by auto
  have less: "bn_val (sub_loop (take n a) (take n b) 0) < 2 ^ (32 * n)"
    using bn_val_less [of "sub_loop (take n a) (take n b) 0"] assms(1) by simp
  have t: "take n (bn_sub a b n) = sub_loop (take n a) (take n b) 0"
    using assms(1) by (simp add: bn_sub_def)
  have "k = h"
  proof (rule ccontr)
    assume "k \<noteq> h"
    then consider "k + 1 \<le> h" | "h + 1 \<le> k" by linarith
    then show False
    proof cases
      case 1
      then have "(k + 1) * 2 ^ (32 * n) \<le> h * 2 ^ (32 * n)" by (rule mult_le_mono1)
      with k(2) assms(4) less show False by simp
    next
      case 2
      then have "(h + 1) * 2 ^ (32 * n) \<le> k * 2 ^ (32 * n)" by (rule mult_le_mono1)
      with k(2) assms(3) less show False by simp
    qed
  qed
  with k(2) t show ?thesis by simp
qed

lemma length_shl_loop [simp]: "length (shl_loop r c) = length r"
  by (induction r c rule: shl_loop.induct) simp_all

section \<open>Reduction\<close>

lemma shl_limb:
  assumes "unat c \<le> (1 :: nat)"
  shows "unat (push_bit 1 r OR c :: u32) + 2 ^ 32 * unat (drop_bit 31 r) = 2 * unat r + unat c"
proof -
  have c: "c = 0 \<or> c = 1"
  proof -
    have "unat c = unat (0 :: u32) \<or> unat c = unat (1 :: u32)" using assms by auto
    then show ?thesis by (simp only: word_unat_eq_iff)
  qed
  then have or: "push_bit 1 r OR c = push_bit 1 r + c"
    by (intro disjunctive_add [symmetric]) (auto simp: bit_push_bit_iff bit_1_iff bit_0)
  have sh: "unat (push_bit 1 r) = 2 * unat r mod 2 ^ 32"
    by (simp add: push_bit_eq_mult unat_word_ariths mult.commute)
  have "even (2 * unat r mod 2 ^ 32)" by (intro dvd_mod) simp_all
  then obtain q where q: "2 * unat r mod 2 ^ 32 = 2 * q" by (rule evenE)
  have "2 * unat r mod 2 ^ 32 < 2 ^ 32" by simp
  then have "2 * unat r mod 2 ^ 32 + unat c < 2 ^ 32" unfolding q using assms by simp
  then have lo: "unat (push_bit 1 r + c) = 2 * unat r mod 2 ^ 32 + unat c"
    by (simp only: unat_word_ariths sh) simp
  have hi: "unat (drop_bit 31 r) = 2 * unat r div 2 ^ 32"
    unfolding unat_shr by simp
  show ?thesis
    unfolding or lo hi using mod_mult_div_eq [of "2 * unat r" "2 ^ 32"] by linarith
qed

lemma shl_loop_val:
  "unat c \<le> 1 \<Longrightarrow> bn_val (shl_loop r c) = (2 * bn_val r + unat c) mod 2 ^ (32 * length r)"
proof (induction r arbitrary: c)
  case (Cons r rs)
  have "unat r < 2 ^ 31 * 2" using limb_less [of r] by simp
  then have d: "unat (drop_bit 31 r) \<le> 1"
    unfolding unat_shr by (metis less_2_cases_iff less_mult_imp_div_less linorder_le_less_linear mult.commute not_less_eq_eq One_nat_def numeral_2_eq_2 less_Suc_eq_le)
  let ?h = "unat (push_bit 1 r OR c)"
  have h: "?h < 2 ^ 32" using limb_less [of "push_bit 1 r OR c"] by simp
  have "bn_val (shl_loop (r # rs) c) = ?h + 2 ^ 32 * ((2 * bn_val rs + unat (drop_bit 31 r)) mod 2 ^ (32 * length rs))"
    by (simp add: Cons.IH [OF d])
  also have "\<dots> = (?h + 2 ^ 32 * (2 * bn_val rs + unat (drop_bit 31 r))) mod (2 ^ 32 * 2 ^ (32 * length rs))"
    by (rule mod_high [OF h])
  also have "?h + 2 ^ 32 * (2 * bn_val rs + unat (drop_bit 31 r)) = 2 * bn_val (r # rs) + unat c"
    using shl_limb [OF Cons.prems, of r] by (simp add: algebra_simps)
  finally show ?case by (simp add: power_add)
qed simp

lemma bit_add_high:
  assumes "x < 2 ^ n"
  shows "bit (x + 2 ^ n * y) k \<longleftrightarrow> (if k < n then bit x k else bit (y :: nat) (k - n))"
proof -
  have "push_bit n y + x = push_bit n y OR x"
    using assms
    by (intro disjunctive_add_eq_or bit_eqI) (auto simp: bit_and_iff bit_push_bit_iff dest: bit_small_nat)
  moreover have "x + 2 ^ n * y = push_bit n y + x" by (simp add: push_bit_eq_mult)
  ultimately show ?thesis
    using assms by (auto simp: bit_or_iff bit_push_bit_iff dest: bit_small_nat)
qed

lemma bn_val_bit:
  "bit (bn_val a) k \<longleftrightarrow> k < 32 * length a \<and> bit (a ! (k div 32)) (k mod 32)"
proof (induction a arbitrary: k)
  case (Cons x a)
  have x: "unat x < 2 ^ 32" using limb_less [of x] by simp
  show ?case
  proof (cases "k < 32")
    case True
    then show ?thesis
      using bit_add_high [OF x, of "bn_val a" k] by (simp add: bit_unsigned_iff)
  next
    case False
    then obtain j where k: "k = j + 32" by (metis add.commute le_Suc_ex linorder_not_less)
    have "(j + 32) div 32 = Suc (j div 32)" by simp
    then show ?thesis
      using bit_add_high [OF x, of "bn_val a" k] by (simp add: k Cons.IH)
  qed
qed simp

lemma getbit_val:
  assumes "k < 32 * length a"
  shows "unat (bn_getbit a k) = bn_val a div 2 ^ k mod 2"
proof -
  have "unat (bn_getbit a k) = of_bool (bit (a ! (k div 32)) (k mod 32))"
    by (simp add: bn_getbit_def and_one_eq mod_2_eq_odd bit_iff_odd_drop_bit)
  also have "\<dots> = of_bool (bit (bn_val a) k)"
    using assms by (simp add: bn_val_bit)
  also have "\<dots> = bn_val a div 2 ^ k mod 2"
    by (simp add: bit_iff_odd mod_2_eq_odd)
  finally show ?thesis .
qed

lemma mod_shift_in:
  assumes "r = y mod M" "0 < (M :: nat)" "c < 2" "y' = 2 * y + c"
  shows "(if M \<le> 2 * r + c then 2 * r + c - M else 2 * r + c) = y' mod M"
proof -
  have "2 * r + c < 2 * M" using mod_less_divisor [OF assms(2), of y] assms(1,3) by simp
  then have "(2 * r + c) mod M = (if M \<le> 2 * r + c then 2 * r + c - M else 2 * r + c)"
    by (simp add: le_mod_geq)
  moreover have "(2 * r + c) mod M = (2 * y + c) mod M"
    unfolding assms(1) by (metis mod_add_left_eq mod_mult_right_eq)
  ultimately show ?thesis by (simp add: assms(4))
qed

text \<open>\<^verbatim>\<open>bn_bitlen\<close> bounds the value; the reduction and exponent loops start there.\<close>

lemma bitlen_loop_bound:
  "v \<noteq> 0 \<Longrightarrow> bitlen_loop v bits \<le> bits \<and> unat v * 2 ^ (bits - bitlen_loop v bits) < 2 ^ 32"
proof (induction v bits rule: bitlen_loop.induct)
  case (1 v bits)
  show ?case
  proof (cases "v AND 0x80000000 = 0")
    case False
    then show ?thesis using limb_less [of v] by (simp add: bitlen_loop.simps [of v])
  next
    case True
    let ?r = "bitlen_loop (push_bit 1 v) (bits - 1)"
    have eq: "bitlen_loop v bits = ?r" using True 1(2) by (simp add: bitlen_loop.simps [of v])
    have dbl: "unat (push_bit 1 v) = 2 * unat v" by (rule unat_shl1 [OF top_bit_clear [OF True]])
    then have nz: "push_bit 1 v \<noteq> 0" using 1(2) by (metis mult_is_0 unat_eq_zero zero_neq_numeral)
    have IH: "?r \<le> bits - 1" "2 * unat v * 2 ^ (bits - 1 - ?r) < 2 ^ 32"
      using 1(1) [OF _ nz] True 1(2) unfolding dbl by blast+
    show ?thesis
    proof (cases bits)
      case 0
      then show ?thesis unfolding eq using IH(1) limb_less [of v] by simp
    next
      case (Suc b)
      then have "bits - ?r = Suc (bits - 1 - ?r)" using IH(1) by simp
      then have "unat v * 2 ^ (bits - ?r) = 2 * unat v * 2 ^ (bits - 1 - ?r)" by simp
      then have "unat v * 2 ^ (bits - ?r) < 2 ^ 32" using IH(2) by (simp only:)
      with IH(1) show ?thesis unfolding eq by linarith
    qed
  qed
qed

lemma bn_bitlen_bound:
  assumes "n \<le> length a"
  shows "bn_val (take n a) < 2 ^ bn_bitlen a n" "bn_bitlen a n \<le> 32 * n"
proof -
  have "bn_val (take n a) < 2 ^ bn_bitlen a n \<and> bn_bitlen a n \<le> 32 * n"
  proof (cases "bn_used a n")
    case 0
    then show ?thesis using bn_used_val [OF assms] by (simp add: bn_bitlen_def)
  next
    case (Suc u)
    define v where "v = a ! u"
    define r where "r = bn_bitlen a n"
    have r: "r = bitlen_loop v (32 * Suc u)"
      by (simp add: r_def bn_bitlen_def Suc v_def mult.commute)
    have nz: "v \<noteq> 0" using bn_used_top [of a n] Suc by (simp add: v_def)
    have ul: "Suc u \<le> n" using bn_used_le [of a n] Suc by simp
    have le: "r \<le> 32 * Suc u" and lt: "unat v * 2 ^ (32 * Suc u - r) < 2 ^ 32"
      using bitlen_loop_bound [OF nz, of "32 * Suc u"] unfolding r by simp_all
    let ?d = "32 * Suc u - r"
    have "1 \<le> unat v" using nz by (simp add: Suc_le_eq unat_gt_0)
    then have "(2::nat) ^ ?d \<le> unat v * 2 ^ ?d" by simp
    with lt have "(2::nat) ^ ?d < 2 ^ 32" by linarith
    then have d: "?d < 32" by (rule power_less_imp_less_exp [rotated]) simp
    have "unat v < 2 ^ (32 - ?d)"
    proof (rule ccontr)
      assume "\<not> unat v < 2 ^ (32 - ?d)"
      then have "2 ^ (32 - ?d) * 2 ^ ?d \<le> unat v * 2 ^ ?d" by simp
      then show False using lt d by (simp add: power_add [symmetric])
    qed
    then have "unat v + 1 \<le> 2 ^ (32 - ?d)" by simp
    then have "2 ^ (32 * u) * (unat v + 1) \<le> 2 ^ (32 * u) * 2 ^ (32 - ?d)" by (rule mult_le_mono2)
    also have "\<dots> = (2::nat) ^ r" using le d by (simp add: power_add [symmetric])
    finally have "bn_val (take (Suc u) a) < 2 ^ r"
      using bn_val_take_less [of u a] bn_val_take_Suc [of u a] ul assms by (simp add: v_def)
    then show ?thesis
      using bn_used_val [OF assms] Suc le ul unfolding r_def [symmetric] by simp
  qed
  then show "bn_val (take n a) < 2 ^ bn_bitlen a n" "bn_bitlen a n \<le> 32 * n" by simp_all
qed

text \<open>
  The reduction loop brings the bits of \<open>x\<close> into \<open>rem\<close> from the top and keeps it reduced modulo
  the \<open>mlimbs + 1\<close> limbs of \<open>m\<close>: the limb above the modulus counts.
\<close>

lemma mod_loop_step:
  assumes "k \<le> length rem" "k \<le> length m" "i < 32 * length x"
    and M: "M = bn_val (take k m)" "0 < M" "2 * M \<le> 2 ^ (32 * k)"
    and r: "bn_val (take k rem) = y mod M"
    and y: "y' = 2 * y + bn_val x div 2 ^ i mod 2"
    and rem1: "rem1 = shl_loop (take k rem) (bn_getbit x i) @ drop k rem"
    and rem2: "rem2 = (if bn_cmp rem1 m k \<ge> 0 then bn_sub rem1 m k else rem1)"
  shows "bn_val (take k rem2) = y' mod M"
    and "drop k rem2 = drop k rem" and "length rem2 = length rem"
proof -
  let ?c = "bn_val x div 2 ^ i mod 2"
  have c: "unat (bn_getbit x i) = ?c" by (rule getbit_val [OF assms(3)])
  have len: "length rem1 = length rem" using assms(1) by (simp add: rem1)
  have "2 * (y mod M) + ?c < 2 * M"
    using mod_less_divisor [OF M(2), of y] by simp
  then have lt: "2 * (y mod M) + ?c < 2 ^ (32 * k)" "2 * (y mod M) + ?c < M + 2 ^ (32 * k)"
    using M(3) by simp_all
  have v1: "bn_val (take k rem1) = 2 * (y mod M) + ?c"
    using assms(1) lt(1) by (simp add: rem1 shl_loop_val c r)
  have ge: "bn_cmp rem1 m k \<ge> 0 \<longleftrightarrow> M \<le> 2 * (y mod M) + ?c"
    using assms(1,2) len by (simp add: bn_cmp_ge_iff v1 M(1))
  have "bn_val (take k (bn_sub rem1 m k)) = 2 * (y mod M) + ?c - M" if "M \<le> 2 * (y mod M) + ?c"
    using bn_sub_val [of k rem1 m 0] that assms(1,2) lt(2) len by (simp add: v1 M(1) [symmetric])
  then have "bn_val (take k rem2) =
      (if M \<le> 2 * (y mod M) + ?c then 2 * (y mod M) + ?c - M else 2 * (y mod M) + ?c)"
    unfolding rem2 ge using v1 by simp
  also have "\<dots> = y' mod M"
    by (rule mod_shift_in [OF refl M(2) _ y]) simp
  finally show "bn_val (take k rem2) = y' mod M" .
  have "drop k rem1 = drop k rem" using assms(1) by (simp add: rem1)
  then show "drop k rem2 = drop k rem" using len assms(1) by (simp add: rem2 bn_sub_def)
  show "length rem2 = length rem" by (simp add: rem2 len)
qed

lemma mod_loop_val:
  assumes "mlimbs + 1 \<le> length rem" "mlimbs + 1 \<le> length m" "i \<le> 32 * length x"
    and M: "M = bn_val (take (mlimbs + 1) m)" "0 < M" "2 * M \<le> 2 ^ (32 * (mlimbs + 1))"
    and r: "bn_val (take (mlimbs + 1) rem) = (bn_val x div 2 ^ i) mod M"
  shows "bn_val (take (mlimbs + 1) (mod_loop i x m mlimbs rem)) = bn_val x mod M \<and>
    drop (mlimbs + 1) (mod_loop i x m mlimbs rem) = drop (mlimbs + 1) rem \<and>
    length (mod_loop i x m mlimbs rem) = length rem"
  using assms(1,3) r
proof (induction i arbitrary: rem)
  case (Suc i)
  have y: "bn_val x div 2 ^ i = 2 * (bn_val x div 2 ^ Suc i) + bn_val x div 2 ^ i mod 2"
    by (simp only: power_Suc2 div_mult2_eq mult_div_mod_eq)
  define rem1 where "rem1 = shl_loop (take (mlimbs + 1) rem) (bn_getbit x i) @ drop (mlimbs + 1) rem"
  define rem2 where
    "rem2 = (if bn_cmp rem1 m (mlimbs + 1) \<ge> 0 then bn_sub rem1 m (mlimbs + 1) else rem1)"
  have i: "i < 32 * length x" using Suc.prems(2) by simp
  note step = mod_loop_step [OF Suc.prems(1) assms(2) i M Suc.prems(3) y rem1_def rem2_def]
  have "mod_loop (Suc i) x m mlimbs rem = mod_loop i x m mlimbs rem2"
    by (simp only: mod_loop.simps Let_def rem1_def rem2_def)
  then show ?case
    using Suc.IH [of rem2] Suc.prems(1) i step by simp
qed simp

lemma bn_val_take_small:
  assumes "bn_val a < 2 ^ (32 * n)" "n \<le> length a"
  shows "bn_val (take n a) = bn_val a" "bn_val (drop n a) = 0"
proof -
  have eq: "bn_val a = bn_val (take n a) + 2 ^ (32 * n) * bn_val (drop n a)"
    by (rule bn_val_split [OF assms(2)])
  show z: "bn_val (drop n a) = 0"
  proof (rule ccontr)
    assume "bn_val (drop n a) \<noteq> 0"
    then have "2 ^ (32 * n) * 1 \<le> 2 ^ (32 * n) * bn_val (drop n a)" by (intro mult_le_mono2) simp
    with eq assms(1) show False by simp
  qed
  show "bn_val (take n a) = bn_val a" using eq z by simp
qed

lemma bn_mod_val:
  assumes "bn_val (take xlimbs x) = bn_val x" "xlimbs \<le> length x"
    and "mlimbs \<le> BN_LIMBS" "mlimbs + 1 \<le> length m" "mlimbs \<le> length x"
    and M: "M = bn_val (take (mlimbs + 1) m)" "0 < M" "2 * M \<le> 2 ^ (32 * (mlimbs + 1))"
  shows "bn_val (bn_mod x xlimbs m mlimbs) = bn_val x mod M"
    and "length (bn_mod x xlimbs m mlimbs) = BN_LIMBS + 1"
proof -
  let ?u = "bn_used x xlimbs" and ?z = "replicate (BN_LIMBS + 1) (0 :: u32)"
  have ux: "bn_val (take ?u x) = bn_val x" "?u \<le> length x"
    using bn_used_val [OF assms(2)] bn_used_le [of x xlimbs] assms(1,2) by simp_all
  have "bn_val (bn_mod x xlimbs m mlimbs) = bn_val x mod M \<and>
      length (bn_mod x xlimbs m mlimbs) = BN_LIMBS + 1"
  proof (cases "?u \<le> mlimbs \<and> bn_cmp x m mlimbs < 0")
    case True
    have "bn_val (take mlimbs x) < bn_val (take mlimbs m)"
      using True bn_cmp_ge_iff [of mlimbs x m] assms(4,5) by auto
    moreover have "bn_val (take mlimbs m) \<le> M"
      using bn_val_take_Suc [of mlimbs m] assms(4) M(1) by simp
    moreover have "bn_val (take mlimbs x) = bn_val x"
      using bn_val_less [of "take ?u x"] ux True assms(5)
      by (intro bn_val_take_small) (auto simp: min_absorb2 intro: order_less_le_trans)
    ultimately have "bn_val x < M" by simp
    moreover have "bn_mod x xlimbs m mlimbs = take ?u x @ replicate (BN_LIMBS + 1 - ?u) 0"
      using True by (simp add: bn_mod_def bn_zero_def Let_def min_absorb1 del: replicate_Suc)
    ultimately show ?thesis using ux True assms(3) by (simp add: bn_val_append)
  next
    case False
    let ?i = "bn_bitlen x xlimbs"
    have i: "bn_val x < 2 ^ ?i" "?i \<le> 32 * length x"
      using bn_bitlen_bound [OF assms(2)] assms(1,2) by simp_all
    have "bn_val (take (mlimbs + 1) ?z) = bn_val x div 2 ^ ?i mod M"
      using i(1) by simp
    with mod_loop_val [of mlimbs ?z m ?i x, OF _ assms(4) i(2) M]
    have L: "bn_val (take (mlimbs + 1) (mod_loop ?i x m mlimbs ?z)) = bn_val x mod M"
      "drop (mlimbs + 1) (mod_loop ?i x m mlimbs ?z) = drop (mlimbs + 1) ?z"
      "length (mod_loop ?i x m mlimbs ?z) = BN_LIMBS + 1"
      using assms(3) by simp_all
    have "bn_val (mod_loop ?i x m mlimbs ?z) = bn_val x mod M"
      using bn_val_split [of "mlimbs + 1" "mod_loop ?i x m mlimbs ?z"] L assms(3)
      by simp
    moreover have "bn_mod x xlimbs m mlimbs = mod_loop ?i x m mlimbs ?z"
      using False unfolding bn_mod_def bn_zero_def Let_def by (rule if_not_P)
    ultimately show ?thesis using L(3) by simp
  qed
  then show "bn_val (bn_mod x xlimbs m mlimbs) = bn_val x mod M"
    "length (bn_mod x xlimbs m mlimbs) = BN_LIMBS + 1" by simp_all
qed

section \<open>Montgomery multiplication\<close>

text \<open>Each Newton round squares the error \<open>1 - m0 * x\<close>, and an even word to the 32nd is zero.\<close>

lemma mprime_loop_error: "1 - m0 * mprime_loop i m0 x = (1 - m0 * x) ^ (2 ^ i)"
proof (induction i arbitrary: x)
  case (Suc i)
  have "1 - m0 * (x * (2 - m0 * x)) = (1 - m0 * x) ^ 2"
    by (simp add: power2_eq_square algebra_simps)
  then show ?case by (simp add: Suc.IH power_mult [symmetric])
qed simp

lemma bn_mprime_inverse:
  assumes "odd (m0 :: u32)"
  shows "m0 * bn_mprime m0 = - 1"
proof -
  have "even (1 - m0)" using assms by simp
  then obtain k where k: "1 - m0 = 2 * k" by (rule evenE)
  have "1 - m0 * mprime_loop 5 m0 1 = (2 * k) ^ 32"
    by (simp add: mprime_loop_error k)
  also have "\<dots> = 2 ^ 32 * k ^ 32" by (rule power_mult_distrib)
  also have "(2 :: u32) ^ 32 = 0" by simp
  finally have "m0 * mprime_loop 5 m0 1 = 1" by simp
  then show ?thesis by (simp add: bn_mprime_def)
qed

lemma red_row_mul_row: "red_row ui m t c = mul_row ui m t c"
  by (induction ui m t c rule: red_row.induct) (simp_all add: Let_def add.commute add.left_commute)

lemma annul_limb:
  assumes "hd m * nprime = (- 1 :: u32)" "m \<noteq> []"
  shows "(unat x + 2 ^ 32 * T + unat (x * nprime) * bn_val m) mod 2 ^ 32 = 0"
proof -
  obtain m0 ms where m: "m = m0 # ms" using assms(2) by (cases m) auto
  have "word_of_nat (unat x + unat (x * nprime) * unat m0) = (0 :: u32)"
    using assms(1) m by (simp add: mult.assoc mult.commute [of nprime])
  then have "2 ^ LENGTH(32) dvd unat x + unat (x * nprime) * unat m0"
    unfolding word_of_nat_eq_0_iff .
  then have z: "(unat x + unat (x * nprime) * unat m0) mod 2 ^ 32 = 0"
    by (simp add: dvd_eq_mod_eq_0)
  have "unat x + 2 ^ 32 * T + unat (x * nprime) * bn_val m =
      (unat x + unat (x * nprime) * unat m0) + 2 ^ 32 * (T + unat (x * nprime) * bn_val ms)"
    by (simp add: m algebra_simps)
  then show ?thesis using z by (simp only: mod_mult_self2)
qed

lemma length_red_rows [simp]: "k \<le> length t \<Longrightarrow> length (red_rows k m np t) = length t"
proof (induction k arbitrary: t)
  case (Suc k)
  then show ?case by (simp add: Let_def red_row_mul_row)
qed simp

lemma red_rows_val:
  assumes "hd m * nprime = (- 1 :: u32)" "m \<noteq> []" "k + length m \<le> length t"
  shows "\<exists>q < 2 ^ (32 * k). bn_val (red_rows k m nprime t) =
      (bn_val t + q * bn_val m) mod 2 ^ (32 * length t) \<and>
    bn_val (take k (red_rows k m nprime t)) = 0"
  using assms(3)
proof (induction k arbitrary: t)
  case 0
  then show ?case using bn_val_less [of t] by simp
next
  case (Suc k)
  obtain x xs where t: "t = x # xs" using Suc.prems by (cases t) auto
  define u where "u = x * nprime"
  define s where "s = red_row u m t 0"
  obtain h r where s: "s = h # r" "length r = length xs"
    using t by (cases s) (auto simp: s_def red_row_mul_row dest: arg_cong [of _ _ length])
  let ?P = "2 ^ (32 * length xs) :: nat"
  have sv: "bn_val s = (bn_val t + unat u * bn_val m) mod (2 ^ 32 * ?P)"
    using Suc.prems by (simp add: s_def red_row_mul_row mul_row_val t power_add)
  have "unat h = bn_val s mod 2 ^ 32" using limb_less [of h] by (simp add: s)
  also have "\<dots> = (bn_val t + unat u * bn_val m) mod 2 ^ 32"
    unfolding sv by (simp add: mod_mult2_eq)
  also have "\<dots> = 0" using annul_limb [OF assms(1,2)] by (simp add: t u_def)
  finally have h: "unat h = 0" .
  obtain q where q: "q < 2 ^ (32 * k)"
    "bn_val (red_rows k m nprime r) = (bn_val r + q * bn_val m) mod ?P"
    "bn_val (take k (red_rows k m nprime r)) = 0"
    using Suc.IH [of r] Suc.prems s(2) t by auto
  have eq: "red_rows (Suc k) m nprime t = h # red_rows k m nprime r"
    by (simp add: t u_def [symmetric] s_def [symmetric, unfolded t] s Let_def)
  have "bn_val (red_rows (Suc k) m nprime t) = 0 + 2 ^ 32 * ((bn_val r + q * bn_val m) mod ?P)"
    unfolding eq using h q(2) by simp
  also have "\<dots> = (0 + 2 ^ 32 * (bn_val r + q * bn_val m)) mod (2 ^ 32 * ?P)"
    by (rule mod_high) simp
  also have "0 + 2 ^ 32 * (bn_val r + q * bn_val m) = bn_val s + 2 ^ 32 * (q * bn_val m)"
    using h by (simp add: s algebra_simps)
  also have "\<dots> mod (2 ^ 32 * ?P) =
      (bn_val t + unat u * bn_val m + 2 ^ 32 * (q * bn_val m)) mod (2 ^ 32 * ?P)"
    unfolding sv by (rule mod_add_high)
  also have "bn_val t + unat u * bn_val m + 2 ^ 32 * (q * bn_val m) =
      bn_val t + (unat u + 2 ^ 32 * q) * bn_val m"
    by (simp add: algebra_simps)
  finally have val: "bn_val (red_rows (Suc k) m nprime t) =
      (bn_val t + (unat u + 2 ^ 32 * q) * bn_val m) mod 2 ^ (32 * length t)"
    by (simp add: t power_add)
  have "unat u + 2 ^ 32 * q < 0 + 2 ^ 32 * 2 ^ (32 * k)"
    using limb_less [of u] q(1) by (intro high_limb_less) simp_all
  then have "unat u + 2 ^ 32 * q < 2 ^ (32 * Suc k)" by (simp add: power_add)
  moreover have "bn_val (take (Suc k) (red_rows (Suc k) m nprime t)) = 0"
    unfolding eq using h q(3) by simp
  ultimately show ?case using val by blast
qed

lemma mont_quotient:
  assumes "n \<le> length a" "n \<le> length b" "n \<le> length m" "0 < n"
    and M: "M = bn_val (take n m)" and R: "R = (2 :: nat) ^ (32 * n)"
    and np: "m ! 0 * nprime = - 1"
    and AB: "AB = bn_val (take n a) * bn_val (take n b)" "AB < M * R"
    and T: "T = red_rows n (take n m) nprime (bn_mul a n b n)"
  shows "\<exists>q. R * bn_val (drop n T) = AB + q * M \<and> bn_val (drop n T) < 2 * M \<and> length T = 2 * n + 1"
proof -
  let ?t = "bn_mul a n b n"
  note mul = bn_mul_val [OF assms(1,2)]
  have len: "length ?t = 2 * n + 1" using mul(2) by simp
  have hd: "hd (take n m) = m ! 0" using assms(3,4) by (cases m) auto
  have "take n m \<noteq> []" "n + length (take n m) \<le> length ?t" using assms(3,4) len by auto
  from red_rows_val [OF np [folded hd] this] obtain q where q: "q < R"
    "bn_val T = (AB + q * M) mod 2 ^ (32 * (2 * n + 1))" "bn_val (take n T) = 0"
    unfolding T R M AB(1) mul(1) len by blast
  have "q * M \<le> R * M" using q(1) by (intro mult_le_mono1) simp
  moreover have "R * (2 * M) = M * R + R * M" by simp
  ultimately have lt: "AB + q * M < R * (2 * M)" using AB(2) by linarith
  also have "\<dots> \<le> R * (2 * R)" using bn_val_take_less [OF assms(3)] by (simp add: M R)
  also have "\<dots> \<le> 2 ^ (32 * (2 * n + 1))"
  proof -
    have "R * (2 * R) = 2 ^ (32 * n + 32 * n + 1)" unfolding R
      by (simp only: power_add power_one_right mult.assoc mult.commute mult.left_commute)
    also have "\<dots> \<le> 2 ^ (32 * (2 * n + 1))" by (intro power_increasing) simp_all
    finally show ?thesis .
  qed
  finally have Tv: "bn_val T = AB + q * M" unfolding q(2) by simp
  have lT: "length T = 2 * n + 1" by (simp add: T len)
  have eq: "R * bn_val (drop n T) = AB + q * M"
    using bn_val_split [of n T] q(3) Tv lT by (simp add: R)
  with lt have "R * bn_val (drop n T) < R * (2 * M)" by simp
  then have "bn_val (drop n T) < 2 * M" by simp
  with eq lT show ?thesis by blast
qed

lemma mont_final_sub:
  assumes "length t = n + 1" "n \<le> length m" "bn_val t < 2 * M" "M = bn_val (take n m)"
  shows "bn_val (if t ! n = 1 \<or> bn_cmp (take n t) m n \<ge> 0 then bn_sub (take n t) m n else take n t) =
    bn_val t mod M"
proof -
  let ?R = "2 ^ (32 * n) :: nat" and ?lo = "bn_val (take n t)" and ?ql = "t ! n"
  have "drop n t = [?ql]"
    using assms(1) by (metis Cons_nth_drop_Suc Suc_eq_plus1 drop_eq_Nil2 lessI order_refl)
  then have Q: "bn_val t = ?lo + ?R * unat ?ql" using bn_val_split [of n t] assms(1) by simp
  have MR: "M < ?R" using bn_val_take_less [OF assms(2)] assms(4) by simp
  have ql: "unat ?ql \<le> 1"
  proof (rule ccontr)
    assume "\<not> unat ?ql \<le> 1"
    then have "?R * 2 \<le> ?R * unat ?ql" by (intro mult_le_mono2) simp
    with Q assms(3) MR show False by simp
  qed
  have ge: "bn_cmp (take n t) m n \<ge> 0 \<longleftrightarrow> M \<le> ?lo"
    using bn_cmp_ge_iff [of n "take n t" m] assms(1,2,4) by simp
  have one: "?ql = 1 \<longleftrightarrow> unat ?ql = 1" by (simp add: word_unat_eq_iff)
  have le: "?ql = 1 \<or> bn_cmp (take n t) m n \<ge> 0 \<longleftrightarrow> M \<le> bn_val t"
    unfolding ge one using ql Q MR by (auto simp: le_Suc_eq)
  have "bn_val (bn_sub (take n t) m n) = bn_val t - M" if "M \<le> bn_val t"
    using bn_sub_val [of n "take n t" m "unat ?ql"] that assms Q MR
    by (simp add: mult.commute)
  moreover have "?lo = bn_val t" if "\<not> M \<le> bn_val t"
    using that Q MR ql by (cases "unat ?ql") auto
  ultimately show ?thesis
    unfolding le using assms(3) by (simp add: le_mod_geq)
qed

lemma bn_mont_mul_val:
  assumes "n \<le> length a" "n \<le> length b" "n \<le> length m" "0 < n"
    and M: "M = bn_val (take n m)" and R: "R = (2 :: nat) ^ (32 * n)"
    and np: "m ! 0 * nprime = - 1"
    and AB: "bn_val (take n a) * bn_val (take n b) < M * R"
  shows "bn_val (bn_mont_mul a b m n nprime) < M"
    and "bn_val (bn_mont_mul a b m n nprime) * R mod M =
      bn_val (take n a) * bn_val (take n b) mod M"
    and "length (bn_mont_mul a b m n nprime) = n"
proof -
  define T where "T = red_rows n (take n m) nprime (bn_mul a n b n)"
  let ?t = "drop n T" and ?res = "bn_mont_mul a b m n nprime"
  obtain q where q: "R * bn_val ?t = bn_val (take n a) * bn_val (take n b) + q * M"
    "bn_val ?t < 2 * M" "length T = 2 * n + 1"
    using mont_quotient [OF assms(1-4) M R np refl AB T_def] by blast
  have res: "?res = (if ?t ! n = 1 \<or> bn_cmp (take n ?t) m n \<ge> 0 then bn_sub (take n ?t) m n
      else take n ?t)"
    using q(3) by (simp add: bn_mont_mul_def Let_def T_def [symmetric] mult_2)
  have v: "bn_val ?res = bn_val ?t mod M"
    unfolding res using q(3) by (intro mont_final_sub [OF _ assms(3) q(2) M]) simp
  have "0 < M" using AB by (cases M) simp_all
  then show "bn_val ?res < M" unfolding v by simp
  have "bn_val ?res * R mod M = bn_val ?t * R mod M"
    unfolding v by (simp add: mod_mult_left_eq)
  also have "\<dots> = (bn_val (take n a) * bn_val (take n b) + q * M) mod M"
    using q(1) by (simp add: mult.commute)
  finally show "bn_val ?res * R mod M = bn_val (take n a) * bn_val (take n b) mod M" by simp
  show "length ?res = n" unfolding res using q(3) by simp
qed

section \<open>Exponentiation in Montgomery form\<close>

lemma mod_cancel_power2:
  assumes "odd (M :: nat)" "x * 2 ^ k mod M = y * 2 ^ k mod M"
  shows "x mod M = y mod M"
proof -
  have "int (x * 2 ^ k) mod int M = int (y * 2 ^ k) mod int M"
    using assms(2) by (simp only: of_nat_mod [symmetric])
  then have "int M dvd int (x * 2 ^ k) - int (y * 2 ^ k)"
    unfolding mod_eq_dvd_iff .
  then have "int M dvd (int x - int y) * 2 ^ k" by (simp add: left_diff_distrib)
  moreover have "coprime (int M) (2 ^ k)" using assms(1) by simp
  ultimately have "int M dvd int x - int y" by (simp add: coprime_dvd_mult_left_iff)
  then have "int x mod int M = int y mod int M" by (simp add: mod_eq_dvd_iff)
  then show ?thesis by (simp only: of_nat_mod [symmetric] of_nat_eq_iff)
qed

text \<open>The \<open>n\<close> limbs \<open>r\<close> hold \<open>x\<close> in Montgomery form.\<close>

definition mont_form :: "u32 list \<Rightarrow> nat \<Rightarrow> u32 list \<Rightarrow> nat \<Rightarrow> bool" where
  "mont_form m n r x \<longleftrightarrow> length r = n \<and> bn_val r < bn_val (take n m) \<and>
     bn_val r = x * 2 ^ (32 * n) mod bn_val (take n m)"

lemma mont_form_mul:
  assumes "mont_form m n r x" "mont_form m n s y" "n \<le> length m" "0 < n"
    and np: "m ! 0 * nprime = - 1" and "odd (bn_val (take n m))"
  shows "mont_form m n (bn_mont_mul r s m n nprime) (x * y)"
proof -
  define M where "M = bn_val (take n m)"
  define R where "R = (2 :: nat) ^ (32 * n)"
  have r: "length r = n" "bn_val r < M" "bn_val r = x * R mod M"
    and s: "length s = n" "bn_val s < M" "bn_val s = y * R mod M"
    using assms(1,2) by (simp_all add: mont_form_def M_def R_def)
  have "M < R" using bn_val_take_less [OF assms(3)] by (simp add: M_def R_def)
  then have "bn_val r * bn_val s < M * R" using r(2) s(2) by (intro mult_strict_mono) auto
  then have AB: "bn_val (take n r) * bn_val (take n s) < M * R" using r(1) s(1) by simp
  let ?p = "bn_mont_mul r s m n nprime"
  note mm = bn_mont_mul_val [OF _ _ assms(3,4) M_def R_def np AB]
  have p: "bn_val ?p < M" "bn_val ?p * R mod M = bn_val r * bn_val s mod M" "length ?p = n"
    using mm r(1) s(1) by simp_all
  have "bn_val ?p * R mod M = (x * R) * (y * R) mod M"
    unfolding p(2) r(3) s(3) by (rule mod_mult_eq)
  then have "bn_val ?p * 2 ^ (32 * n) mod M = (x * y * R) * 2 ^ (32 * n) mod M"
    by (simp add: R_def mult.assoc mult.left_commute)
  then have "bn_val ?p mod M = x * y * R mod M"
    by (rule mod_cancel_power2 [OF assms(6) [folded M_def]])
  then show ?thesis using p(1,3) by (simp add: mont_form_def M_def R_def)
qed

lemma pow_loop_form:
  assumes "mont_form m n ar x" "n \<le> length m" "0 < n"
    and np: "m ! 0 * nprime = - 1" and odd: "odd (bn_val (take n m))"
    and "mont_form m n r (x ^ (bn_val e div 2 ^ bi))" "bi \<le> 32 * length e"
  shows "mont_form m n (pow_loop bi e ar m n nprime r) (x ^ bn_val e)"
  using assms(6,7)
proof (induction bi arbitrary: r)
  case (Suc bi)
  let ?E = "bn_val e" and ?r1 = "bn_mont_mul r r m n nprime"
  define r2 where "r2 = (if bn_getbit e bi \<noteq> 0 then bn_mont_mul ?r1 ar m n nprime else ?r1)"
  have E: "?E div 2 ^ bi = 2 * (?E div 2 ^ Suc bi) + ?E div 2 ^ bi mod 2"
    by (simp only: power_Suc2 div_mult2_eq mult_div_mod_eq)
  have bit: "unat (bn_getbit e bi) = ?E div 2 ^ bi mod 2"
    using Suc.prems(2) by (intro getbit_val) simp
  have f1: "mont_form m n ?r1 (x ^ (2 * (?E div 2 ^ Suc bi)))"
    using mont_form_mul [OF Suc.prems(1,1) assms(2,3) np odd] by (simp add: mult_2 power_add)
  have "mont_form m n r2 (x ^ (?E div 2 ^ bi))"
  proof (cases "bn_getbit e bi = 0")
    case True
    then have "?E div 2 ^ bi = 2 * (?E div 2 ^ Suc bi)" using E bit by simp
    then show ?thesis using f1 True by (simp add: r2_def)
  next
    case False
    then have "?E div 2 ^ bi mod 2 = 1" using bit by (metis not_mod_2_eq_1_eq_0 unat_eq_0)
    then have "?E div 2 ^ bi = Suc (2 * (?E div 2 ^ Suc bi))" using E by simp
    then show ?thesis
      using mont_form_mul [OF f1 assms(1-3) np odd] False by (simp add: r2_def mult.commute)
  qed
  moreover have "pow_loop (Suc bi) e ar m n nprime r = pow_loop bi e ar m n nprime r2"
    by (simp add: r2_def Let_def)
  ultimately show ?case using Suc.IH [of r2] Suc.prems(2) by simp
qed simp

section \<open>Byte strings\<close>

fun be_val :: "u8 list \<Rightarrow> nat" where
  "be_val [] = 0"
| "be_val (b # bs) = be_val bs + 2 ^ (8 * length bs) * unat b"

lemma byte_less: "unat (b :: u8) < 256"
proof -
  have "unat b < 2 ^ LENGTH(8)" by (rule unsigned_less)
  then show ?thesis by simp
qed

lemma be_val_less: "be_val bs < 2 ^ (8 * length bs)"
proof (induction bs)
  case (Cons b bs)
  have "be_val bs + 2 ^ (8 * length bs) * unat b < 0 + 2 ^ (8 * length bs) * 256"
    by (rule high_limb_less [OF Cons.IH byte_less])
  then show ?case by (simp add: power_add)
qed simp

lemma be_val_append: "be_val (a @ b) = be_val a * 2 ^ (8 * length b) + be_val b"
  by (induction a) (simp_all add: algebra_simps power_add)

lemma be_val_bit:
  "bit (be_val b) k \<longleftrightarrow> k < 8 * length b \<and> bit (b ! (length b - 1 - k div 8)) (k mod 8)"
proof (induction b)
  case (Cons x b)
  have eq: "bit (be_val (x # b)) k \<longleftrightarrow>
      (if k < 8 * length b then bit (be_val b) k else bit (unat x) (k - 8 * length b))"
    using bit_add_high [OF be_val_less [of b], of "unat x" k] by simp
  consider "k < 8 * length b" | j where "k = 8 * length b + j" "j < 8" | "8 * length b + 8 \<le> k"
    by (metis add_less_cancel_left le_Suc_ex not_le_imp_less)
  then show ?case
  proof cases
    case 1
    then have "k div 8 < length b" by (simp add: less_mult_imp_div_less mult.commute)
    then have "length (x # b) - 1 - k div 8 = Suc (length b - 1 - k div 8)" by simp
    then show ?thesis unfolding eq Cons.IH using 1 by simp
  next
    case 2
    then show ?thesis unfolding eq by (simp add: bit_unsigned_iff)
  next
    case 3
    then have "\<not> bit (unat x) (k - 8 * length b)"
      by (auto simp: bit_unsigned_iff dest: bit_imp_le_length)
    then show ?thesis unfolding eq using 3 by simp
  qed
qed simp

lemma byte_in_limb: "k div 32 = k div 8 div 4" "k mod 32 = 8 * (k div 8 mod 4) + k mod (8 :: nat)"
  using div_mult2_eq [of k 8 4] mod_mult2_eq [of k 8 4] by simp_all

lemma div8_eq: "8 * c \<le> s \<Longrightarrow> s - 8 * c < 8 \<Longrightarrow> s div 8 = (c :: nat)"
  by (rule div_nat_eqI) simp_all

lemma div4_eq: "r < 4 \<Longrightarrow> l = j div 4 \<and> r = j mod 4 \<longleftrightarrow> 4 * l + r = (j :: nat)"
  using mult_div_mod_eq [of 4 j] by auto

lemma extend_range:
  assumes "i < len"
  shows "(len \<le> Q + i \<and> Q < len \<and> P (len - 1 - Q)) \<or> (Q = len - 1 - i \<and> P i) \<longleftrightarrow>
    len \<le> Q + Suc i \<and> Q < len \<and> P (len - 1 - Q)"
proof (cases "Q = len - 1 - i")
  case True
  then have "len - 1 - Q = i" "Q < len" "len \<le> Q + Suc i" using assms by simp_all
  with True show ?thesis by auto
next
  case False
  then have "len \<le> Q + i \<longleftrightarrow> len \<le> Q + Suc i" using assms by linarith
  with False show ?thesis by simp
qed

lemma byte_pos_val:
  assumes "i < len" "len < 2 ^ 29"
  shows "unat (drop_bit 5 (byte_pos len i)) = (len - 1 - i) div 4"
    and "unat (byte_pos len i AND 31) = 8 * ((len - 1 - i) mod 4)"
proof -
  let ?j = "len - 1 - i"
  have "?j * 8 < 2 ^ 32" using assms(2) by simp
  then have "unat (of_nat (?j * 8) :: u32) = ?j * 8" by (simp only: unat_of_nat) simp
  moreover have "byte_pos len i = of_nat (?j * 8)"
    using assms(1) by (simp add: byte_pos_def of_nat_diff)
  ultimately have p: "unat (byte_pos len i) = ?j * 8" by (simp only:)
  show "unat (drop_bit 5 (byte_pos len i)) = ?j div 4"
    unfolding unat_shr p by (simp add: div_mult2_eq [of _ 8 4, symmetric])
  have "byte_pos len i AND 31 = take_bit 5 (byte_pos len i)"
    by (simp add: take_bit_eq_mask mask_eq_exp_minus_1)
  then have "unat (byte_pos len i AND 31) = take_bit 5 (?j * 8)"
    by (simp only: unsigned_take_bit_eq p)
  then have "unat (byte_pos len i AND 31) = ?j * 8 mod 32"
    by (simp add: take_bit_eq_mod)
  then show "unat (byte_pos len i AND 31) = 8 * (?j mod 4)"
    using mult_mod_right [of 8 ?j 4] by (simp add: mult.commute)
qed

lemma from_bytes_bits:
  assumes "length b < 2 ^ 29" "i \<le> length b"
  shows "length (fold (from_byte n b) [0..<i] (bn_zero n)) = n \<and>
    (\<forall>l < n. \<forall>s < 32. bit (fold (from_byte n b) [0..<i] (bn_zero n) ! l) s \<longleftrightarrow>
      length b \<le> (4 * l + s div 8) + i \<and> 4 * l + s div 8 < length b \<and>
      bit (b ! (length b - 1 - (4 * l + s div 8))) (s mod 8))"
  using assms(2)
proof (induction i)
  case (Suc i)
  let ?a = "fold (from_byte n b) [0..<i] (bn_zero n)" and ?j = "length b - 1 - i"
  let ?x = "push_bit (8 * (?j mod 4)) (ucast (b ! i)) :: u32"
  have IH: "length ?a = n" "\<And>l s. l < n \<Longrightarrow> s < 32 \<Longrightarrow> bit (?a ! l) s \<longleftrightarrow>
      length b \<le> (4 * l + s div 8) + i \<and> 4 * l + s div 8 < length b \<and>
      bit (b ! (length b - 1 - (4 * l + s div 8))) (s mod 8)"
    using Suc by simp_all
  have step: "fold (from_byte n b) [0..<Suc i] (bn_zero n) =
      (if ?j div 4 < n then ?a[?j div 4 := ?a ! (?j div 4) OR ?x] else ?a)"
    using byte_pos_val [of i "length b"] Suc.prems assms(1)
    by (simp add: from_byte_def Let_def)
  have x: "bit ?x s \<longleftrightarrow> s div 8 = ?j mod 4 \<and> bit (b ! i) (s mod 8)" if "s < 32" for s
  proof -
    have "bit ?x s \<longleftrightarrow> 8 * (?j mod 4) \<le> s \<and> bit (b ! i) (s - 8 * (?j mod 4)) \<and> s - 8 * (?j mod 4) < 8"
      using that by (auto simp: bit_push_bit_iff bit_ucast_iff dest: bit_imp_le_length)
    also have "\<dots> \<longleftrightarrow> s div 8 = ?j mod 4 \<and> bit (b ! i) (s mod 8)"
    proof (cases "s div 8 = ?j mod 4")
      case True
      have "s - 8 * (?j mod 4) = s mod 8" "8 * (?j mod 4) \<le> s"
        unfolding True [symmetric] by (rule minus_mult_div_eq_mod, rule times_div_less_eq_dividend)
      then show ?thesis using True by simp
    next
      case False
      then have "\<not> (8 * (?j mod 4) \<le> s \<and> s - 8 * (?j mod 4) < 8)"
        using div8_eq [of "?j mod 4" s] by blast
      then show ?thesis using False by blast
    qed
    finally show ?thesis .
  qed
  have "bit (fold (from_byte n b) [0..<Suc i] (bn_zero n) ! l) s \<longleftrightarrow>
      length b \<le> (4 * l + s div 8) + Suc i \<and> 4 * l + s div 8 < length b \<and>
      bit (b ! (length b - 1 - (4 * l + s div 8))) (s mod 8)" if ls: "l < n" "s < 32" for l s
  proof -
    have new: "bit (fold (from_byte n b) [0..<Suc i] (bn_zero n) ! l) s \<longleftrightarrow>
        bit (?a ! l) s \<or> (l = ?j div 4 \<and> s div 8 = ?j mod 4 \<and> bit (b ! i) (s mod 8))"
      unfolding step using ls x [OF ls(2)] IH(1) by (auto simp: nth_list_update bit_or_iff)
    have "s div 8 < 4" using ls(2) by (simp add: less_mult_imp_div_less)
    then have "l = ?j div 4 \<and> s div 8 = ?j mod 4 \<longleftrightarrow> 4 * l + s div 8 = ?j" by (rule div4_eq)
    then show ?thesis
      unfolding new IH(2) [OF ls]
      using extend_range [of i "length b" "4 * l + s div 8" "\<lambda>i. bit (b ! i) (s mod 8)"] Suc.prems
      by (simp only: conj_assoc [symmetric] Suc_le_eq)
  qed
  then show ?case using IH(1) unfolding step by simp
qed (simp add: bn_zero_def)

lemma length_bn_from_bytes [simp]: "length (bn_from_bytes n b) = n"
proof -
  have "length (fold (from_byte n b) xs a) = length a" for xs a
    by (induction xs arbitrary: a) (simp_all add: from_byte_def Let_def)
  then show ?thesis by (simp add: bn_from_bytes_def bn_zero_def)
qed

lemma bn_from_bytes_val:
  assumes "length b < 2 ^ 29"
  shows "bn_val (bn_from_bytes n b) = be_val b mod 2 ^ (32 * n)"
proof -
  have "bit (bn_val (bn_from_bytes n b)) k = bit (take_bit (32 * n) (be_val b)) k" for k
  proof (cases "k < 32 * n")
    case True
    then have l: "k div 32 < n" "k mod 32 < 32" by (simp_all add: less_mult_imp_div_less mult.commute)
    have d: "4 * (k div 32) + k mod 32 div 8 = k div 8" unfolding byte_in_limb by simp
    have m: "k mod 32 mod 8 = k mod 8" unfolding byte_in_limb by simp
    have "k < 8 * length b \<longleftrightarrow> k div 8 < length b" by (simp add: div_less_iff_less_mult mult.commute)
    then show ?thesis
      using from_bytes_bits [OF assms order_refl, of n] l True
      by (auto simp: bn_val_bit be_val_bit bit_take_bit_iff bn_from_bytes_def [symmetric] d m)
  next
    case False
    then show ?thesis by (simp add: bn_val_bit bit_take_bit_iff)
  qed
  then show ?thesis by (simp add: bit_eq_iff take_bit_eq_mod [symmetric])
qed

lemma bn_to_bytes_val:
  assumes "n < 2 ^ 29" "na \<le> length a"
  shows "be_val (bn_to_bytes a na n) = bn_val (take na a) mod 2 ^ (8 * n)"
proof -
  have "bit (be_val (bn_to_bytes a na n)) k = bit (take_bit (8 * n) (bn_val (take na a))) k" for k
  proof (cases "k < 8 * n")
    case True
    let ?j = "k div 8"
    have j: "?j < n" using True by (simp add: less_mult_imp_div_less mult.commute)
    then have i: "n - 1 - ?j < n" "n - 1 - (n - 1 - ?j) = ?j" by simp_all
    have d: "?j div 4 = k div 32" "8 * (?j mod 4) + k mod 8 = k mod 32" unfolding byte_in_limb by simp_all
    have "bn_to_bytes a na n ! (n - 1 - ?j) =
        (if k div 32 < na then ucast (drop_bit (8 * (?j mod 4)) (a ! (k div 32))) else 0)"
      using byte_pos_val [OF i(1) assms(1)] i by (simp add: bn_to_bytes_def Let_def d)
    moreover have "k < 32 * na \<longleftrightarrow> k div 32 < na" by (simp add: div_less_iff_less_mult mult.commute)
    ultimately show ?thesis
      using True d(2) assms(2)
      by (simp add: be_val_bit bn_val_bit bit_take_bit_iff bit_ucast_iff bit_drop_bit_eq bn_to_bytes_def min_absorb2)
  next
    case False
    then show ?thesis by (simp add: be_val_bit bit_take_bit_iff bn_to_bytes_def)
  qed
  then show ?thesis by (simp add: bit_eq_iff take_bit_eq_mod [symmetric])
qed

section \<open>Modular exponentiation\<close>

lemma bn_used_append: "n \<le> length a \<Longrightarrow> bn_used (a @ b) n = bn_used a n"
  by (induction n) (simp_all add: nth_append)

lemma bn_val_unit:
  assumes "i < k" "k \<le> len"
  shows "bn_val (take k ((bn_zero len)[i := 1])) = 2 ^ (32 * i)"
proof -
  have "take k ((bn_zero len)[i := 1]) = (replicate k 0)[i := 1]"
    using assms(2) by (simp add: bn_zero_def take_update_swap min_absorb2)
  also have "\<dots> = replicate i 0 @ 1 # replicate (k - Suc i) 0"
    using assms(1) by (simp add: upd_conv_take_nth_drop min_absorb2 min_absorb1 del: replicate_Suc)
  finally show ?thesis by (simp add: bn_val_append)
qed

lemma mont_form_enter:
  assumes "n \<le> length b" "n \<le> length r2" "n \<le> length m" "0 < n"
    and np: "m ! 0 * nprime = - 1" and M: "M = bn_val (take n m)" and odd: "odd M"
    and r2: "bn_val (take n r2) = 2 ^ (32 * (2 * n)) mod M"
  shows "mont_form m n (bn_mont_mul b r2 m n nprime) (bn_val (take n b))"
proof -
  define R where "R = (2 :: nat) ^ (32 * n)"
  have RR: "2 ^ (32 * (2 * n)) = R * R" unfolding R_def by (simp only: power_add [symmetric]) simp
  let ?x = "bn_val (take n b)" and ?p = "bn_mont_mul b r2 m n nprime"
  have pos: "0 < M" using odd by (cases M) simp_all
  have "?x * bn_val (take n r2) < R * M"
    unfolding r2 using bn_val_take_less [OF assms(1)] pos
    by (intro mult_strict_mono) (simp_all add: R_def)
  then have AB: "?x * bn_val (take n r2) < M * R" by (simp only: mult.commute)
  note p = bn_mont_mul_val [OF assms(1-4) M R_def np AB]
  have "bn_val ?p * R mod M = ?x * (R * R) mod M"
    unfolding p(2) r2 RR by (rule mod_mult_right_eq)
  then have "bn_val ?p * 2 ^ (32 * n) mod M = (?x * R) * 2 ^ (32 * n) mod M"
    by (simp only: R_def mult.assoc)
  then have "bn_val ?p mod M = ?x * R mod M" by (rule mod_cancel_power2 [OF odd])
  then show ?thesis using p(1,3) by (simp add: mont_form_def M [symmetric] R_def)
qed

lemma mont_form_leave:
  assumes "mont_form m n r x" "n \<le> length one" "n \<le> length m" "0 < n"
    and np: "m ! 0 * nprime = - 1" and M: "M = bn_val (take n m)" and odd: "odd M"
    and one: "bn_val (take n one) = 1"
  shows "bn_val (bn_mont_mul r one m n nprime) = x mod M"
    and "length (bn_mont_mul r one m n nprime) = n"
proof -
  define R where "R = (2 :: nat) ^ (32 * n)"
  let ?p = "bn_mont_mul r one m n nprime"
  have r: "length r = n" "bn_val r < M" "bn_val r = x * R mod M"
    using assms(1) by (simp_all add: mont_form_def M R_def)
  have "M * 1 \<le> M * R" by (intro mult_le_mono2) (simp add: R_def)
  with r(2) have "bn_val r < M * R" by linarith
  then have AB: "bn_val (take n r) * bn_val (take n one) < M * R" using r(1) one by simp
  have len: "n \<le> length r" using r(1) by simp
  note p = bn_mont_mul_val [OF len assms(2-4) M R_def np AB]
  have "bn_val ?p * R mod M = x * R mod M"
    unfolding p(2) using r one by simp
  then have "bn_val ?p mod M = x mod M"
    unfolding R_def by (rule mod_cancel_power2 [OF odd])
  then show "bn_val ?p = x mod M" using p(1) by simp
  show "length ?p = n" by (rule p(3))
qed

text \<open>
  The limbs of the modulus, and the base that the exponentiation starts from: the comparison
  with the modulus looks at the base's low limbs only, and a base that passes it is used with
  these limbs alone.
\<close>

definition mod_limbs :: "u8 list \<Rightarrow> nat" where
  "mod_limbs modulus = bn_used (bn_from_bytes BN_LIMBS modulus) BN_LIMBS"

definition base_used :: "u8 list \<Rightarrow> u8 list \<Rightarrow> nat" where
  "base_used base modulus =
     (let low = be_val base mod 2 ^ (32 * mod_limbs modulus)
      in if low < be_val modulus then low else be_val base mod 2 ^ (32 * BN_LIMBS))"

text \<open>What the set-up of \<^verbatim>\<open>tls_modpow\<close> establishes of the array \<^verbatim>\<open>m\<close>.\<close>

lemma modulus_limbs:
  assumes "length modulus \<le> TLS_RSA_MAX_MODULUS" "odd (be_val modulus)"
    and "junk = 0 \<or> mod_limbs modulus < BN_LIMBS"
    and m: "m = bn_from_bytes BN_LIMBS modulus @ [junk]" and n: "n = mod_limbs modulus"
  shows "0 < n" "n \<le> BN_LIMBS" "bn_used m BN_LIMBS = n" "bn_val (take n m) = be_val modulus"
    "bn_val (take (n + 1) m) = be_val modulus" "odd (m ! 0)" "be_val modulus < 2 ^ (32 * n)"
proof -
  let ?a = "bn_from_bytes BN_LIMBS modulus" and ?M = "be_val modulus"
  have len: "length modulus < 2 ^ 29" "8 * length modulus \<le> 32 * BN_LIMBS"
    using assms(1) by (simp_all add: TLS_RSA_MAX_MODULUS_def BN_LIMBS_def)
  have "?M < 2 ^ (8 * length modulus)" by (rule be_val_less)
  also have "\<dots> \<le> 2 ^ (32 * BN_LIMBS)" using len(2) by (intro power_increasing) simp_all
  finally have a: "bn_val ?a = ?M" using bn_from_bytes_val [OF len(1)] by simp
  show nB: "n \<le> BN_LIMBS" unfolding n mod_limbs_def by (rule bn_used_le)
  have an: "bn_val (take n ?a) = ?M"
    unfolding n mod_limbs_def using bn_used_val [of BN_LIMBS ?a] a by simp
  then show "bn_val (take n m) = ?M" using nB by (simp add: m)
  show lt: "?M < 2 ^ (32 * n)" using bn_val_take_less [of n ?a] nB an by simp
  show pos: "0 < n" using an assms(2) by (cases n) simp_all
  show "bn_used m BN_LIMBS = n" by (simp add: m n mod_limbs_def bn_used_append)
  have "m ! n = 0"
  proof (cases "n < BN_LIMBS")
    case True
    then have "?a ! n = 0"
      using bn_used_high [of ?a BN_LIMBS n] by (simp add: n mod_limbs_def)
    then show ?thesis using True by (simp add: m nth_append)
  next
    case False
    then have "junk = 0" "n = BN_LIMBS" using assms(3) n nB by auto
    then show ?thesis by (simp add: m nth_append)
  qed
  then show "bn_val (take (n + 1) m) = ?M"
    using bn_val_take_Suc [of n m] nB an by (simp add: m)
  obtain x xs where xs: "?a = x # xs" using pos nB by (cases ?a) (auto dest: arg_cong [of _ _ length])
  then have "odd (unat x + 4294967296 * bn_val xs)" using a assms(2) by simp
  then have "bit (unat x) 0" by (simp add: bit_0)
  then have "bit x 0" by (simp only: bit_unsigned_iff)
  then have "odd x" by (simp add: bit_0)
  then show "odd (m ! 0)" using xs by (simp add: m)
qed

lemma double_le:
  assumes "M < (2 :: nat) ^ (32 * n)"
  shows "2 * M \<le> 2 ^ (32 * (n + 1))"
proof -
  have "2 * M \<le> 2 ^ Suc (32 * n)" using assms by simp
  also have "\<dots> \<le> 2 ^ (32 * (n + 1))" by (intro power_increasing) simp_all
  finally show ?thesis .
qed

lemma reduced_base:
  assumes "length base < 2 ^ 29" "n \<le> BN_LIMBS" "length m = BN_LIMBS + 1"
    and M: "bn_val (take n m) = M" "bn_val (take (n + 1) m) = M" "0 < M" "M < 2 ^ (32 * n)"
    and b: "b = bn_from_bytes BN_LIMBS base"
    and b': "b' = (if bn_cmp b m n \<ge> 0 then take BN_LIMBS (bn_mod b BN_LIMBS m n) else b)"
  shows "length b' = BN_LIMBS"
    and "bn_val (take n b') = (let low = be_val base mod 2 ^ (32 * n)
      in if low < M then low else be_val base mod 2 ^ (32 * BN_LIMBS)) mod M"
proof -
  have len: "length b = BN_LIMBS" by (simp add: b)
  have bv: "bn_val b = be_val base mod 2 ^ (32 * BN_LIMBS)"
    unfolding b by (rule bn_from_bytes_val [OF assms(1)])
  have le: "(2::nat) ^ (32 * n) dvd 2 ^ (32 * BN_LIMBS)" using assms(2) by (intro le_imp_power_dvd) simp
  have "bn_val (take n b) = bn_val b mod 2 ^ (32 * n)"
    using bn_val_split [of n b] bn_val_take_less [of n b] assms(2) len by simp
  then have low: "bn_val (take n b) = be_val base mod 2 ^ (32 * n)"
    unfolding bv using le by (simp add: mod_mod_cancel)
  have ge: "bn_cmp b m n \<ge> 0 \<longleftrightarrow> M \<le> be_val base mod 2 ^ (32 * n)"
    using bn_cmp_ge_iff [of n b m] assms(2,3) len low M(1) by simp
  have r: "bn_val (bn_mod b BN_LIMBS m n) = bn_val b mod M"
    "length (bn_mod b BN_LIMBS m n) = BN_LIMBS + 1"
    using bn_mod_val [of BN_LIMBS b n m M] double_le [OF M(4)] assms(2,3) len M(2,3) by simp_all
  have "bn_val (take n (bn_mod b BN_LIMBS m n)) = bn_val b mod M"
    using bn_val_take_small(1) [of "bn_mod b BN_LIMBS m n" n] r assms(2) M(3,4)
      mod_less_divisor [OF M(3), of "bn_val b"] by simp
  then show "bn_val (take n b') = (let low = be_val base mod 2 ^ (32 * n)
      in if low < M then low else be_val base mod 2 ^ (32 * BN_LIMBS)) mod M"
    unfolding b' ge Let_def using assms(2) by (auto simp: low bv min_absorb1)
  show "length b' = BN_LIMBS" unfolding b' using len r(2) by simp
qed

lemma length_bn_zero [simp]: "length (bn_zero n) = n"
  by (simp add: bn_zero_def)

lemma r2_val:
  assumes "n \<le> BN_LIMBS" "n \<le> length m" "length m = BN_LIMBS + 1"
    and M: "M = bn_val (take (n + 1) m)" "0 < M" "M < 2 ^ (32 * n)"
    and r2: "r2 = bn_mod ((bn_zero (2 * BN_LIMBS + 2))[2 * n := 1]) (2 * n + 1) m n"
  shows "bn_val (take n r2) = 2 ^ (32 * (2 * n)) mod M" "length r2 = BN_LIMBS + 1"
proof -
  define xr where "xr = (bn_zero (2 * BN_LIMBS + 2))[2 * n := 1]"
  have lx: "length xr = 2 * BN_LIMBS + 2" by (simp add: xr_def)
  have vx: "bn_val xr = 2 ^ (32 * (2 * n))"
    using bn_val_unit [of "2 * n" "2 * BN_LIMBS + 2" "2 * BN_LIMBS + 2", folded xr_def] assms(1) lx by simp
  have tx: "bn_val (take (2 * n + 1) xr) = bn_val xr"
    unfolding vx using bn_val_unit [of "2 * n" "2 * n + 1" "2 * BN_LIMBS + 2", folded xr_def] assms(1) by simp
  have c: "2 * n + 1 \<le> length xr" "n + 1 \<le> length m" "n \<le> length xr"
    using assms(1,3) lx by simp_all
  have v: "bn_val r2 = bn_val xr mod M" and l: "length r2 = BN_LIMBS + 1"
    unfolding r2 xr_def [symmetric]
    by (rule bn_mod_val [OF tx c(1) assms(1) c(2,3) M(1,2) double_le [OF M(3)]])+
  have "bn_val r2 < 2 ^ (32 * n)" unfolding v using mod_less_divisor [OF M(2)] M(3) by (rule less_trans)
  then show "bn_val (take n r2) = 2 ^ (32 * (2 * n)) mod M"
    using bn_val_take_small(1) [of r2 n] v vx l assms(1) by simp
  show "length r2 = BN_LIMBS + 1" by (rule l)
qed

lemma mont_power:
  assumes n: "n \<le> length m" "0 < n" "n \<le> BN_LIMBS" and np: "m ! 0 * np = - 1"
    and M: "M = bn_val (take n m)" "odd M"
    and r2: "bn_val (take n r2) = 2 ^ (32 * (2 * n)) mod M" "n \<le> length r2"
    and b: "n \<le> length b" and e: "length e = BN_LIMBS"
    and one: "one = (bn_zero BN_LIMBS)[0 := 1]"
    and r: "r = bn_mont_mul
      (pow_loop (bn_bitlen e BN_LIMBS) e (bn_mont_mul b r2 m n np) m n np (bn_mont_mul one r2 m n np))
      one m n np"
  shows "bn_val r = bn_val (take n b) ^ bn_val e mod M" "length r = n"
proof -
  have one: "bn_val (take n one) = 1" "n \<le> length one"
    using bn_val_unit [of 0 n BN_LIMBS] n by (simp_all add: one)
  have far: "mont_form m n (bn_mont_mul b r2 m n np) (bn_val (take n b))"
    by (rule mont_form_enter [OF b r2(2) n(1,2) np M r2(1)])
  have fr0: "mont_form m n (bn_mont_mul one r2 m n np) 1"
    unfolding one(1) [symmetric] by (rule mont_form_enter [OF one(2) r2(2) n(1,2) np M r2(1)])
  have bl: "bn_val e < 2 ^ bn_bitlen e BN_LIMBS" "bn_bitlen e BN_LIMBS \<le> 32 * length e"
    using bn_bitlen_bound [of BN_LIMBS e] e by simp_all
  have fr1: "mont_form m n (pow_loop (bn_bitlen e BN_LIMBS) e (bn_mont_mul b r2 m n np) m n np
      (bn_mont_mul one r2 m n np)) (bn_val (take n b) ^ bn_val e)"
    by (rule pow_loop_form [OF far n(1,2) np _ _ bl(2)]) (use M bl(1) fr0 in simp_all)
  show "bn_val r = bn_val (take n b) ^ bn_val e mod M" "length r = n"
    unfolding r by (rule mont_form_leave [OF fr1 one(2) n(1,2) np M one(1)])+
qed

lemma tls_modpow_base_used:
  assumes len: "length modulus \<le> TLS_RSA_MAX_MODULUS" "length base < 2 ^ 29" "length exp < 2 ^ 29"
    and odd: "odd (be_val modulus)" and junk: "junk = 0 \<or> mod_limbs modulus < BN_LIMBS"
  shows "be_val (tls_modpow junk base exp modulus) =
      base_used base modulus ^ (be_val exp mod 2 ^ (32 * BN_LIMBS)) mod be_val modulus"
    and "length (tls_modpow junk base exp modulus) = length modulus"
proof -
  define M where "M = be_val modulus"
  define m where "m = bn_from_bytes BN_LIMBS modulus @ [junk]"
  define n where "n = mod_limbs modulus"
  define np where "np = bn_mprime (m ! 0)"
  define e where "e = bn_from_bytes BN_LIMBS exp"
  define b where "b = bn_from_bytes BN_LIMBS base"
  define b' where "b' = (if bn_cmp b m n \<ge> 0 then take BN_LIMBS (bn_mod b BN_LIMBS m n) else b)"
  define r2 where "r2 = bn_mod ((bn_zero (2 * BN_LIMBS + 2))[2 * n := 1]) (2 * n + 1) m n"
  define one where "one = (bn_zero BN_LIMBS)[0 := 1 :: u32]"
  define r where "r = bn_mont_mul
      (pow_loop (bn_bitlen e BN_LIMBS) e (bn_mont_mul b' r2 m n np) m n np (bn_mont_mul one r2 m n np))
      one m n np"
  define X where "X = base_used base modulus"
  note ml = modulus_limbs [OF len(1) odd junk m_def n_def, folded M_def]
  have lm: "length m = BN_LIMBS + 1" "n \<le> length m" using ml(2) by (simp_all add: m_def)
  have oM: "odd M" and M0: "0 < M" using odd by (auto simp: M_def intro: gr0I)
  have np: "m ! 0 * np = - 1" unfolding np_def by (rule bn_mprime_inverse [OF ml(6)])
  have nz: "\<not> (n = 0 \<or> m ! 0 AND 1 = 0)" using ml(1,6) by (simp add: and_one_eq odd_iff_mod_2_eq_one)
  have eq: "tls_modpow junk base exp modulus = bn_to_bytes r n (length modulus)"
    using len(1) nz ml(3) unfolding r_def one_def r2_def b'_def b_def e_def np_def m_def
    by (simp add: tls_modpow_def Let_def min_absorb1)
  have b': "length b' = BN_LIMBS" "bn_val (take n b') = X mod M"
    using reduced_base [OF len(2) ml(2) lm(1) ml(4,5) M0 ml(7) b_def b'_def]
    by (simp_all add: X_def base_used_def n_def M_def)
  have e: "bn_val e = be_val exp mod 2 ^ (32 * BN_LIMBS)" "length e = BN_LIMBS"
    unfolding e_def by (rule bn_from_bytes_val [OF len(3)]) simp
  note r2 = r2_val [OF ml(2) lm(2,1) ml(5) [symmetric] M0 ml(7) r2_def]
  have lens: "n \<le> length r2" "n \<le> length b'" using ml(2) r2(2) b'(1) by simp_all
  note r = mont_power [OF lm(2) ml(1,2) np ml(4) [symmetric] oM r2(1) lens e(2) one_def r_def]
  have lt: "M < 2 ^ (8 * length modulus)" unfolding M_def by (rule be_val_less)
  have "bn_val r < M" unfolding r(1) using M0 by simp
  then have "be_val (bn_to_bytes r n (length modulus)) = bn_val r"
    using bn_to_bytes_val [of "length modulus" n r] lt r(2) len(1) by (simp add: TLS_RSA_MAX_MODULUS_def)
  then show "be_val (tls_modpow junk base exp modulus) =
      base_used base modulus ^ (be_val exp mod 2 ^ (32 * BN_LIMBS)) mod be_val modulus"
    unfolding eq r(1) e(1) b'(2) M_def [symmetric] X_def [symmetric] by (simp add: power_mod)
  show "length (tls_modpow junk base exp modulus) = length modulus"
    unfolding eq by (simp add: bn_to_bytes_def)
qed


lemma base_used_fits:
  assumes "be_val base < 2 ^ (32 * mod_limbs modulus)"
  shows "base_used base modulus = be_val base"
proof -
  have "2 ^ (32 * mod_limbs modulus) \<le> (2 :: nat) ^ (32 * BN_LIMBS)"
    using bn_used_le by (intro power_increasing) (simp_all add: mod_limbs_def)
  with assms have "be_val base < 2 ^ (32 * BN_LIMBS)" by (rule less_le_trans)
  with assms show ?thesis by (simp add: base_used_def Let_def)
qed

lemma be_val_less_limbs:
  assumes "length modulus \<le> TLS_RSA_MAX_MODULUS"
  shows "be_val modulus < 2 ^ (32 * mod_limbs modulus)"
    and "8 * length modulus \<le> 32 * k \<Longrightarrow> mod_limbs modulus \<le> k"
proof -
  let ?a = "bn_from_bytes BN_LIMBS modulus"
  have len: "length modulus < 2 ^ 29" "8 * length modulus \<le> 32 * BN_LIMBS"
    using assms by (simp_all add: TLS_RSA_MAX_MODULUS_def BN_LIMBS_def)
  have "be_val modulus < 2 ^ (8 * length modulus)" by (rule be_val_less)
  also have "\<dots> \<le> 2 ^ (32 * BN_LIMBS)" using len(2) by (intro power_increasing) simp_all
  finally have a: "bn_val ?a = be_val modulus" using bn_from_bytes_val [OF len(1)] by simp
  then have v: "bn_val (take (mod_limbs modulus) ?a) = be_val modulus"
    unfolding mod_limbs_def using bn_used_val [of BN_LIMBS ?a] by simp
  then show "be_val modulus < 2 ^ (32 * mod_limbs modulus)"
    using bn_val_take_less [of "mod_limbs modulus" ?a] bn_used_le [of ?a BN_LIMBS]
    by (simp add: mod_limbs_def)
  show "mod_limbs modulus \<le> k" if "8 * length modulus \<le> 32 * k"
  proof (rule ccontr)
    assume "\<not> mod_limbs modulus \<le> k"
    then have "2 ^ (32 * k) \<le> (2 :: nat) ^ (32 * (mod_limbs modulus - 1))"
      by (intro power_increasing) simp_all
    also have "\<dots> \<le> be_val modulus"
      using bn_used_lower [of BN_LIMBS ?a] a \<open>\<not> mod_limbs modulus \<le> k\<close> by (simp add: mod_limbs_def)
    also have "\<dots> < 2 ^ (8 * length modulus)" by (rule be_val_less)
    also have "\<dots> \<le> 2 ^ (32 * k)" using that by (intro power_increasing) simp_all
    finally show False by simp
  qed
qed

lemma exponent_fits:
  assumes "length exp \<le> TLS_RSA_MAX_MODULUS"
  shows "be_val exp mod 2 ^ (32 * BN_LIMBS) = be_val exp"
proof -
  have "be_val exp < 2 ^ (8 * length exp)" by (rule be_val_less)
  also have "\<dots> \<le> 2 ^ (32 * BN_LIMBS)"
    using assms by (intro power_increasing) (simp_all add: TLS_RSA_MAX_MODULUS_def BN_LIMBS_def)
  finally show ?thesis by simp
qed

text \<open>
  C5. Modular exponentiation.  For an odd modulus of at most 512 bytes, \<^verbatim>\<open>tls_modpow\<close> (Newton inverse,
  binary reduction of R squared, Montgomery products, square and multiply, limb and byte
  conversions) writes, in as many bytes as the modulus has, the big-endian bytes of
  \<open>base ^ exp mod modulus\<close> when the base fits the limbs of the modulus and the exponent has at most
  512 bytes.  In general it computes with the exponent modulo \<open>2 ^ 4096\<close> and with \<open>base_used\<close> in the
  place of the base: the low limbs of the base, as many as the modulus has, when they are below the
  modulus, whatever stands above them.  A modulus of all 128 limbs needs the limb above it, which
  the source leaves uninitialised, to be zero; base and exponent are shorter than \<open>2 ^ 29\<close> bytes.
\<close>

theorem tls_modpow_correct:
  assumes "length modulus \<le> TLS_RSA_MAX_MODULUS" "odd (be_val modulus)"
    and "junk = 0 \<or> mod_limbs modulus < BN_LIMBS" "length base < 2 ^ 29" "length exp < 2 ^ 29"
  shows "length (tls_modpow junk base exp modulus) = length modulus \<and>
    be_val (tls_modpow junk base exp modulus) =
      base_used base modulus ^ (be_val exp mod 2 ^ 4096) mod be_val modulus \<and>
    (be_val base < 2 ^ (32 * mod_limbs modulus) \<and> length exp \<le> TLS_RSA_MAX_MODULUS \<longrightarrow>
       be_val (tls_modpow junk base exp modulus) = be_val base ^ be_val exp mod be_val modulus)"
proof -
  have B: "2 ^ (32 * BN_LIMBS) = (2 :: nat) ^ 4096" by (simp add: BN_LIMBS_def TLS_RSA_MAX_MODULUS_def)
  note T = tls_modpow_base_used [OF assms(1,4,5,2,3)]
  have "be_val (tls_modpow junk base exp modulus) = be_val base ^ be_val exp mod be_val modulus"
    if "be_val base < 2 ^ (32 * mod_limbs modulus)" "length exp \<le> TLS_RSA_MAX_MODULUS"
    unfolding T(1) base_used_fits [OF that(1)] exponent_fits [OF that(2)] by (rule refl)
  then show ?thesis using T(2) T(1) [unfolded B] by blast
qed

theorem tls_modpow_correct_witness:
  "be_val (tls_modpow 7 [0x12, 0x34, 0x56] [5] [0x01, 0x00, 0x01, 0x35]) =
     0x123456 ^ 5 mod 0x1000135"
proof -
  have m: "be_val [0x01, 0x00, 0x01, 0x35] = 0x1000135" "length [0x01, 0x00, 0x01, 0x35 :: u8] \<le> TLS_RSA_MAX_MODULUS"
    by (simp_all add: TLS_RSA_MAX_MODULUS_def)
  have b: "be_val [0x12, 0x34, 0x56] < 2 ^ (32 * mod_limbs [0x01, 0x00, 0x01, 0x35])"
    using be_val_less_limbs(1) [OF m(2)] unfolding m(1) by simp
  have l: "mod_limbs [0x01, 0x00, 0x01, 0x35] < BN_LIMBS"
    using be_val_less_limbs(2) [OF m(2), of 1] by (simp add: BN_LIMBS_def TLS_RSA_MAX_MODULUS_def)
  show ?thesis
    using tls_modpow_correct [of "[0x01, 0x00, 0x01, 0x35]" 7 "[0x12, 0x34, 0x56]" "[5]"] b l m
    by (simp add: TLS_RSA_MAX_MODULUS_def)
qed

end
