(* ===== verification/Tls_Rsa.thy ===== *)
theory Tls_Rsa
  imports Tls_Bn
begin

text \<open>
  RSA with PKCS#1 v1.5 type 2 blocks, the last part of \<^verbatim>\<open>vlibc/src/tls/tls_bn.c\<close>: the block
  \<^verbatim>\<open>00 02 PS 00 M\<close>, its exponentiation with the public exponent 65537, and the private-key
  operation that strips the padding again.  An error return of \<^verbatim>\<open>-1\<close> is \<open>None\<close>; otherwise the
  result is the list of the bytes written to \<^verbatim>\<open>out\<close>.
\<close>

section \<open>RSA with PKCS#1 v1.5 blocks\<close>

definition pad_byte :: "nat \<Rightarrow> u8" where
  "pad_byte i = ucast (1 + ((of_nat i * 37 + 11) AND 0xFE) :: u32)"

definition tls_rsa_encrypt_pkcs1 :: "u32 \<Rightarrow> u8 list \<Rightarrow> u8 list \<Rightarrow> u8 list option" where
  "tls_rsa_encrypt_pkcs1 junk n m =
     (let nlen = length n; mlen = length m
      in if nlen > TLS_RSA_MAX_MODULUS \<or> nlen < 12 then None
         else if mlen > nlen - 11 then None
         else
           let pslen = nlen - mlen - 3;
               block = [0, 2] @ map pad_byte [0..<pslen] @ [0] @ m
           in Some (tls_modpow junk block [1, 0, 1] n))"

fun skip_nonzero :: "u8 list \<Rightarrow> nat \<Rightarrow> nat \<Rightarrow> nat" where
  "skip_nonzero block 0 i = i"
| "skip_nonzero block (Suc k) i = (if block ! i \<noteq> 0 then skip_nonzero block k (Suc i) else i)"

definition tls_rsa_decrypt_pkcs1 :: "u32 \<Rightarrow> u8 list \<Rightarrow> u8 list \<Rightarrow> u8 list \<Rightarrow> u8 list option" where
  "tls_rsa_decrypt_pkcs1 junk n d inp =
     (let nlen = length n
      in if nlen > TLS_RSA_MAX_MODULUS \<or> nlen < 12 then None
         else
           let block = tls_modpow junk (take nlen inp) d n
           in if block ! 0 \<noteq> 0 \<or> block ! 1 \<noteq> 2 then None
              else
                let i = skip_nonzero block (nlen - 2) 2
                in if i = nlen \<or> i - 2 < 8 then None
                   else
                     let i = i + 1; mlen = nlen - i
                     in if mlen \<le> 0 then None else Some (take mlen (drop i block)))"

section \<open>The PKCS#1 block and the RSA round trip\<close>

lemma digits_unique:
  assumes "a < p" "b < p" "a + p * x = b + p * y"
  shows "a = b \<and> x = (y :: nat)"
proof -
  have "(a + p * x) mod p = (b + p * y) mod p" "(a + p * x) div p = (b + p * y) div p"
    using assms(3) by simp_all
  with assms(1,2) show ?thesis by simp
qed

lemma be_val_inj: "length a = length b \<Longrightarrow> be_val a = be_val b \<Longrightarrow> a = b"
proof (induction a b rule: list_induct2)
  case (Cons x a y b)
  have "be_val a + 2 ^ (8 * length a) * unat x = be_val b + 2 ^ (8 * length a) * unat y"
    using Cons.prems Cons.hyps by simp
  moreover have "be_val a < 2 ^ (8 * length a)" "be_val b < 2 ^ (8 * length a)"
    using be_val_less [of a] be_val_less [of b] Cons.hyps by simp_all
  ultimately have "be_val a = be_val b" "unat x = unat y"
    using digits_unique [of "be_val a" "2 ^ (8 * length a)" "be_val b"] by simp_all
  then show ?case using Cons.IH by (simp add: word_unat_eq_iff)
qed simp

lemma pad_byte_nonzero: "pad_byte i \<noteq> 0"
proof -
  have "odd (1 + ((of_nat i * 37 + 11) AND 0xFE) :: u32)" by (simp add: even_and_iff)
  then have "bit (1 + ((of_nat i * 37 + 11) AND 0xFE) :: u32) 0" by (simp add: bit_0)
  then have "bit (pad_byte i) 0" unfolding pad_byte_def by (simp add: bit_ucast_iff)
  then show ?thesis by auto
qed

lemma skip_nonzero_stop:
  assumes "\<And>t. t < j \<Longrightarrow> block ! (i + t) \<noteq> 0" "j < k" "block ! (i + j) = 0"
  shows "skip_nonzero block k i = i + j"
  using assms
proof (induction k arbitrary: i j)
  case (Suc k)
  show ?case
  proof (cases j)
    case 0
    then show ?thesis using Suc.prems(3) by simp
  next
    case (Suc j')
    have "block ! i \<noteq> 0" using Suc.prems(1) [of 0] Suc by simp
    moreover have "skip_nonzero block k (Suc i) = Suc i + j'"
    proof (rule Suc.IH)
      show "block ! (Suc i + t) \<noteq> 0" if "t < j'" for t
        using Suc.prems(1) [of "Suc t"] that Suc by simp
    qed (use Suc.prems Suc in simp_all)
    ultimately show ?thesis using Suc by simp
  qed
qed simp

definition pkcs1_block :: "nat \<Rightarrow> u8 list \<Rightarrow> u8 list" where
  "pkcs1_block nlen m = [0, 2] @ map pad_byte [0..<nlen - length m - 3] @ [0] @ m"

lemma pkcs1_block_less:
  assumes "12 \<le> length n" "length m \<le> length n - 11" "n ! 0 \<noteq> 0"
  shows "length (pkcs1_block (length n) m) = length n" "be_val (pkcs1_block (length n) m) < be_val n"
proof -
  let ?b = "pkcs1_block (length n) m" and ?k = "length n - 2"
  show len: "length ?b = length n" using assms(1,2) by (simp add: pkcs1_block_def)
  define t where "t = map pad_byte [0..<length n - length m - 3] @ [0] @ m"
  have b: "?b = 0 # 2 # t" by (simp add: pkcs1_block_def t_def)
  have "be_val t < 2 ^ (8 * length t)" by (rule be_val_less)
  then have "be_val ?b < 2 ^ (8 * length t) * 256" by (simp add: b)
  also have "\<dots> = 2 ^ (8 * Suc (length t))" by (simp add: power_add)
  also have "Suc (length t) = length n - 1" using len b by simp
  also have "2 ^ (8 * (length n - 1)) \<le> be_val n"
  proof -
    obtain x xs where n: "n = x # xs" using assms(1) by (cases n) auto
    then have "1 \<le> unat x" using assms(3) by (simp add: Suc_le_eq unat_gt_0)
    then show ?thesis by (simp add: n trans_le_add2)
  qed
  finally show "be_val ?b < be_val n" .
qed

lemma pkcs1_unpad:
  assumes "12 \<le> nlen" "length m \<le> nlen - 11" "m \<noteq> []"
    and block: "block = pkcs1_block nlen m"
  shows "block ! 0 = 0" "block ! 1 = 2" "skip_nonzero block (nlen - 2) 2 = nlen - length m - 1"
    "take (length m) (drop (nlen - length m) block) = m"
proof -
  let ?p = "nlen - length m - 3"
  show "block ! 0 = 0" "block ! 1 = 2" by (simp_all add: block pkcs1_block_def)
  have "skip_nonzero block (nlen - 2) 2 = 2 + ?p"
  proof (rule skip_nonzero_stop)
    show "block ! (2 + t) \<noteq> 0" if "t < ?p" for t
      using that pad_byte_nonzero by (simp add: block pkcs1_block_def nth_append)
    show "?p < nlen - 2" "block ! (2 + ?p) = 0"
      using assms(1,2) by (simp_all add: block pkcs1_block_def nth_append)
  qed
  then show "skip_nonzero block (nlen - 2) 2 = nlen - length m - 1" using assms(1,2) by simp
  have "nlen - length m = Suc (Suc (Suc ?p))" using assms(1,2) by simp
  then show "take (length m) (drop (nlen - length m) block) = m"
    by (simp add: block pkcs1_block_def)
qed

text \<open>
  C6. RSA round trip.  With an odd modulus of 12 to 512 bytes whose first byte is not zero and a
  private exponent of at most 512 bytes that inverts the public exponent 65537,
  \<^verbatim>\<open>tls_rsa_decrypt_pkcs1\<close> recovers every non-empty message that \<^verbatim>\<open>tls_rsa_encrypt_pkcs1\<close> accepts, byte
  for byte.  For a modulus below \<open>2 ^ 4064\<close> this holds whatever the stack holds; a longer one, of 128
  limbs, needs the uninitialised limb above the modulus to be zero in both calls of \<^verbatim>\<open>tls_modpow\<close>.
\<close>

theorem rsa_pkcs1_roundtrip:
  assumes "12 \<le> length n" "length n \<le> TLS_RSA_MAX_MODULUS" "n ! 0 \<noteq> 0" "odd (be_val n)"
    and "length d \<le> TLS_RSA_MAX_MODULUS"
    and key: "\<forall>x < be_val n. (x ^ 65537) ^ be_val d mod be_val n = x"
    and junk: "junk = 0 \<or> mod_limbs n < BN_LIMBS" "junk' = 0 \<or> mod_limbs n < BN_LIMBS"
    and m: "m \<noteq> []" "length m \<le> length n - 11"
  shows "Option.bind (tls_rsa_encrypt_pkcs1 junk n m) (tls_rsa_decrypt_pkcs1 junk' n d) = Some m"
proof -
  define b where "b = pkcs1_block (length n) m"
  define c where "c = tls_modpow junk b [1, 0, 1] n"
  define b' where "b' = tls_modpow junk' c d n"
  note bn = pkcs1_block_less [OF assms(1) m(2) assms(3), folded b_def]
  note lt = be_val_less_limbs(1) [OF assms(2)]
  have small: "length n < 2 ^ 29" "length [1, 0, 1 :: u8] < 2 ^ 29" "length d < 2 ^ 29"
    using assms(2,5) by (simp_all add: TLS_RSA_MAX_MODULUS_def)
  have e: "be_val [1, 0, 1] mod 2 ^ (32 * BN_LIMBS) = 65537"
    using exponent_fits [of "[1, 0, 1]"] by (simp add: TLS_RSA_MAX_MODULUS_def)
  have bu: "base_used b n = be_val b" using bn(2) lt by (intro base_used_fits) (rule less_trans)
  have c: "be_val c = be_val b ^ 65537 mod be_val n" "length c = length n"
    using tls_modpow_base_used [OF assms(2) _ small(2) assms(4) junk(1), of b] bn(1) small(1) bu e
    by (simp_all add: c_def)
  have "be_val c < be_val n" unfolding c(1) using bn(2) by (intro mod_less_divisor) simp
  then have cu: "base_used c n = be_val c" using lt by (intro base_used_fits) (rule less_trans)
  have "be_val b' = be_val c ^ be_val d mod be_val n" and lb': "length b' = length n"
    using tls_modpow_base_used [OF assms(2) _ small(3) assms(4) junk(2), of c] c(2) small(1) cu
      exponent_fits [OF assms(5)] by (simp_all add: b'_def)
  then have "be_val b' = be_val b" unfolding c(1) using key bn(2) by (simp add: power_mod)
  then have b': "b' = pkcs1_block (length n) m" using lb' bn(1) by (simp add: be_val_inj b_def)
  note un = pkcs1_unpad [OF assms(1) m(2,1) b']
  have enc: "tls_rsa_encrypt_pkcs1 junk n m = Some c"
    using assms(1,2) m(2) by (simp add: tls_rsa_encrypt_pkcs1_def Let_def c_def b_def pkcs1_block_def)
  have "0 < length m" using m(1) by simp
  then have ar: "\<not> length n \<le> length n - length m" "length n - Suc (length m) \<noteq> length n"
    "\<not> length n - Suc (Suc (Suc (length m))) < 8" using assms(1) m(2) by linarith+
  have "tls_rsa_decrypt_pkcs1 junk' n d c = Some m"
    using assms(1,2) m un c(2) ar
    by (simp add: tls_rsa_decrypt_pkcs1_def Let_def b'_def [symmetric] Suc_diff_Suc)
  with enc show ?thesis by simp
qed


text \<open>
  A key for the witness: a product of small odd primes, with the little theorem of Fermat for
  each of them.
\<close>

definition small_prime :: "nat \<Rightarrow> bool" where
  "small_prime p \<longleftrightarrow> 1 < p \<and> list_all (\<lambda>k. gcd p k = 1) [2..<p]"

lemma prime_dvd_choose:
  assumes "small_prime p" "0 < k" "k < p"
  shows "p dvd (p choose k)"
proof -
  obtain j where k: "k = Suc j" using assms(2) gr0_implies_Suc by blast
  have "coprime p k"
  proof (cases "k = 1")
    case False
    then have "k \<in> set [2..<p]" using assms(2,3) by simp
    then show ?thesis
      using assms(1) by (simp only: small_prime_def list_all_iff coprime_iff_gcd_eq_1)
  qed simp
  moreover have "p dvd k * (p choose k)" unfolding k binomial_absorption by simp
  ultimately show ?thesis by (simp add: coprime_dvd_mult_right_iff)
qed

lemma fermat_small:
  assumes "small_prime p"
  shows "x ^ p mod p = x mod p"
proof (induction x)
  case 0
  then show ?case using assms by (auto simp: small_prime_def power_0_left)
next
  case (Suc x)
  have p: "1 < p" using assms by (simp add: small_prime_def)
  let ?f = "\<lambda>k. (p choose k) * x ^ k"
  have "Suc x ^ p = (x + 1) ^ p" by simp
  also have "\<dots> = (\<Sum>k\<le>p. ?f k)" by (subst binomial_ring) simp
  also have "{..p} = insert 0 (insert p {1..<p})" using p by auto
  also have "sum ?f \<dots> = 1 + x ^ p + sum ?f {1..<p}" using p by simp
  finally have eq: "Suc x ^ p = Suc (x ^ p) + sum ?f {1..<p}" by simp
  have "p dvd sum ?f {1..<p}"
    using prime_dvd_choose [OF assms] by (intro dvd_sum) simp
  then have "Suc x ^ p mod p = Suc (x ^ p) mod p"
    unfolding eq by (metis add_cancel_right_right dvd_imp_mod_0 mod_add_right_eq)
  also have "\<dots> = Suc x mod p" using Suc by (metis mod_Suc_eq)
  finally show ?case .
qed

lemma power_residue:
  assumes "small_prime p"
  shows "x ^ Suc ((p - 1) * i) mod p = x mod p"
proof (induction i)
  case (Suc i)
  have p: "1 < p" using assms by (simp add: small_prime_def)
  have "x ^ Suc ((p - 1) * Suc i) = x ^ (p - 1) * x ^ Suc ((p - 1) * i)" by (simp add: power_add)
  then have "x ^ Suc ((p - 1) * Suc i) mod p = x ^ (p - 1) * x mod p"
    using Suc by (metis mod_mult_right_eq)
  also have "x ^ (p - 1) * x = x ^ p" using p by (intro power_minus_mult) simp
  finally show ?case using fermat_small [OF assms] by simp
qed simp

fun coprime_list :: "nat list \<Rightarrow> bool" where
  "coprime_list [] = True"
| "coprime_list (p # ps) = (gcd p (prod_list ps) = 1 \<and> coprime_list ps)"

lemma prod_list_mod:
  assumes "\<forall>p \<in> set ps. x mod p = y mod p" "coprime_list ps"
  shows "x mod prod_list ps = y mod prod_list ps"
proof -
  have "int (prod_list ps) dvd int x - int y" using assms
  proof (induction ps)
    case (Cons p ps)
    have "int x mod int p = int y mod int p" using Cons.prems(1) by (simp add: of_nat_mod [symmetric])
    then have "int p dvd int x - int y" by (simp only: mod_eq_dvd_iff)
    moreover have "int (prod_list ps) dvd int x - int y" using Cons by simp
    moreover have "coprime (int p) (int (prod_list ps))"
      using Cons.prems(2) by (simp add: coprime_iff_gcd_eq_1)
    ultimately show ?case by (simp add: divides_mult)
  qed simp
  then have "int x mod int (prod_list ps) = int y mod int (prod_list ps)"
    by (simp only: mod_eq_dvd_iff)
  then show ?thesis by (simp only: of_nat_mod [symmetric] of_nat_eq_iff)
qed

definition demo_primes :: "nat list" where
  "demo_primes = [3, 5, 7, 11, 13, 17, 19, 23, 29, 31, 37, 41, 43, 47, 53, 59, 61, 67, 71, 73]"

lemma demo_primes_small: "\<forall>p \<in> set demo_primes. small_prime p \<and> (p - 1) dvd 26629016974560"
  unfolding list_all_iff [symmetric] by (simp add: demo_primes_def small_prime_def gcd_non_0_nat)

lemma demo_primes_coprime: "coprime_list demo_primes"
  by (simp add: demo_primes_def gcd_non_0_nat)

lemma demo_key:
  "\<forall>x < 20364840299624512075310661735.
     (x ^ 65537) ^ 406320353 mod 20364840299624512075310661735 = (x :: nat)"
proof (intro allI impI)
  fix x :: nat
  assume x: "x < 20364840299624512075310661735"
  define j :: nat where "j = 26629016974560"
  have prod: "prod_list demo_primes = 20364840299624512075310661735" by (simp add: demo_primes_def)
  have K: "(65537 :: nat) * 406320353 = Suc j" by (simp add: j_def)
  have "x ^ Suc j mod p = x mod p" if "p \<in> set demo_primes" for p
    using demo_primes_small that power_residue [of p x] unfolding j_def [symmetric] by (auto elim!: dvdE)
  then have "x ^ Suc j mod prod_list demo_primes = x mod prod_list demo_primes"
    using demo_primes_coprime by (intro prod_list_mod) simp
  then show "(x ^ 65537) ^ 406320353 mod 20364840299624512075310661735 = x"
    unfolding power_mult [symmetric] K prod using x by (simp only: mod_less)
qed

definition demo_modulus :: "u8 list" where
  "demo_modulus = [0x41, 0xcd, 0x66, 0xac, 0xc2, 0x37, 0xb2, 0x26, 0x81, 0xa1, 0x80, 0x67]"

lemma demo_modulus_facts:
  "be_val demo_modulus = 20364840299624512075310661735" "length demo_modulus = 12"
  "demo_modulus ! 0 \<noteq> 0" "mod_limbs demo_modulus < BN_LIMBS"
proof -
  show "be_val demo_modulus = 20364840299624512075310661735" "length demo_modulus = 12"
    "demo_modulus ! 0 \<noteq> 0"
    by (simp_all add: demo_modulus_def)
  have "mod_limbs demo_modulus \<le> 3"
    by (rule be_val_less_limbs(2)) (simp_all add: demo_modulus_def TLS_RSA_MAX_MODULUS_def)
  then show "mod_limbs demo_modulus < BN_LIMBS" by (simp add: BN_LIMBS_def TLS_RSA_MAX_MODULUS_def)
qed

theorem rsa_pkcs1_roundtrip_witness:
  "Option.bind (tls_rsa_encrypt_pkcs1 9 demo_modulus [0xAB])
     (tls_rsa_decrypt_pkcs1 5 demo_modulus [0x18, 0x37, 0xf4, 0xe1]) = Some [0xAB]"
proof (rule rsa_pkcs1_roundtrip)
  have "be_val [0x18, 0x37, 0xf4, 0xe1] = 406320353" by simp
  then show "\<forall>x < be_val demo_modulus.
      (x ^ 65537) ^ be_val [0x18, 0x37, 0xf4, 0xe1] mod be_val demo_modulus = x"
    using demo_key by (simp only: demo_modulus_facts(1))
qed (simp_all add: demo_modulus_facts TLS_RSA_MAX_MODULUS_def)

end
