(* ===== verification/Tls_Hash.thy ===== *)
theory Tls_Hash
  imports Prelude
begin

text \<open>
  The hash half of \<^verbatim>\<open>vlibc/src/tls/tls_crypto.c\<close>: incremental SHA-256, HMAC-SHA-256 and the TLS 1.2
  pseudo-random function.  The context record has the fields of \<^verbatim>\<open>tls_sha256_ctx\<close>; a message
  pointer with its length is the list of its bytes.
\<close>

section \<open>SHA-256\<close>

text \<open>The round constants, in the rows of the source.\<close>

definition SHA_K :: "u32 list" where
  "SHA_K = concat [
    [0x428a2f98, 0x71374491, 0xb5c0fbcf, 0xe9b5dba5, 0x3956c25b],
    [0x59f111f1, 0x923f82a4, 0xab1c5ed5, 0xd807aa98, 0x12835b01],
    [0x243185be, 0x550c7dc3, 0x72be5d74, 0x80deb1fe, 0x9bdc06a7],
    [0xc19bf174, 0xe49b69c1, 0xefbe4786, 0x0fc19dc6, 0x240ca1cc],
    [0x2de92c6f, 0x4a7484aa, 0x5cb0a9dc, 0x76f988da, 0x983e5152],
    [0xa831c66d, 0xb00327c8, 0xbf597fc7, 0xc6e00bf3, 0xd5a79147],
    [0x06ca6351, 0x14292967, 0x27b70a85, 0x2e1b2138, 0x4d2c6dfc],
    [0x53380d13, 0x650a7354, 0x766a0abb, 0x81c2c92e, 0x92722c85],
    [0xa2bfe8a1, 0xa81a664b, 0xc24b8b70, 0xc76c51a3, 0xd192e819],
    [0xd6990624, 0xf40e3585, 0x106aa070, 0x19a4c116, 0x1e376c08],
    [0x2748774c, 0x34b0bcb5, 0x391c0cb3, 0x4ed8aa4a, 0x5b9cca4f],
    [0x682e6ff3, 0x748f82ee, 0x78a5636f, 0x84c87814, 0x8cc70208],
    [0x90befffa, 0xa4506ceb, 0xbef9a3f7, 0xc67178f2]]"

definition rotr32 :: "u32 \<Rightarrow> nat \<Rightarrow> u32" where
  "rotr32 x n = drop_bit n x OR push_bit (32 - n) x"

definition be32_load :: "u8 list \<Rightarrow> nat \<Rightarrow> u32" where
  "be32_load p i = push_bit 24 (ucast (p ! i)) OR push_bit 16 (ucast (p ! (i + 1)))
     OR push_bit 8 (ucast (p ! (i + 2))) OR ucast (p ! (i + 3))"

definition be32_store :: "u32 \<Rightarrow> u8 list" where
  "be32_store v = [ucast (drop_bit 24 v), ucast (drop_bit 16 v), ucast (drop_bit 8 v), ucast v]"

record tls_sha256_ctx =
  sha_h :: "u32 list"
  sha_bits :: u64
  sha_buf :: "u8 list"
  sha_buflen :: u32

text \<open>The message schedule: one more word from the sixteen before it.\<close>

definition sched_word :: "u32 list \<Rightarrow> nat \<Rightarrow> u32" where
  "sched_word w i =
     (let s0 = rotr32 (w ! (i - 15)) 7 XOR rotr32 (w ! (i - 15)) 18 XOR drop_bit 3 (w ! (i - 15));
          s1 = rotr32 (w ! (i - 2)) 17 XOR rotr32 (w ! (i - 2)) 19 XOR drop_bit 10 (w ! (i - 2))
      in w ! (i - 16) + s0 + w ! (i - 7) + s1)"

definition sha_schedule :: "u8 list \<Rightarrow> u32 list" where
  "sha_schedule p =
     fold (\<lambda>i w. w @ [sched_word w i]) [16..<64] (map (\<lambda>i. be32_load p (4 * i)) [0..<16])"

type_synonym sha_vars = "u32 \<times> u32 \<times> u32 \<times> u32 \<times> u32 \<times> u32 \<times> u32 \<times> u32"

definition sha_round :: "u32 list \<Rightarrow> nat \<Rightarrow> sha_vars \<Rightarrow> sha_vars" where
  "sha_round w i s =
     (case s of (a, b, cc, d, e, f, g, h) \<Rightarrow>
        let S1 = rotr32 e 6 XOR rotr32 e 11 XOR rotr32 e 25;
            ch = (e AND f) XOR (NOT e AND g);
            S0 = rotr32 a 2 XOR rotr32 a 13 XOR rotr32 a 22;
            maj = (a AND b) XOR (a AND cc) XOR (b AND cc);
            t1 = h + S1 + ch + SHA_K ! i + w ! i;
            t2 = S0 + maj
        in (t1 + t2, a, b, cc, d + t1, e, f, g))"

definition sha_compress :: "u32 list \<Rightarrow> u8 list \<Rightarrow> u32 list" where
  "sha_compress h p =
     (let w = sha_schedule p
      in case fold (sha_round w) [0..<64]
                (h ! 0, h ! 1, h ! 2, h ! 3, h ! 4, h ! 5, h ! 6, h ! 7) of
        (a, b, cc, d, e, f, g, hh) \<Rightarrow>
          [h ! 0 + a, h ! 1 + b, h ! 2 + cc, h ! 3 + d, h ! 4 + e, h ! 5 + f, h ! 6 + g, h ! 7 + hh])"

definition sha256_block :: "tls_sha256_ctx \<Rightarrow> u8 list \<Rightarrow> tls_sha256_ctx" where
  "sha256_block c p = c\<lparr>sha_h := sha_compress (sha_h c) p\<rparr>"

text \<open>\<^verbatim>\<open>tls_sha256_init\<close> leaves \<^verbatim>\<open>buf\<close> as it finds it: the argument is the context before.\<close>

definition sha_h0 :: "u32 list" where
  "sha_h0 = [0x6a09e667, 0xbb67ae85, 0x3c6ef372, 0xa54ff53a,
             0x510e527f, 0x9b05688c, 0x1f83d9ab, 0x5be0cd19]"

definition tls_sha256_init :: "tls_sha256_ctx \<Rightarrow> tls_sha256_ctx" where
  "tls_sha256_init c = c\<lparr>sha_h := sha_h0, sha_bits := 0, sha_buflen := 0\<rparr>"

text \<open>
  One round of the copying loop.  The room left in the buffer is computed in \<^verbatim>\<open>size_t\<close>, which
  has 64 bits here.
\<close>

definition sha_take :: "tls_sha256_ctx \<Rightarrow> u8 list \<Rightarrow> nat" where
  "sha_take c m = min (unat (64 - ucast (sha_buflen c) :: u64)) (length m)"

definition sha_absorb :: "tls_sha256_ctx \<Rightarrow> u8 list \<Rightarrow> tls_sha256_ctx" where
  "sha_absorb c m =
     (let c = c\<lparr>sha_buf := overwrite (unat (sha_buflen c)) m (sha_buf c),
                sha_buflen := sha_buflen c + of_nat (length m)\<rparr>
      in if sha_buflen c = 64 then (sha256_block c (sha_buf c))\<lparr>sha_buflen := 0\<rparr> else c)"

lemma room_zero: "unat (64 - ucast (n :: u32) :: u64) = 0 \<Longrightarrow> n = 64"
proof -
  assume "unat (64 - ucast n :: u64) = 0"
  then have "ucast n = (64 :: u64)" by (simp add: unat_eq_0)
  then have "unat (ucast n :: u64) = 64" by simp
  then have "unat n = 64" by (simp add: unat_ucast_up)
  then show ?thesis by (simp add: word_unat_eq_iff)
qed

function update_loop :: "tls_sha256_ctx \<Rightarrow> u8 list \<Rightarrow> tls_sha256_ctx" where
  "update_loop c m =
     (if m = [] then c
      else update_loop (sha_absorb c (take (sha_take c m) m)) (drop (sha_take c m) m))"
  by pat_completeness auto
termination
proof (relation "measures [\<lambda>(c, m). length m, \<lambda>(c, m). if sha_buflen c = 64 then 1 else 0]", simp)
  fix c :: tls_sha256_ctx and m :: "u8 list"
  assume m: "m \<noteq> []"
  have "sha_buflen (sha_absorb c []) \<noteq> 64 \<and> sha_buflen c = 64" if "sha_take c m = 0"
  proof -
    have "unat (64 - ucast (sha_buflen c) :: u64) = 0" using that m by (auto simp: sha_take_def min_def split: if_splits)
    then have "sha_buflen c = 64" by (rule room_zero)
    then show ?thesis by (simp add: sha_absorb_def)
  qed
  then show "((sha_absorb c (take (sha_take c m) m), drop (sha_take c m) m), c, m)
      \<in> measures [\<lambda>(c, m). length m, \<lambda>(c, m). if sha_buflen c = 64 then 1 else 0]"
    using m by (cases "sha_take c m = 0") auto
qed

declare update_loop.simps [simp del]

definition tls_sha256_update :: "tls_sha256_ctx \<Rightarrow> u8 list \<Rightarrow> tls_sha256_ctx" where
  "tls_sha256_update c m = update_loop (c\<lparr>sha_bits := sha_bits c + of_nat (length m) * 8\<rparr>) m"

definition tls_sha256_final :: "tls_sha256_ctx \<Rightarrow> u8 list" where
  "tls_sha256_final c =
     (let bits = sha_bits c;
          zero_count = unat ((56 - (sha_buflen c + 1)) AND 63);
          c = tls_sha256_update c (take (zero_count + 1) (0x80 # replicate 63 0));
          bl = map (\<lambda>i. ucast (drop_bit (8 * (7 - i)) bits)) [0..<8];
          c = tls_sha256_update c bl
      in concat (map be32_store (take 8 (sha_h c))))"

text \<open>A context on the stack starts with whatever is there.\<close>

definition tls_sha256 :: "tls_sha256_ctx \<Rightarrow> u8 list \<Rightarrow> u8 list" where
  "tls_sha256 c m = tls_sha256_final (tls_sha256_update (tls_sha256_init c) m)"

section \<open>HMAC and the TLS pseudo-random function\<close>

definition hmac_key :: "tls_sha256_ctx \<Rightarrow> u8 list \<Rightarrow> u8 list" where
  "hmac_key c key =
     (if length key > 64 then overwrite 0 (tls_sha256 c key) (replicate 64 0)
      else if length key \<noteq> 0 then overwrite 0 key (replicate 64 0)
      else replicate 64 0)"

definition tls_hmac_sha256 :: "tls_sha256_ctx \<Rightarrow> u8 list \<Rightarrow> u8 list \<Rightarrow> u8 list" where
  "tls_hmac_sha256 c0 key msg =
     (let k = hmac_key c0 key;
          ipad = map (\<lambda>i. k ! i XOR 0x36) [0..<64];
          opad = map (\<lambda>i. k ! i XOR 0x5c) [0..<64];
          c = tls_sha256_init c0;
          c = tls_sha256_update c ipad;
          c = tls_sha256_update c msg;
          out = tls_sha256_final c;
          c = tls_sha256_init c;
          c = tls_sha256_update c opad;
          c = tls_sha256_update c out
      in tls_sha256_final c)"

text \<open>
  The loop of \<^verbatim>\<open>tls_prf\<close>: \<open>out\<close> is the caller's buffer, \<open>off\<close> the bytes already written.
\<close>

function prf_loop ::
    "tls_sha256_ctx \<Rightarrow> u8 list \<Rightarrow> u8 list \<Rightarrow> u8 list \<Rightarrow> nat \<Rightarrow> nat \<Rightarrow> u8 list \<Rightarrow> u8 list" where
  "prf_loop c secret seed a off out_len out =
     (if \<not> off < out_len then out
      else
        let n = (if out_len - off > 32 then 32 else out_len - off)
        in if length seed > 128 then out
           else
             let block = tls_hmac_sha256 c secret (a @ seed);
                 out = overwrite off (take n block) out;
                 a = tls_hmac_sha256 c secret a
             in prf_loop c secret seed a (off + n) out_len out)"
  by pat_completeness auto
termination
  by (relation "measure (\<lambda>(c, secret, seed, a, off, out_len, out). out_len - off)") auto

definition tls_prf :: "tls_sha256_ctx \<Rightarrow> u8 list \<Rightarrow> u8 list \<Rightarrow> u8 list \<Rightarrow> nat \<Rightarrow> u8 list" where
  "tls_prf c secret seed out out_len =
     prf_loop c secret seed (tls_hmac_sha256 c secret seed) 0 out_len out"

section \<open>The streaming hash computes SHA-256\<close>

text \<open>
  SHA-256 as the standard states it: pad the whole message, then fold the compression function
  over its 64-byte blocks.
\<close>

function hash_blocks :: "u32 list \<Rightarrow> u8 list \<Rightarrow> u32 list" where
  "hash_blocks h m =
     (if length m < 64 then h else hash_blocks (sha_compress h (take 64 m)) (drop 64 m))"
  by pat_completeness auto
termination
  by (relation "measure (\<lambda>(h, m). length m)") auto

declare hash_blocks.simps [simp del]

definition be64 :: "u64 \<Rightarrow> u8 list" where
  "be64 n = map (\<lambda>i. ucast (drop_bit (8 * (7 - i)) n)) [0..<8]"

definition sha_pad :: "u8 list \<Rightarrow> u8 list" where
  "sha_pad m = m @ [0x80] @ replicate ((55 + 64 - length m mod 64) mod 64) 0 @ be64 (of_nat (8 * length m))"

definition sha256_spec :: "u8 list \<Rightarrow> u8 list" where
  "sha256_spec m = concat (map be32_store (hash_blocks sha_h0 (sha_pad m)))"

lemma length_sha_compress [simp]: "length (sha_compress h p) = 8"
  by (simp add: sha_compress_def Let_def split: prod.split)

lemma length_hash_blocks: "length h = 8 \<Longrightarrow> length (hash_blocks h m) = 8"
proof (induction h m rule: hash_blocks.induct)
  case (1 h m)
  then show ?case by (subst hash_blocks.simps) simp
qed

lemma hash_blocks_append:
  assumes "64 dvd length a"
  shows "hash_blocks h (a @ b) = hash_blocks (hash_blocks h a) b"
  using assms
proof (induction h a rule: hash_blocks.induct)
  case (1 h a)
  show ?case
  proof (cases "length a < 64")
    case True
    with 1(2) have "a = []" by (auto dest: nat_dvd_not_less)
    then show ?thesis by (simp add: hash_blocks.simps [of h "[]"])
  next
    case False
    have "64 dvd length (drop 64 a)" using 1(2) by (simp add: dvd_diff_nat)
    with 1(1) [OF False] False show ?thesis
      by (simp add: hash_blocks.simps [of h "a @ b"] hash_blocks.simps [of h a])
  qed
qed

lemma hash_blocks_one: "length p = 64 \<Longrightarrow> hash_blocks h p = sha_compress h p"
  by (subst hash_blocks.simps) (simp add: hash_blocks.simps [of _ "[]"])

text \<open>
  The context holds the message \<open>msg\<close>: the chaining value covers the whole blocks of it, the
  buffer the rest.
\<close>

definition sha_holds :: "tls_sha256_ctx \<Rightarrow> u8 list \<Rightarrow> bool" where
  "sha_holds c msg \<longleftrightarrow> length (sha_buf c) = 64 \<and> unat (sha_buflen c) < 64 \<and>
     (\<exists>a. msg = a @ take (unat (sha_buflen c)) (sha_buf c) \<and> 64 dvd length a \<and>
          sha_h c = hash_blocks sha_h0 a)"

lemma absorb_split:
  assumes "unat (sha_buflen c) + length (b # m) \<le> 64" "m \<noteq> []" "length (sha_buf c) = 64"
  shows "sha_absorb c (b # m) = sha_absorb (sha_absorb c [b]) m"
proof -
  let ?n = "unat (sha_buflen c)"
  have lt: "?n + 1 < 64" using assms(1,2) by (cases m) auto
  have n1: "unat (sha_buflen c + 1) = ?n + 1"
    using lt by (simp add: unat_word_ariths)
  then have n1': "unat (1 + sha_buflen c) = Suc ?n" by (simp add: add.commute)
  have ne: "sha_buflen c + 1 \<noteq> 64"
  proof
    assume "sha_buflen c + 1 = 64"
    then have "unat (sha_buflen c + 1) = 64" by simp
    with n1 lt show False by simp
  qed
  have ow: "overwrite ?n (b # m) (sha_buf c) = overwrite (?n + 1) m (overwrite ?n [b] (sha_buf c))"
    using lt assms(3) by (simp add: overwrite_def take_Suc_conv_app_nth Suc_diff_le add.commute)
  show ?thesis
    using ne by (simp add: sha_absorb_def Let_def ow n1' add.assoc add.commute add.left_commute)
qed

definition sha_wf :: "tls_sha256_ctx \<Rightarrow> bool" where
  "sha_wf c \<longleftrightarrow> length (sha_buf c) = 64 \<and> unat (sha_buflen c) < 64"

lemma absorb_byte_full:
  assumes "sha_wf c" "unat (sha_buflen c) = 63"
  shows "sha_absorb c [b] = c\<lparr>sha_buf := take 63 (sha_buf c) @ [b], sha_buflen := 0,
      sha_h := sha_compress (sha_h c) (take 63 (sha_buf c) @ [b])\<rparr>"
proof -
  have "sha_buflen c = 63" using assms(2) by (simp add: word_unat_eq_iff)
  then show ?thesis
    using assms by (simp add: sha_absorb_def Let_def sha256_block_def overwrite_def sha_wf_def)
qed

lemma absorb_byte_room:
  assumes "sha_wf c" "unat (sha_buflen c) < 63"
  shows "sha_absorb c [b] = c\<lparr>sha_buf := (sha_buf c)[unat (sha_buflen c) := b],
      sha_buflen := sha_buflen c + 1\<rparr>" "unat (sha_buflen c + 1) = unat (sha_buflen c) + 1"
proof -
  show n1: "unat (sha_buflen c + 1) = unat (sha_buflen c) + 1"
    using assms(2) by (simp add: unat_word_ariths)
  have "sha_buflen c + 1 \<noteq> 64"
  proof
    assume "sha_buflen c + 1 = 64"
    then have "unat (sha_buflen c + 1) = 64" by simp
    with n1 assms(2) show False by simp
  qed
  moreover have "overwrite (unat (sha_buflen c)) [b] (sha_buf c) = (sha_buf c)[unat (sha_buflen c) := b]"
    using assms by (simp add: overwrite_def upd_conv_take_nth_drop sha_wf_def)
  ultimately show "sha_absorb c [b] = c\<lparr>sha_buf := (sha_buf c)[unat (sha_buflen c) := b],
      sha_buflen := sha_buflen c + 1\<rparr>"
    by (simp add: sha_absorb_def Let_def)
qed

lemma absorb_byte_wf: "sha_wf c \<Longrightarrow> sha_wf (sha_absorb c [b])"
proof (cases "unat (sha_buflen c) = 63")
  case True
  assume "sha_wf c"
  with absorb_byte_full [OF this True] show ?thesis by (simp add: sha_wf_def)
next
  case False
  assume wf: "sha_wf c"
  with False have "unat (sha_buflen c) < 63" by (simp add: sha_wf_def)
  with absorb_byte_room [OF wf this] wf show ?thesis by (simp add: sha_wf_def)
qed

lemma absorb_fold:
  assumes "sha_wf c" "m \<noteq> []" "unat (sha_buflen c) + length m \<le> 64"
  shows "sha_absorb c m = fold (\<lambda>b c. sha_absorb c [b]) m c"
  using assms
proof (induction m arbitrary: c)
  case (Cons b m)
  show ?case
  proof (cases "m = []")
    case False
    have room: "unat (sha_buflen c) < 63" using Cons.prems(3) False by (cases m) auto
    have "sha_absorb c (b # m) = sha_absorb (sha_absorb c [b]) m"
      using Cons.prems False by (intro absorb_split) (simp_all add: sha_wf_def)
    also have "\<dots> = fold (\<lambda>b c. sha_absorb c [b]) m (sha_absorb c [b])"
      using Cons.prems False absorb_byte_room [OF Cons.prems(1) room]
      by (intro Cons.IH absorb_byte_wf) simp_all
    finally show ?thesis by simp
  qed simp
qed simp

lemma fold_absorb_wf: "sha_wf c \<Longrightarrow> sha_wf (fold (\<lambda>b c. sha_absorb c [b]) m c)"
  by (induction m arbitrary: c) (simp_all add: absorb_byte_wf)

lemma sha_take_val:
  assumes "sha_wf c"
  shows "sha_take c m = min (64 - unat (sha_buflen c)) (length m)"
proof -
  have "unat (64 - ucast (sha_buflen c) :: u64) = 64 - unat (sha_buflen c)"
    using assms by (simp add: unat_sub_if' unat_ucast_up sha_wf_def)
  then show ?thesis by (simp add: sha_take_def)
qed

text \<open>The block-wise copying loop does what absorbing one byte after the other does.\<close>

lemma update_loop_fold:
  "sha_wf c \<Longrightarrow> update_loop c m = fold (\<lambda>b c. sha_absorb c [b]) m c"
proof (induction c m rule: update_loop.induct)
  case (1 c m)
  show ?case
  proof (cases "m = []")
    case True
    then show ?thesis by (simp add: update_loop.simps [of c])
  next
    case False
    let ?t = "sha_take c m"
    let ?c = "sha_absorb c (take ?t m)"
    have t: "?t = min (64 - unat (sha_buflen c)) (length m)" by (rule sha_take_val [OF 1(2)])
    have c: "?c = fold (\<lambda>b c. sha_absorb c [b]) (take ?t m) c"
    proof (rule absorb_fold [OF 1(2)])
      show "take ?t m \<noteq> []" using False 1(2) by (simp add: t sha_wf_def)
      show "unat (sha_buflen c) + length (take ?t m) \<le> 64" using 1(2) by (auto simp: t sha_wf_def min_def)
    qed
    have "update_loop c m = update_loop ?c (drop ?t m)" using False by (simp add: update_loop.simps [of c m])
    also have "\<dots> = fold (\<lambda>b c. sha_absorb c [b]) (drop ?t m) ?c"
      using 1(1) [OF False] fold_absorb_wf [OF 1(2), of "take ?t m"] by (simp add: c)
    also have "\<dots> = fold (\<lambda>b c. sha_absorb c [b]) (take ?t m @ drop ?t m) c" by (simp only: c fold_append o_apply)
    finally show ?thesis by simp
  qed
qed

lemma absorb_byte_holds:
  assumes "sha_holds c msg"
  shows "sha_holds (sha_absorb c [b]) (msg @ [b])"
proof -
  let ?n = "unat (sha_buflen c)"
  have wf: "sha_wf c" using assms by (simp add: sha_holds_def sha_wf_def)
  obtain a where a: "msg = a @ take ?n (sha_buf c)" "64 dvd length a" "sha_h c = hash_blocks sha_h0 a"
    using assms by (auto simp: sha_holds_def)
  show ?thesis
  proof (cases "?n = 63")
    case True
    let ?p = "take 63 (sha_buf c) @ [b]"
    have p: "length ?p = 64" using wf by (simp add: sha_wf_def)
    have "sha_compress (sha_h c) ?p = hash_blocks sha_h0 (a @ ?p)"
      using hash_blocks_append [OF a(2), of sha_h0 ?p] hash_blocks_one [OF p] a(3) by simp
    moreover have "64 dvd length (a @ ?p)" using a(2) p by simp
    ultimately show ?thesis
      using absorb_byte_full [OF wf True, of b] a(1) True p by (auto simp: sha_holds_def)
  next
    case False
    then have lt: "?n < 63" using wf by (simp add: sha_wf_def)
    have "take (?n + 1) ((sha_buf c)[?n := b]) = take ?n (sha_buf c) @ [b]"
      using wf by (simp add: take_Suc_conv_app_nth sha_wf_def)
    then show ?thesis
      using absorb_byte_room(1) [OF wf lt, of b] absorb_byte_room(2) [OF wf lt] a lt wf by (auto simp: sha_holds_def sha_wf_def)
  qed
qed

lemma fold_absorb_holds:
  "sha_holds c msg \<Longrightarrow> sha_holds (fold (\<lambda>b c. sha_absorb c [b]) m c) (msg @ m)"
proof (induction m arbitrary: c msg)
  case (Cons b m)
  from Cons.IH [OF absorb_byte_holds [OF Cons.prems, of b]] show ?case by simp
qed simp

lemma absorb_bits [simp]: "sha_bits (sha_absorb c m) = sha_bits c"
  by (simp add: sha_absorb_def Let_def sha256_block_def)

lemma absorb_set_bits:
  "sha_absorb (c\<lparr>sha_bits := n\<rparr>) m = (sha_absorb c m)\<lparr>sha_bits := n\<rparr>"
  by (simp add: sha_absorb_def Let_def sha256_block_def)

lemma fold_absorb_bits:
  "sha_bits (fold (\<lambda>b c. sha_absorb c [b]) m c) = sha_bits c"
  "fold (\<lambda>b c. sha_absorb c [b]) m (c\<lparr>sha_bits := n\<rparr>) =
     (fold (\<lambda>b c. sha_absorb c [b]) m c)\<lparr>sha_bits := n\<rparr>"
  by (induction m arbitrary: c) (simp_all add: absorb_set_bits)

lemma sha_wf_bits [simp]: "sha_wf (c\<lparr>sha_bits := n\<rparr>) = sha_wf c"
  by (simp add: sha_wf_def)

lemma update_wf: "sha_wf c \<Longrightarrow> sha_wf (tls_sha256_update c m)"
  by (simp add: tls_sha256_update_def update_loop_fold fold_absorb_wf)

lemma update_fold:
  "sha_wf c \<Longrightarrow> tls_sha256_update c m =
     (fold (\<lambda>b c. sha_absorb c [b]) m c)\<lparr>sha_bits := sha_bits c + of_nat (8 * length m)\<rparr>"
  by (simp add: tls_sha256_update_def update_loop_fold fold_absorb_bits mult.commute)

lemma update_append:
  assumes "sha_wf c"
  shows "tls_sha256_update (tls_sha256_update c a) b = tls_sha256_update c (a @ b)"
proof -
  have "sha_wf (tls_sha256_update c a)" by (rule update_wf [OF assms])
  then show ?thesis
    using assms by (simp add: update_fold fold_absorb_bits algebra_simps)
qed

lemma update_holds:
  assumes "sha_holds c msg"
  shows "sha_holds (tls_sha256_update c m) (msg @ m)"
    "sha_bits (tls_sha256_update c m) = sha_bits c + of_nat (8 * length m)"
proof -
  have wf: "sha_wf c" using assms by (simp add: sha_holds_def sha_wf_def)
  show "sha_bits (tls_sha256_update c m) = sha_bits c + of_nat (8 * length m)"
    by (simp add: update_fold [OF wf])
  show "sha_holds (tls_sha256_update c m) (msg @ m)"
    using fold_absorb_holds [OF assms, of m] by (simp add: update_fold [OF wf] sha_holds_def)
qed

lemma init_holds: "length (sha_buf c) = 64 \<Longrightarrow> sha_holds (tls_sha256_init c) []"
  by (simp add: sha_holds_def tls_sha256_init_def hash_blocks.simps)

text \<open>The padding length, computed by the code in wrapping 32-bit arithmetic.\<close>

lemma zero_count_val:
  assumes "unat (n :: u32) < 64"
  shows "unat ((56 - (n + 1)) AND 63) = (55 + 64 - unat n) mod 64"
proof -
  have "(56 - (n + 1)) AND 63 = take_bit 6 (55 - n)"
    by (simp add: take_bit_eq_mask mask_eq_exp_minus_1)
  then have "unat ((56 - (n + 1)) AND 63) = unat (55 - n) mod 64"
    by (simp only: unsigned_take_bit_eq) (simp add: take_bit_eq_mod)
  also have "\<dots> = (55 + 64 - unat n) mod 64"
  proof (cases "unat n \<le> 55")
    case True
    then have "unat (55 - n) = 55 - unat n" using unat_sub_if' [of 55 n] by simp
    moreover have "55 + 64 - unat n = 55 - unat n + 64" using True by simp
    ultimately show ?thesis by (simp only: mod_add_self2)
  next
    case False
    then have "unat (55 - n) = 55 + 4294967296 - unat n" using unat_sub_if' [of 55 n] by simp
    moreover have "55 + 4294967296 - unat n = 55 + 64 - unat n + 64 * 67108863" using assms by simp
    ultimately show ?thesis by (simp only: mod_mult_self2)
  qed
  finally show ?thesis .
qed

lemma sha_holds_whole:
  assumes "sha_holds c msg" "64 dvd length msg"
  shows "sha_h c = hash_blocks sha_h0 msg"
proof -
  let ?n = "unat (sha_buflen c)"
  obtain a where a: "msg = a @ take ?n (sha_buf c)" "64 dvd length a" "sha_h c = hash_blocks sha_h0 a"
    and n: "?n < 64" "length (sha_buf c) = 64"
    using assms(1) by (auto simp: sha_holds_def)
  have "64 dvd ?n" using assms(2) a(1,2) n by (simp add: dvd_add_right_iff)
  then have "?n = 0" using n(1) by (auto dest: dvd_imp_le)
  with a show ?thesis by simp
qed

lemma final_spec:
  assumes "sha_holds c msg" "sha_bits c = of_nat (8 * length msg)"
  shows "tls_sha256_final c = sha256_spec msg"
proof -
  let ?n = "unat (sha_buflen c)"
  obtain a where a: "msg = a @ take ?n (sha_buf c)" "64 dvd length a" and n: "?n < 64" "length (sha_buf c) = 64"
    using assms(1) by (auto simp: sha_holds_def)
  have mod: "length msg mod 64 = ?n" using a n by (auto elim!: dvdE)
  define z where "z = (55 + 64 - length msg mod 64) mod 64"
  have z: "unat ((56 - (sha_buflen c + 1)) AND 63) = z"
    using zero_count_val [OF n(1)] by (simp add: z_def mod)
  have zl: "z \<le> 63" unfolding z_def by (simp add: less_Suc_eq_le [symmetric])
  have pad: "take (z + 1) (0x80 # replicate 63 0) = (0x80 :: u8) # replicate z 0"
    using zl by (simp add: take_replicate min_absorb1)
  define c1 where "c1 = tls_sha256_update c (0x80 # replicate z 0)"
  define c2 where "c2 = tls_sha256_update c1 (be64 (of_nat (8 * length msg)))"
  have "sha_holds c1 (msg @ 0x80 # replicate z 0)"
    unfolding c1_def by (rule update_holds(1) [OF assms(1)])
  then have h2: "sha_holds c2 (sha_pad msg)"
    using update_holds(1) [of c1 "msg @ 0x80 # replicate z 0" "be64 (of_nat (8 * length msg))"]
    by (simp add: c2_def sha_pad_def z_def)
  have "64 dvd length (sha_pad msg)"
  proof -
    have "length (sha_pad msg) = length msg + 9 + z" by (simp add: sha_pad_def z_def be64_def)
    also have "\<dots> mod 64 = (?n + (9 + z)) mod 64"
      using mod_add_left_eq [of "length msg" 64 "9 + z"] by (simp only: mod add.assoc)
    also have "\<dots> = 0"
    proof (cases "?n \<le> 55")
      case True
      then have "55 + 64 - ?n = 55 - ?n + 64" by simp
      then have "z = 55 - ?n" unfolding z_def mod by (simp only: mod_add_self2) simp
      with True show ?thesis by simp
    next
      case False
      then have "z = 119 - ?n" unfolding z_def mod using n(1) by simp
      with False n(1) show ?thesis by simp
    qed
    finally show ?thesis by (simp add: dvd_eq_mod_eq_0)
  qed
  then have "sha_h c2 = hash_blocks sha_h0 (sha_pad msg)"
    using sha_holds_whole [OF h2] by simp
  moreover have "tls_sha256_final c = concat (map be32_store (take 8 (sha_h c2)))"
    by (simp only: tls_sha256_final_def Let_def z pad c1_def c2_def be64_def assms(2))
  moreover have "length (hash_blocks sha_h0 (sha_pad msg)) = 8"
    by (rule length_hash_blocks) (simp add: sha_h0_def)
  ultimately show ?thesis by (simp add: sha256_spec_def)
qed

section \<open>The streaming-hash interface\<close>

text \<open>
  What HMAC and the pseudo-random function rely on: whatever context \<open>init\<close> finds, the digest
  depends on the concatenation of the updates alone.
\<close>

locale stream_hash =
  fixes init :: "'c \<Rightarrow> 'c" and upd :: "'c \<Rightarrow> u8 list \<Rightarrow> 'c" and fin :: "'c \<Rightarrow> u8 list"
    and raw ok :: "'c \<Rightarrow> bool" and digest :: "u8 list \<Rightarrow> u8 list"
  assumes ok_raw: "ok c \<Longrightarrow> raw c"
    and ok_init: "raw c \<Longrightarrow> ok (init c)"
    and ok_upd: "ok c \<Longrightarrow> ok (upd c m)"
    and fin_digest: "raw c \<Longrightarrow> fin (fold (\<lambda>m c. upd c m) ms (init c)) = digest (concat ms)"
begin

lemma digest_one: "raw c \<Longrightarrow> fin (upd (init c) m) = digest m"
  using fin_digest [of c "[m]"] by simp

lemma digest_two: "raw c \<Longrightarrow> fin (upd (upd (init c) a) b) = digest (a @ b)"
  using fin_digest [of c "[a, b]"] by simp

text \<open>The two passes of HMAC, the second on the context the first has left behind.\<close>

lemma digest_nested:
  assumes "raw c" "c1 = upd (upd (init c) a) b"
  shows "fin (upd (upd (init c1) x) (fin c1)) = digest (x @ digest (a @ b))"
proof -
  have "raw c1" unfolding assms(2) by (intro ok_raw ok_upd ok_init assms(1))
  then show ?thesis using digest_two [OF assms(1)] digest_two [of c1] assms(2) by simp
qed

end

text \<open>The buffer of a context is an array of 64 bytes, whatever they are.\<close>

definition sha_raw :: "tls_sha256_ctx \<Rightarrow> bool" where "sha_raw c \<longleftrightarrow> length (sha_buf c) = 64"

lemma fold_update_holds:
  "sha_holds c msg \<Longrightarrow> sha_bits c = of_nat (8 * length msg) \<Longrightarrow>
     sha_holds (fold (\<lambda>m c. tls_sha256_update c m) ms c) (msg @ concat ms) \<and>
     sha_bits (fold (\<lambda>m c. tls_sha256_update c m) ms c) = of_nat (8 * length (msg @ concat ms))"
proof (induction ms arbitrary: c msg)
  case (Cons m ms)
  have "sha_holds (tls_sha256_update c m) (msg @ m)"
    "sha_bits (tls_sha256_update c m) = of_nat (8 * length (msg @ m))"
    using update_holds [OF Cons.prems(1), of m] Cons.prems(2) by (simp_all add: algebra_simps)
  from Cons.IH [OF this] show ?case by simp
qed simp

interpretation sha: stream_hash tls_sha256_init tls_sha256_update tls_sha256_final
  sha_raw sha_wf sha256_spec
proof unfold_locales
  show "sha_raw c" if "sha_wf c" for c
    using that by (simp add: sha_wf_def sha_raw_def)
  show "sha_wf (tls_sha256_init c)" if "sha_raw c" for c
    using that by (simp add: sha_wf_def sha_raw_def tls_sha256_init_def)
  show "sha_wf (tls_sha256_update c m)" if "sha_wf c" for c m
    by (rule update_wf [OF that])
  show "tls_sha256_final (fold (\<lambda>m c. tls_sha256_update c m) ms (tls_sha256_init c)) =
      sha256_spec (concat ms)" if "sha_raw c" for c ms
    using fold_update_holds [OF init_holds, of c ms] that
    by (simp add: final_spec sha_raw_def tls_sha256_init_def)
qed

text \<open>
  C8. Streaming SHA-256.  However the message is cut into calls of \<^verbatim>\<open>tls_sha256_update\<close>, and
  whatever the context held before \<^verbatim>\<open>tls_sha256_init\<close>, \<^verbatim>\<open>tls_sha256_final\<close> gives the digest of the whole
  message: padding to a multiple of 64 bytes with the bit length in the last eight, then the
  compression function over the blocks.
\<close>

theorem sha256_streaming:
  assumes "sha_raw c"
  shows "tls_sha256_final (fold (\<lambda>m c. tls_sha256_update c m) ms (tls_sha256_init c)) =
    sha256_spec (concat ms)"
  by (rule sha.fin_digest [OF assms])

definition demo_ctx :: tls_sha256_ctx where
  "demo_ctx = \<lparr>sha_h = [], sha_bits = 99, sha_buf = replicate 64 7, sha_buflen = 70\<rparr>"

lemma demo_ctx_raw: "sha_raw demo_ctx"
  by (simp add: demo_ctx_def sha_raw_def)

theorem sha256_streaming_witness:
  "tls_sha256_final (fold (\<lambda>m c. tls_sha256_update c m) [[1, 2, 3], replicate 100 5, []]
     (tls_sha256_init demo_ctx)) = sha256_spec ([1, 2, 3] @ replicate 100 5)"
  using sha256_streaming [OF demo_ctx_raw, of "[[1, 2, 3], replicate 100 5, []]"] by simp

section \<open>HMAC\<close>

definition hmac_block :: "u8 list \<Rightarrow> u8 list" where
  "hmac_block key = (let k = (if length key > 64 then sha256_spec key else key)
     in k @ replicate (64 - length k) 0)"

definition hmac_spec :: "u8 list \<Rightarrow> u8 list \<Rightarrow> u8 list" where
  "hmac_spec key msg =
     sha256_spec (map (\<lambda>b. b XOR 0x5c) (hmac_block key) @
       sha256_spec (map (\<lambda>b. b XOR 0x36) (hmac_block key) @ msg))"

lemma length_sha256_spec [simp]: "length (sha256_spec m) = 32"
proof -
  have "length (concat (map be32_store xs)) = 4 * length xs" for xs
    by (induction xs) (simp_all add: be32_store_def)
  moreover have "length (hash_blocks sha_h0 (sha_pad m)) = 8"
    by (rule length_hash_blocks) (simp add: sha_h0_def)
  ultimately show ?thesis by (simp add: sha256_spec_def)
qed

lemma length_hmac_block [simp]: "length (hmac_block key) = 64"
  by (simp add: hmac_block_def Let_def)

lemma hmac_key_block: "sha_raw c \<Longrightarrow> hmac_key c key = hmac_block key"
  by (auto simp: hmac_key_def hmac_block_def tls_sha256_def sha.digest_one overwrite_def Let_def)

lemma map_nth_64: "length xs = 64 \<Longrightarrow> map (\<lambda>i. f (xs ! i)) [0..<64] = map f xs"
  by (rule nth_equalityI) simp_all

lemma hmac_correct:
  assumes "sha_raw c"
  shows "tls_hmac_sha256 c key msg = hmac_spec key msg"
  using map_nth_64 [of "hmac_block key" "\<lambda>b. b XOR 0x36"] map_nth_64 [of "hmac_block key" "\<lambda>b. b XOR 0x5c"]
  by (simp add: tls_hmac_sha256_def Let_def hmac_key_block [OF assms]
      sha.digest_nested [OF assms refl] hmac_spec_def)

section \<open>The pseudo-random function\<close>

fun prf_a :: "u8 list \<Rightarrow> u8 list \<Rightarrow> nat \<Rightarrow> u8 list" where
  "prf_a secret seed 0 = seed"
| "prf_a secret seed (Suc i) = hmac_spec secret (prf_a secret seed i)"

definition prf_block :: "u8 list \<Rightarrow> u8 list \<Rightarrow> nat \<Rightarrow> u8 list" where
  "prf_block secret seed i = hmac_spec secret (prf_a secret seed (Suc i) @ seed)"

definition prf_spec :: "u8 list \<Rightarrow> u8 list \<Rightarrow> nat \<Rightarrow> u8 list" where
  "prf_spec secret seed n = take n (concat (map (prf_block secret seed) [0..<n]))"

lemma length_prf_block [simp]: "length (prf_block secret seed i) = 32"
  by (simp add: prf_block_def hmac_spec_def)

lemma length_prf_blocks: "length (concat (map (prf_block secret seed) xs)) = 32 * length xs"
  by (induction xs) simp_all

lemma prf_blocks_take:
  assumes "k \<le> j"
  shows "take k (concat (map (prf_block secret seed) [a..<a + j])) =
    take k (concat (map (prf_block secret seed) [a..<a + k]))"
proof -
  have "[a..<a + j] = [a..<a + k] @ [a + k..<a + j]"
    using assms upt_add_eq_append [of a "a + k" "j - k"] by simp
  then show ?thesis using length_prf_blocks [of secret seed "[a..<a + k]"] by simp
qed

lemma prf_blocks_step:
  assumes "0 < L"
  shows "take (if L > 32 then 32 else L) (prf_block secret seed i) @
      take (L - (if L > 32 then 32 else L))
        (concat (map (prf_block secret seed) [Suc i..<Suc i + (L - (if L > 32 then 32 else L))])) =
    take L (concat (map (prf_block secret seed) [i..<i + L]))"
proof -
  have "[i..<i + L] = i # [Suc i..<Suc i + (L - 1)]" using assms by (simp add: upt_conv_Cons)
  then have "concat (map (prf_block secret seed) [i..<i + L]) =
      prf_block secret seed i @ concat (map (prf_block secret seed) [Suc i..<Suc i + (L - 1)])" by simp
  then show ?thesis
    using prf_blocks_take [of "L - 32" "L - 1" secret seed "Suc i"] by simp
qed

lemma prf_loop_blocks:
  assumes "sha_raw c" "length seed \<le> 128" "out_len \<le> length out" "off \<le> out_len"
  shows "prf_loop c secret seed (prf_a secret seed (Suc i)) off out_len out =
    take off out @ take (out_len - off) (concat (map (prf_block secret seed) [i..<i + (out_len - off)]))
      @ drop out_len out"
  using assms(3,4)
proof (induction "out_len - off" arbitrary: i off out rule: less_induct)
  case less
  show ?case
  proof (cases "off < out_len")
    case False
    then show ?thesis using less.prems by (simp add: prf_loop.simps)
  next
    case True
    define n where "n = (if out_len - off > 32 then 32 else out_len - off)"
    let ?B = "prf_block secret seed"
    let ?out = "overwrite off (take n (?B i)) out"
    have n: "n = length (take n (?B i))" "n \<le> out_len - off" "0 < n" using True by (auto simp: n_def)
    have len: "length ?out = length out"
      using n less.prems True by (simp add: overwrite_def)
    have step: "prf_loop c secret seed (prf_a secret seed (Suc i)) off out_len out =
        prf_loop c secret seed (prf_a secret seed (Suc (Suc i))) (off + n) out_len ?out"
      using True assms(2)
      by (subst prf_loop.simps) (simp add: hmac_correct [OF assms(1)] prf_block_def Let_def n_def)
    have "prf_loop c secret seed (prf_a secret seed (Suc i)) off out_len out =
        take (off + n) ?out @ take (out_len - (off + n))
          (concat (map ?B [Suc i..<Suc i + (out_len - (off + n))])) @ drop out_len ?out"
      unfolding step using n(2,3) less.prems True len by (intro less.hyps) simp_all
    moreover have "take (off + n) ?out = take off out @ take n (?B i)"
      "drop out_len ?out = drop out_len out"
      using n(1,2) less.prems True by (simp_all add: overwrite_def)
    moreover have "take n (?B i) @ take (out_len - (off + n))
          (concat (map ?B [Suc i..<Suc i + (out_len - (off + n))])) =
        take (out_len - off) (concat (map ?B [i..<i + (out_len - off)]))"
      using prf_blocks_step [of "out_len - off" secret seed i, folded n_def] True by simp
    ultimately show ?thesis by simp
  qed
qed

lemma prf_correct:
  assumes "sha_raw c" "length seed \<le> 128" "out_len \<le> length out"
  shows "tls_prf c secret seed out out_len = prf_spec secret seed out_len @ drop out_len out"
  using prf_loop_blocks [OF assms, of 0 secret 0] hmac_correct [OF assms(1), of secret seed]
  by (simp add: tls_prf_def prf_spec_def)

text \<open>
  C38. HMAC and the TLS 1.2 pseudo-random function.  For a seed of at most 128 bytes \<^verbatim>\<open>tls_prf\<close> fills
  the first \<open>out_len\<close> bytes of the caller's buffer with P_SHA256 of RFC 5246 (the blocks
  \<open>HMAC(secret, A(i) + seed)\<close>, the last one cut) and leaves the bytes behind them alone; HMAC is
  the two-pass construction of RFC 2104 on SHA-256, with long keys hashed first.
\<close>

theorem tls_prf_correct:
  assumes "sha_raw c" "length seed \<le> 128" "out_len \<le> length out"
  shows "tls_prf c secret seed out out_len = prf_spec secret seed out_len @ drop out_len out \<and>
    tls_hmac_sha256 c secret seed = hmac_spec secret seed"
  using prf_correct [OF assms] hmac_correct [OF assms(1)] by simp

theorem tls_prf_correct_witness:
  "tls_prf demo_ctx [1, 2, 3] [9, 9] (replicate 50 0xEE) 40 = prf_spec [1, 2, 3] [9, 9] 40 @ replicate 10 0xEE"
  using tls_prf_correct [OF demo_ctx_raw, of "[9, 9]" 40 "replicate 50 0xEE" "[1, 2, 3]"] by simp

text \<open>A test vector of the standard: the digest of the three bytes \<open>abc\<close>.\<close>

lemma sha256_abc:
  "tls_sha256 \<lparr>sha_h = [], sha_bits = 0, sha_buf = replicate 64 0, sha_buflen = 0\<rparr> [0x61, 0x62, 0x63] =
  [0xba, 0x78, 0x16, 0xbf, 0x8f, 0x01, 0xcf, 0xea, 0x41, 0x41, 0x40, 0xde, 0x5d, 0xae, 0x22, 0x23, 0xb0, 0x03, 0x61, 0xa3, 0x96, 0x17, 0x7a, 0x9c, 0xb4, 0x10, 0xff, 0x61, 0xf2, 0x00, 0x15, 0xad]"
  by code_simp

end
