(* ===== verification/Tls_Aes.thy ===== *)
theory Tls_Aes
  imports Prelude
begin

text \<open>
  AES-128 of \<^verbatim>\<open>vlibc/src/tls/tls_crypto.c\<close>: the tables, the round operations on the 16 bytes of the
  state, the key schedule, encryption and decryption of a block.  The assignments of the row
  rotations and of the column products are list updates in the order of the source.
\<close>

section \<open>Tables\<close>

definition SBOX :: "u8 list" where
  "SBOX = [
    0x63, 0x7c, 0x77, 0x7b, 0xf2, 0x6b, 0x6f, 0xc5, 0x30, 0x01, 0x67, 0x2b,
    0xfe, 0xd7, 0xab, 0x76, 0xca, 0x82, 0xc9, 0x7d, 0xfa, 0x59, 0x47, 0xf0,
    0xad, 0xd4, 0xa2, 0xaf, 0x9c, 0xa4, 0x72, 0xc0, 0xb7, 0xfd, 0x93, 0x26,
    0x36, 0x3f, 0xf7, 0xcc, 0x34, 0xa5, 0xe5, 0xf1, 0x71, 0xd8, 0x31, 0x15,
    0x04, 0xc7, 0x23, 0xc3, 0x18, 0x96, 0x05, 0x9a, 0x07, 0x12, 0x80, 0xe2,
    0xeb, 0x27, 0xb2, 0x75, 0x09, 0x83, 0x2c, 0x1a, 0x1b, 0x6e, 0x5a, 0xa0,
    0x52, 0x3b, 0xd6, 0xb3, 0x29, 0xe3, 0x2f, 0x84, 0x53, 0xd1, 0x00, 0xed,
    0x20, 0xfc, 0xb1, 0x5b, 0x6a, 0xcb, 0xbe, 0x39, 0x4a, 0x4c, 0x58, 0xcf,
    0xd0, 0xef, 0xaa, 0xfb, 0x43, 0x4d, 0x33, 0x85, 0x45, 0xf9, 0x02, 0x7f,
    0x50, 0x3c, 0x9f, 0xa8, 0x51, 0xa3, 0x40, 0x8f, 0x92, 0x9d, 0x38, 0xf5,
    0xbc, 0xb6, 0xda, 0x21, 0x10, 0xff, 0xf3, 0xd2, 0xcd, 0x0c, 0x13, 0xec,
    0x5f, 0x97, 0x44, 0x17, 0xc4, 0xa7, 0x7e, 0x3d, 0x64, 0x5d, 0x19, 0x73,
    0x60, 0x81, 0x4f, 0xdc, 0x22, 0x2a, 0x90, 0x88, 0x46, 0xee, 0xb8, 0x14,
    0xde, 0x5e, 0x0b, 0xdb, 0xe0, 0x32, 0x3a, 0x0a, 0x49, 0x06, 0x24, 0x5c,
    0xc2, 0xd3, 0xac, 0x62, 0x91, 0x95, 0xe4, 0x79, 0xe7, 0xc8, 0x37, 0x6d,
    0x8d, 0xd5, 0x4e, 0xa9, 0x6c, 0x56, 0xf4, 0xea, 0x65, 0x7a, 0xae, 0x08,
    0xba, 0x78, 0x25, 0x2e, 0x1c, 0xa6, 0xb4, 0xc6, 0xe8, 0xdd, 0x74, 0x1f,
    0x4b, 0xbd, 0x8b, 0x8a, 0x70, 0x3e, 0xb5, 0x66, 0x48, 0x03, 0xf6, 0x0e,
    0x61, 0x35, 0x57, 0xb9, 0x86, 0xc1, 0x1d, 0x9e, 0xe1, 0xf8, 0x98, 0x11,
    0x69, 0xd9, 0x8e, 0x94, 0x9b, 0x1e, 0x87, 0xe9, 0xce, 0x55, 0x28, 0xdf,
    0x8c, 0xa1, 0x89, 0x0d, 0xbf, 0xe6, 0x42, 0x68, 0x41, 0x99, 0x2d, 0x0f,
    0xb0, 0x54, 0xbb, 0x16]"

definition INV_SBOX :: "u8 list" where
  "INV_SBOX = [
    0x52, 0x09, 0x6a, 0xd5, 0x30, 0x36, 0xa5, 0x38, 0xbf, 0x40, 0xa3, 0x9e,
    0x81, 0xf3, 0xd7, 0xfb, 0x7c, 0xe3, 0x39, 0x82, 0x9b, 0x2f, 0xff, 0x87,
    0x34, 0x8e, 0x43, 0x44, 0xc4, 0xde, 0xe9, 0xcb, 0x54, 0x7b, 0x94, 0x32,
    0xa6, 0xc2, 0x23, 0x3d, 0xee, 0x4c, 0x95, 0x0b, 0x42, 0xfa, 0xc3, 0x4e,
    0x08, 0x2e, 0xa1, 0x66, 0x28, 0xd9, 0x24, 0xb2, 0x76, 0x5b, 0xa2, 0x49,
    0x6d, 0x8b, 0xd1, 0x25, 0x72, 0xf8, 0xf6, 0x64, 0x86, 0x68, 0x98, 0x16,
    0xd4, 0xa4, 0x5c, 0xcc, 0x5d, 0x65, 0xb6, 0x92, 0x6c, 0x70, 0x48, 0x50,
    0xfd, 0xed, 0xb9, 0xda, 0x5e, 0x15, 0x46, 0x57, 0xa7, 0x8d, 0x9d, 0x84,
    0x90, 0xd8, 0xab, 0x00, 0x8c, 0xbc, 0xd3, 0x0a, 0xf7, 0xe4, 0x58, 0x05,
    0xb8, 0xb3, 0x45, 0x06, 0xd0, 0x2c, 0x1e, 0x8f, 0xca, 0x3f, 0x0f, 0x02,
    0xc1, 0xaf, 0xbd, 0x03, 0x01, 0x13, 0x8a, 0x6b, 0x3a, 0x91, 0x11, 0x41,
    0x4f, 0x67, 0xdc, 0xea, 0x97, 0xf2, 0xcf, 0xce, 0xf0, 0xb4, 0xe6, 0x73,
    0x96, 0xac, 0x74, 0x22, 0xe7, 0xad, 0x35, 0x85, 0xe2, 0xf9, 0x37, 0xe8,
    0x1c, 0x75, 0xdf, 0x6e, 0x47, 0xf1, 0x1a, 0x71, 0x1d, 0x29, 0xc5, 0x89,
    0x6f, 0xb7, 0x62, 0x0e, 0xaa, 0x18, 0xbe, 0x1b, 0xfc, 0x56, 0x3e, 0x4b,
    0xc6, 0xd2, 0x79, 0x20, 0x9a, 0xdb, 0xc0, 0xfe, 0x78, 0xcd, 0x5a, 0xf4,
    0x1f, 0xdd, 0xa8, 0x33, 0x88, 0x07, 0xc7, 0x31, 0xb1, 0x12, 0x10, 0x59,
    0x27, 0x80, 0xec, 0x5f, 0x60, 0x51, 0x7f, 0xa9, 0x19, 0xb5, 0x4a, 0x0d,
    0x2d, 0xe5, 0x7a, 0x9f, 0x93, 0xc9, 0x9c, 0xef, 0xa0, 0xe0, 0x3b, 0x4d,
    0xae, 0x2a, 0xf5, 0xb0, 0xc8, 0xeb, 0xbb, 0x3c, 0x83, 0x53, 0x99, 0x61,
    0x17, 0x2b, 0x04, 0x7e, 0xba, 0x77, 0xd6, 0x26, 0xe1, 0x69, 0x14, 0x63,
    0x55, 0x21, 0x0c, 0x7d]"

definition RCON :: "u8 list" where
  "RCON = [0x00, 0x01, 0x02, 0x04, 0x08, 0x10, 0x20, 0x40, 0x80, 0x1b, 0x36]"

section \<open>Round operations\<close>

definition xtime :: "u32 \<Rightarrow> u32" where
  "xtime v = push_bit 1 v XOR (if drop_bit 7 v AND 1 \<noteq> 0 then 0x1b else 0)"

definition aes_addroundkey :: "u8 list \<Rightarrow> u8 list \<Rightarrow> u8 list" where
  "aes_addroundkey s rk = map (\<lambda>i. s ! i XOR rk ! i) [0..<16]"

definition aes_subbytes :: "u8 list \<Rightarrow> u8 list \<Rightarrow> u8 list" where
  "aes_subbytes s box = map (\<lambda>i. box ! unat (s ! i)) [0..<16]"

definition aes_shiftrows :: "u8 list \<Rightarrow> u8 list" where
  "aes_shiftrows s =
     (let t = s ! 1; s = s[1 := s ! 5]; s = s[5 := s ! 9]; s = s[9 := s ! 13]; s = s[13 := t];
          t = s ! 2; s = s[2 := s ! 10]; s = s[10 := t];
          t = s ! 6; s = s[6 := s ! 14]; s = s[14 := t];
          t = s ! 15; s = s[15 := s ! 11]; s = s[11 := s ! 7]; s = s[7 := s ! 3]; s = s[3 := t]
      in s)"

definition aes_invshiftrows :: "u8 list \<Rightarrow> u8 list" where
  "aes_invshiftrows s =
     (let t = s ! 13; s = s[13 := s ! 9]; s = s[9 := s ! 5]; s = s[5 := s ! 1]; s = s[1 := t];
          t = s ! 2; s = s[2 := s ! 10]; s = s[10 := t];
          t = s ! 6; s = s[6 := s ! 14]; s = s[14 := t];
          t = s ! 3; s = s[3 := s ! 7]; s = s[7 := s ! 11]; s = s[11 := s ! 15]; s = s[15 := t]
      in s)"

definition gm2 :: "u8 \<Rightarrow> u8" where "gm2 b = ucast (xtime (ucast b))"

definition gm3 :: "u8 \<Rightarrow> u8" where "gm3 b = gm2 b XOR b"

fun gmul_loop :: "nat \<Rightarrow> u8 \<Rightarrow> u8 \<Rightarrow> u8 \<Rightarrow> u8" where
  "gmul_loop 0 a b p = p"
| "gmul_loop (Suc i) a b p =
     gmul_loop i (gm2 a) (drop_bit 1 b) (if b AND 1 \<noteq> 0 then p XOR a else p)"

definition gmul :: "u8 \<Rightarrow> u8 \<Rightarrow> u8" where "gmul a b = gmul_loop 8 a b 0"

definition mix_column :: "nat \<Rightarrow> u8 list \<Rightarrow> u8 list" where
  "mix_column c s =
     (let a0 = s ! (4 * c); a1 = s ! (4 * c + 1); a2 = s ! (4 * c + 2); a3 = s ! (4 * c + 3);
          s = s[4 * c := gm2 a0 XOR gm3 a1 XOR a2 XOR a3];
          s = s[4 * c + 1 := a0 XOR gm2 a1 XOR gm3 a2 XOR a3];
          s = s[4 * c + 2 := a0 XOR a1 XOR gm2 a2 XOR gm3 a3];
          s = s[4 * c + 3 := gm3 a0 XOR a1 XOR a2 XOR gm2 a3]
      in s)"

definition aes_mixcolumns :: "u8 list \<Rightarrow> u8 list" where
  "aes_mixcolumns s = fold mix_column [0..<4] s"

definition invmix_column :: "nat \<Rightarrow> u8 list \<Rightarrow> u8 list" where
  "invmix_column c s =
     (let a0 = s ! (4 * c); a1 = s ! (4 * c + 1); a2 = s ! (4 * c + 2); a3 = s ! (4 * c + 3);
          s = s[4 * c := gmul a0 0x0e XOR gmul a1 0x0b XOR gmul a2 0x0d XOR gmul a3 0x09];
          s = s[4 * c + 1 := gmul a0 0x09 XOR gmul a1 0x0e XOR gmul a2 0x0b XOR gmul a3 0x0d];
          s = s[4 * c + 2 := gmul a0 0x0d XOR gmul a1 0x09 XOR gmul a2 0x0e XOR gmul a3 0x0b];
          s = s[4 * c + 3 := gmul a0 0x0b XOR gmul a1 0x0d XOR gmul a2 0x09 XOR gmul a3 0x0e]
      in s)"

definition aes_invmixcolumns :: "u8 list \<Rightarrow> u8 list" where
  "aes_invmixcolumns s = fold invmix_column [0..<4] s"

section \<open>Key schedule, encryption and decryption\<close>

text \<open>\<open>tls_aes128\<close> is the array of the eleven round keys.\<close>

type_synonym tls_aes128 = "u8 list list"

definition next_round_key :: "nat \<Rightarrow> u8 list \<Rightarrow> u8 list" where
  "next_round_key i prev =
     (let w0 = [SBOX ! unat (prev ! 13) XOR RCON ! i XOR prev ! 0,
                SBOX ! unat (prev ! 14) XOR prev ! 1,
                SBOX ! unat (prev ! 15) XOR prev ! 2,
                SBOX ! unat (prev ! 12) XOR prev ! 3];
          w1 = map (\<lambda>k. w0 ! k XOR prev ! (4 + k)) [0..<4];
          w2 = map (\<lambda>k. w1 ! k XOR prev ! (8 + k)) [0..<4];
          w3 = map (\<lambda>k. w2 ! k XOR prev ! (12 + k)) [0..<4]
      in w0 @ w1 @ w2 @ w3)"

definition tls_aes128_setkey :: "u8 list \<Rightarrow> tls_aes128" where
  "tls_aes128_setkey key = fold (\<lambda>i rk. rk @ [next_round_key i (rk ! (i - 1))]) [1..<11] [take 16 key]"

definition enc_round :: "tls_aes128 \<Rightarrow> nat \<Rightarrow> u8 list \<Rightarrow> u8 list" where
  "enc_round a round s = aes_addroundkey (aes_mixcolumns (aes_shiftrows (aes_subbytes s SBOX))) (a ! round)"

definition tls_aes128_enc :: "tls_aes128 \<Rightarrow> u8 list \<Rightarrow> u8 list" where
  "tls_aes128_enc a inp =
     (let s = map (\<lambda>i. inp ! i) [0..<16];
          s = aes_addroundkey s (a ! 0);
          s = fold (enc_round a) [1..<10] s;
          s = aes_subbytes s SBOX;
          s = aes_shiftrows s
      in aes_addroundkey s (a ! 10))"

definition dec_round :: "tls_aes128 \<Rightarrow> nat \<Rightarrow> u8 list \<Rightarrow> u8 list" where
  "dec_round a round s =
     aes_invmixcolumns (aes_addroundkey (aes_subbytes (aes_invshiftrows s) INV_SBOX) (a ! round))"

definition tls_aes128_dec :: "tls_aes128 \<Rightarrow> u8 list \<Rightarrow> u8 list" where
  "tls_aes128_dec a inp =
     (let s = map (\<lambda>i. inp ! i) [0..<16];
          s = aes_addroundkey s (a ! 10);
          s = fold (dec_round a) (rev [1..<10]) s;
          s = aes_invshiftrows s;
          s = aes_subbytes s INV_SBOX
      in aes_addroundkey s (a ! 0))"

section \<open>Every round operation has its inverse\<close>

lemma length_aes_ops [simp]:
  "length (aes_addroundkey s k) = 16" "length (aes_subbytes s box) = 16"
  "length (aes_shiftrows s) = length s" "length (mix_column c s) = length s"
  "length (aes_mixcolumns s) = length s" "length (aes_invshiftrows s) = length s"
proof -
  show m: "length (mix_column c s) = length s" for c s by (simp add: mix_column_def Let_def)
  have "length (fold mix_column cs s) = length s" for cs s
    by (induction cs arbitrary: s) (simp_all add: m)
  then show "length (aes_mixcolumns s) = length s" by (simp add: aes_mixcolumns_def)
qed (simp_all add: aes_addroundkey_def aes_subbytes_def aes_shiftrows_def aes_invshiftrows_def Let_def)

lemma addroundkey_twice: "length s = 16 \<Longrightarrow> aes_addroundkey (aes_addroundkey s k) k = s"
  by (rule nth_equalityI) (simp_all add: aes_addroundkey_def xor.assoc)

lemma inv_sbox_table: "map (\<lambda>b. INV_SBOX ! unat b) SBOX = map of_nat [0..<256]"
  by code_simp

lemma inv_sbox: "INV_SBOX ! unat (SBOX ! unat b) = b"
proof -
  have b: "unat b < 256"
  proof -
    have "unat b < 2 ^ LENGTH(8)" by (rule unsigned_less)
    then show ?thesis by simp
  qed
  have len: "length SBOX = 256" by (simp add: SBOX_def)
  have "map (\<lambda>b. INV_SBOX ! unat b) SBOX ! unat b = map of_nat [0..<256] ! unat b"
    by (simp only: inv_sbox_table)
  with b len show ?thesis by simp
qed

lemma subbytes_inv: "length s = 16 \<Longrightarrow> aes_subbytes (aes_subbytes s SBOX) INV_SBOX = s"
  by (rule nth_equalityI) (simp_all add: aes_subbytes_def inv_sbox)

lemma list16:
  assumes "length s = 16"
  obtains s0 s1 s2 s3 s4 s5 s6 s7 s8 s9 s10 s11 s12 s13 s14 s15
  where "s = [s0, s1, s2, s3, s4, s5, s6, s7, s8, s9, s10, s11, s12, s13, s14, s15]"
  using assms by (auto simp: numeral_eq_Suc length_Suc_conv)

lemma shiftrows_inv: "length s = 16 \<Longrightarrow> aes_invshiftrows (aes_shiftrows s) = s"
  by (erule list16) (simp add: aes_shiftrows_def aes_invshiftrows_def Let_def)

text \<open>Doubling in the field is linear, and the products of the inverse matrix are sums of doublings.\<close>

lemma low_bit_test: "(drop_bit n (w :: 'a::len word) AND 1 \<noteq> 0) = bit w n"
  by (simp add: and_one_eq mod_2_eq_odd bit_iff_odd_drop_bit)

lemma gm2_shift: "gm2 b = push_bit 1 b XOR (if bit b 7 then 0x1b else 0)"
proof -
  have "bit (ucast b :: u32) 7 = bit b 7" by (simp add: bit_ucast_iff)
  moreover have "ucast (push_bit 1 (ucast b) :: u32) = push_bit 1 b"
    by (rule bit_word_eqI) (unfold bit_ucast_iff bit_push_bit_iff, auto)
  moreover have "ucast (x XOR y :: u32) = (ucast x XOR ucast y :: u8)" for x y
    by (rule bit_word_eqI) (simp add: bit_ucast_iff bit_xor_iff)
  ultimately show ?thesis
    by (simp only: gm2_def xtime_def low_bit_test) simp
qed

lemma gm2_xor: "gm2 (x XOR y) = gm2 x XOR gm2 y"
proof -
  have "push_bit 1 (x XOR y) = push_bit 1 x XOR push_bit 1 y"
    by (rule push_bit_xor)
  moreover have "bit (x XOR y) 7 = (bit x 7 \<noteq> bit y 7)" by (simp add: bit_xor_iff)
  ultimately show ?thesis
    unfolding gm2_shift
    by (cases "bit x 7"; cases "bit y 7") (simp_all only: xor.assoc xor.commute xor.left_commute if_True if_False
      not_True_eq_False not_False_eq_True simp_thms xor_self_eq xor.right_neutral xor.left_neutral)
qed

lemma eight_Suc: "8 = Suc (Suc (Suc (Suc (Suc (Suc (Suc (Suc 0)))))))"
  by simp

lemma gmul_consts:
  "gmul a 0x0e = gm2 a XOR gm2 (gm2 a) XOR gm2 (gm2 (gm2 a))"
  "gmul a 0x0b = a XOR gm2 a XOR gm2 (gm2 (gm2 a))"
  "gmul a 0x0d = a XOR gm2 (gm2 a) XOR gm2 (gm2 (gm2 a))"
  "gmul a 0x09 = a XOR gm2 (gm2 (gm2 a))"
  unfolding gmul_def eight_Suc gmul_loop.simps by (simp_all add: xor.assoc)

lemma xor_cancel: "a XOR (a XOR b) = (b :: u8)"
  by (simp add: xor.assoc [symmetric])

lemmas xor_ac = xor.assoc xor.commute xor.left_commute xor_cancel

lemma column_inverse:
  assumes "b0 = gm2 a0 XOR gm3 a1 XOR a2 XOR a3" "b1 = a0 XOR gm2 a1 XOR gm3 a2 XOR a3"
    and "b2 = a0 XOR a1 XOR gm2 a2 XOR gm3 a3" "b3 = gm3 a0 XOR a1 XOR a2 XOR gm2 a3"
  shows "gmul b0 0x0e XOR gmul b1 0x0b XOR gmul b2 0x0d XOR gmul b3 0x09 = a0"
    "gmul b0 0x09 XOR gmul b1 0x0e XOR gmul b2 0x0b XOR gmul b3 0x0d = a1"
    "gmul b0 0x0d XOR gmul b1 0x09 XOR gmul b2 0x0e XOR gmul b3 0x0b = a2"
    "gmul b0 0x0b XOR gmul b1 0x0d XOR gmul b2 0x09 XOR gmul b3 0x0e = a3"
  unfolding assms gmul_consts gm3_def gm2_xor by (simp_all add: xor_ac)

lemma mixcolumns_inv:
  assumes "length s = 16"
  shows "aes_invmixcolumns (aes_mixcolumns s) = s"
proof -
  obtain s0 s1 s2 s3 s4 s5 s6 s7 s8 s9 s10 s11 s12 s13 s14 s15
    where s: "s = [s0, s1, s2, s3, s4, s5, s6, s7, s8, s9, s10, s11, s12, s13, s14, s15]"
    using assms by (rule list16)
  have up: "[0..<4] = [0, 1, 2, 3]" by (simp add: upt_rec)
  show ?thesis
    unfolding s aes_mixcolumns_def aes_invmixcolumns_def up
    by (simp add: mix_column_def invmix_column_def Let_def column_inverse [OF refl refl refl refl])
qed

text \<open>The nine full rounds, undone from the last to the first.\<close>

lemma dec_enc_round:
  assumes "length s = 16"
  shows "dec_round a r (aes_shiftrows (aes_subbytes (enc_round a r s) SBOX)) =
    aes_shiftrows (aes_subbytes s SBOX)"
  by (simp add: dec_round_def enc_round_def shiftrows_inv subbytes_inv addroundkey_twice mixcolumns_inv)

lemma length_enc_rounds: "length s = 16 \<Longrightarrow> length (fold (enc_round a) rs s) = 16"
  by (induction rs arbitrary: s) (simp_all add: enc_round_def)

lemma dec_enc_rounds:
  assumes "length s = 16"
  shows "fold (dec_round a) (rev rs) (aes_shiftrows (aes_subbytes (fold (enc_round a) rs s) SBOX)) =
    aes_shiftrows (aes_subbytes s SBOX)"
  using assms
proof (induction rs arbitrary: s)
  case (Cons r rs)
  have "length (enc_round a r s) = 16" by (simp add: enc_round_def)
  from Cons.IH [OF this] show ?case by (simp add: dec_enc_round [OF Cons.prems])
qed simp

lemma map_nth_16: "length xs = 16 \<Longrightarrow> map (\<lambda>i. xs ! i) [0..<16] = xs"
  by (rule nth_equalityI) simp_all

lemma length_aes_enc [simp]: "length (tls_aes128_enc a b) = 16"
  by (simp add: tls_aes128_enc_def Let_def)

text \<open>
  C39. AES-128 decryption inverts encryption.  For every sixteen-byte block and every expanded key
  \<^verbatim>\<open>tls_aes128_dec\<close> applied to the output of \<^verbatim>\<open>tls_aes128_enc\<close> gives the block back: the inverse S-box
  undoes the S-box on all 256 bytes, the row rotations and the column products are inverse to
  each other, and the rounds are undone in reverse order with the same round keys.
\<close>

theorem aes_dec_enc:
  assumes "length b = 16"
  shows "tls_aes128_dec a (tls_aes128_enc a b) = b"
proof -
  have "tls_aes128_dec a (tls_aes128_enc a b) =
      aes_addroundkey (aes_subbytes (aes_invshiftrows
        (aes_shiftrows (aes_subbytes (aes_addroundkey b (a ! 0)) SBOX))) INV_SBOX) (a ! 0)"
    by (simp only: tls_aes128_dec_def tls_aes128_enc_def Let_def map_nth_16 length_aes_ops assms
        addroundkey_twice dec_enc_rounds)
  then show ?thesis
    using assms by (simp add: shiftrows_inv subbytes_inv addroundkey_twice)
qed

theorem aes_dec_enc_witness:
  "tls_aes128_dec (tls_aes128_setkey (replicate 16 0x2b)) (tls_aes128_enc (tls_aes128_setkey (replicate 16 0x2b))
     [1, 2, 3, 4, 5, 6, 7, 8, 9, 10, 11, 12, 13, 14, 15, 16]) =
   [1, 2, 3, 4, 5, 6, 7, 8, 9, 10, 11, 12, 13, 14, 15, 16]"
  by (rule aes_dec_enc) simp

text \<open>The example vector of the standard (FIPS 197, appendix C.1).\<close>

lemma aes_fips197:
  "tls_aes128_enc (tls_aes128_setkey
      [0x00, 0x01, 0x02, 0x03, 0x04, 0x05, 0x06, 0x07, 0x08, 0x09, 0x0a, 0x0b, 0x0c, 0x0d, 0x0e, 0x0f])
    [0x00, 0x11, 0x22, 0x33, 0x44, 0x55, 0x66, 0x77, 0x88, 0x99, 0xaa, 0xbb, 0xcc, 0xdd, 0xee, 0xff] =
   [0x69, 0xc4, 0xe0, 0xd8, 0x6a, 0x7b, 0x04, 0x30, 0xd8, 0xcd, 0xb7, 0x80, 0x70, 0xb4, 0xc5, 0x5a]"
  by code_simp

end
