(* ===== verification/Tls_Gcm.thy ===== *)
theory Tls_Gcm
  imports Tls_Aes Tls_Bn
begin

text \<open>
  AES-128-GCM of \<^verbatim>\<open>vlibc/src/tls/tls_crypto.c\<close>: the counter, GHASH over byte blocks, counter mode,
  and the sealing and opening of a record.  \<^verbatim>\<open>aad\<close>, plaintext and ciphertext with their lengths
  are byte lists.
\<close>

section \<open>Counter and field arithmetic\<close>

fun inc_loop :: "nat \<Rightarrow> nat \<Rightarrow> u8 list \<Rightarrow> u8 list" where
  "inc_loop 0 i ctr = ctr"
| "inc_loop (Suc k) i ctr =
     (let idx = 15 - i; ctr = ctr[idx := ctr ! idx + 1]
      in if ctr ! idx \<noteq> 0 then ctr else inc_loop k (Suc i) ctr)"

definition gcm_inc32 :: "u8 list \<Rightarrow> u8 list" where "gcm_inc32 ctr = inc_loop 4 0 ctr"

definition rev_byte :: "u8 \<Rightarrow> u8" where
  "rev_byte v =
     (let v = push_bit 4 (v AND 0x0f) OR drop_bit 4 (v AND 0xf0);
          v = push_bit 2 (v AND 0x33) OR drop_bit 2 (v AND 0xcc);
          v = push_bit 1 (v AND 0x55) OR drop_bit 1 (v AND 0xaa)
      in v)"

definition gcm_rev128 :: "u8 list \<Rightarrow> u8 list" where
  "gcm_rev128 inp = map (\<lambda>i. rev_byte (inp ! (15 - i))) [0..<16]"

definition gf_xor :: "u8 list \<Rightarrow> u8 list \<Rightarrow> u8 list" where
  "gf_xor z x = map (\<lambda>i. z ! i XOR x ! i) [0..<16]"

definition gf_shift :: "u8 list \<Rightarrow> u8 list" where
  "gf_shift v =
     (let carry = drop_bit 7 (v ! 0);
          v = map (\<lambda>j. if j < 15 then push_bit 1 (v ! j) OR drop_bit 7 (v ! (j + 1))
                       else push_bit 1 (v ! 15)) [0..<16]
      in if carry \<noteq> 0 then v[15 := v ! 15 XOR 0x87] else v)"

fun mul_bits :: "nat \<Rightarrow> nat \<Rightarrow> u8 list \<Rightarrow> u8 list \<Rightarrow> u8 list \<Rightarrow> u8 list" where
  "mul_bits 0 k x v z = z"
| "mul_bits (Suc r) k x v z =
     (let xb = drop_bit (k mod 8) (x ! (15 - k div 8)) AND 1;
          z = (if xb \<noteq> 0 then gf_xor z v else z)
      in mul_bits r (Suc k) x (gf_shift v) z)"

definition ghash_absorb :: "u8 list \<Rightarrow> u8 list \<Rightarrow> u8 list \<Rightarrow> u8 list" where
  "ghash_absorb acc block H =
     (let bf = gcm_rev128 block;
          x = map (\<lambda>i. acc ! i XOR bf ! i) [0..<16]
      in mul_bits 128 0 x H (replicate 16 0))"

section \<open>Counter mode and GHASH of a byte string\<close>

function gcm_gctr :: "tls_aes128 \<Rightarrow> u8 list \<Rightarrow> u8 list \<Rightarrow> u8 list" where
  "gcm_gctr a ctr inp =
     (if inp = [] then []
      else
        let e = tls_aes128_enc a ctr;
            n = (if length inp > 16 then 16 else length inp)
        in map (\<lambda>i. inp ! i XOR e ! i) [0..<n] @ gcm_gctr a (gcm_inc32 ctr) (drop n inp))"
  by pat_completeness auto
termination
  by (relation "measure (\<lambda>(a, ctr, inp). length inp)") auto

declare gcm_gctr.simps [simp del]

function ghash_bytes :: "u8 list \<Rightarrow> u8 list \<Rightarrow> u8 list \<Rightarrow> u8 list" where
  "ghash_bytes S data Hf =
     (if data = [] then S
      else
        let n = (if length data > 16 then 16 else length data);
            blk = take n data @ replicate (16 - n) 0
        in ghash_bytes (ghash_absorb S blk Hf) (drop n data) Hf)"
  by pat_completeness auto
termination
  by (relation "measure (\<lambda>(S, data, Hf). length data)") auto

declare ghash_bytes.simps [simp del]

definition gcm_lenblk :: "nat \<Rightarrow> nat \<Rightarrow> u8 list" where
  "gcm_lenblk aadlen ctlen =
     map (\<lambda>i. ucast (drop_bit (8 * (7 - i)) (of_nat aadlen * 8 :: u64))) [0..<8] @
     map (\<lambda>i. ucast (drop_bit (8 * (7 - i)) (of_nat ctlen * 8 :: u64))) [0..<8]"

definition gcm_hash_final :: "u8 list \<Rightarrow> u8 list \<Rightarrow> u8 list \<Rightarrow> u8 list \<Rightarrow> u8 list" where
  "gcm_hash_final aad ct H S =
     (let Hf = gcm_rev128 H;
          S = ghash_bytes S aad Hf;
          S = ghash_bytes S ct Hf;
          S = ghash_absorb S (gcm_lenblk (length aad) (length ct)) Hf
      in gcm_rev128 S)"

section \<open>Sealing and opening\<close>

definition TLS_GCM_TAG :: nat where "TLS_GCM_TAG = 16"

definition gcm_j0 :: "u8 list \<Rightarrow> u8 list" where "gcm_j0 nonce = take 12 nonce @ [0, 0, 0, 1]"

definition tls_gcm_seal :: "u8 list \<Rightarrow> u8 list \<Rightarrow> u8 list \<Rightarrow> u8 list \<Rightarrow> u8 list" where
  "tls_gcm_seal key nonce aad pt =
     (let a = tls_aes128_setkey key;
          H = tls_aes128_enc a (replicate 16 0);
          J0 = gcm_j0 nonce;
          ct = gcm_gctr a (gcm_inc32 J0) pt;
          S = gcm_hash_final aad ct H (replicate 16 0);
          T = gcm_gctr a J0 S
      in ct @ T)"

text \<open>
  \<^verbatim>\<open>tls_gcm_open\<close> takes a pointer to where the computed tag goes: null, a buffer of its own, or
  a place inside the record that is being opened.  The last is what the two readers of a Finished
  message pass (\<^verbatim>\<open>rec + AES_EXPLICIT + ptlen\<close>).  The tag is stored before the comparison reads the
  received tag, so the store is part of the model: \<open>tag_store\<close> is the record after
  \<^verbatim>\<open>memcpy(tag, T, 16)\<close>.  The plaintext buffer is apart from the record in every call.

  The function returns 0 or -1 and writes the plaintext buffer unless the record is too short to
  hold a tag: the result is the return value, what is written to the plaintext buffer and to a tag
  buffer of its own, and the record afterwards.
\<close>

datatype tag_ptr = Tag_null | Tag_buffer | Tag_in_ct nat

definition tag_store :: "tag_ptr \<Rightarrow> u8 list \<Rightarrow> u8 list \<Rightarrow> u8 list" where
  "tag_store tag T ct =
     (case tag of Tag_in_ct off \<Rightarrow> take (length ct) (take off ct @ T @ drop (off + 16) ct) | _ \<Rightarrow> ct)"

definition tls_gcm_open :: "u8 list \<Rightarrow> u8 list \<Rightarrow> u8 list \<Rightarrow> u8 list \<Rightarrow> tag_ptr \<Rightarrow>
    int \<times> u8 list option \<times> u8 list option \<times> u8 list" where
  "tls_gcm_open key nonce aad ct tag =
     (let ctlen = length ct; ptlen = ctlen - TLS_GCM_TAG
      in if ctlen < TLS_GCM_TAG then (-1, None, None, ct)
         else
           let a = tls_aes128_setkey key;
               H = tls_aes128_enc a (replicate 16 0);
               J0 = gcm_j0 nonce;
               pt = gcm_gctr a (gcm_inc32 J0) (take ptlen ct);
               S = gcm_hash_final aad (take ptlen ct) H (replicate 16 0);
               T = gcm_gctr a J0 S;
               own = (if tag = Tag_buffer then Some T else None);
               ct' = tag_store tag T ct;
               bad = fold (\<lambda>i bad. bad OR (T ! i XOR ct' ! (ptlen + i))) [0..<TLS_GCM_TAG] 0
           in if bad \<noteq> 0 then (-1, Some (replicate ptlen 0), own, ct') else (0, Some pt, own, ct'))"

section \<open>Counter mode is its own inverse\<close>

lemma length_gctr [simp]: "length (gcm_gctr a ctr inp) = length inp"
proof (induction a ctr inp rule: gcm_gctr.induct)
  case (1 a ctr inp)
  show ?case
  proof (cases "inp = []")
    case False
    then show ?thesis using 1 [OF False refl refl] by (subst gcm_gctr.simps) (simp add: Let_def)
  qed (simp add: gcm_gctr.simps)
qed

lemma gctr_gctr: "gcm_gctr a ctr (gcm_gctr a ctr inp) = inp"
proof (induction a ctr inp rule: gcm_gctr.induct)
  case (1 a ctr inp)
  show ?case
  proof (cases "inp = []")
    case False
    define n where "n = (if length inp > 16 then 16 else length inp)"
    define e where "e = tls_aes128_enc a ctr"
    let ?h = "map (\<lambda>i. inp ! i XOR e ! i) [0..<n]" and ?t = "gcm_gctr a (gcm_inc32 ctr) (drop n inp)"
    have n: "n \<le> length inp" "0 < n" using False by (auto simp: n_def)
    have out: "gcm_gctr a ctr inp = ?h @ ?t"
      using False by (subst gcm_gctr.simps) (simp add: Let_def n_def e_def)
    have len: "length (?h @ ?t) = length inp" using n by simp
    have ne: "?h @ ?t \<noteq> []" using n by simp
    have "gcm_gctr a ctr (?h @ ?t) =
        map (\<lambda>i. (?h @ ?t) ! i XOR e ! i) [0..<n] @ gcm_gctr a (gcm_inc32 ctr) (drop n (?h @ ?t))"
      using ne len by (subst gcm_gctr.simps) (simp add: Let_def n_def e_def)
    also have "map (\<lambda>i. (?h @ ?t) ! i XOR e ! i) [0..<n] = take n inp"
      using n by (intro nth_equalityI) (simp_all add: nth_append xor.assoc)
    also have "drop n (?h @ ?t) = ?t" by simp
    also have "gcm_gctr a (gcm_inc32 ctr) ?t = drop n inp"
      using 1 [OF False refl refl] by (simp add: n_def)
    finally show ?thesis by (simp add: out)
  qed (simp add: gcm_gctr.simps)
qed

text \<open>The accumulated difference is zero exactly when all sixteen bytes agree.\<close>

lemma or_eq_0: "(a OR b = 0) = (a = 0 \<and> b = (0 :: 'a::len word))"
  by (auto simp: bit_eq_iff bit_or_iff)

lemma xor_eq_0: "(a XOR b = 0) = (a = (b :: 'a::len word))"
  by (auto simp: bit_eq_iff bit_xor_iff)

lemma bad_zero_iff:
  "fold (\<lambda>i bad. bad OR f i) xs bad = (0 :: u8) \<longleftrightarrow> bad = 0 \<and> (\<forall>i \<in> set xs. f i = 0)"
  by (induction xs arbitrary: bad) (auto simp: or_eq_0)

lemma length_hash_final [simp]: "length (gcm_hash_final aad ct H S) = 16"
  by (simp add: gcm_hash_final_def Let_def gcm_rev128_def)

lemma tag_compare:
  assumes "length T = 16" "length ct = ptlen + 16"
  shows "fold (\<lambda>i bad. bad OR (T ! i XOR ct ! (ptlen + i))) [0..<TLS_GCM_TAG] 0 = (0 :: u8) \<longleftrightarrow>
    T = drop ptlen ct"
proof -
  have "(\<forall>i \<in> {0..<16}. T ! i = ct ! (ptlen + i)) \<longleftrightarrow> T = drop ptlen ct"
    using assms by (auto simp: list_eq_iff_nth_eq)
  then show ?thesis by (simp add: bad_zero_iff xor_eq_0 TLS_GCM_TAG_def)
qed

text \<open>The tag of a ciphertext, and the call with the comparison spelled out.\<close>

definition gcm_tag :: "u8 list \<Rightarrow> u8 list \<Rightarrow> u8 list \<Rightarrow> u8 list \<Rightarrow> u8 list" where
  "gcm_tag key nonce aad c =
     (let a = tls_aes128_setkey key
      in gcm_gctr a (gcm_j0 nonce)
           (gcm_hash_final aad c (tls_aes128_enc a (replicate 16 0)) (replicate 16 0)))"

definition gcm_crypt :: "u8 list \<Rightarrow> u8 list \<Rightarrow> u8 list \<Rightarrow> u8 list" where
  "gcm_crypt key nonce c = gcm_gctr (tls_aes128_setkey key) (gcm_inc32 (gcm_j0 nonce)) c"

lemma length_tag [simp]: "length (gcm_tag key nonce aad c) = 16"
  by (simp add: gcm_tag_def Let_def)

lemma gcm_crypt_crypt [simp]: "gcm_crypt key nonce (gcm_crypt key nonce c) = c"
  by (simp add: gcm_crypt_def gctr_gctr)

lemma length_crypt [simp]: "length (gcm_crypt key nonce c) = length c"
  by (simp add: gcm_crypt_def)

lemma seal_parts:
  "tls_gcm_seal key nonce aad pt =
     gcm_crypt key nonce pt @ gcm_tag key nonce aad (gcm_crypt key nonce pt)"
  by (simp add: tls_gcm_seal_def gcm_tag_def gcm_crypt_def Let_def)

lemma length_tag_store [simp]: "length (tag_store tag T ct) = length ct" if "length T = 16"
  using that by (auto simp: tag_store_def split: tag_ptr.split)

lemma open_parts:
  assumes "\<not> length ct < 16"
  shows "tls_gcm_open key nonce aad ct tag =
    (let c = take (length ct - 16) ct; T = gcm_tag key nonce aad c; ct' = tag_store tag T ct;
         own = (if tag = Tag_buffer then Some T else None)
     in if T = drop (length ct - 16) ct' then (0, Some (gcm_crypt key nonce c), own, ct')
        else (-1, Some (replicate (length ct - 16) 0), own, ct'))"
proof -
  let ?T = "gcm_tag key nonce aad (take (length ct - 16) ct)"
  have "length (tag_store tag ?T ct) = (length ct - 16) + 16" using assms by simp
  from tag_compare [OF length_tag this, of key nonce aad "take (length ct - 16) ct"] show ?thesis
    using assms by (simp add: tls_gcm_open_def Let_def TLS_GCM_TAG_def gcm_tag_def gcm_crypt_def)
qed

lemma open_short: "length ct < 16 \<Longrightarrow> tls_gcm_open key nonce aad ct tag = (-1, None, None, ct)"
  by (simp add: tls_gcm_open_def TLS_GCM_TAG_def)

lemma sealed_iff:
  assumes "\<not> length ct < 16"
  shows "gcm_tag key nonce aad (take (length ct - 16) ct) = drop (length ct - 16) ct \<and>
      gcm_crypt key nonce (take (length ct - 16) ct) = pt \<longleftrightarrow>
    ct = tls_gcm_seal key nonce aad pt" (is "?L \<longleftrightarrow> ?R")
proof
  assume ?L
  then have "take (length ct - 16) ct = gcm_crypt key nonce pt" by auto
  with \<open>?L\<close> have "take (length ct - 16) ct @ drop (length ct - 16) ct = tls_gcm_seal key nonce aad pt"
    unfolding seal_parts by metis
  then show ?R by simp
qed (simp add: seal_parts)

lemma tag_store_received:
  "length T = 16 \<Longrightarrow> \<not> length ct < 16 \<Longrightarrow>
     tag_store (Tag_in_ct (length ct - 16)) T ct = take (length ct - 16) ct @ T"
  by (simp add: tag_store_def)

text \<open>
  C7. Authenticated encryption.  With a null tag pointer or a tag buffer of its own,
  \<^verbatim>\<open>tls_gcm_open\<close> accepts a record and delivers the plaintext \<open>pt\<close> exactly when the record is what
  \<^verbatim>\<open>tls_gcm_seal\<close> produces from \<open>pt\<close> under the same key, nonce and additional data.  With a tag
  pointer to the received tag, which is what both readers of a Finished message pass, there is no
  authentication at all: every record of at least sixteen bytes is accepted and decrypted, whatever
  its tag.
\<close>

theorem gcm_open_iff_sealed:
  "(tls_gcm_open key nonce aad ct Tag_null = (0, Some pt, None, ct) \<longleftrightarrow>
      ct = tls_gcm_seal key nonce aad pt) \<and>
   ((\<exists>T. tls_gcm_open key nonce aad ct Tag_buffer = (0, Some pt, Some T, ct)) \<longleftrightarrow>
      ct = tls_gcm_seal key nonce aad pt) \<and>
   fst (tls_gcm_open key nonce aad ct (Tag_in_ct (length ct - TLS_GCM_TAG))) =
     (if length ct < TLS_GCM_TAG then -1 else 0)"
proof (cases "length ct < 16")
  case True
  then have "ct \<noteq> tls_gcm_seal key nonce aad pt" by (auto simp: seal_parts)
  with True show ?thesis by (simp add: open_short TLS_GCM_TAG_def)
next
  case False
  note sealed_iff [OF False, of key nonce aad pt]
  moreover have "tag_store Tag_null T ct = ct" "tag_store Tag_buffer T ct = ct" for T
    by (simp_all add: tag_store_def)
  ultimately show ?thesis
    using False by (auto simp: open_parts Let_def TLS_GCM_TAG_def tag_store_received)
qed

text \<open>A refused record leaves no plaintext behind: the buffer is untouched or all zero.\<close>

lemma gcm_open_rejected:
  "fst (tls_gcm_open key nonce aad ct tag) \<noteq> 0 \<Longrightarrow>
     fst (snd (tls_gcm_open key nonce aad ct tag)) \<in> {None, Some (replicate (length ct - 16) 0)}"
  by (auto simp: tls_gcm_open_def Let_def TLS_GCM_TAG_def split: if_splits)

section \<open>GHASH as arithmetic on 128-bit words\<close>

text \<open>
  The field of GHASH: bit \<open>i\<close> of a word is the coefficient of \<open>x ^ i\<close>; multiplying by \<open>x\<close> shifts
  left and folds \<open>x ^ 128\<close> back as \<open>x ^ 7 + x ^ 2 + x + 1\<close>.
\<close>

type_synonym gf128 = "128 word"

definition gf128_shift :: "gf128 \<Rightarrow> gf128" where
  "gf128_shift v = push_bit 1 v XOR (if bit v 127 then 0x87 else 0)"

definition gf128_mul :: "gf128 \<Rightarrow> gf128 \<Rightarrow> gf128" where
  "gf128_mul x h = fold (\<lambda>i z. if bit x i then z XOR (gf128_shift ^^ i) h else z) [0..<128] 0"

definition gf128_reverse :: "gf128 \<Rightarrow> gf128" where
  "gf128_reverse x = of_nat (horner_sum of_bool 2 (map (\<lambda>i. bit x (127 - i)) [0..<128]))"

definition gf128_of :: "u8 list \<Rightarrow> gf128" where
  "gf128_of bs = of_nat (be_val bs)"

lemma gf128_of_bit:
  "length bs = 16 \<Longrightarrow> bit (gf128_of bs) k \<longleftrightarrow> k < 128 \<and> bit (bs ! (15 - k div 8)) (k mod 8)"
  by (auto simp: gf128_of_def bit_of_nat_iff be_val_bit)

lemma gf128_reverse_bit: "bit (gf128_reverse x) k \<longleftrightarrow> k < 128 \<and> bit x (127 - k)"
  by (auto simp: gf128_reverse_def bit_of_nat_iff bit_horner_sum_bit_iff)

lemma gf_xor_word:
  assumes "length z = 16" "length x = 16"
  shows "gf128_of (gf_xor z x) = gf128_of z XOR gf128_of x"
proof (rule bit_word_eqI)
  fix k :: nat
  assume "k < LENGTH(128)"
  then have "k < 128" "15 - k div 8 < 16" by simp_all
  with assms show "bit (gf128_of (gf_xor z x)) k = bit (gf128_of z XOR gf128_of x) k"
    by (simp add: gf128_of_bit bit_xor_iff gf_xor_def)
qed

lemma length_gf_ops [simp]: "length (gf_xor z x) = 16" "length (gf_shift v) = 16" "length (gcm_rev128 b) = 16"
  by (simp_all add: gf_xor_def gf_shift_def gcm_rev128_def Let_def)

lemma shifted_bytes:
  assumes "length v = 16"
  shows "gf128_of (map (\<lambda>j. if j < 15 then push_bit 1 (v ! j) OR drop_bit 7 (v ! (j + 1))
      else push_bit 1 (v ! 15)) [0..<16]) = push_bit 1 (gf128_of v)"
proof (rule bit_word_eqI)
  fix k :: nat
  assume k: "k < LENGTH(128)"
  define q r where "q = k div 8" and "r = k mod 8"
  have kq: "k = 8 * q + r" "r < 8" "q < 16" using k by (simp_all add: q_def r_def less_mult_imp_div_less)
  have high: "\<not> bit (v ! j) (Suc i + 7)" for j i
    by (auto dest: bit_imp_le_length)
  let ?l = "map (\<lambda>j. if j < 15 then push_bit 1 (v ! j) OR drop_bit 7 (v ! (j + 1)) else push_bit 1 (v ! 15)) [0..<16]"
  have lhs: "bit (gf128_of ?l) k \<longleftrightarrow> bit (?l ! (15 - q)) r"
    using k by (simp add: gf128_of_bit q_def r_def del: upt_Suc)
  have rhs: "bit (push_bit 1 (gf128_of v)) k \<longleftrightarrow> 1 \<le> k \<and> bit (v ! (15 - (k - 1) div 8)) ((k - 1) mod 8)"
    using k assms by (auto simp: bit_push_bit_iff gf128_of_bit simp del: push_bit_Suc)
  show "bit (gf128_of ?l) k = bit (push_bit 1 (gf128_of v)) k"
  proof (cases r)
    case (Suc r')
    then have "(k - 1) div 8 = q" "(k - 1) mod 8 = r'" "1 \<le> k" using kq by simp_all
    then have "bit (push_bit 1 (gf128_of v)) k \<longleftrightarrow> bit (v ! (15 - q)) r'" unfolding rhs by simp
    moreover have "bit (?l ! (15 - q)) r \<longleftrightarrow> bit (v ! (15 - q)) r'"
      using Suc kq high [of "Suc (15 - q)" r']
      by (cases q) (auto simp: bit_push_bit_iff bit_or_iff bit_drop_bit_eq simp del: push_bit_Suc)
    ultimately show ?thesis unfolding lhs by simp
  next
    case 0
    show ?thesis
    proof (cases q)
      case 0
      then show ?thesis unfolding lhs rhs using kq \<open>r = 0\<close> by (simp add: bit_push_bit_iff del: push_bit_Suc)
    next
      case (Suc q')
      then have "(k - 1) div 8 = q'" "(k - 1) mod 8 = 7" "1 \<le> k" "Suc (14 - q') = 15 - q'" "14 - q' < 15"
        using kq \<open>r = 0\<close> by simp_all
      then show ?thesis
        unfolding lhs rhs using Suc kq \<open>r = 0\<close>
        by (simp add: bit_push_bit_iff bit_or_iff bit_drop_bit_eq Suc_diff_Suc del: push_bit_Suc)
    qed
  qed
qed

lemma gf_shift_word:
  assumes "length v = 16"
  shows "gf128_of (gf_shift v) = gf128_shift (gf128_of v)"
proof -
  let ?l = "map (\<lambda>j. if j < 15 then push_bit 1 (v ! j) OR drop_bit 7 (v ! (j + 1)) else push_bit 1 (v ! 15)) [0..<16]"
  have "drop_bit 7 w \<noteq> 0 \<longleftrightarrow> bit w 7" for w :: u8
  proof
    assume "drop_bit 7 w \<noteq> 0"
    then obtain n where n: "bit w (7 + n)" by (auto simp: bit_eq_iff bit_drop_bit_eq)
    then have "7 + n < 8" using bit_imp_le_length [OF n] by simp
    with n show "bit w 7" by simp
  next
    assume "bit w 7"
    then have "bit (drop_bit 7 w) 0" by (simp add: bit_drop_bit_eq)
    then show "drop_bit 7 w \<noteq> 0" by auto
  qed
  then have carry: "drop_bit 7 (v ! 0) \<noteq> 0 \<longleftrightarrow> bit (gf128_of v) 127"
    using assms by (simp add: gf128_of_bit)
  have c: "(0x87 :: gf128) = ucast (0x87 :: u8)" by simp
  have "gf128_of (l[15 := l ! 15 XOR 0x87]) = gf128_of l XOR 0x87" if l: "length l = 16" for l
  proof (rule bit_word_eqI)
    fix k :: nat
    assume "k < LENGTH(128)"
    then have k: "k < 128" "15 - k div 8 < 16" "15 - k div 8 = 15 \<longleftrightarrow> k < 8" by auto
    have "\<not> bit (0x87 :: u8) k" if "\<not> k < 8" using that by (auto dest: bit_imp_le_length)
    then show "bit (gf128_of (l[15 := l ! 15 XOR 0x87])) k = bit (gf128_of l XOR 0x87) k"
      unfolding c bit_xor_iff bit_ucast_iff
      using k l by (auto simp: gf128_of_bit nth_list_update bit_xor_iff)
  qed
  from this [of ?l] show ?thesis
    unfolding gf128_shift_def shifted_bytes [OF assms, symmetric] carry [symmetric]
    by (simp only: gf_shift_def Let_def) (simp del: push_bit_Suc)
qed

lemma mul_bits_word:
  assumes "length x = 16" "length v = 16" "length z = 16" "gf128_of v = (gf128_shift ^^ k) h" "k + r \<le> 128"
  shows "gf128_of (mul_bits r k x v z) =
    fold (\<lambda>i z. if bit (gf128_of x) i then z XOR (gf128_shift ^^ i) h else z) [k..<k + r] (gf128_of z)"
  using assms(2-5)
proof (induction r arbitrary: k v z)
  case (Suc r)
  have xb: "drop_bit (k mod 8) (x ! (15 - k div 8)) AND 1 \<noteq> 0 \<longleftrightarrow> bit (gf128_of x) k"
    using Suc.prems(4) assms(1) by (simp add: low_bit_test gf128_of_bit)
  define z' where "z' = (if bit (gf128_of x) k then gf_xor z v else z)"
  have z': "length z' = 16" "gf128_of z' =
      (if bit (gf128_of x) k then gf128_of z XOR (gf128_shift ^^ k) h else gf128_of z)"
    using Suc.prems by (simp_all add: z'_def gf_xor_word)
  have "mul_bits (Suc r) k x v z = mul_bits r (Suc k) x (gf_shift v) z'"
    by (simp only: mul_bits.simps Let_def xb z'_def)
  moreover have "gf128_of (mul_bits r (Suc k) x (gf_shift v) z') =
      fold (\<lambda>i z. if bit (gf128_of x) i then z XOR (gf128_shift ^^ i) h else z) [Suc k..<Suc k + r] (gf128_of z')"
    using Suc.prems z'(1) by (intro Suc.IH) (simp_all add: gf_shift_word)
  moreover have "[k..<k + Suc r] = k # [Suc k..<Suc k + r]" by (simp add: upt_conv_Cons)
  ultimately show ?case by (simp add: z'(2))
qed simp

lemma rev_byte_bit: "bit (rev_byte v) k \<longleftrightarrow> k < 8 \<and> bit v (7 - k)"
proof (cases "k < 8")
  case True
  then consider "k = 0" | "k = 1" | "k = 2" | "k = 3" | "k = 4" | "k = 5" | "k = 6" | "k = 7"
    by linarith
  then show ?thesis
    by cases (simp_all add: rev_byte_def Let_def bit_or_iff bit_push_bit_iff bit_drop_bit_eq bit_and_iff
      del: push_bit_Suc drop_bit_Suc)
next
  case False
  then show ?thesis by (auto dest: bit_imp_le_length)
qed

lemma gcm_rev128_word:
  assumes "length b = 16"
  shows "gf128_of (gcm_rev128 b) = gf128_reverse (gf128_of b)"
proof (rule bit_word_eqI)
  fix k :: nat
  assume "k < LENGTH(128)"
  then have k: "k < 128" "127 - k < 128" by simp_all
  define q r where "q = k div 8" and "r = k mod 8"
  have kq: "k = 8 * q + r" "r < 8" "q < 16" using k by (simp_all add: q_def r_def less_mult_imp_div_less)
  then have "127 - k = 8 * (15 - q) + (7 - r)" by simp
  then have d: "(127 - k) div 8 = 15 - q" "(127 - k) mod 8 = 7 - r" by simp_all
  have "gcm_rev128 b ! (15 - q) = rev_byte (b ! (15 - ([0..<16] ! (15 - q))))"
    unfolding gcm_rev128_def by (rule nth_map) simp
  also have "[0..<16] ! (15 - q) = 0 + (15 - q)" by (rule nth_upt) simp
  also have "15 - (0 + (15 - q)) = q" using kq(3) by simp
  finally have u: "gcm_rev128 b ! (15 - q) = rev_byte (b ! q)" .
  show "bit (gf128_of (gcm_rev128 b)) k = bit (gf128_reverse (gf128_of b)) k"
    using k assms kq(2,3)
    by (simp add: gf128_of_bit gf128_reverse_bit d u rev_byte_bit q_def [symmetric] r_def [symmetric])
qed

text \<open>
  C40. GHASH refines field arithmetic.  One step of \<^verbatim>\<open>ghash_absorb\<close>, with its byte shuffling, carries
  between bytes and conditional reduction, multiplies the sum of the accumulator and the
  bit-reversed block by the hash key in GF(2^128), as an operation on 128-bit words.
\<close>

theorem ghash_absorb_word:
  assumes "length acc = 16" "length block = 16" "length H = 16"
  shows "gf128_of (ghash_absorb acc block H) =
    gf128_mul (gf128_of acc XOR gf128_reverse (gf128_of block)) (gf128_of H)"
proof -
  let ?x = "gf_xor acc (gcm_rev128 block)"
  have "ghash_absorb acc block H = mul_bits 128 0 ?x H (replicate 16 0)"
    by (simp add: ghash_absorb_def Let_def gf_xor_def)
  moreover have "gf128_of (replicate 16 0) = 0"
    by (rule bit_word_eqI) (simp add: gf128_of_bit)
  moreover have "gf128_of ?x = gf128_of acc XOR gf128_reverse (gf128_of block)"
    using assms by (simp add: gf_xor_word gcm_rev128_word)
  ultimately show ?thesis
    using mul_bits_word [of ?x H "replicate 16 0" 0 "gf128_of H" 128] assms
    by (simp add: gf128_mul_def)
qed

theorem ghash_absorb_word_witness:
  "gf128_of (ghash_absorb (replicate 16 1) (replicate 16 2) (replicate 16 3)) =
     gf128_mul (gf128_of (replicate 16 1) XOR gf128_reverse (gf128_of (replicate 16 2)))
       (gf128_of (replicate 16 3))"
  by (rule ghash_absorb_word) simp_all

end
