(* ===== verification/Paging.thy ===== *)
theory Paging
  imports Pmm
begin

text \<open>
  Address spaces, \<^verbatim>\<open>vnu/kernel/arch/i386/paging.cpp\<close>: two-level page tables in the identity-mapped
  memory, the record of the frames each space owns, and the operations that build, extend,
  map into, take apart and copy between spaces.

  Page directories and tables are 32-bit words in the memory \<open>ram\<close> of the frame pool, read and
  written at \<open>p + 4 * i\<close> like the source's \<^verbatim>\<open>uint32_t*\<close>.  The kernel's own tables are static
  arrays; the fields \<open>kpgdir\<close>, \<open>identity_pt\<close>, \<open>io_pt\<close> and \<open>dev_pt\<close> are their link addresses.
  An array with its element count (\<^verbatim>\<open>data_frames\<close>, \<^verbatim>\<open>pt_frames\<close>) is the list of the elements in use.
\<close>

section \<open>Words in memory\<close>

definition load32 :: "(u32 \<Rightarrow> u8) \<Rightarrow> u32 \<Rightarrow> u32" where
  "load32 m a = ucast (m a) OR push_bit 8 (ucast (m (a + 1)))
     OR push_bit 16 (ucast (m (a + 2))) OR push_bit 24 (ucast (m (a + 3)))"

definition store32 :: "u32 \<Rightarrow> u32 \<Rightarrow> (u32 \<Rightarrow> u8) \<Rightarrow> (u32 \<Rightarrow> u8)" where
  "store32 a v m = m(a := ucast v, a + 1 := ucast (drop_bit 8 v),
     a + 2 := ucast (drop_bit 16 v), a + 3 := ucast (drop_bit 24 v))"

section \<open>State\<close>

definition PRESENT :: u32 where "PRESENT = 1"
definition RW :: u32 where "RW = 2"
definition NUM_IDENTITY_PDES :: nat where "NUM_IDENTITY_PDES = 8"
definition VBE_LFB_BASE :: u32 where "VBE_LFB_BASE = 0xFD000000"
definition DEV_MMIO_BASE :: u32 where "DEV_MMIO_BASE = 0xFE800000"
definition MAX_ADDRESS_SPACES :: nat where "MAX_ADDRESS_SPACES = 16"
definition MAX_FRAMES_PER_SPACE :: nat where "MAX_FRAMES_PER_SPACE = 2560"
definition MAX_PRIVATE_PDES_PER_SPACE :: nat where "MAX_PRIVATE_PDES_PER_SPACE = 8"
definition PAGE_SIZE :: u32 where "PAGE_SIZE = 4096"

record addr_meta =
  m_used :: bool
  pgdir_phys :: u32
  data_frames :: "u32 list"
  pt_frames :: "u32 list"

record paging =
  pool :: pmm
  g_spaces :: "addr_meta list"
  g_current_pgdir :: u32
  cr0 :: u32
  cr3 :: u32
  cr4 :: u32
  kpgdir :: u32
  identity_pt :: u32
  io_pt :: u32
  dev_pt :: u32

definition page_of :: "u32 \<Rightarrow> u32" where "page_of e = e AND NOT 0xFFF"

definition pg_read :: "paging \<Rightarrow> u32 \<Rightarrow> nat \<Rightarrow> u32" where
  "pg_read s p i = load32 (ram (pool s)) (p + 4 * of_nat i)"

definition pg_write :: "u32 \<Rightarrow> nat \<Rightarrow> u32 \<Rightarrow> paging \<Rightarrow> paging" where
  "pg_write p i v s = s\<lparr>pool := (pool s)\<lparr>ram := store32 (p + 4 * of_nat i) v (ram (pool s))\<rparr>\<rparr>"

definition palloc :: "paging \<Rightarrow> u32 \<times> paging" where
  "palloc s = (case alloc_frame (pool s) of (f, p) \<Rightarrow> (f, s\<lparr>pool := p\<rparr>))"

definition pfree :: "u32 \<Rightarrow> paging \<Rightarrow> paging" where
  "pfree f s = s\<lparr>pool := free_frame f (pool s)\<rparr>"

definition meta_at :: "paging \<Rightarrow> nat \<Rightarrow> addr_meta" where "meta_at s k = g_spaces s ! k"

definition set_meta :: "nat \<Rightarrow> addr_meta \<Rightarrow> paging \<Rightarrow> paging" where
  "set_meta k m s = s\<lparr>g_spaces := (g_spaces s)[k := m]\<rparr>"

definition find_meta :: "u32 \<Rightarrow> paging \<Rightarrow> nat option" where
  "find_meta pg s = for_first 0 (length (g_spaces s))
     (\<lambda>k. if m_used (meta_at s k) \<and> pgdir_phys (meta_at s k) = pg then Some k else None)"

definition alloc_meta :: "paging \<Rightarrow> (nat \<times> paging) option" where
  "alloc_meta s =
     map_option (\<lambda>k. (k, set_meta k \<lparr>m_used = True, pgdir_phys = 0, data_frames = [], pt_frames = []\<rparr> s))
       (for_first 0 (length (g_spaces s)) (\<lambda>k. if \<not> m_used (meta_at s k) then Some k else None))"

section \<open>The kernel's page directory\<close>

definition write_cr3 :: "u32 \<Rightarrow> paging \<Rightarrow> paging" where "write_cr3 p s = s\<lparr>cr3 := p\<rparr>"

definition identity_table :: "nat \<Rightarrow> paging \<Rightarrow> paging" where
  "identity_table pde s =
     (let s = fold (\<lambda>i s. pg_write (identity_pt s + of_nat pde * 4096) i
                ((of_nat pde * 0x400000 + of_nat i * PAGE_SIZE) OR PRESENT OR RW) s) [0..<1024] s
      in pg_write (kpgdir s) pde ((identity_pt s + of_nat pde * 4096) OR PRESENT OR RW) s)"

definition paging_init :: "paging \<Rightarrow> paging" where
  "paging_init s =
     (let s = fold identity_table [0..<NUM_IDENTITY_PDES] s;
          s = fold (\<lambda>pde s. pg_write (kpgdir s) pde 0 s) [NUM_IDENTITY_PDES..<1024] s;
          s = fold (\<lambda>i s. pg_write (io_pt s) i ((VBE_LFB_BASE + of_nat i * PAGE_SIZE) OR PRESENT OR RW) s)
                [0..<1024] s;
          s = pg_write (kpgdir s) (unat (drop_bit 22 VBE_LFB_BASE)) (io_pt s OR PRESENT OR RW) s;
          s = s\<lparr>g_current_pgdir := kpgdir s\<rparr>;
          s = write_cr3 (kpgdir s) s;
          s = s\<lparr>cr0 := (cr0 s OR 0x80000000) AND NOT 0x0000000C\<rparr>
      in s\<lparr>cr4 := cr4 s OR 0x00000600\<rparr>)"

definition kernel_pgdir_phys :: "paging \<Rightarrow> u32" where "kernel_pgdir_phys s = kpgdir s"

definition map_device_region :: "u32 \<Rightarrow> u32 \<Rightarrow> paging \<Rightarrow> u32 \<times> paging" where
  "map_device_region phys sz s =
     (if sz = 0 then (0, s)
      else
        let offset = phys AND 0x3FFFFF;
            pages = (sz + PAGE_SIZE - 1) div PAGE_SIZE
        in if offset + pages * PAGE_SIZE > 0x400000 then (0, s)
           else
             let page = unat (offset div PAGE_SIZE);
                 s = fold (\<lambda>i s. pg_write (dev_pt s) (page + i)
                       ((page_of phys + of_nat i * PAGE_SIZE) OR PRESENT OR RW) s) [0..<unat pages] s;
                 s = pg_write (kpgdir s) (unat (drop_bit 22 DEV_MMIO_BASE)) (dev_pt s OR PRESENT OR RW) s;
                 s = s\<lparr>g_current_pgdir := kpgdir s\<rparr>;
                 s = write_cr3 (kpgdir s) s
             in (DEV_MMIO_BASE + offset, s))"

section \<open>Private page tables\<close>

definition pde_idx :: "u32 \<Rightarrow> nat" where "pde_idx vaddr = unat (drop_bit 22 vaddr)"
definition pte_idx :: "u32 \<Rightarrow> nat" where "pte_idx vaddr = unat (drop_bit 12 vaddr AND 0x3FF)"

definition is_private :: "addr_meta \<Rightarrow> u32 \<Rightarrow> bool" where
  "is_private m pde_val = (\<exists>f \<in> set (pt_frames m). page_of f = page_of pde_val)"

definition owns_frame :: "addr_meta \<Rightarrow> u32 \<Rightarrow> bool" where
  "owns_frame m frame = (\<exists>f \<in> set (data_frames m). page_of f = page_of frame)"

text \<open>A fresh table starts as a copy of the shared identity entries of its window, or empty.\<close>

definition seed_table :: "u32 \<Rightarrow> nat \<Rightarrow> paging \<Rightarrow> paging" where
  "seed_table pt pde s =
     (if pde < NUM_IDENTITY_PDES
      then fold (\<lambda>k s. pg_write pt k (pg_read s (identity_pt s + of_nat pde * 4096) k) s) [0..<1024] s
      else fold (\<lambda>k s. pg_write pt k 0 s) [0..<1024] s)"

text \<open>\<open>None\<close> is the null pointer.\<close>

definition private_page_table :: "nat \<Rightarrow> u32 \<Rightarrow> nat \<Rightarrow> paging \<Rightarrow> u32 option \<times> paging" where
  "private_page_table k pgdir pde s =
     (let m = meta_at s k
      in if is_private m (pg_read s pgdir pde) then (Some (page_of (pg_read s pgdir pde)), s)
         else if length (pt_frames m) \<ge> MAX_PRIVATE_PDES_PER_SPACE then (None, s)
         else case palloc s of (pt, s) \<Rightarrow>
           if pt = 0 then (None, s)
           else
             let s = set_meta k (m\<lparr>pt_frames := pt_frames m @ [pt]\<rparr>) s;
                 s = pg_write pgdir pde (pt OR PRESENT OR RW) s;
                 s = seed_table pt pde s
             in (Some (page_of (pg_read s pgdir pde)), s))"

text \<open>A fresh frame for one page, listed in the space and entered in its table.\<close>

definition map_fresh :: "nat \<Rightarrow> u32 \<Rightarrow> u32 \<Rightarrow> paging \<Rightarrow> bool \<times> paging" where
  "map_fresh k pt vaddr s =
     (let m = meta_at s k
      in if length (data_frames m) \<ge> MAX_FRAMES_PER_SPACE then (False, s)
         else case palloc s of (frame, s) \<Rightarrow>
           if frame = 0 then (False, s)
           else
             let s = set_meta k (m\<lparr>data_frames := data_frames m @ [frame]\<rparr>) s
             in (True, pg_write pt (pte_idx vaddr) (frame OR PRESENT OR RW) s))"

text \<open>
  The page loops: \<open>step\<close> is the body for one page and answers \<open>False\<close> where the source gives up.
\<close>

fun page_loop :: "(u32 \<Rightarrow> paging \<Rightarrow> bool \<times> paging) \<Rightarrow> u32 list \<Rightarrow> paging \<Rightarrow> bool \<times> paging" where
  "page_loop step [] s = (True, s)"
| "page_loop step (v # vs) s =
     (case step v s of (False, s) \<Rightarrow> (False, s) | (True, s) \<Rightarrow> page_loop step vs s)"

definition pages_from :: "u32 \<Rightarrow> nat \<Rightarrow> u32 list" where
  "pages_from start n = map (\<lambda>p. start + of_nat p * PAGE_SIZE) [0..<n]"

section \<open>Building and releasing a space\<close>

definition destroy_address_space :: "u32 \<Rightarrow> paging \<Rightarrow> paging" where
  "destroy_address_space pg s =
     (case find_meta pg s of
        None \<Rightarrow> s
      | Some k \<Rightarrow>
          let m = meta_at s k;
              s = fold pfree (data_frames m) s;
              s = fold pfree (pt_frames m) s;
              s = pfree pg s
          in set_meta k (m\<lparr>m_used := False\<rparr>) s)"

definition create_page :: "nat \<Rightarrow> u32 \<Rightarrow> u32 \<Rightarrow> paging \<Rightarrow> bool \<times> paging" where
  "create_page k pgdir vaddr s =
     (case private_page_table k pgdir (pde_idx vaddr) s of
        (None, s) \<Rightarrow> (False, s)
      | (Some pt, s) \<Rightarrow> map_fresh k pt vaddr s)"

type_synonym map_range = "u32 \<times> nat"

definition range_pages :: "map_range list \<Rightarrow> u32 list" where
  "range_pages ranges = concat (map (\<lambda>(start, n). pages_from start n) ranges)"

definition create_address_space :: "map_range list \<Rightarrow> paging \<Rightarrow> u32 \<times> paging" where
  "create_address_space ranges s =
     (case alloc_meta s of
        None \<Rightarrow> (0, s)
      | Some (k, s) \<Rightarrow>
          (case palloc s of (pgdir, s) \<Rightarrow>
             if pgdir = 0 then (0, set_meta k ((meta_at s k)\<lparr>m_used := False\<rparr>) s)
             else
               let s = set_meta k ((meta_at s k)\<lparr>pgdir_phys := pgdir\<rparr>) s;
                   s = fold (\<lambda>i s. pg_write pgdir i (pg_read s (kpgdir s) i) s) [0..<1024] s
               in case page_loop (create_page k pgdir) (range_pages ranges) s of
                    (True, s) \<Rightarrow> (pgdir, s)
                  | (False, s) \<Rightarrow> (0, destroy_address_space pgdir s)))"

section \<open>Mapping into an existing space\<close>

definition phys_frame_at :: "paging \<Rightarrow> u32 \<Rightarrow> u32 \<Rightarrow> u32" where
  "phys_frame_at s pg vaddr =
     (if pg = 0 then 0
      else
        let pde = pg_read s pg (pde_idx vaddr)
        in if pde AND PRESENT = 0 then 0
           else
             let pte = pg_read s (page_of pde) (pte_idx vaddr)
             in if pte AND PRESENT = 0 then 0 else page_of pte)"

definition extend_page :: "nat \<Rightarrow> u32 \<Rightarrow> u32 \<Rightarrow> paging \<Rightarrow> bool \<times> paging" where
  "extend_page k pgdir vaddr s =
     (case private_page_table k pgdir (pde_idx vaddr) s of
        (None, s) \<Rightarrow> (False, s)
      | (Some pt, s) \<Rightarrow>
          let pte = pg_read s pt (pte_idx vaddr)
          in if pte AND PRESENT \<noteq> 0 \<and> owns_frame (meta_at s k) (page_of pte) then (True, s)
             else map_fresh k pt vaddr s)"

definition extend_address_space :: "u32 \<Rightarrow> u32 \<Rightarrow> nat \<Rightarrow> paging \<Rightarrow> bool \<times> paging" where
  "extend_address_space pg start n s =
     (case find_meta pg s of
        None \<Rightarrow> (False, s)
      | Some k \<Rightarrow> page_loop (extend_page k pg) (pages_from start n) s)"

definition map_page :: "nat \<Rightarrow> u32 \<Rightarrow> u32 \<Rightarrow> u32 \<Rightarrow> u32 \<Rightarrow> paging \<Rightarrow> bool \<times> paging" where
  "map_page k pgdir start phys_start vaddr s =
     (let frame = phys_start + (vaddr - start)
      in case private_page_table k pgdir (pde_idx vaddr) s of
           (None, s) \<Rightarrow> (False, s)
         | (Some pt, s) \<Rightarrow>
             let m = meta_at s k
             in if length (data_frames m) \<ge> MAX_FRAMES_PER_SPACE then (False, s)
                else
                  let s = (if owns_frame m frame then s
                           else set_meta k (m\<lparr>data_frames := data_frames m @ [frame]\<rparr>) s)
                  in (True, pg_write pt (pte_idx vaddr) (frame OR PRESENT OR RW) s))"

definition map_frames :: "u32 \<Rightarrow> u32 \<Rightarrow> nat \<Rightarrow> u32 \<Rightarrow> paging \<Rightarrow> bool \<times> paging" where
  "map_frames pg start n phys_start s =
     (case find_meta pg s of
        None \<Rightarrow> (False, s)
      | Some k \<Rightarrow> page_loop (map_page k pg start phys_start) (pages_from start n) s)"

definition borrow_page :: "nat \<Rightarrow> u32 \<Rightarrow> u32 \<Rightarrow> u32 \<Rightarrow> u32 \<Rightarrow> paging \<Rightarrow> bool \<times> paging" where
  "borrow_page k pgdir start phys_start vaddr s =
     (case private_page_table k pgdir (pde_idx vaddr) s of
        (None, s) \<Rightarrow> (False, s)
      | (Some pt, s) \<Rightarrow>
          (True, pg_write pt (pte_idx vaddr) ((phys_start + (vaddr - start)) OR PRESENT OR RW) s))"

definition map_borrowed_frames :: "u32 \<Rightarrow> u32 \<Rightarrow> nat \<Rightarrow> u32 \<Rightarrow> paging \<Rightarrow> bool \<times> paging" where
  "map_borrowed_frames pg start n phys_start s =
     (case find_meta pg s of
        None \<Rightarrow> (False, s)
      | Some k \<Rightarrow> page_loop (borrow_page k pg start phys_start) (pages_from start n) s)"

text \<open>
  The removal of a frame from the list of a space: the last entry takes its place.
\<close>

definition drop_frame :: "u32 \<Rightarrow> u32 list \<Rightarrow> u32 list" where
  "drop_frame frame fs =
     (case for_first 0 (length fs) (\<lambda>i. if page_of (fs ! i) = frame then Some i else None) of
        None \<Rightarrow> fs
      | Some i \<Rightarrow> butlast (fs[i := fs ! (length fs - 1)]))"

definition unmap_page :: "nat \<Rightarrow> u32 \<Rightarrow> u32 \<Rightarrow> paging \<Rightarrow> bool \<times> paging" where
  "unmap_page k pgdir vaddr s =
     (let m = meta_at s k; pde_val = pg_read s pgdir (pde_idx vaddr)
      in if \<not> is_private m pde_val then (False, s)
         else
           let pt = page_of pde_val; pte = pg_read s pt (pte_idx vaddr)
           in if pte AND PRESENT = 0 then (False, s)
              else
                let frame = page_of pte;
                    s = pg_write pt (pte_idx vaddr) 0 s;
                    s = set_meta k (m\<lparr>data_frames := drop_frame frame (data_frames m)\<rparr>) s
                in (True, pfree frame s))"

definition unmap_frames :: "u32 \<Rightarrow> u32 \<Rightarrow> nat \<Rightarrow> paging \<Rightarrow> bool \<times> paging" where
  "unmap_frames pg start n s =
     (case find_meta pg s of
        None \<Rightarrow> (False, s)
      | Some k \<Rightarrow> page_loop (unmap_page k pg) (pages_from start n) s)"

section \<open>Copying and switching\<close>

definition memcpy_ram :: "u32 \<Rightarrow> u32 \<Rightarrow> nat \<Rightarrow> (u32 \<Rightarrow> u8) \<Rightarrow> (u32 \<Rightarrow> u8)" where
  "memcpy_ram dst src n m = (\<lambda>x. if unat (x - dst) < n then m (src + (x - dst)) else m x)"

definition copy_page :: "u32 \<Rightarrow> u32 \<Rightarrow> u32 \<Rightarrow> paging \<Rightarrow> bool \<times> paging" where
  "copy_page dst_pgdir src_pgdir vaddr s =
     (let src = phys_frame_at s src_pgdir vaddr; dst = phys_frame_at s dst_pgdir vaddr
      in if src = 0 \<or> dst = 0 then (False, s)
         else (True, s\<lparr>pool := (pool s)\<lparr>ram := memcpy_ram dst src 4096 (ram (pool s))\<rparr>\<rparr>))"

definition copy_pages :: "u32 \<Rightarrow> u32 \<Rightarrow> u32 \<Rightarrow> nat \<Rightarrow> paging \<Rightarrow> bool \<times> paging" where
  "copy_pages dst_pgdir src_pgdir start n s =
     page_loop (copy_page dst_pgdir src_pgdir) (pages_from start n) s"

definition switch_to :: "u32 \<Rightarrow> paging \<Rightarrow> paging" where
  "switch_to pg s =
     (if pg = g_current_pgdir s then s else write_cr3 pg (s\<lparr>g_current_pgdir := pg\<rparr>))"

definition current_pgdir :: "paging \<Rightarrow> u32" where "current_pgdir s = g_current_pgdir s"

end
