(* ===== verification/Spec2Isabelle.thy ===== *)
theory Spec2Isabelle
  imports Prelude Pmm Pipe Paths Ustar Sector_Device Fat_Table Fat_Names Fat_Dir Fat_Volume
    Vfs_Nodes Blockdev Clipboard Vfs Vfs_Calls Vfs_Props Fat_Files Fat_Format Ram_Disk Fat_Props Blockdev_Props
    Tls_Bn Tls_Rsa Tls_Hash Tls_Aes Tls_Gcm Paging
begin

text \<open>
  Verification of VNU, a small i386 operating system: the kernel under \<^verbatim>\<open>src/vnu/kernel\<close> and the C
  library under \<^verbatim>\<open>src/vlibc\<close>.

  \<^bold>\<open>The program.\<close>  The kernel hands out page frames (\<^verbatim>\<open>mm/pmm.cpp\<close>), builds address spaces from them
  (\<^verbatim>\<open>arch/i386/paging.cpp\<close>), and keeps an in-memory file tree whose file contents live in such frames
  (\<^verbatim>\<open>fs/vfs.cpp\<close>).  Paths may lead into FAT16 volumes (\<^verbatim>\<open>fs/fat16.cpp\<close>) on partitions of ATA drives
  (\<^verbatim>\<open>fs/blockdev.cpp\<close>).  Descriptors may also name pipes (\<^verbatim>\<open>fs/pipe.cpp\<close>), which processes share across
  fork, or the clipboard (\<^verbatim>\<open>kernel/clipboard.cpp\<close>).  Boot modules and packages are tar archives
  (\<^verbatim>\<open>include/vnu/ustar.h\<close>).  The C library has a TLS 1.2 stack on its own cryptography
  (\<^verbatim>\<open>tls/tls_bn.c\<close>, \<^verbatim>\<open>tls/tls_crypto.c\<close>).

  \<^bold>\<open>Theories, from the bottom.\<close>
  \<^item> \<open>Prelude\<close>: machine integers, error numbers (\<^verbatim>\<open>abi.h\<close>), counting loops with an early return, bit masks.
  \<^item> \<open>Pmm\<close> (\<^verbatim>\<open>pmm.cpp\<close>): the frame bitmap, \<^verbatim>\<open>alloc_frame\<close>, \<^verbatim>\<open>alloc_contig\<close>, \<^verbatim>\<open>free_frame\<close>, \<^verbatim>\<open>free_contig\<close>, on a byte memory
    \<open>ram\<close>.  The locale \<open>frame_pool\<close> is the contract of the allocator, interpreted on these definitions.
  \<^item> \<open>Paging\<close> (\<^verbatim>\<open>paging.cpp\<close>): page directories and tables as 32-bit words in that memory, the frames each
    space owns, and every operation on spaces.
  \<^item> \<open>Pipe\<close> (\<^verbatim>\<open>pipe.cpp\<close>): rings, per-process descriptor tables and all calls; the locale \<open>byte_channel\<close> is the
    bounded queue the ring refines.
  \<^item> \<open>Paths\<close> (string routines and \<^verbatim>\<open>normalize\<close> of \<^verbatim>\<open>vfs.cpp\<close>) and \<open>Ustar\<close> (\<^verbatim>\<open>ustar.h\<close>).
  \<^item> \<open>Sector_Device\<close>, \<open>Fat_Table\<close>, \<open>Fat_Names\<close>, \<open>Fat_Dir\<close>, \<open>Fat_Volume\<close> (\<^verbatim>\<open>fat16.cpp\<close>): the sector interface as
    the locale \<open>sector_device\<close>, the allocation table and chains, short and long names, directories, and the
    calls of the library.  \<open>Fat_Files\<close>, \<open>Fat_Format\<close> and \<open>Fat_Props\<close> hold what is shown of them; \<open>Ram_Disk\<close>
    (\<^verbatim>\<open>tools/fat16_test.cpp\<close>) interprets the locale.
  \<^item> \<open>Blockdev\<close> and \<open>Blockdev_Props\<close> (\<^verbatim>\<open>blockdev.cpp\<close>): partitions and byte transfers over the ATA driver, which is a
    parameter; \<open>Clipboard\<close>.
  \<^item> \<open>Vfs_Nodes\<close>, \<open>Vfs\<close>, \<open>Vfs_Calls\<close>, \<open>Vfs_Props\<close> (\<^verbatim>\<open>vfs.cpp\<close>, \<^verbatim>\<open>host.cpp\<close>): nodes and buffers, descriptors and
    mounts, every call, and their properties.
  \<^item> \<open>Tls_Bn\<close>, \<open>Tls_Rsa\<close> (\<^verbatim>\<open>tls_bn.c\<close>): limb arithmetic up to Montgomery exponentiation, PKCS#1 padding.
    \<open>Tls_Hash\<close>, \<open>Tls_Aes\<close>, \<open>Tls_Gcm\<close> (\<^verbatim>\<open>tls_crypto.c\<close>): SHA-256, HMAC and the PRF, AES-128, AES-GCM; the locale
    \<open>stream_hash\<close> is the contract of an incremental hash that HMAC rests on.

  \<^bold>\<open>How code becomes definitions.\<close>  A function that changes global state takes the state record and
  returns its result with the new state.  An error return is the negative number the C function
  returns, or \<open>None\<close> where the source only distinguishes failure.  Integers are words of the source's width
  where they can wrap, and natural numbers (with \<open>w32\<close> at each wrapping step) in the FAT16 library.  The calling
  process, the ATA driver, the display and the generated \<^verbatim>\<open>/proc\<close> texts are arguments.

  \<^bold>\<open>What is shown.\<close>
  \<^item> Frames: the allocator is first-fit, exact, and never hands out kernel memory; release undoes allocation.
  \<^item> Pipes: in every reachable state the end counts are exact; reads and writes behave as a bounded queue with
    end of file and \<^verbatim>\<open>EPIPE\<close> exactly when the other end is gone; a call of one process changes the descriptors
    of another only by creating it with fork or by killing it.
  \<^item> Files: an invariant keeps file contents disjoint in memory.  It is kept by every call except the writes
    that the code does not handle: past the end of a file with no memory left, or up to the 32-bit limit.  Writes
    inside or at the end of a file change exactly the bytes written and read back; quotas hold for every
    write; removal returns the frames.
  \<^item> FAT16: names survive their encoding in directory slots, but for a dot at the end of a short one; formatting then mounting yields an empty volume; a written
    file reads back and no other file changes; allocation and release of clusters are exact.
  \<^item> Block devices: transfers are slices of the partition and stay inside it; the result is the length below 2 GiB
    and negative from there on.
  \<^item> TLS: SHA-256, the PRF, AES and GHASH meet their mathematical definitions.  Exponentiation and RSA do for odd
    moduli below \<open>2 ^ 4064\<close>, and above it when the limb the source leaves uninitialised is zero.  GCM opens
    exactly what was sealed when the tag pointer does not point into the record, and everything when it
    points to the received tag, as it does where the Finished messages are read.
  \<^item> Faults of the code appear as theorems too: the tar reader that does not return, the write that leaves a file
    longer than its buffer, the truncating read-only open, the move that leaves its source, the host name
    that hangs, the wrapping reservation.

  \<^bold>\<open>Bounds and fuel.\<close>  Loops are structural recursions, \<open>for_first\<close>, or \<open>function\<close>s with a termination measure.
  \<^verbatim>\<open>vnu_ustar_next\<close>, the host name trimming and the move copy loop may run forever and are \<open>partial_function\<close>s
  with \<open>None\<close> for no return.  The growth loop of a FAT16 directory has a round counter; \<open>extend_rounds\<close> shows that
  the number of entries is enough.

  \<^bold>\<open>Not modelled.\<close>  Device drivers, boot code and context switches act on hardware that is not in the
  sources.  \<^verbatim>\<open>process.cpp\<close> and the system call dispatch switch stacks and copy arguments; what they call is
  modelled with the process as an argument.  TCP depends on the network card and timer interrupts.  The
  desktop, the fonts and the programs draw.  \<^verbatim>\<open>vfs::init\<close> fills the tree from images the build generates,
  and the \<^verbatim>\<open>/proc\<close> texts are formatted from unmodelled state.  The TLS handshake, the certificate reader, the
  C library's heap and formatted output, the shell, the compiler and the SSH server have
  not been reached.
\<close>

end
